(* ===== verification/Prelude.thy ===== *)
theory Prelude
  imports Main "HOL-Library.Word" "HOL-Library.Monad_Syntax"
begin

unbundle bit_operations_syntax

text \<open>
  What the theories of the development share: the machine types, the error
  numbers of the C code, little endian encodings (\<open>htole16\<close>, \<open>le64toh\<close>
  and their kin), and generic facts about lists and words.

  Conventions. A C function that returns 0 or a negative error number and changes
  its arguments is a function that returns \<open>errno + 'a\<close> together with the new
  state. Undefined behaviour and failed assertions (a NULL or stray pointer that
  is dereferenced, a heap block that is overrun, \<open>assert\<close>) are \<open>None\<close>: a
  theorem that a call returns \<open>Some\<close> says that it is free of them.
\<close>

section \<open>Machine types and error numbers\<close>

type_synonym byte = "8 word"
type_synonym u64 = "64 word"

datatype errno = ENOENT | ENOMEM | EIO | ENOBUFS | EISDIR | ENOTDIR | Errno nat

text \<open>
  \<open>malloc\<close> and \<open>realloc\<close> may fail. The decisions of the C heap are a list
  that is part of the state: every request takes the next decision, and once the
  list is used up every request succeeds. Any run of a program makes finitely many
  requests, so every behaviour of the heap is one such list.
\<close>

type_synonym mem = "bool list"

definition mem_alloc :: "mem \<Rightarrow> bool \<times> mem" where
  "mem_alloc m = (case m of [] \<Rightarrow> (True, []) | b # m' \<Rightarrow> (b, m'))"

lemma mem_alloc_Nil [simp]: "mem_alloc [] = (True, [])"
  by (simp add: mem_alloc_def)

lemma mem_alloc_Cons [simp]: "mem_alloc (b # m) = (b, m)"
  by (simp add: mem_alloc_def)

section \<open>Collections\<close>

named_theorems heap_frame \<open>what a write to one cell of the heap leaves unchanged\<close>
named_theorems le_simps \<open>little endian encodings\<close>
named_theorems page_simps \<open>page arithmetic without overflow\<close>

section \<open>Little endian encodings\<close>

fun le_enc :: "nat \<Rightarrow> nat \<Rightarrow> byte list" where
  "le_enc 0 x = []"
| "le_enc (Suc k) x = word_of_nat (x mod 256) # le_enc k (x div 256)"

fun le_dec :: "byte list \<Rightarrow> nat" where
  "le_dec [] = 0"
| "le_dec (b # bs) = unat b + 256 * le_dec bs"

lemma length_le_enc [simp, le_simps]: "length (le_enc k x) = k"
  by (induction k arbitrary: x) auto

lemma le_enc_0: "le_enc k 0 = replicate k 0"
  by (induction k) auto

lemma byte_bound: "unat (b :: byte) < 256"
  using unsigned_less [of b] by simp

lemma unat_byte_of_nat [simp]: "n < 256 \<Longrightarrow> unat (word_of_nat n :: byte) = n"
  by (simp add: unat_of_nat)

lemma le_dec_bound: "le_dec bs < 256 ^ length bs"
proof (induction bs)
  case Nil
  then show ?case by simp
next
  case (Cons b bs)
  have "unat b + 256 * le_dec bs < 256 * (le_dec bs + 1)"
    using byte_bound [of b] by simp
  also have "\<dots> \<le> 256 * 256 ^ length bs"
    using Cons.IH by (intro mult_le_mono2) simp
  finally show ?case by simp
qed

lemma le_dec_enc: "le_dec (le_enc k x) = x mod 256 ^ k"
proof (induction k arbitrary: x)
  case 0
  then show ?case by simp
next
  case (Suc k)
  show ?case
    by (simp add: Suc mod_mult2_eq add.commute mult.commute)
qed

lemma le_dec_enc_id [le_simps]: "x < 256 ^ k \<Longrightarrow> le_dec (le_enc k x) = x"
  by (simp add: le_dec_enc)

lemma le_enc_dec [le_simps]: "k = length bs \<Longrightarrow> le_enc k (le_dec bs) = bs"
proof (induction bs arbitrary: k)
  case Nil
  then show ?case by simp
next
  case (Cons b bs)
  then show ?case
    using byte_bound [of b] by (simp add: add.commute)
qed

lemma le_dec_inj: "length as = length bs \<Longrightarrow> le_dec as = le_dec bs \<Longrightarrow> as = bs"
  by (metis le_enc_dec)

lemma le_dec_append: "le_dec (as @ bs) = le_dec as + 256 ^ length as * le_dec bs"
  by (induction as) (auto simp: algebra_simps)

text \<open>The fixed widths of the on-disk fields. Storing a value truncates it to the width.\<close>

definition le64_enc :: "u64 \<Rightarrow> byte list" where
  "le64_enc w = le_enc 8 (unat w)"

definition le64_dec :: "byte list \<Rightarrow> u64" where
  "le64_dec bs = word_of_nat (le_dec bs)"

definition le32_enc :: "32 word \<Rightarrow> byte list" where
  "le32_enc w = le_enc 4 (unat w)"

definition le32_dec :: "byte list \<Rightarrow> 32 word" where
  "le32_dec bs = word_of_nat (le_dec bs)"

definition le16_enc :: "16 word \<Rightarrow> byte list" where
  "le16_enc w = le_enc 2 (unat w)"

definition le16_dec :: "byte list \<Rightarrow> 16 word" where
  "le16_dec bs = word_of_nat (le_dec bs)"

lemma length_le64_enc [simp, le_simps]: "length (le64_enc w) = 8"
  by (simp add: le64_enc_def)

lemma length_le32_enc [simp, le_simps]: "length (le32_enc w) = 4"
  by (simp add: le32_enc_def)

lemma length_le16_enc [simp, le_simps]: "length (le16_enc w) = 2"
  by (simp add: le16_enc_def)

lemma le64_dec_enc [simp, le_simps]: "le64_dec (le64_enc w) = w"
proof -
  have "unat w < 2 ^ 64" using unsigned_less [of w] by simp
  then show ?thesis by (simp add: le64_enc_def le64_dec_def le_dec_enc)
qed

lemma le32_dec_enc [simp, le_simps]: "le32_dec (le32_enc w) = w"
proof -
  have "unat w < 2 ^ 32" using unsigned_less [of w] by simp
  then show ?thesis by (simp add: le32_enc_def le32_dec_def le_dec_enc)
qed

lemma le16_dec_enc [simp, le_simps]: "le16_dec (le16_enc w) = w"
proof -
  have "unat w < 2 ^ 16" using unsigned_less [of w] by simp
  then show ?thesis by (simp add: le16_enc_def le16_dec_def le_dec_enc)
qed

lemma le64_enc_dec [le_simps]: "length bs = 8 \<Longrightarrow> le64_enc (le64_dec bs) = bs"
  using le_dec_bound [of bs] le_enc_dec [of 8 bs] by (simp add: le64_enc_def le64_dec_def unat_of_nat)

lemma le32_enc_dec [le_simps]: "length bs = 4 \<Longrightarrow> le32_enc (le32_dec bs) = bs"
  using le_dec_bound [of bs] le_enc_dec [of 4 bs] by (simp add: le32_enc_def le32_dec_def unat_of_nat)

lemma le16_enc_dec [le_simps]: "length bs = 2 \<Longrightarrow> le16_enc (le16_dec bs) = bs"
  using le_dec_bound [of bs] le_enc_dec [of 2 bs] by (simp add: le16_enc_def le16_dec_def unat_of_nat)

text \<open>The same decoding into a machine word: the value a load of bytes gives.\<close>

fun le_word :: "byte list \<Rightarrow> u64" where
  "le_word [] = 0"
| "le_word (b # bs) = ucast b XOR push_bit 8 (le_word bs)"

section \<open>Lists\<close>

lemma nth_map_upt: "i < n \<Longrightarrow> map f [0..<n] ! i = f i"
  by simp

lemma take_append_length [simp]: "n = length xs \<Longrightarrow> take n (xs @ ys) = xs"
  by simp

lemma drop_append_length [simp]: "n = length xs \<Longrightarrow> drop n (xs @ ys) = ys"
  by simp

text \<open>Overwriting a slice of a buffer, as \<open>memcpy\<close> and \<open>pwrite\<close> do.\<close>

definition buf_put :: "'a list \<Rightarrow> nat \<Rightarrow> 'a list \<Rightarrow> 'a list" where
  "buf_put buf off bs = take off buf @ bs @ drop (off + length bs) buf"

definition buf_get :: "'a list \<Rightarrow> nat \<Rightarrow> nat \<Rightarrow> 'a list" where
  "buf_get buf off n = take n (drop off buf)"

lemma length_buf_put [simp]:
  "off + length bs \<le> length buf \<Longrightarrow> length (buf_put buf off bs) = length buf"
  by (simp add: buf_put_def)

lemma length_buf_get [simp]: "off + n \<le> length buf \<Longrightarrow> length (buf_get buf off n) = n"
  by (simp add: buf_get_def)

lemma buf_get_put_same [simp]:
  "off + length bs \<le> length buf \<Longrightarrow> n = length bs \<Longrightarrow> buf_get (buf_put buf off bs) off n = bs"
  by (simp add: buf_get_def buf_put_def)

lemma buf_get_put_before:
  "off' + n \<le> off \<Longrightarrow> off \<le> length buf \<Longrightarrow> buf_get (buf_put buf off bs) off' n = buf_get buf off' n"
  by (simp add: buf_get_def buf_put_def drop_take min_absorb1)

lemma buf_get_put_after:
  "off + length bs \<le> off' \<Longrightarrow> off + length bs \<le> length buf \<Longrightarrow>
   buf_get (buf_put buf off bs) off' n = buf_get buf off' n"
  by (simp add: buf_get_def buf_put_def)

lemma buf_put_join:
  "off + length as + length bs \<le> length buf \<Longrightarrow>
   buf_put (buf_put buf off as) (off + length as) bs = buf_put buf off (as @ bs)"
  by (simp add: buf_put_def add.assoc) (simp add: ac_simps)

lemma buf_put_join3:
  assumes "off + length as + length bs + length cs \<le> length buf"
    and "o2 = off + length as" and "o3 = off + length as + length bs"
  shows "buf_put (buf_put (buf_put buf off as) o2 bs) o3 cs = buf_put buf off (as @ bs @ cs)"
  using assms buf_put_join [of off as bs buf] buf_put_join [of off "as @ bs" cs buf]
  by (simp add: add.assoc)

lemma buf_put_replace:
  "length mid = length bs \<Longrightarrow> buf_put (pre @ mid @ post) (length pre) bs = pre @ bs @ post"
  by (simp add: buf_put_def)

lemma buf_put_Nil [simp]: "buf_put buf off [] = buf"
  by (simp add: buf_put_def)

lemma buf_get_append_left [simp]:
  "off + n \<le> length xs \<Longrightarrow> buf_get (xs @ ys) off n = buf_get xs off n"
  by (simp add: buf_get_def)

lemma buf_get_append_right [simp]:
  "length xs \<le> off \<Longrightarrow> buf_get (xs @ ys) off n = buf_get ys (off - length xs) n"
  by (simp add: buf_get_def)

lemma buf_get_all [simp]: "n = length xs \<Longrightarrow> buf_get xs 0 n = xs"
  by (simp add: buf_get_def)

lemma buf_get_join: "b = a + n \<Longrightarrow> buf_get xs a n @ buf_get xs b m = buf_get xs a (n + m)"
  by (simp only: buf_get_def take_add drop_drop) (simp add: add.commute)

lemma buf_get_join_app:
  "b = a + n \<Longrightarrow> buf_get xs a n @ buf_get xs b m @ ys = buf_get xs a (n + m) @ ys"
  by (simp only: buf_get_join flip: append_assoc)

lemma take_buf_get: "length xs = a + n \<Longrightarrow> take a xs @ buf_get xs a n = xs"
  by (simp add: buf_get_def)

lemma buf_get_0: "buf_get xs 0 n = take n xs"
  by (simp add: buf_get_def)

end
