(* ===== verification/Crc64.thy ===== *)
theory Crc64
  imports Prelude
begin

text \<open>
  The checksum of \<open>util/crc64.c\<close>, with the lookup table that
  \<open>gen_crc64_table.py\<close> prints into \<open>crc64_table.h\<close> during the build.
  The table is computed here as the generator computes it. The theory answers the
  TODO in the source: the routine that reads eight bytes at a time agrees with the
  bytewise one that the file keeps in a comment, and both are 8 shift-and-xor steps
  of the generating polynomial per byte. The steps are linear and injective, so a
  change confined to eight consecutive bytes always changes the checksum.
\<close>

section \<open>The table (gen\_crc64\_table.py)\<close>

definition crc_poly :: u64 where
  "crc_poly = 0x95ac9329ac4bc9b5"

definition crc_step :: "u64 \<Rightarrow> u64 \<Rightarrow> u64" where
  "crc_step poly crc = (if crc AND 1 \<noteq> 0 then poly XOR drop_bit 1 crc else drop_bit 1 crc)"

definition gen_row0 :: "u64 \<Rightarrow> u64 list" where
  "gen_row0 poly = map (\<lambda>b. (crc_step poly ^^ 8) (word_of_nat b)) [0..<256]"

definition gen_next_row :: "u64 list \<Rightarrow> u64 list \<Rightarrow> u64 list" where
  "gen_next_row row0 prev =
     map (\<lambda>pos. let x = prev ! pos in drop_bit 8 x XOR row0 ! unat (x AND 0xff)) [0..<256]"

fun gen_rows :: "nat \<Rightarrow> u64 list \<Rightarrow> u64 list \<Rightarrow> u64 list list" where
  "gen_rows 0 row0 prev = []"
| "gen_rows (Suc n) row0 prev = (let row = gen_next_row row0 prev in row # gen_rows n row0 row)"

definition gen_table :: "u64 \<Rightarrow> u64 list list" where
  "gen_table poly = (let row0 = gen_row0 poly in row0 # gen_rows 7 row0 row0)"

definition crc_table :: "u64 list list" where
  "crc_table = gen_table crc_poly"

section \<open>The routines (util/crc64.c, inc/crc64.h)\<close>

definition CRC64_INIT :: u64 where
  "CRC64_INIT = 0"

text \<open>The bytewise routine that the source keeps in a comment.\<close>

definition crc64_byte :: "u64 \<Rightarrow> byte \<Rightarrow> u64" where
  "crc64_byte crc b =
     crc_table ! 0 ! unat ((crc AND 0xff) XOR ucast b) XOR drop_bit 8 crc"

definition crc64_bytewise :: "u64 \<Rightarrow> byte list \<Rightarrow> u64" where
  "crc64_bytewise init bs = foldl crc64_byte init bs"

text \<open>The routine in use: words of eight bytes first, the remaining bytes after.\<close>

definition crc64_word :: "u64 \<Rightarrow> u64 \<Rightarrow> u64" where
  "crc64_word crc w = (let word = w XOR crc in
     crc_table ! 0 ! unat (drop_bit 56 word AND 0xff) XOR
     crc_table ! 1 ! unat (drop_bit 48 word AND 0xff) XOR
     crc_table ! 2 ! unat (drop_bit 40 word AND 0xff) XOR
     crc_table ! 3 ! unat (drop_bit 32 word AND 0xff) XOR
     crc_table ! 4 ! unat (drop_bit 24 word AND 0xff) XOR
     crc_table ! 5 ! unat (drop_bit 16 word AND 0xff) XOR
     crc_table ! 6 ! unat (drop_bit 8 word AND 0xff) XOR
     crc_table ! 7 ! unat (word AND 0xff))"

function crc64_run :: "u64 \<Rightarrow> byte list \<Rightarrow> u64" where
  "crc64_run crc data =
     (if 8 \<le> length data
      then crc64_run (crc64_word crc (le_word (take 8 data))) (drop 8 data)
      else foldl crc64_byte crc data)"
  by pat_completeness auto
termination
  by (relation "measure (\<lambda>(crc, data). length data)") auto

declare crc64_run.simps [simp del]

definition crc64 :: "byte list \<Rightarrow> u64" where
  "crc64 data = crc64_run CRC64_INIT data"

record crc64_ctx =
  ctx_crc :: u64

definition crc64_ctx_setup :: "crc64_ctx" where
  "crc64_ctx_setup = \<lparr>ctx_crc = CRC64_INIT\<rparr>"

definition crc64_ctx_update :: "crc64_ctx \<Rightarrow> byte list \<Rightarrow> crc64_ctx" where
  "crc64_ctx_update ctx data = ctx\<lparr>ctx_crc := crc64_run (ctx_crc ctx) data\<rparr>"

definition crc64_ctx_csum :: "crc64_ctx \<Rightarrow> u64" where
  "crc64_ctx_csum ctx = ctx_crc ctx"

section \<open>One step of the polynomial\<close>

abbreviation step :: "u64 \<Rightarrow> u64" where
  "step \<equiv> crc_step crc_poly"

lemma and_one_bit0: "(x :: u64) AND 1 \<noteq> 0 \<longleftrightarrow> bit x 0"
  by (simp add: and_one_eq bit_0 odd_iff_mod_2_eq_one)

lemma step_alt: "step x = (if bit x 0 then crc_poly else 0) XOR drop_bit 1 x"
  unfolding crc_step_def and_one_bit0 by simp

lemma step_xor: "step (a XOR b) = step a XOR step b"
  by (cases "bit a 0"; cases "bit b 0")
     (simp_all add: step_alt bit_xor_iff xor.assoc xor.left_commute)

lemma step_pow_xor: "(step ^^ n) (a XOR b) = (step ^^ n) a XOR (step ^^ n) b"
  by (induction n) (simp_all add: step_xor)

lemma step_zero [simp]: "step 0 = 0"
  by (simp add: crc_step_def)

lemma step_pow_zero [simp]: "(step ^^ n) 0 = 0"
  by (induction n) simp_all

lemma step_even: "\<not> bit x 0 \<Longrightarrow> step x = drop_bit 1 x"
  by (simp add: step_alt)

lemma step_pow_even:
  "(\<And>i. i < n \<Longrightarrow> \<not> bit x i) \<Longrightarrow> (step ^^ n) x = drop_bit n x"
proof (induction n)
  case 0
  then show ?case by simp
next
  case (Suc n)
  then have "(step ^^ n) x = drop_bit n x" by simp
  moreover have "\<not> bit (drop_bit n x) 0"
    using Suc.prems [of n] by (simp add: bit_drop_bit_eq)
  ultimately show ?case
    by (simp add: step_even)
qed

text \<open>The top bit of the polynomial is set, so the top bit tells the two branches apart.\<close>

lemma bit_crc_poly_top: "bit crc_poly 63"
  by (simp add: crc_poly_def)

lemma step_eq_0: "step x = 0 \<Longrightarrow> x = 0"
proof (rule ccontr)
  assume z: "step x = 0" and nz: "x \<noteq> 0"
  show False
  proof (cases "bit x 0")
    case True
    then have "bit (step x) 63"
      by (auto simp: step_alt bit_xor_iff bit_drop_bit_eq bit_crc_poly_top dest: bit_imp_le_length)
    with z show False by simp
  next
    case False
    obtain i where i: "bit x i" using nz by (auto simp: bit_eq_iff)
    with False obtain j where "i = Suc j" by (cases i) auto
    with i have "bit (drop_bit 1 x) j" by (simp add: bit_drop_bit_eq)
    with False z show False by (simp add: step_even)
  qed
qed

lemma step_pow_eq_0: "(step ^^ n) x = 0 \<Longrightarrow> x = 0"
  by (induction n) (auto dest: step_eq_0)

lemma xor_eq_0D: "(a :: u64) XOR b = 0 \<Longrightarrow> a = b"
  by (auto simp: bit_eq_iff bit_xor_iff)

lemma step_pow_inj: "(step ^^ n) a = (step ^^ n) b \<Longrightarrow> a = b"
  by (rule xor_eq_0D, rule step_pow_eq_0 [of n]) (simp add: step_pow_xor)

section \<open>The table is made of powers of the step\<close>

lemma step_pow_add: "(step ^^ m) ((step ^^ n) x) = (step ^^ (m + n)) x"
  by (simp add: funpow_add)

lemma low_byte_split: "(x :: u64) = (x AND NOT 0xff) XOR (x AND 0xff)"
  by (auto simp: bit_eq_iff bit_simps)

lemma low_byte_bit: "bit (0xff :: u64) i \<longleftrightarrow> i < 8"
proof -
  have "(0xff :: u64) = mask 8" by (simp add: mask_eq_exp_minus_1)
  then show ?thesis by (simp only: bit_mask_iff) auto
qed

lemma low_byte_bound: "unat (x AND 0xff :: u64) < 256"
proof -
  have "x AND 0xff \<le> (0xff :: u64)" by (rule word_and_le1)
  then have "unat (x AND 0xff) \<le> unat (0xff :: u64)" by (simp only: word_le_nat_alt)
  then show ?thesis by simp
qed

lemma gen_row0_nth: "i < 256 \<Longrightarrow> gen_row0 crc_poly ! i = (step ^^ 8) (word_of_nat i)"
  by (simp add: gen_row0_def del: upt_Suc)

lemma step8_split: "(step ^^ 8) x = drop_bit 8 x XOR (step ^^ 8) (x AND 0xff)"
proof -
  have "(step ^^ 8) x = (step ^^ 8) (x AND NOT 0xff) XOR (step ^^ 8) (x AND 0xff)"
    by (subst low_byte_split) (rule step_pow_xor)
  also have "(step ^^ 8) (x AND NOT 0xff) = drop_bit 8 (x AND NOT 0xff)"
    by (rule step_pow_even) (unfold bit_and_iff bit_not_iff low_byte_bit, simp)
  also have "drop_bit 8 (x AND NOT 0xff) = drop_bit 8 x"
    by (rule bit_word_eqI)
       (unfold bit_drop_bit_eq bit_and_iff bit_not_iff low_byte_bit o_def, auto dest: bit_imp_le_length)
  finally show ?thesis .
qed

lemma row0_low_byte: "gen_row0 crc_poly ! unat (x AND 0xff) = (step ^^ 8) (x AND 0xff)"
  using gen_row0_nth [OF low_byte_bound, of x] by simp

lemma gen_next_row_nth:
  "i < 256 \<Longrightarrow> gen_next_row (gen_row0 crc_poly) prev ! i = (step ^^ 8) (prev ! i)"
  by (simp add: gen_next_row_def Let_def row0_low_byte step8_split [of "prev ! i"] del: upt_Suc)

lemma gen_rows_nth:
  "(\<And>i. i < 256 \<Longrightarrow> prev ! i = (step ^^ m) (word_of_nat i)) \<Longrightarrow> k < n \<Longrightarrow> i < 256 \<Longrightarrow>
   gen_rows n (gen_row0 crc_poly) prev ! k ! i = (step ^^ (8 * Suc k + m)) (word_of_nat i)"
proof (induction n arbitrary: prev m k)
  case 0
  then show ?case by simp
next
  case (Suc n)
  let ?row = "gen_next_row (gen_row0 crc_poly) prev"
  have row: "?row ! j = (step ^^ (8 + m)) (word_of_nat j)" if "j < 256" for j
    using Suc.prems(1) [OF that] that by (simp add: gen_next_row_nth step_pow_add del: funpow.simps)
  show ?case
  proof (cases k)
    case 0
    with row [OF Suc.prems(3)] show ?thesis by (simp add: Let_def)
  next
    case (Suc k')
    with Suc.prems(2) have "k' < n" by simp
    from Suc.IH [OF row this Suc.prems(3)] Suc show ?thesis
      by (simp add: Let_def add.commute add.left_commute)
  qed
qed

lemma crc_table_nth:
  assumes "k < 8" and "i < 256"
  shows "crc_table ! k ! i = (step ^^ (8 * Suc k)) (word_of_nat i)"
proof (cases k)
  case 0
  with assms show ?thesis by (simp add: crc_table_def gen_table_def Let_def gen_row0_nth)
next
  case (Suc j)
  then have "gen_rows 7 (gen_row0 crc_poly) (gen_row0 crc_poly) ! j ! i
      = (step ^^ (8 * Suc j + 8)) (word_of_nat i)"
    using assms by (intro gen_rows_nth) (simp_all add: gen_row0_nth)
  with Suc show ?thesis by (simp add: crc_table_def gen_table_def Let_def del: gen_rows.simps)
qed

lemma crc_table_low_byte:
  "k < 8 \<Longrightarrow> crc_table ! k ! unat (x AND 0xff) = (step ^^ (8 * Suc k)) (x AND 0xff)"
  using crc_table_nth [OF _ low_byte_bound, of k x] by simp

section \<open>Both routines are steps of the polynomial\<close>

lemma step_pow_push:
  assumes "\<And>i. bit y i \<Longrightarrow> i + n < 64"
  shows "(step ^^ n) (push_bit n y) = y"
proof -
  have "(step ^^ n) (push_bit n y) = drop_bit n (push_bit n y)"
    by (rule step_pow_even) (simp add: bit_push_bit_iff)
  also have "\<dots> = y"
  proof (rule bit_word_eqI)
    fix i assume "i < LENGTH(64)"
    with assms [of i] show "bit (drop_bit n (push_bit n y)) i = bit y i"
      by (cases "bit y i") (simp_all add: bit_drop_bit_eq bit_push_bit_iff add.commute)
  qed
  finally show ?thesis .
qed

lemma step_pow_push_trans:
  assumes "\<And>i. bit y i \<Longrightarrow> i + n < 64" and "k = m + n"
  shows "(step ^^ m) y = (step ^^ k) (push_bit n y)"
  using step_pow_push [OF assms(1)] assms(2) by (simp add: funpow_add)

lemma bit_ucast_byte: "bit (ucast (b :: byte) :: u64) i \<Longrightarrow> i < 8"
  by (auto simp: bit_ucast_iff dest: bit_imp_le_length)

lemma bit_le_word: "bit (le_word bs) i \<Longrightarrow> i < 8 * length bs"
proof (induction bs arbitrary: i)
  case Nil
  then show ?case by simp
next
  case (Cons b bs)
  show ?case
  proof (cases "i < 8")
    case True
    then show ?thesis by simp
  next
    case False
    with Cons.prems have "bit (le_word bs) (i - 8)"
      using bit_ucast_byte [of b i] by (auto simp: bit_xor_iff bit_push_bit_iff)
    then have "i - 8 < 8 * length bs" by (rule Cons.IH)
    with False show ?thesis by simp
  qed
qed

lemma crc64_byte_step: "crc64_byte crc b = (step ^^ 8) (crc XOR ucast b)"
proof -
  have "(crc AND 0xff) XOR ucast b = (crc XOR ucast b) AND 0xff"
    by (rule bit_word_eqI)
       (unfold bit_and_iff bit_xor_iff low_byte_bit, auto dest: bit_ucast_byte)
  moreover have "drop_bit 8 (ucast b :: u64) = 0"
    by (rule bit_word_eqI) (auto simp: bit_drop_bit_eq dest: bit_ucast_byte)
  ultimately show ?thesis
    by (simp add: crc64_byte_def crc_table_low_byte step8_split [of "crc XOR ucast b"]
        xor.commute del: funpow.simps)
qed

lemma crc64_bytes_step:
  "length bs \<le> 8 \<Longrightarrow> foldl crc64_byte crc bs = (step ^^ (8 * length bs)) (crc XOR le_word bs)"
proof (induction bs arbitrary: crc)
  case Nil
  then show ?case by simp
next
  case (Cons b bs)
  have "le_word bs = (step ^^ 8) (push_bit 8 (le_word bs))"
    using Cons.prems by (intro step_pow_push [symmetric]) (auto dest: bit_le_word)
  then have "(step ^^ 8) (crc XOR ucast b) XOR le_word bs =
      (step ^^ 8) ((crc XOR ucast b) XOR push_bit 8 (le_word bs))"
    by (simp only: step_pow_xor)
  also have "\<dots> = (step ^^ 8) (crc XOR le_word (b # bs))"
    by (simp only: le_word.simps xor.assoc)
  finally have eq: "(step ^^ 8) (crc XOR ucast b) XOR le_word bs = (step ^^ 8) (crc XOR le_word (b # bs))" .
  have "foldl crc64_byte crc (b # bs) =
      (step ^^ (8 * length bs)) (crc64_byte crc b XOR le_word bs)"
    using Cons by simp
  also have "\<dots> = (step ^^ (8 * length bs)) ((step ^^ 8) (crc XOR ucast b) XOR le_word bs)"
    by (simp only: crc64_byte_step)
  also have "\<dots> = (step ^^ (8 * length (b # bs))) (crc XOR le_word (b # bs))"
    unfolding eq step_pow_add by (simp only: length_Cons mult_Suc_right add.commute)
  finally show ?case .
qed

lemma peel_byte:
  assumes "m = n + 8"
  shows "push_bit n (drop_bit n (x :: u64)) =
     push_bit n (drop_bit n x AND 0xff) XOR push_bit m (drop_bit m x)"
proof -
  have "drop_bit n x = (drop_bit n x AND 0xff) XOR push_bit 8 (drop_bit m x)"
    by (rule bit_word_eqI, unfold bit_xor_iff bit_push_bit_iff bit_and_iff low_byte_bit
        bit_drop_bit_eq o_def assms) (auto simp: add.commute)
  then have "push_bit n (drop_bit n x) =
      push_bit n ((drop_bit n x AND 0xff) XOR push_bit 8 (drop_bit m x))"
    by simp
  then show ?thesis by (simp only: assms push_bit_xor push_bit_push_bit)
qed

lemma drop_bit_all: "drop_bit 64 (x :: u64) = 0"
  by (rule bit_word_eqI) (auto simp: bit_drop_bit_eq dest: bit_imp_le_length)

lemma word_bytes:
  "(x :: u64) =
     push_bit 0 (drop_bit 0 x AND 0xff) XOR (push_bit 8 (drop_bit 8 x AND 0xff) XOR
     (push_bit 16 (drop_bit 16 x AND 0xff) XOR (push_bit 24 (drop_bit 24 x AND 0xff) XOR
     (push_bit 32 (drop_bit 32 x AND 0xff) XOR (push_bit 40 (drop_bit 40 x AND 0xff) XOR
     (push_bit 48 (drop_bit 48 x AND 0xff) XOR push_bit 56 (drop_bit 56 x AND 0xff)))))))"
proof -
  have e: "(8::nat) = 0 + 8" "(16::nat) = 8 + 8" "(24::nat) = 16 + 8" "(32::nat) = 24 + 8"
      "(40::nat) = 32 + 8" "(48::nat) = 40 + 8" "(56::nat) = 48 + 8" "(64::nat) = 56 + 8"
    by simp_all
  have "x = push_bit 0 (drop_bit 0 x)" by simp
  also note peel_byte [OF e(1)]
  also note peel_byte [OF e(2)]
  also note peel_byte [OF e(3)]
  also note peel_byte [OF e(4)]
  also note peel_byte [OF e(5)]
  also note peel_byte [OF e(6)]
  also note peel_byte [OF e(7)]
  also note peel_byte [OF e(8)]
  finally show ?thesis
    by (simp only: drop_bit_all push_bit_of_0 xor.right_neutral)
qed

lemma sliced_byte:
  assumes "k < 8" and "j = 8 * (7 - k)"
  shows "(step ^^ 64) (push_bit j (drop_bit j x AND 0xff)) = crc_table ! k ! unat (drop_bit j x AND 0xff)"
proof -
  have "bit (drop_bit j x AND 0xff) i \<Longrightarrow> i + j < 64" for i
  proof -
    assume "bit (drop_bit j x AND 0xff) i"
    then have "i < 8" unfolding bit_and_iff low_byte_bit by simp
    moreover have "j \<le> 56" using assms by simp
    ultimately show ?thesis by simp
  qed
  then have "(step ^^ (8 * Suc k)) (drop_bit j x AND 0xff) =
      (step ^^ 64) (push_bit j (drop_bit j x AND 0xff))"
    by (rule step_pow_push_trans) (use assms in auto)
  with assms show ?thesis by (simp add: crc_table_low_byte del: funpow.simps)
qed

lemma sliced_bytes:
  "(step ^^ 64) (push_bit 0 (drop_bit 0 x AND 0xff)) = crc_table ! 7 ! unat (drop_bit 0 x AND 0xff)"
  "(step ^^ 64) (push_bit 8 (drop_bit 8 x AND 0xff)) = crc_table ! 6 ! unat (drop_bit 8 x AND 0xff)"
  "(step ^^ 64) (push_bit 16 (drop_bit 16 x AND 0xff)) = crc_table ! 5 ! unat (drop_bit 16 x AND 0xff)"
  "(step ^^ 64) (push_bit 24 (drop_bit 24 x AND 0xff)) = crc_table ! 4 ! unat (drop_bit 24 x AND 0xff)"
  "(step ^^ 64) (push_bit 32 (drop_bit 32 x AND 0xff)) = crc_table ! 3 ! unat (drop_bit 32 x AND 0xff)"
  "(step ^^ 64) (push_bit 40 (drop_bit 40 x AND 0xff)) = crc_table ! 2 ! unat (drop_bit 40 x AND 0xff)"
  "(step ^^ 64) (push_bit 48 (drop_bit 48 x AND 0xff)) = crc_table ! 1 ! unat (drop_bit 48 x AND 0xff)"
  "(step ^^ 64) (push_bit 56 (drop_bit 56 x AND 0xff)) = crc_table ! 0 ! unat (drop_bit 56 x AND 0xff)"
  by (rule sliced_byte, simp, simp)+

lemma crc64_word_step: "crc64_word crc w = (step ^^ 64) (crc XOR w)"
proof -
  let ?x = "w XOR crc"
  have "(step ^^ 64) ?x = (step ^^ 64)
     (push_bit 0 (drop_bit 0 ?x AND 0xff) XOR (push_bit 8 (drop_bit 8 ?x AND 0xff) XOR
     (push_bit 16 (drop_bit 16 ?x AND 0xff) XOR (push_bit 24 (drop_bit 24 ?x AND 0xff) XOR
     (push_bit 32 (drop_bit 32 ?x AND 0xff) XOR (push_bit 40 (drop_bit 40 ?x AND 0xff) XOR
     (push_bit 48 (drop_bit 48 ?x AND 0xff) XOR push_bit 56 (drop_bit 56 ?x AND 0xff))))))))"
    by (rule arg_cong [OF word_bytes])
  also have "\<dots> = crc64_word crc w"
    unfolding crc64_word_def Let_def step_pow_xor sliced_bytes
    by (simp only: drop_bit_0 id_apply xor.commute xor.left_commute xor.assoc)
  finally show ?thesis by (simp only: xor.commute)
qed

section \<open>Correctness of the checksum\<close>

lemma crc64_word_bytes: "length bs = 8 \<Longrightarrow> crc64_word crc (le_word bs) = foldl crc64_byte crc bs"
  using crc64_bytes_step [of bs crc] by (simp only: crc64_word_step) simp

lemma crc64_run_foldl: "crc64_run init data = foldl crc64_byte init data"
proof (induction init data rule: crc64_run.induct)
  case (1 crc data)
  show ?case
  proof (cases "8 \<le> length data")
    case True
    have "crc64_run crc data = foldl crc64_byte (crc64_word crc (le_word (take 8 data))) (drop 8 data)"
      using True "1.IH" by (simp add: crc64_run.simps [of crc data])
    also have "crc64_word crc (le_word (take 8 data)) = foldl crc64_byte crc (take 8 data)"
      using True by (intro crc64_word_bytes) simp
    also have "foldl crc64_byte \<dots> (drop 8 data) = foldl crc64_byte crc (take 8 data @ drop 8 data)"
      by (simp only: foldl_append)
    finally show ?thesis by simp
  next
    case False
    then show ?thesis by (simp add: crc64_run.simps [of crc data])
  qed
qed

lemma crc64_run_append: "crc64_run init (a @ b) = crc64_run (crc64_run init a) b"
  by (simp add: crc64_run_foldl)

lemma crc64_byte_inj: "crc64_byte a b = crc64_byte a' b \<Longrightarrow> a = a'"
  unfolding crc64_byte_step
  by (drule step_pow_inj) (auto simp: bit_eq_iff bit_xor_iff)

lemma crc64_run_inj: "crc64_run a data = crc64_run a' data \<Longrightarrow> a = a'"
  unfolding crc64_run_foldl
  by (induction data arbitrary: a a') (auto dest: crc64_byte_inj)

lemma le_word_inj: "length as = length bs \<Longrightarrow> length as \<le> 8 \<Longrightarrow> le_word as = le_word bs \<Longrightarrow> as = bs"
proof (induction as bs rule: list_induct2)
  case Nil
  then show ?case by simp
next
  case (Cons a as b bs)
  have low: "bit (le_word (c # cs)) i \<longleftrightarrow> bit c i" if "i < 8" for c cs i
    using that by (simp add: bit_xor_iff bit_push_bit_iff bit_ucast_iff)
  have high: "bit (le_word cs) i \<longleftrightarrow> bit (le_word (c # cs)) (i + 8)" if "i + 8 < 64" for c cs i
    using that bit_ucast_byte [of c "i + 8"] by (auto simp: bit_xor_iff bit_push_bit_iff)
  have "a = b"
    using Cons.prems low [of _ a as] low [of _ b bs]
    by (intro bit_word_eqI) (simp del: le_word.simps)
  moreover have "le_word as = le_word bs"
  proof (rule bit_word_eqI)
    fix i
    show "bit (le_word as) i = bit (le_word bs) i"
    proof (cases "i + 8 < 64")
      case True
      then show ?thesis using Cons.prems(2) high [of i as a] high [of i bs b] by simp
    next
      case False
      with Cons.prems(1) Cons.hyps show ?thesis
        using bit_le_word [of as i] bit_le_word [of bs i] by auto
    qed
  qed
  ultimately show ?case using Cons.IH Cons.prems(1) by simp
qed

lemma crc64_burst:
  assumes "length w = length w'" and "length w \<le> 8" and "w \<noteq> w'"
  shows "crc64_run init (p @ w @ s) \<noteq> crc64_run init (p @ w' @ s)"
proof
  let ?c = "crc64_run init p"
  assume "crc64_run init (p @ w @ s) = crc64_run init (p @ w' @ s)"
  then have "crc64_run ?c w = crc64_run ?c w'"
    unfolding crc64_run_append by (rule crc64_run_inj)
  then have "?c XOR le_word w = ?c XOR le_word w'"
    using assms(1,2) unfolding crc64_run_foldl
    by (simp only: crc64_bytes_step) (rule step_pow_inj, simp)
  then have "le_word w = le_word w'" by (auto simp: bit_eq_iff bit_xor_iff)
  with assms show False using le_word_inj by blast
qed

text \<open>C21: the routine in use, which reads eight bytes at a time through eight tables,
  computes the same checksum as the bytewise routine kept in the comment above it, for
  every start value and every input. This is the verification the TODO asks for.\<close>

theorem crc64_run_bytewise: "crc64_run init data = crc64_bytewise init data"
  by (simp add: crc64_bytewise_def crc64_run_foldl)

text \<open>C22: a change confined to eight consecutive bytes, wherever it lies and whatever the
  data around it, always changes the checksum.\<close>

theorem crc64_detects_burst:
  assumes "length w = length w'" and "length w \<le> 8" and "w \<noteq> w'"
  shows "crc64 (p @ w @ s) \<noteq> crc64 (p @ w' @ s)"
  unfolding crc64_def using assms by (rule crc64_burst)

theorem crc64_detects_burst_witness:
  "crc64 ([1, 2] @ [3] @ [4]) \<noteq> crc64 ([1, 2] @ [7] @ [4])"
  by (rule crc64_detects_burst) simp_all

text \<open>Checksumming in pieces through a context gives the checksum of the
  concatenation, wherever the pieces are cut.\<close>

theorem crc64_ctx_incremental:
  "crc64_ctx_csum (foldl crc64_ctx_update crc64_ctx_setup pieces) = crc64 (concat pieces)"
proof -
  have "ctx_crc (foldl crc64_ctx_update c pieces) = crc64_run (ctx_crc c) (concat pieces)" for c
    by (induction pieces arbitrary: c)
       (simp_all add: crc64_ctx_update_def crc64_run_append crc64_run_foldl)
  then show ?thesis by (simp add: crc64_ctx_csum_def crc64_ctx_setup_def crc64_def)
qed

end
