(* ===== verification/Io.thy ===== *)
theory Io
  imports Prelude
begin

text \<open>
  The two interfaces the library is written against: the page device of \<open>inc/io.h\<close>
  and the space allocator of \<open>inc/alloc.h\<close>. Both are tables of function pointers in
  C; here they are records of functions over a state of the client's choosing, and their
  contracts are locales. The page arithmetic of \<open>io.h\<close> is on 64 bit values, with the
  wrap-around written out.
\<close>

section \<open>The device (struct io)\<close>

text \<open>
  A read returns an error or the bytes it stored at the start of the caller's buffer. A
  write takes the bytes to store. \<open>write\<close> and \<open>sync\<close> may be missing, in which case
  calling them fails an assertion.
\<close>

record 'd io_ops =
  op_read :: "'d \<Rightarrow> nat \<Rightarrow> nat \<Rightarrow> (errno + byte list) \<times> 'd"
  op_write :: "('d \<Rightarrow> byte list \<Rightarrow> nat \<Rightarrow> (errno + unit) \<times> 'd) option"
  op_sync :: "('d \<Rightarrow> (errno + unit) \<times> 'd) option"

record 'd io =
  ops :: "'d io_ops"
  page_size :: nat

definition wrap64 :: "nat \<Rightarrow> nat" where
  "wrap64 n = n mod 2 ^ 64"

definition io_read :: "'d io \<Rightarrow> 'd \<Rightarrow> nat \<Rightarrow> nat \<Rightarrow> (errno + byte list) \<times> 'd" where
  "io_read io d sz off =
     op_read (ops io) d (wrap64 (sz * page_size io)) (wrap64 (off * page_size io))"

definition io_write :: "'d io \<Rightarrow> 'd \<Rightarrow> byte list \<Rightarrow> nat \<Rightarrow> nat \<Rightarrow> ((errno + unit) \<times> 'd) option" where
  "io_write io d buf sz off =
     (case op_write (ops io) of
        None \<Rightarrow> None
      | Some w \<Rightarrow>
          (let n = wrap64 (sz * page_size io) in
           if length buf < n then None
           else Some (w d (take n buf) (wrap64 (off * page_size io)))))"

definition io_sync :: "'d io \<Rightarrow> 'd \<Rightarrow> ((errno + unit) \<times> 'd) option" where
  "io_sync io d = map_option (\<lambda>s. s d) (op_sync (ops io))"

definition io_align :: "'d io \<Rightarrow> nat \<Rightarrow> nat" where
  "io_align io sz =
     unat ((word_of_nat sz + word_of_nat (page_size io) - 1 :: u64) AND
           NOT (word_of_nat (page_size io) - 1))"

definition io_pages :: "'d io \<Rightarrow> nat \<Rightarrow> nat" where
  "io_pages io sz =
     unat ((word_of_nat sz + word_of_nat (page_size io) - 1 :: u64) div word_of_nat (page_size io))"

definition io_bytes :: "'d io \<Rightarrow> nat \<Rightarrow> nat" where
  "io_bytes io pages = wrap64 (pages * page_size io)"

section \<open>Page arithmetic\<close>

text \<open>\<open>mkfs\<close> accepts page sizes that are powers of two from 512 on; 32 bits is far
  more than any device uses.\<close>

definition page_ok :: "'d io \<Rightarrow> bool" where
  "page_ok io \<longleftrightarrow> (\<exists>k. 9 \<le> k \<and> k \<le> 32 \<and> page_size io = 2 ^ k)"

lemma page_ok_pos: "page_ok io \<Longrightarrow> 0 < page_size io"
  by (auto simp: page_ok_def)

lemma page_ok_ge: "page_ok io \<Longrightarrow> 512 \<le> page_size io"
proof -
  assume "page_ok io"
  then obtain k where "9 \<le> k" and "page_size io = 2 ^ k" by (auto simp: page_ok_def)
  moreover from \<open>9 \<le> k\<close> have "(2::nat) ^ 9 \<le> 2 ^ k" by (rule power_increasing) simp
  ultimately show ?thesis by simp
qed

lemma page_ok_le: "page_ok io \<Longrightarrow> page_size io \<le> 2 ^ 32"
proof -
  assume "page_ok io"
  then obtain k where "k \<le> 32" and "page_size io = 2 ^ k" by (auto simp: page_ok_def)
  then show ?thesis by (metis one_le_numeral power_increasing)
qed

lemma wrap64_id [simp]: "n < 2 ^ 64 \<Longrightarrow> wrap64 n = n"
  by (simp add: wrap64_def)

text \<open>The page count of a size, without the wrap-around.\<close>

definition npages :: "'d io \<Rightarrow> nat \<Rightarrow> nat" where
  "npages io sz = (sz + page_size io - 1) div page_size io"

lemma unat_round:
  assumes "0 < p" and "sz + p \<le> 2 ^ 64" and "p < 2 ^ 64"
  shows "unat (word_of_nat sz + word_of_nat p - 1 :: u64) = sz + p - 1"
proof -
  have "word_of_nat sz + word_of_nat p - 1 = (word_of_nat (sz + p - 1) :: u64)"
    using assms(1) by (simp add: of_nat_diff)
  then have "unat (word_of_nat sz + word_of_nat p - 1 :: u64) = (sz + p - 1) mod 2 ^ 64"
    by (simp only: unat_of_nat) simp
  also have "\<dots> = sz + p - 1" using assms by (intro mod_less) auto
  finally show ?thesis .
qed

lemma io_pages_eq [page_simps]:
  assumes "page_ok io" and "sz + page_size io \<le> 2 ^ 64"
  shows "io_pages io sz = npages io sz"
  using assms page_ok_pos [OF assms(1)] page_ok_le [OF assms(1)]
  by (simp add: io_pages_def npages_def unat_div unat_round unat_of_nat)

lemma io_bytes_eq [page_simps]:
  "pages * page_size io < 2 ^ 64 \<Longrightarrow> io_bytes io pages = pages * page_size io"
  by (simp add: io_bytes_def)

lemma and_not_mask_div: "(m :: nat) < 2 ^ 64 \<Longrightarrow> k \<le> 63 \<Longrightarrow>
  unat ((word_of_nat m :: u64) AND NOT (word_of_nat (2 ^ k) - 1)) = m div 2 ^ k * 2 ^ k"
proof -
  assume m: "m < 2 ^ 64" and k: "k \<le> 63"
  have "(word_of_nat (2 ^ k) - 1 :: u64) = mask k"
    by (simp add: mask_eq_exp_minus_1)
  then have "(word_of_nat m :: u64) AND NOT (word_of_nat (2 ^ k) - 1)
      = push_bit k (drop_bit k (word_of_nat m))"
    by (intro bit_word_eqI)
       (auto simp: bit_simps bit_and_iff bit_not_iff bit_mask_iff bit_push_bit_iff bit_drop_bit_eq)
  moreover have "unat (push_bit k (drop_bit k (word_of_nat m :: u64))) = m div 2 ^ k * 2 ^ k"
  proof -
    have "unat (word_of_nat m :: u64) = m" using m by (simp add: unat_of_nat)
    then have "unat (drop_bit k (word_of_nat m :: u64)) = m div 2 ^ k"
      unfolding unat_drop_bit_eq by (simp only: drop_bit_eq_div)
    then have "drop_bit k (word_of_nat m :: u64) = word_of_nat (m div 2 ^ k)"
      by (metis of_nat_unat ucast_id)
    then have "push_bit k (drop_bit k (word_of_nat m :: u64)) = word_of_nat (m div 2 ^ k * 2 ^ k)"
      by (simp add: push_bit_eq_mult)
    then have "unat (push_bit k (drop_bit k (word_of_nat m :: u64))) = (m div 2 ^ k * 2 ^ k) mod 2 ^ 64"
      by (simp only: unat_of_nat) simp
    also have "m div 2 ^ k * 2 ^ k \<le> m" by simp
    then have "(m div 2 ^ k * 2 ^ k) mod 2 ^ 64 = m div 2 ^ k * 2 ^ k"
      using m by (intro mod_less) (rule le_less_trans)
    finally show ?thesis .
  qed
  ultimately show ?thesis by simp
qed

lemma io_align_eq [page_simps]:
  assumes "page_ok io" and "sz + page_size io \<le> 2 ^ 64"
  shows "io_align io sz = npages io sz * page_size io"
proof -
  obtain k where k: "9 \<le> k" "k \<le> 32" "page_size io = 2 ^ k"
    using assms(1) by (auto simp: page_ok_def)
  let ?w = "word_of_nat sz + word_of_nat (page_size io) - 1 :: u64"
  have "?w = word_of_nat (unat ?w)" by simp
  also have "unat ?w = sz + page_size io - 1"
    using assms page_ok_pos [OF assms(1)] page_ok_le [OF assms(1)] by (intro unat_round) auto
  finally have "io_align io sz =
      unat ((word_of_nat (sz + page_size io - 1) :: u64) AND NOT (word_of_nat (2 ^ k) - 1))"
    using k(3) by (simp add: io_align_def)
  also have "\<dots> = (sz + page_size io - 1) div 2 ^ k * 2 ^ k"
    using assms(2) page_ok_pos [OF assms(1)] k(2) by (intro and_not_mask_div) auto
  finally show ?thesis by (simp add: npages_def k(3))
qed

lemma npages_0 [simp]: "page_ok io \<Longrightarrow> npages io 0 = 0"
  using page_ok_pos [of io] by (simp add: npages_def)

lemma npages_ge: "page_ok io \<Longrightarrow> sz \<le> npages io sz * page_size io"
proof -
  assume "page_ok io"
  then have "0 < page_size io" by (rule page_ok_pos)
  then have "sz + page_size io - 1 < (npages io sz + 1) * page_size io"
    unfolding npages_def by (metis add.commute div_less_iff_less_mult less_add_one)
  then show ?thesis using \<open>0 < page_size io\<close> by simp
qed

lemma npages_less: "page_ok io \<Longrightarrow> npages io sz * page_size io < sz + page_size io"
proof -
  assume "page_ok io"
  then have "0 < page_size io" by (rule page_ok_pos)
  moreover have "npages io sz * page_size io \<le> sz + page_size io - 1"
    unfolding npages_def by simp
  ultimately show ?thesis by simp
qed

lemma npages_le_iff: "page_ok io \<Longrightarrow> npages io sz \<le> n \<longleftrightarrow> sz \<le> n * page_size io"
proof -
  assume ok: "page_ok io"
  then have p: "0 < page_size io" by (rule page_ok_pos)
  show ?thesis
  proof
    assume "npages io sz \<le> n"
    then have "npages io sz * page_size io \<le> n * page_size io" by simp
    with npages_ge [OF ok, of sz] show "sz \<le> n * page_size io" by (rule le_trans)
  next
    assume "sz \<le> n * page_size io"
    with npages_less [OF ok, of sz] have "npages io sz * page_size io < (n + 1) * page_size io"
      by simp
    then show "npages io sz \<le> n" by (simp only: mult_less_cancel2) simp
  qed
qed

lemma npages_mono: "page_ok io \<Longrightarrow> a \<le> b \<Longrightarrow> npages io a \<le> npages io b"
  using npages_ge [of io b] by (simp add: npages_le_iff)

lemma npages_mult [simp]: "page_ok io \<Longrightarrow> npages io (n * page_size io) = n"
  using npages_le_iff [of io "n * page_size io" n] npages_le_iff [of io "n * page_size io" "n - 1"]
    page_ok_pos [of io]
  by (cases n) auto

text \<open>C37: rounding a size up to pages, below the wrap-around of 64 bit arithmetic. The
  aligned size is the least multiple of the page size that is large enough, it is the page
  count times the page size, and aligning again changes nothing.\<close>

theorem io_align_least:
  assumes "page_ok io" and "sz + 2 * page_size io \<le> 2 ^ 64"
  shows "sz \<le> io_align io sz \<and> io_align io sz = io_bytes io (io_pages io sz) \<and>
    io_align io (io_align io sz) = io_align io sz \<and>
    (\<forall>n. sz \<le> n * page_size io \<longrightarrow> io_align io sz \<le> n * page_size io)"
proof -
  let ?n = "npages io sz"
  have al: "io_align io sz = ?n * page_size io" using assms by (simp add: page_simps)
  have lt: "?n * page_size io < 2 ^ 64 - page_size io"
    using npages_less [OF assms(1), of sz] assms(2) by simp
  have "io_align io (?n * page_size io) = ?n * page_size io"
    using assms(1) lt by (simp add: page_simps)
  moreover have "io_bytes io (io_pages io sz) = ?n * page_size io"
    using assms lt by (simp add: page_simps)
  moreover have "\<forall>n. sz \<le> n * page_size io \<longrightarrow> ?n * page_size io \<le> n * page_size io"
    using npages_le_iff [OF assms(1)] by simp
  ultimately show ?thesis using al npages_ge [OF assms(1), of sz] by simp
qed

definition demo_io :: "unit io" where
  "demo_io = \<lparr>ops = \<lparr>op_read = (\<lambda>d n off. (Inr (replicate n 0), d)), op_write = None,
     op_sync = None\<rparr>, page_size = 4096\<rparr>"

theorem io_align_least_witness:
  "5000 \<le> io_align demo_io 5000 \<and> io_align demo_io 5000 = io_bytes demo_io (io_pages demo_io 5000)"
proof -
  have "page_ok demo_io"
    unfolding page_ok_def by (rule exI [of _ 12]) (simp add: demo_io_def)
  moreover have "5000 + 2 * page_size demo_io \<le> 2 ^ 64" by (simp add: demo_io_def)
  ultimately show ?thesis using io_align_least [of demo_io 5000] by blast
qed

text \<open>Near the top of the 64 bit range the sum in \<open>io_pages\<close> wraps: a size of \<open>2\<^sup>6\<^sup>4 - 1\<close>
  bytes takes no pages at all.\<close>

lemma io_pages_wraps: "io_pages demo_io (2 ^ 64 - 1) = 0"
  by (simp add: io_pages_def demo_io_def)

section \<open>The allocator (struct alloc)\<close>

record 'a alloc_ops =
  op_reserve :: "'a \<Rightarrow> nat \<Rightarrow> (errno + nat) \<times> 'a"
  op_cancel :: "'a \<Rightarrow> nat \<Rightarrow> nat \<Rightarrow> (errno + unit) \<times> 'a"
  op_commit :: "'a \<Rightarrow> nat \<Rightarrow> nat \<Rightarrow> (errno + unit) \<times> 'a"
  op_free :: "'a \<Rightarrow> nat \<Rightarrow> nat \<Rightarrow> (errno + unit) \<times> 'a"

definition alloc_reserve :: "'a alloc_ops \<Rightarrow> 'a \<Rightarrow> nat \<Rightarrow> (errno + nat) \<times> 'a" where
  "alloc_reserve al a sz = op_reserve al a sz"

definition alloc_cancel :: "'a alloc_ops \<Rightarrow> 'a \<Rightarrow> nat \<Rightarrow> nat \<Rightarrow> (errno + unit) \<times> 'a" where
  "alloc_cancel al a sz offs = op_cancel al a sz offs"

definition alloc_commit :: "'a alloc_ops \<Rightarrow> 'a \<Rightarrow> nat \<Rightarrow> nat \<Rightarrow> (errno + unit) \<times> 'a" where
  "alloc_commit al a sz offs = op_commit al a sz offs"

definition alloc_free :: "'a alloc_ops \<Rightarrow> 'a \<Rightarrow> nat \<Rightarrow> nat \<Rightarrow> (errno + unit) \<times> 'a" where
  "alloc_free al a sz offs = op_free al a sz offs"

section \<open>Contracts\<close>

text \<open>
  What the library relies on. A device has a number of pages (\<open>limit\<close>); \<open>stored d off bs\<close>
  says that the pages from \<open>off\<close> on hold \<open>bs\<close>. In a good state what is stored can be read
  back, a write stores its buffer if it succeeds, and neither disturbs anything else.
  Extents of pages are sets.
\<close>

definition extent :: "nat \<Rightarrow> nat \<Rightarrow> nat set" where
  "extent off sz = {off..<off + sz}"

locale page_device =
  fixes io :: "'d io"
    and good :: "'d \<Rightarrow> bool"
    and stored :: "'d \<Rightarrow> nat \<Rightarrow> byte list \<Rightarrow> bool"
    and limit :: nat
  assumes page: "page_ok io"
    and limit_bound: "limit * page_size io \<le> 2 ^ 63"
    and read_stored: "good d \<Longrightarrow> stored d off bs \<Longrightarrow> length bs = sz * page_size io \<Longrightarrow>
      \<exists>d'. io_read io d sz off = (Inr bs, d') \<and> good d' \<and> (\<forall>o' bs'. stored d o' bs' \<longrightarrow> stored d' o' bs')"
    and write_stores: "good d \<Longrightarrow> 0 < sz \<Longrightarrow> off + sz \<le> limit \<Longrightarrow> sz * page_size io \<le> length buf \<Longrightarrow>
      \<exists>r d'. io_write io d buf sz off = Some (r, d') \<and> good d' \<and>
        (r = Inr () \<longrightarrow> stored d' off (take (sz * page_size io) buf)) \<and>
        (\<forall>o' n bs'. stored d o' bs' \<and> length bs' = n * page_size io \<and> extent o' n \<inter> extent off sz = {} \<longrightarrow>
           stored d' o' bs')"

text \<open>
  An allocator hands out extents that are inside the device and that nobody has reserved
  before (\<open>inc/alloc.h\<close>: "space may not be used by anyone else"). Cancelling a reservation gives
  back its pages and no others.
\<close>

locale page_allocator =
  fixes al :: "'a alloc_ops"
    and used :: "'a \<Rightarrow> nat set"
    and limit :: nat
  assumes reserve_fresh: "alloc_reserve al a sz = (Inr off, a') \<Longrightarrow>
      extent off sz \<inter> used a = {} \<and> used a' = used a \<union> extent off sz \<and> off + sz \<le> limit"
    and reserve_fails: "alloc_reserve al a sz = (Inl e, a') \<Longrightarrow> used a' = used a"
    and cancel_frees: "alloc_cancel al a sz off = (r, a') \<Longrightarrow> used a - extent off sz \<subseteq> used a'"

text \<open>An allocator that answers every request as another one does, where that one does not fail.\<close>

definition alloc_extends :: "'a alloc_ops \<Rightarrow> 'a alloc_ops \<Rightarrow> bool" where
  "alloc_extends al al' \<longleftrightarrow> (\<forall>a n off a'. alloc_reserve al a n = (Inr off, a') \<longrightarrow> alloc_reserve al' a n = (Inr off, a'))"

end
