(* ===== verification/FileWrappers.thy ===== *)
theory FileWrappers
  imports Prelude
begin

text \<open>
  \<open>lib/file_wrappers.c\<close>: reads and writes of whole buffers over \<open>pread\<close> and
  \<open>pwrite\<close>, which may transfer less than asked. A file is its bytes and the decisions
  the kernel will make: each call takes the next one, an error or a cap on the bytes it
  transfers, and once the list is used up every call transfers all it can.
\<close>

section \<open>The system calls\<close>

datatype sysret = Sys_err errno | Sys_cap nat

record vfile =
  content :: "byte list"
  script :: "sysret list"

text \<open>Bytes stored at an offset; a gap past the end of the file reads as zeros.\<close>

definition file_put :: "byte list \<Rightarrow> nat \<Rightarrow> byte list \<Rightarrow> byte list" where
  "file_put c off bs =
     (if bs = [] then c
      else take off c @ replicate (off - length c) 0 @ bs @ drop (off + length bs) c)"

definition next_cap :: "vfile \<Rightarrow> nat \<Rightarrow> errno + nat" where
  "next_cap f n = (case script f of
     [] \<Rightarrow> Inr n | Sys_err e # _ \<Rightarrow> Inl e | Sys_cap m # _ \<Rightarrow> Inr (min m n))"

definition pread :: "vfile \<Rightarrow> nat \<Rightarrow> nat \<Rightarrow> (errno + byte list) \<times> vfile" where
  "pread f n off =
     (map_sum id (\<lambda>m. take m (drop off (content f))) (next_cap f n), f\<lparr>script := tl (script f)\<rparr>)"

definition pwrite :: "vfile \<Rightarrow> byte list \<Rightarrow> nat \<Rightarrow> (errno + nat) \<times> vfile" where
  "pwrite f bs off =
     (case next_cap f (length bs) of
        Inl e \<Rightarrow> (Inl e, f\<lparr>script := tl (script f)\<rparr>)
      | Inr m \<Rightarrow> (Inr m, f\<lparr>content := file_put (content f) off (take m bs), script := tl (script f)\<rparr>))"

section \<open>The wrappers\<close>

definition file_size :: "(errno + int) \<Rightarrow> errno + int" where
  \<comment> \<open>the result of \<open>fstat\<close>, passed on: an error or \<open>st_size\<close>, a signed number\<close>
  "file_size st = st"

lemma pwrite_progress:
  "pwrite f data off = (Inr rc, f') \<Longrightarrow> data \<noteq> [] \<Longrightarrow>
   length (drop rc data) + length (script f') < length data + length (script f)"
  by (cases "script f")
     (auto simp: pwrite_def next_cap_def length_greater_0_conv [symmetric]
        simp del: length_greater_0_conv split: sysret.splits sum.splits)

function file_write_at :: "vfile \<Rightarrow> byte list \<Rightarrow> nat \<Rightarrow> (errno + unit) \<times> vfile" where
  "file_write_at f data off =
     (if data = [] then (Inr (), f)
      else (case pwrite f data off of
              (Inl e, f') \<Rightarrow> (Inl e, f')
            | (Inr rc, f') \<Rightarrow> file_write_at f' (drop rc data) (off + rc)))"
  by pat_completeness auto
termination
  by (relation "measure (\<lambda>(f, data, off). length data + length (script f))")
     (auto dest!: sym [of _ "pwrite _ _ _"] dest: pwrite_progress)

text \<open>
  The reading loop compares what it has read (\<open>r\<close>) with \<open>size\<close>, and also counts
  \<open>size\<close> down. The bytes read so far are the accumulator, so \<open>r\<close> is its length.
\<close>

lemma pread_progress:
  "pread f sz off = (Inr bs, f') \<Longrightarrow> bs \<noteq> [] \<Longrightarrow>
   (sz - length bs) + length (script f') < sz + length (script f) \<and> length bs \<le> sz"
  by (cases "script f")
     (auto simp: pread_def next_cap_def map_sum_def split: sysret.splits sum.splits)

function file_read_loop :: "vfile \<Rightarrow> nat \<Rightarrow> nat \<Rightarrow> byte list \<Rightarrow> (errno + byte list) \<times> vfile" where
  "file_read_loop f sz off acc =
     (if length acc = sz then (Inr acc, f)
      else (case pread f sz off of
              (Inl e, f') \<Rightarrow> (Inl e, f')
            | (Inr bs, f') \<Rightarrow>
                if bs = [] then (Inr acc, f')
                else file_read_loop f' (sz - length bs) (off + length bs) (acc @ bs)))"
  by pat_completeness auto
termination
  by (relation "measure (\<lambda>(f, sz, off, acc). sz + length (script f))")
     (auto dest!: sym [of _ "pread _ _ _"] dest: pread_progress)

declare file_write_at.simps [simp del] file_read_loop.simps [simp del]

definition file_read_at :: "vfile \<Rightarrow> nat \<Rightarrow> nat \<Rightarrow> (errno + byte list) \<times> vfile" where
  "file_read_at f sz off = file_read_loop f sz off []"

section \<open>Writing\<close>

lemma file_put_Nil [simp]: "file_put c off [] = c"
  by (simp add: file_put_def)

lemma length_file_put: "bs \<noteq> [] \<Longrightarrow> length (file_put c off bs) = max (length c) (off + length bs)"
  by (auto simp: file_put_def)

lemma file_put_nth:
  "i < length (file_put c off bs) \<Longrightarrow>
   file_put c off bs ! i =
     (if off \<le> i \<and> i < off + length bs then bs ! (i - off)
      else if i < length c then c ! i else 0)"
  by (cases "bs = []") (auto simp: length_file_put, auto simp: file_put_def nth_append min_def add.commute)

lemma file_put_append:
  "file_put (file_put c off as) (off + length as) bs = file_put c off (as @ bs)"
proof (cases "as = [] \<or> bs = []")
  case True
  then show ?thesis by auto
next
  case False
  then show ?thesis
    by (intro nth_equalityI) (auto simp: length_file_put file_put_nth nth_append)
qed

lemma file_put_get:
  "take (length bs) (drop off (file_put c off bs)) = bs"
  by (cases "bs = []") (auto simp: file_put_def)

lemma file_put_get_disjoint:
  assumes "off' + n \<le> off \<or> off + length bs \<le> off'" and "off' + n \<le> length c"
  shows "take n (drop off' (file_put c off bs)) = take n (drop off' c)"
proof (cases "bs = []")
  case True
  then show ?thesis by simp
next
  case False
  then have "n \<le> length (file_put c off bs) - off'"
    using assms(2) by (simp add: length_file_put)
  then show ?thesis
    using assms by (intro nth_equalityI) (auto simp: file_put_nth)
qed

lemma pwrite_cases:
  assumes "pwrite f data off = (r, f')"
  obtains (err) e where "r = Inl e" "content f' = content f" "Sys_err e \<in> set (script f)"
  | (ok) m where "r = Inr m" "m \<le> length data" "set (script f') \<subseteq> set (script f)"
      "content f' = file_put (content f) off (take m data)"
  using assms
  by (cases "script f")
     (auto simp: pwrite_def next_cap_def subset_insertI split: sysret.splits sum.splits)

lemma file_write_at_spec:
  "file_write_at f data off = (r, f') \<Longrightarrow>
   (r = Inr () \<and> content f' = file_put (content f) off data) \<or>
   (\<exists>e n. r = Inl e \<and> Sys_err e \<in> set (script f) \<and> n \<le> length data \<and>
      content f' = file_put (content f) off (take n data))"
proof (induction f data off arbitrary: r f' rule: file_write_at.induct)
  case (1 f data off)
  show ?case
  proof (cases "data = []")
    case True
    with "1.prems" show ?thesis by (simp add: file_write_at.simps [of f])
  next
    case False
    obtain p g where p: "pwrite f data off = (p, g)" by fastforce
    then show ?thesis
    proof (cases rule: pwrite_cases)
      case (err e)
      with "1.prems" False p show ?thesis
        by (auto simp: file_write_at.simps [of f] intro!: exI [of _ "0::nat"])
    next
      case (ok m)
      with "1.prems" False p have "file_write_at g (drop m data) (off + m) = (r, f')"
        by (simp add: file_write_at.simps [of f])
      from "1.IH" [OF False p [symmetric] ok(1) this]
      consider "r = Inr ()" "content f' = file_put (content g) (off + m) (drop m data)"
        | e n where "r = Inl e" "Sys_err e \<in> set (script g)" "n \<le> length (drop m data)"
          "content f' = file_put (content g) (off + m) (take n (drop m data))"
        by blast
      then show ?thesis
      proof cases
        case 1
        then show ?thesis
          using ok file_put_append [of "content f" off "take m data" "drop m data"]
          by (simp add: min_absorb2)
      next
        case (2 e n)
        then have "content f' = file_put (content f) off (take (m + n) data)"
          using ok file_put_append [of "content f" off "take m data" "take n (drop m data)"]
          by (simp add: min_absorb2 take_add)
        with 2 ok show ?thesis by (auto intro!: exI [of _ "m + n"])
      qed
    qed
  qed
qed

text \<open>C36: writing a buffer, however the kernel splits the transfer. If no call fails, the
  loop ends with 0 and the file holds the whole buffer at the offset and nothing else
  has changed; if a call fails, its error is returned and a prefix of the buffer has been
  stored.\<close>

theorem file_write_at_complete:
  "\<exists>r f'. file_write_at f data off = (r, f') \<and>
     (case r of
        Inr _ \<Rightarrow> content f' = file_put (content f) off data
      | Inl e \<Rightarrow> Sys_err e \<in> set (script f) \<and>
          (\<exists>n \<le> length data. content f' = file_put (content f) off (take n data)))"
  using file_write_at_spec [of f data off]
  by (cases "file_write_at f data off") (auto split: sum.split)

lemma file_write_at_ok:
  assumes "script f = []"
  shows "\<exists>f'. file_write_at f data off = (Inr (), f') \<and> script f' = [] \<and>
    content f' = file_put (content f) off data"
proof (cases "data = []")
  case True
  with assms show ?thesis by (simp add: file_write_at.simps)
next
  case False
  with assms show ?thesis
    by (simp add: file_write_at.simps [of f] pwrite_def next_cap_def)
       (simp add: file_write_at.simps [of _ "[]"])
qed

section \<open>Reading\<close>

lemma file_read_at_ok:
  assumes "script f = []"
  shows "file_read_at f sz off = (Inr (take sz (drop off (content f))), f)"
proof -
  let ?bs = "take sz (drop off (content f))"
  have f: "f\<lparr>script := []\<rparr> = f" using assms by (cases f) simp
  have stop: "file_read_loop f n o' bs = (Inr bs, f)" if "take n (drop o' (content f)) = []" for n o' bs
    using that assms f
    by (simp add: file_read_loop.simps [of f n] pread_def next_cap_def map_sum_def)
  have "take (sz - length ?bs) (drop (off + length ?bs) (content f)) = []"
    by (cases "length (content f) - off \<le> sz") (auto simp: min_def)
  from stop [OF this] show ?thesis
    using assms stop [of sz off "[]"]
    by (cases "?bs = []")
       (simp_all add: file_read_at_def file_read_loop.simps [of f sz off "[]"] pread_def next_cap_def map_sum_def f)
qed

lemma pread_cases:
  assumes "pread f sz off = (r, g)"
  obtains (err) e where "r = Inl e" "Sys_err e \<in> set (script f)" "content g = content f"
  | (ok) m where "r = Inr (take m (drop off (content f)))" "m \<le> sz" "content g = content f"
  using assms
  by (cases "script f")
     (auto simp: pread_def next_cap_def map_sum_def split: sysret.splits)

lemma file_read_loop_prefix:
  "file_read_loop f sz off acc = (Inr bs, f') \<Longrightarrow>
   \<exists>n \<le> sz. bs = acc @ take n (drop off (content f)) \<and> content f' = content f"
proof (induction f sz off acc arbitrary: bs f' rule: file_read_loop.induct)
  case (1 f sz off acc)
  obtain p g where p: "pread f sz off = (p, g)" by fastforce
  show ?case
  proof (cases "length acc = sz")
    case True
    with "1.prems" show ?thesis
      by (auto simp: file_read_loop.simps [of f] intro!: exI [of _ "0::nat"])
  next
    case len: False
    with "1.prems" p obtain cs where cs: "p = Inr cs"
      by (cases p) (auto simp: file_read_loop.simps [of f])
    from p obtain m where m: "m \<le> sz" "cs = take m (drop off (content f))" "content g = content f"
      by (cases rule: pread_cases) (use cs in auto)
    show ?thesis
    proof (cases "cs = []")
      case True
      with "1.prems" p cs len m show ?thesis
        by (auto simp: file_read_loop.simps [of f] intro!: exI [of _ "0::nat"])
    next
      case False
      with "1.prems" p cs len have "file_read_loop g (sz - length cs) (off + length cs) (acc @ cs) = (Inr bs, f')"
        by (simp add: file_read_loop.simps [of f])
      from "1.IH" [OF len p [symmetric] cs False this] obtain n where
        n: "n \<le> sz - length cs" "bs = (acc @ cs) @ take n (drop (off + length cs) (content g))"
          "content f' = content g" by blast
      have "cs @ take n (drop (off + length cs) (content f)) = take (length cs + n) (drop off (content f))"
        unfolding take_add using m(2) by (cases "length (content f) - off \<le> m") (simp_all add: add.commute)
      moreover have "length cs \<le> sz" using m by simp
      ultimately show ?thesis
        using n m by (intro exI [of _ "length cs + n"]) auto
    qed
  qed
qed

text \<open>A read never returns bytes that are not in the file: what it returns is a prefix
  of the range that was asked for, at most as long, and the file is unchanged. When the
  kernel transfers all it can in each call, it returns the whole range, cut at the end of
  the file.\<close>

theorem file_read_at_sound:
  "\<exists>r f'. file_read_at f sz off = (r, f') \<and>
     (\<forall>bs. r = Inr bs \<longrightarrow> content f' = content f \<and> (\<exists>n \<le> sz. bs = take n (drop off (content f)))) \<and>
     (script f = [] \<longrightarrow> r = Inr (take sz (drop off (content f))))"
proof -
  obtain r f' where rf: "file_read_at f sz off = (r, f')" by fastforce
  have "content f' = content f \<and> (\<exists>n \<le> sz. bs = take n (drop off (content f)))" if "r = Inr bs" for bs
    using file_read_loop_prefix [of f sz off "[]" bs f'] rf that
    by (auto simp: file_read_at_def)
  moreover have "script f = [] \<Longrightarrow> r = Inr (take sz (drop off (content f)))"
    using rf by (auto simp: file_read_at_ok)
  ultimately show ?thesis using rf by blast
qed

theorem file_read_at_sound_witness:
  "\<exists>f'. file_read_at \<lparr>content = [1, 2, 3, 4], script = []\<rparr> 2 1 = (Inr [2, 3], f')"
  using file_read_at_sound [of "\<lparr>content = [1, 2, 3, 4], script = []\<rparr>" 2 1] by auto

lemma file_read_tail:
  assumes "script f = []" and "off + sz \<le> length (content f)" and "length acc \<noteq> sz"
    and "length acc + sz \<noteq> 0"
  shows "fst (file_read_loop f sz off acc) = Inr (acc @ take sz (drop off (content f)))"
proof (cases "sz = 0")
  case True
  with assms show ?thesis
    by (simp add: file_read_loop.simps [of f] pread_def next_cap_def map_sum_def)
next
  case False
  have g: "f\<lparr>script := []\<rparr> = f" using assms(1) by (cases f) simp
  have stop: "fst (file_read_loop f 0 o' bs) = Inr bs" for o' bs
    using assms(1)
    by (cases "bs = []") (simp_all add: file_read_loop.simps [of f 0] pread_def next_cap_def map_sum_def)
  have "take sz (drop off (content f)) \<noteq> []" and "length (take sz (drop off (content f))) = sz"
    using assms(2) False by auto
  then show ?thesis
    using assms(1,3) stop
    by (simp add: file_read_loop.simps [of f sz] pread_def next_cap_def map_sum_def g)
qed

text \<open>One short transfer of \<open>m\<close> bytes by the kernel, all the rest being there. The
  read continues and returns everything, except when the transfer was exactly half of the
  buffer: then the loop, which counts \<open>size\<close> down while it compares it with the bytes
  read, stops and reports half of the data.\<close>

theorem file_read_at_one_short:
  assumes "script f = [Sys_cap m]" and "0 < m" and "m < sz" and "off + sz \<le> length (content f)"
  shows "fst (file_read_at f sz off) = Inr (take (if 2 * m = sz then m else sz) (drop off (content f)))"
proof -
  let ?bs = "take m (drop off (content f))"
  let ?g = "f\<lparr>script := []\<rparr>"
  have len: "length ?bs = m" using assms by simp
  then have step: "file_read_at f sz off = file_read_loop ?g (sz - m) (off + m) ?bs"
    using assms by (auto simp: file_read_at_def file_read_loop.simps [of f] pread_def next_cap_def map_sum_def)
  show ?thesis
  proof (cases "2 * m = sz")
    case True
    with len have "length ?bs = sz - m" by simp
    with step True show ?thesis by (simp add: file_read_loop.simps [of ?g])
  next
    case False
    have "fst (file_read_loop ?g (sz - m) (off + m) ?bs) =
        Inr (?bs @ take (sz - m) (drop (off + m) (content ?g)))"
      using assms len False by (intro file_read_tail) auto
    also have "?bs @ take (sz - m) (drop (off + m) (content ?g)) = take (m + (sz - m)) (drop off (content f))"
      unfolding take_add by (simp add: add.commute)
    finally show ?thesis using step False assms(3) by simp
  qed
qed

theorem file_read_at_one_short_witness:
  "fst (file_read_at \<lparr>content = [1, 2, 3, 4], script = [Sys_cap 2]\<rparr> 4 0) = Inr [1, 2]"
  using file_read_at_one_short [of "\<lparr>content = [1, 2, 3, 4], script = [Sys_cap 2]\<rparr>" 2 4 0] by simp

end
