(* ===== verification/Layout.thy ===== *)
theory Layout
  imports Prelude
begin

text \<open>
  The on-disk layout (\<open>inc/aulsmfs.h\<close>). Every structure is packed and its fields are little endian: a
  record holds their values, an encoder gives the bytes in the order of the declaration and a decoder
  reads them at their offsets. The headers of nodes and of the log are with the code that uses them
  (\<open>CtreeNode\<close>, \<open>Log\<close>).
\<close>

section \<open>Structures\<close>

definition AULSMFS_MAGIC :: u64 where
  "AULSMFS_MAGIC = 0x0A0153F5"

definition AULSMFS_MAJOR :: u64 where
  "AULSMFS_MAJOR = 0"

definition AULSMFS_MINOR :: u64 where
  "AULSMFS_MINOR = 1"

definition AULSMFS_VERSION :: u64 where
  "AULSMFS_VERSION = push_bit 32 AULSMFS_MAJOR OR AULSMFS_MINOR"

definition AULSMFS_GET_MINOR :: "u64 \<Rightarrow> u64" where
  "AULSMFS_GET_MINOR version = version AND 0xffffffff"

definition AULSMFS_GET_MAJOR :: "u64 \<Rightarrow> u64" where
  "AULSMFS_GET_MAJOR version = drop_bit 32 version"

definition AULSMFS_MAX_DISK_TREES :: nat where
  "AULSMFS_MAX_DISK_TREES = 3"

record aulsmfs_ptr =
  ptr_offs :: u64
  ptr_size :: u64
  ptr_csum :: u64

record aulsmfs_ctree =
  ct_ptr :: aulsmfs_ptr
  ct_pages :: "32 word"
  ct_height :: "32 word"

text \<open>\<open>struct aulsmfs_tree\<close> is an array of three \<open>aulsmfs_ctree\<close>.\<close>

type_synonym aulsmfs_tree = "aulsmfs_ctree \<times> aulsmfs_ctree \<times> aulsmfs_ctree"

record aulsmfs_super =
  s_magic :: u64
  s_version :: u64
  s_page_size :: u64
  s_pages :: u64
  s_blockmap :: aulsmfs_tree
  s_rootmap :: aulsmfs_tree
  s_registered_logs :: aulsmfs_ptr
  s_replayed_logs :: aulsmfs_ptr
  s_csum :: u64

definition ptr_enc :: "aulsmfs_ptr \<Rightarrow> byte list" where
  "ptr_enc p = le64_enc (ptr_offs p) @ le64_enc (ptr_size p) @ le64_enc (ptr_csum p)"

definition ptr_dec :: "byte list \<Rightarrow> aulsmfs_ptr" where
  "ptr_dec bs = \<lparr>ptr_offs = le64_dec (buf_get bs 0 8), ptr_size = le64_dec (buf_get bs 8 8),
     ptr_csum = le64_dec (buf_get bs 16 8)\<rparr>"

definition ctree_enc :: "aulsmfs_ctree \<Rightarrow> byte list" where
  "ctree_enc c = ptr_enc (ct_ptr c) @ le32_enc (ct_pages c) @ le32_enc (ct_height c)"

definition ctree_dec :: "byte list \<Rightarrow> aulsmfs_ctree" where
  "ctree_dec bs = \<lparr>ct_ptr = ptr_dec (buf_get bs 0 24), ct_pages = le32_dec (buf_get bs 24 4),
     ct_height = le32_dec (buf_get bs 28 4)\<rparr>"

definition tree_enc :: "aulsmfs_tree \<Rightarrow> byte list" where
  "tree_enc t = (case t of (a, b, c) \<Rightarrow> ctree_enc a @ ctree_enc b @ ctree_enc c)"

definition tree_dec :: "byte list \<Rightarrow> aulsmfs_tree" where
  "tree_dec bs = (ctree_dec (buf_get bs 0 32), ctree_dec (buf_get bs 32 32), ctree_dec (buf_get bs 64 32))"

definition super_enc :: "aulsmfs_super \<Rightarrow> byte list" where
  "super_enc s =
     le64_enc (s_magic s) @ le64_enc (s_version s) @ le64_enc (s_page_size s) @ le64_enc (s_pages s) @
     tree_enc (s_blockmap s) @ tree_enc (s_rootmap s) @
     ptr_enc (s_registered_logs s) @ ptr_enc (s_replayed_logs s) @ le64_enc (s_csum s)"

definition super_dec :: "byte list \<Rightarrow> aulsmfs_super" where
  "super_dec bs =
     \<lparr>s_magic = le64_dec (buf_get bs 0 8), s_version = le64_dec (buf_get bs 8 8),
      s_page_size = le64_dec (buf_get bs 16 8), s_pages = le64_dec (buf_get bs 24 8),
      s_blockmap = tree_dec (buf_get bs 32 96), s_rootmap = tree_dec (buf_get bs 128 96),
      s_registered_logs = ptr_dec (buf_get bs 224 24), s_replayed_logs = ptr_dec (buf_get bs 248 24),
      s_csum = le64_dec (buf_get bs 272 8)\<rparr>"

definition super_size :: nat where
  "super_size = 280"

definition ptr_null :: aulsmfs_ptr where
  "ptr_null = \<lparr>ptr_offs = 0, ptr_size = 0, ptr_csum = 0\<rparr>"

definition ctree_null :: aulsmfs_ctree where
  "ctree_null = \<lparr>ct_ptr = ptr_null, ct_pages = 0, ct_height = 0\<rparr>"

text \<open>The super block that \<open>memset\<close> to zero gives.\<close>

definition super_zero :: aulsmfs_super where
  "super_zero = \<lparr>s_magic = 0, s_version = 0, s_page_size = 0, s_pages = 0,
     s_blockmap = (ctree_null, ctree_null, ctree_null),
     s_rootmap = (ctree_null, ctree_null, ctree_null),
     s_registered_logs = ptr_null, s_replayed_logs = ptr_null, s_csum = 0\<rparr>"

text \<open>What the maps of the file system are to hold: roots, used extents, nodes and directory entries. The
  name of an entry is declared with one byte and runs to the end of the entry.\<close>

record aulsmfs_root =
  rt_id :: u64
  rt_namemap :: aulsmfs_tree
  rt_nodemap :: aulsmfs_tree
  rt_todelmap :: aulsmfs_tree

record aulsmfs_used_extent =
  ue_offs :: u64
  ue_size :: u64
  ue_allocated :: u64
  ue_released :: u64

record aulsmfs_node =
  an_id :: u64
  an_uid :: u64
  an_gid :: u64
  an_perm :: u64
  an_type :: u64
  an_nlink :: u64
  an_size :: u64

record aulsmfs_delayed_node =
  dn_id :: u64

record aulsmfs_entry =
  ae_parent_id :: u64
  ae_child_id :: u64
  ae_size :: "16 word"
  ae_name :: "byte list"

definition root_enc :: "aulsmfs_root \<Rightarrow> byte list" where
  "root_enc r = le64_enc (rt_id r) @ tree_enc (rt_namemap r) @ tree_enc (rt_nodemap r) @ tree_enc (rt_todelmap r)"

definition root_dec :: "byte list \<Rightarrow> aulsmfs_root" where
  "root_dec bs = \<lparr>rt_id = le64_dec (buf_get bs 0 8), rt_namemap = tree_dec (buf_get bs 8 96),
     rt_nodemap = tree_dec (buf_get bs 104 96), rt_todelmap = tree_dec (buf_get bs 200 96)\<rparr>"

definition used_extent_enc :: "aulsmfs_used_extent \<Rightarrow> byte list" where
  "used_extent_enc e = le64_enc (ue_offs e) @ le64_enc (ue_size e) @ le64_enc (ue_allocated e) @ le64_enc (ue_released e)"

definition used_extent_dec :: "byte list \<Rightarrow> aulsmfs_used_extent" where
  "used_extent_dec bs = \<lparr>ue_offs = le64_dec (buf_get bs 0 8), ue_size = le64_dec (buf_get bs 8 8),
     ue_allocated = le64_dec (buf_get bs 16 8), ue_released = le64_dec (buf_get bs 24 8)\<rparr>"

definition inode_enc :: "aulsmfs_node \<Rightarrow> byte list" where
  "inode_enc n = le64_enc (an_id n) @ le64_enc (an_uid n) @ le64_enc (an_gid n) @ le64_enc (an_perm n) @
     le64_enc (an_type n) @ le64_enc (an_nlink n) @ le64_enc (an_size n)"

definition inode_dec :: "byte list \<Rightarrow> aulsmfs_node" where
  "inode_dec bs = \<lparr>an_id = le64_dec (buf_get bs 0 8), an_uid = le64_dec (buf_get bs 8 8),
     an_gid = le64_dec (buf_get bs 16 8), an_perm = le64_dec (buf_get bs 24 8), an_type = le64_dec (buf_get bs 32 8),
     an_nlink = le64_dec (buf_get bs 40 8), an_size = le64_dec (buf_get bs 48 8)\<rparr>"

definition delayed_node_enc :: "aulsmfs_delayed_node \<Rightarrow> byte list" where
  "delayed_node_enc n = le64_enc (dn_id n)"

definition delayed_node_dec :: "byte list \<Rightarrow> aulsmfs_delayed_node" where
  "delayed_node_dec bs = \<lparr>dn_id = le64_dec (buf_get bs 0 8)\<rparr>"

definition dirent_enc :: "aulsmfs_entry \<Rightarrow> byte list" where
  "dirent_enc e = le64_enc (ae_parent_id e) @ le64_enc (ae_child_id e) @ le16_enc (ae_size e) @ ae_name e"

definition dirent_dec :: "byte list \<Rightarrow> aulsmfs_entry" where
  "dirent_dec bs = \<lparr>ae_parent_id = le64_dec (buf_get bs 0 8), ae_child_id = le64_dec (buf_get bs 8 8),
     ae_size = le16_dec (buf_get bs 16 2), ae_name = drop 18 bs\<rparr>"

section \<open>The layout decodes what it encodes\<close>

lemma length_ptr_enc [simp]: "length (ptr_enc p) = 24"
  by (simp add: ptr_enc_def)

lemma length_ctree_enc [simp]: "length (ctree_enc c) = 32"
  by (simp add: ctree_enc_def)

lemma length_tree_enc [simp]: "length (tree_enc t) = 96"
  by (simp add: tree_enc_def split: prod.split)

lemma length_super_enc [simp]: "length (super_enc s) = super_size"
  by (simp add: super_enc_def super_size_def)

lemma ptr_dec_enc [simp]: "ptr_dec (ptr_enc p) = p"
  by (simp add: ptr_dec_def ptr_enc_def)

lemma ctree_dec_enc [simp]: "ctree_dec (ctree_enc c) = c"
  by (simp add: ctree_dec_def ctree_enc_def)

lemma tree_dec_enc [simp]: "tree_dec (tree_enc t) = t"
  by (simp add: tree_dec_def tree_enc_def split: prod.split)

lemma super_dec_enc [simp]: "super_dec (super_enc s) = s"
  by (simp add: super_dec_def super_enc_def)

lemma ptr_enc_dec: "length bs = 24 \<Longrightarrow> ptr_enc (ptr_dec bs) = bs"
  by (simp add: ptr_enc_def ptr_dec_def le64_enc_dec buf_get_join)

lemma ctree_enc_dec: "length bs = 32 \<Longrightarrow> ctree_enc (ctree_dec bs) = bs"
  by (simp add: ctree_enc_def ctree_dec_def le32_enc_dec ptr_enc_dec buf_get_join)

lemma tree_enc_dec: "length bs = 96 \<Longrightarrow> tree_enc (tree_dec bs) = bs"
  by (simp add: tree_enc_def tree_dec_def ctree_enc_dec buf_get_join)

lemma super_enc_dec: "length bs = super_size \<Longrightarrow> super_enc (super_dec bs) = bs"
  by (simp add: super_enc_def super_dec_def super_size_def le64_enc_dec tree_enc_dec ptr_enc_dec
      buf_get_join)

lemma map_entries_dec_enc [simp]:
  "root_dec (root_enc r) = r" "used_extent_dec (used_extent_enc u) = u" "inode_dec (inode_enc n) = n"
  "delayed_node_dec (delayed_node_enc d) = d" "dirent_dec (dirent_enc e) = e"
  by (simp_all add: root_dec_def root_enc_def used_extent_dec_def used_extent_enc_def inode_dec_def inode_enc_def
      delayed_node_dec_def delayed_node_enc_def dirent_dec_def dirent_enc_def)

lemma root_enc_dec: "length bs = 296 \<Longrightarrow> root_enc (root_dec bs) = bs"
  by (simp add: root_enc_def root_dec_def le64_enc_dec tree_enc_dec buf_get_join)

lemma used_extent_enc_dec: "length bs = 32 \<Longrightarrow> used_extent_enc (used_extent_dec bs) = bs"
  by (simp add: used_extent_enc_def used_extent_dec_def le64_enc_dec buf_get_join)

lemma inode_enc_dec: "length bs = 56 \<Longrightarrow> inode_enc (inode_dec bs) = bs"
  by (simp add: inode_enc_def inode_dec_def le64_enc_dec buf_get_join)

lemma dirent_enc_dec: "18 \<le> length bs \<Longrightarrow> dirent_enc (dirent_dec bs) = bs"
  by (simp add: dirent_enc_def dirent_dec_def le64_enc_dec le16_enc_dec buf_get_join_app) (simp add: buf_get_0)

end
