(* ===== verification/Mkfs.thy ===== *)
theory Mkfs
  imports Layout Crc64 FileWrappers
begin

text \<open>
  The program that makes a file system (\<open>mkfs/main.c\<close>): its command line, the check of what it asks
  for and the super block it writes. \<open>getopt_long\<close> and \<open>strtoull\<close> are the C library's; what
  the program uses of them is defined here, the system calls are arguments.
\<close>

record mkfs_config =
  c_bytes :: u64
  c_pages :: u64
  c_page_size :: u64
  c_path :: "string option"

definition mkfs_super :: "mkfs_config \<Rightarrow> aulsmfs_super" where
  "mkfs_super config =
     (let super = super_zero\<lparr>s_magic := AULSMFS_MAGIC, s_version := AULSMFS_VERSION,
            s_page_size := c_page_size config, s_pages := c_pages config\<rparr>
      in super\<lparr>s_csum := crc64 (super_enc super)\<rparr>)"

definition aulsmfs_mkfs :: "mkfs_config \<Rightarrow> vfile \<Rightarrow> (errno + unit) \<times> vfile" where
  "aulsmfs_mkfs config fd = file_write_at fd (super_enc (mkfs_super config)) 0"

definition aulsmfs_config_default :: mkfs_config where
  "aulsmfs_config_default = \<lparr>c_bytes = 0, c_pages = 0, c_page_size = 4096, c_path = None\<rparr>"

text \<open>The descriptor in the configuration is what the functions below pass on as \<open>vfile option\<close>, the open
  file or \<open>None\<close> for -1. \<open>close\<close> gets it at the end: the files closed.\<close>

definition aulsmfs_config_release :: "vfile option \<Rightarrow> vfile list" where
  "aulsmfs_config_release fd = (case fd of None \<Rightarrow> [] | Some fd \<Rightarrow> [fd])"

text \<open>
  The system calls: \<open>open\<close> of a path, \<open>fstat\<close> and \<open>ftruncate\<close> of an open file. Their lengths are of type
  \<open>off_t\<close>, signed 64 bit numbers.
\<close>

record mkfs_sys =
  ms_open :: "string \<Rightarrow> errno + vfile"
  ms_fstat :: "vfile \<Rightarrow> errno + int"
  ms_ftruncate :: "vfile \<Rightarrow> int \<Rightarrow> errno + vfile"

text \<open>The configuration check. The assertions at its head are \<open>None\<close>. The size of the file is signed, the
  sizes of the configuration are not; \<open>ftruncate\<close> gets one converted to a signed number.\<close>

datatype mkfs_error = Open_failed | Size_failed | Disagree | Truncate_failed

definition page_size_valid :: "u64 \<Rightarrow> bool" where
  "page_size_valid ps \<longleftrightarrow> \<not> ps < 512 \<and> ps AND (ps - 1) = 0"

definition aulsmfs_config_check ::
    "mkfs_sys \<Rightarrow> mkfs_config \<Rightarrow> ((mkfs_error + mkfs_config) \<times> vfile option) option" where
  "aulsmfs_config_check sys config =
     (case c_path config of None \<Rightarrow> None | Some path \<Rightarrow>
      if \<not> page_size_valid (c_page_size config) then None
      else Some (case ms_open sys path of Inl e \<Rightarrow> (Inl Open_failed, None) | Inr fd \<Rightarrow>
        (case file_size (ms_fstat sys fd) of Inl e \<Rightarrow> (Inl Size_failed, Some fd) | Inr sz \<Rightarrow>
          if sz < 0 then (Inl Size_failed, Some fd)
          else
          (let bytes = word_of_int sz;
               b0 = (if c_bytes config = 0 \<and> c_pages config = 0 then bytes else c_bytes config);
               b1 = b0 AND NOT (c_page_size config - 1);
               b2 = (if b1 = 0 then c_pages config * c_page_size config else b1);
               p = (if c_pages config = 0 then b2 div c_page_size config else c_pages config);
               config' = config\<lparr>c_bytes := b2, c_pages := p\<rparr>
           in if p * c_page_size config \<noteq> b2 then (Inl Disagree, Some fd)
              else if b2 > bytes then
                (case ms_ftruncate sys fd (sint b2) of
                   Inl e \<Rightarrow> (Inl Truncate_failed, Some fd) | Inr fd' \<Rightarrow> (Inr config', Some fd'))
              else (Inr config', Some fd)))))"

section \<open>The command line\<close>

definition aulsmfs_short_opts :: string where
  "aulsmfs_short_opts = ''s:p:P:h''"

text \<open>Name, whether it takes an argument, and the letter it stands for.\<close>

definition aulsmfs_long_opts :: "(string \<times> bool \<times> char) list" where
  "aulsmfs_long_opts = [(''size'', True, CHR ''s''), (''pages'', True, CHR ''p''), (''page_size'', True, CHR ''P''),
     (''help'', False, CHR ''h'')]"

text \<open>\<open>getopt_long\<close> until it returns -1. A letter is an option if it is in the list, and takes an argument
  if a colon follows it there. A long option may be cut to a prefix that fits one name only. Words that
  are no options stay as arguments, as does everything behind \<open>--\<close>. What is not an option, or misses its
  argument, is \<open>?\<close>.\<close>

fun short_opt :: "string \<Rightarrow> char \<Rightarrow> bool option" where
  "short_opt [] c = None"
| "short_opt (x # xs) c =
     (if x = c \<and> c \<noteq> CHR '':'' then Some (xs \<noteq> [] \<and> hd xs = CHR '':'') else short_opt xs c)"

definition long_opt :: "(string \<times> bool \<times> char) list \<Rightarrow> string \<Rightarrow> (bool \<times> char) option" where
  "long_opt longs name =
     (case map_of longs name of Some opt \<Rightarrow> Some opt
      | None \<Rightarrow> (case filter (\<lambda>(n, _). take (length name) n = name) longs of [(_, opt)] \<Rightarrow> Some opt | _ \<Rightarrow> None))"

text \<open>The first argument is what is left of a word of letters.\<close>

function getopt_long ::
    "string \<Rightarrow> (string \<times> bool \<times> char) list \<Rightarrow> string \<Rightarrow> string list \<Rightarrow> (char \<times> string) list \<times> string list" where
  "getopt_long shorts longs (c # cs) words =
     (case short_opt shorts c of
        None \<Rightarrow> apfst ((#) (CHR ''?'', [])) (getopt_long shorts longs cs words)
      | Some False \<Rightarrow> apfst ((#) (c, [])) (getopt_long shorts longs cs words)
      | Some True \<Rightarrow>
          if cs \<noteq> [] then apfst ((#) (c, cs)) (getopt_long shorts longs [] words)
          else (case words of
             [] \<Rightarrow> ([(CHR ''?'', [])], [])
           | w # words \<Rightarrow> apfst ((#) (c, w)) (getopt_long shorts longs [] words)))"
| "getopt_long shorts longs [] [] = ([], [])"
| "getopt_long shorts longs [] (w # words) =
     (if w = ''--'' then ([], words)
      else if take 2 w = ''--'' then
        (let name = takeWhile ((\<noteq>) (CHR ''='')) (drop 2 w); rest = dropWhile ((\<noteq>) (CHR ''='')) (drop 2 w)
         in case long_opt longs name of
           None \<Rightarrow> apfst ((#) (CHR ''?'', [])) (getopt_long shorts longs [] words)
         | Some (False, c) \<Rightarrow>
             apfst ((#) (if rest = [] then c else CHR ''?'', [])) (getopt_long shorts longs [] words)
         | Some (True, c) \<Rightarrow>
             if rest \<noteq> [] then apfst ((#) (c, tl rest)) (getopt_long shorts longs [] words)
             else (case words of
               [] \<Rightarrow> ([(CHR ''?'', [])], [])
             | a # words \<Rightarrow> apfst ((#) (c, a)) (getopt_long shorts longs [] words)))
      else if take 1 w = ''-'' \<and> tl w \<noteq> [] then getopt_long shorts longs (tl w) words
      else apsnd ((#) w) (getopt_long shorts longs [] words))"
  by pat_completeness auto

termination getopt_long
  by (relation "measures [\<lambda>(_, _, _, ws). length ws, \<lambda>(_, _, cs, _). length cs]") auto

text \<open>\<open>strtoull\<close> with base 0: white space, a sign, the base from the prefix, digits. The value and the
  rest; without digits the rest is the whole text. A value that does not fit is cut to the largest.\<close>

definition digit_value :: "char \<Rightarrow> nat" where
  "digit_value c =
     (let n = of_char c in
      if 48 \<le> n \<and> n \<le> 57 then n - 48 else if 97 \<le> n \<and> n \<le> 122 then n - 87
      else if 65 \<le> n \<and> n \<le> 90 then n - 55 else 36)"

definition is_space :: "char \<Rightarrow> bool" where
  "is_space c \<longleftrightarrow> (let n = of_char c in n = (32 :: nat) \<or> 9 \<le> n \<and> n \<le> 13)"

definition split_sign :: "string \<Rightarrow> bool \<times> string" where
  "split_sign s =
     (if take 1 s = ''-'' then (True, tl s) else if take 1 s = ''+'' then (False, tl s) else (False, s))"

definition split_base :: "string \<Rightarrow> nat \<times> string" where
  "split_base s =
     (if (take 2 s = ''0x'' \<or> take 2 s = ''0X'') \<and> drop 2 s \<noteq> [] \<and> digit_value (hd (drop 2 s)) < 16 then (16, drop 2 s)
      else if take 1 s = ''0'' then (8, s) else (10, s))"

definition digits_value :: "nat \<Rightarrow> string \<Rightarrow> nat" where
  "digits_value base ds = foldl (\<lambda>v d. v * base + digit_value d) 0 ds"

definition strtoull :: "string \<Rightarrow> u64 \<times> string" where
  "strtoull s =
     (case split_sign (dropWhile is_space s) of (neg, t) \<Rightarrow>
      case split_base t of (base, u) \<Rightarrow>
      (let ds = takeWhile (\<lambda>c. digit_value c < base) u; v = digits_value base ds
       in if ds = [] then (0, s)
          else (if 2 ^ 64 \<le> v then - 1 else if neg then - word_of_nat v else word_of_nat v, drop (length ds) u)))"

text \<open>The options of \<open>main\<close>, in the order given. \<open>-h\<close> prints the usage and goes on; what stops the program
  with status 1 is \<open>None\<close>.\<close>

definition mkfs_option :: "mkfs_config \<Rightarrow> char \<times> string \<Rightarrow> mkfs_config option" where
  "mkfs_option config opt =
     (case opt of (c, optarg) \<Rightarrow>
       (case strtoull optarg of (v, endptr) \<Rightarrow>
         if c = CHR ''s'' then (if endptr \<noteq> [] then None else Some (config\<lparr>c_bytes := v\<rparr>))
         else if c = CHR ''p'' then (if endptr \<noteq> [] then None else Some (config\<lparr>c_pages := v\<rparr>))
         else if c = CHR ''P'' then
           (if endptr \<noteq> [] then None
            else if v < 512 \<or> v AND (v - 1) \<noteq> 0 then None
            else Some (config\<lparr>c_page_size := v\<rparr>))
         else if c = CHR ''h'' then Some config
         else None))"

fun mkfs_options :: "mkfs_config \<Rightarrow> (char \<times> string) list \<Rightarrow> mkfs_config option" where
  "mkfs_options config [] = Some config"
| "mkfs_options config (opt # opts) =
     (case mkfs_option config opt of None \<Rightarrow> None | Some config' \<Rightarrow> mkfs_options config' opts)"

text \<open>
  \<open>main\<close>: the options and exactly one argument left for the path; then the check and the super
  block. The exit status, with the files it has closed as it left them; \<open>None\<close> is a failed assertion.
\<close>

definition mkfs_request :: "string list \<Rightarrow> mkfs_config option" where
  "mkfs_request argv =
     (case getopt_long aulsmfs_short_opts aulsmfs_long_opts [] (tl argv) of (opts, args) \<Rightarrow>
      case mkfs_options aulsmfs_config_default opts of None \<Rightarrow> None
      | Some config \<Rightarrow> (case args of [path] \<Rightarrow> Some (config\<lparr>c_path := Some path\<rparr>) | _ \<Rightarrow> None))"

definition mkfs_main :: "mkfs_sys \<Rightarrow> string list \<Rightarrow> (nat \<times> vfile list) option" where
  "mkfs_main sys argv =
     (case mkfs_request argv of None \<Rightarrow> Some (1, [])
      | Some config \<Rightarrow>
          (case aulsmfs_config_check sys config of
             None \<Rightarrow> None
           | Some (Inl e, fd) \<Rightarrow> Some (1, aulsmfs_config_release fd)
           | Some (Inr config', None) \<Rightarrow> None
           | Some (Inr config', Some fd) \<Rightarrow>
               (case aulsmfs_mkfs config' fd of (rc, fd') \<Rightarrow>
                  Some (case rc of Inl e \<Rightarrow> 1 | Inr _ \<Rightarrow> 0, aulsmfs_config_release (Some fd')))))"

section \<open>Numbers on the command line\<close>

text \<open>A number written in decimal is read back.\<close>

definition digit :: "nat \<Rightarrow> char" where
  "digit n = char_of (48 + n)"

fun decimal :: "nat \<Rightarrow> string" where
  "decimal n = (if n < 10 then [digit n] else decimal (n div 10) @ [digit (n mod 10)])"

declare decimal.simps [simp del]

lemma of_char_digit: "n < 10 \<Longrightarrow> of_char (digit n) = 48 + n"
  by (simp add: digit_def)

lemma digit_value_digit [simp]: "n < 10 \<Longrightarrow> digit_value (digit n) = n"
  by (simp add: digit_value_def of_char_digit)

lemma digits_value_simps [simp]:
  "digits_value b [] = 0" "digits_value b (ds @ [d]) = digits_value b ds * b + digit_value d"
  by (simp_all add: digits_value_def)

lemma decimal_digits: "c \<in> set (decimal n) \<Longrightarrow> digit_value c < 10"
  by (induction n rule: decimal.induct) (subst (asm) (2) decimal.simps, auto split: if_splits)

lemma decimal_value [simp]: "digits_value 10 (decimal n) = n"
proof (induction n rule: decimal.induct)
  case (1 n)
  then show ?case
    using digits_value_simps(2) [of 10 "[]" "digit n"] by (subst decimal.simps) simp
qed

lemma decimal_head: "0 < n \<Longrightarrow> \<exists>d cs. decimal n = digit d # cs \<and> 0 < d \<and> d < 10"
proof (induction n rule: decimal.induct)
  case (1 n)
  then show ?case by (subst decimal.simps, cases "n < 10") fastforce+
qed

lemma strtoull_decimal:
  assumes "0 < n" and "n < 2 ^ 64"
  shows "strtoull (decimal n) = (word_of_nat n, [])"
proof -
  obtain d cs where h: "decimal n = digit d # cs" "0 < d" "d < 10" using decimal_head [OF assms(1)] by blast
  have c: "of_char (digit d) = 48 + d" using h(3) by (rule of_char_digit)
  have "digit d \<noteq> CHR ''-''" "digit d \<noteq> CHR ''+''" "digit d \<noteq> CHR ''0''" "\<not> is_space (digit d)"
    using c h(2) by (auto simp: is_space_def)
  then have "split_sign (dropWhile is_space (decimal n)) = (False, decimal n)" "split_base (decimal n) = (10, decimal n)"
    unfolding h(1) by (auto simp: split_sign_def split_base_def)
  moreover have all: "takeWhile (\<lambda>c. digit_value c < 10) (decimal n) = decimal n"
    by (simp add: decimal_digits takeWhile_eq_all_conv)
  moreover have "decimal n \<noteq> []" using h(1) by simp
  ultimately show ?thesis using assms(2) by (simp add: strtoull_def Let_def all)
qed

section \<open>What the check accepts\<close>

lemma config_check_Some:
  "aulsmfs_config_check sys config = Some (Inr config', fd) \<Longrightarrow>
   page_size_valid (c_page_size config) \<and> c_page_size config' = c_page_size config \<and>
   c_pages config' * c_page_size config' = c_bytes config' \<and>
   (\<exists>fd0 sz f. ms_open sys (the (c_path config)) = Inr fd0 \<and> ms_fstat sys fd0 = Inr sz \<and> fd = Some f \<and>
      (c_bytes config' \<le> word_of_int sz \<and> f = fd0 \<or> ms_ftruncate sys fd0 (sint (c_bytes config')) = Inr f))"
  by (auto simp: aulsmfs_config_check_def Let_def file_size_def not_less split: option.splits if_splits sum.splits)

lemma unat_sint: "0 \<le> sint w \<Longrightarrow> unat w = nat (sint w)" for w :: u64
proof -
  assume s: "0 \<le> sint w"
  have "uint w = uint (word_of_int (sint w) :: u64)" by simp
  also have "\<dots> = sint w mod 2 ^ 64" by (simp only: uint_word_of_int) simp
  also have "\<dots> = sint w" using s sint_lt [of w] by simp
  finally show ?thesis by (simp flip: nat_uint_eq)
qed

lemma word_mult_no_overflow:
  "unat (a :: u64) * unat b < 2 ^ 64 \<Longrightarrow> unat (a * b) = unat a * unat b"
  by (simp add: unat_word_ariths)

text \<open>What the configuration check accepts is consistent. The page size is a power of
  two of at least 512, the sizes in bytes and in pages agree (as 64 bit values, and as
  numbers as long as the product does not overflow), and the image is at least that
  large: either it was, or it has been extended to it.\<close>

theorem config_check_consistent:
  assumes "aulsmfs_config_check sys config = Some (Inr config', Some f)"
    and "\<And>f. ms_fstat sys f = Inr (int (length (content f))) \<and> length (content f) < 2 ^ 63"
    and "\<And>f n f'. ms_ftruncate sys f n = Inr f' \<Longrightarrow> int (length (content f')) = n"
  shows "page_size_valid (c_page_size config') \<and> c_pages config' * c_page_size config' = c_bytes config' \<and>
    (unat (c_pages config') * unat (c_page_size config') < 2 ^ 64 \<longrightarrow>
       unat (c_pages config') * unat (c_page_size config') \<le> length (content f))"
proof -
  note c = config_check_Some [OF assms(1)]
  then obtain fd0 sz where "ms_fstat sys fd0 = Inr sz"
    "c_bytes config' \<le> word_of_int sz \<and> f = fd0 \<or> ms_ftruncate sys fd0 (sint (c_bytes config')) = Inr f" by blast
  moreover have "unat (c_bytes config') = length (content f)" if "int (length (content f)) = sint (c_bytes config')"
    using that unat_sint [of "c_bytes config'"] by simp
  ultimately have "unat (c_bytes config') \<le> length (content f)"
    using assms(2) [of fd0] assms(3) by (auto simp: word_le_nat_alt unat_of_nat)
  then show ?thesis using c word_mult_no_overflow by metis
qed

lemma mkfs_option_page_size:
  "mkfs_option config opt = Some config' \<Longrightarrow> page_size_valid (c_page_size config) \<Longrightarrow>
   page_size_valid (c_page_size config')"
  by (auto simp: mkfs_option_def page_size_valid_def split: prod.splits if_splits)

lemma mkfs_options_page_size:
  "mkfs_options config opts = Some config' \<Longrightarrow> page_size_valid (c_page_size config) \<Longrightarrow>
   page_size_valid (c_page_size config')"
  by (induction opts arbitrary: config) (auto split: option.splits dest: mkfs_option_page_size)

lemma mkfs_request_valid:
  assumes "mkfs_request argv = Some config"
  shows "page_size_valid (c_page_size config)" "c_path config \<noteq> None"
proof -
  from assms obtain opts config0 path where o: "mkfs_options aulsmfs_config_default opts = Some config0"
      and c: "config = config0\<lparr>c_path := Some path\<rparr>"
    by (auto simp: mkfs_request_def split: prod.splits option.splits list.splits)
  have "page_size_valid (c_page_size aulsmfs_config_default)"
    by (simp add: page_size_valid_def aulsmfs_config_default_def)
  with o c show "page_size_valid (c_page_size config)" "c_path config \<noteq> None" by (auto dest: mkfs_options_page_size)
qed

lemma mkfs_main_done:
  assumes "mkfs_main sys argv = Some (0, [f])"
  obtains config fd where "aulsmfs_mkfs config fd = (Inr (), f)" and "page_size_valid (c_page_size config)"
  using assms
  by (auto simp: mkfs_main_def aulsmfs_config_release_def
      split: option.splits sum.splits prod.splits dest!: config_check_Some)

text \<open>C35: whatever \<open>mkfs\<close> is given on its command line and whatever the system calls answer, its assertions
  hold (the page size that reaches the check is the default or has been validated), it exits with 0 or 1,
  with 1 if the command line is not accepted or the image cannot be opened, and it has closed the file that it
  has opened.\<close>

theorem mkfs_main_no_assert:
  "\<exists>status closed. mkfs_main sys argv = Some (status, closed) \<and> status \<le> 1 \<and>
    (case mkfs_request argv of None \<Rightarrow> status = 1 \<and> closed = []
     | Some config \<Rightarrow> (case ms_open sys (the (c_path config)) of
         Inl _ \<Rightarrow> status = 1 \<and> closed = [] | Inr _ \<Rightarrow> length closed = 1))"
proof (cases "mkfs_request argv")
  case None
  then show ?thesis by (simp add: mkfs_main_def)
next
  case (Some config)
  from mkfs_request_valid [OF this] Some show ?thesis
    by (auto simp: mkfs_main_def aulsmfs_config_check_def aulsmfs_config_release_def Let_def
        split: option.splits sum.splits prod.splits)
qed

end
