(* ===== verification/Superblock.thy ===== *)
theory Superblock
  imports Mkfs
begin

text \<open>
  The function of the FUSE daemon that reads and checks the super block (\<open>aulsmfs_super_read\<close> in
  \<open>fuse/main.c\<close>), against the program that writes it (\<open>Mkfs\<close>).
\<close>

section \<open>Reading it back (fuse/main.c)\<close>

record fuse_config =
  fc_minor :: u64
  fc_major :: u64
  fc_page_size :: u64
  fc_pages :: u64

datatype super_error = Super_short | Super_magic | Super_csum

definition aulsmfs_super_read :: "fuse_config \<Rightarrow> vfile \<Rightarrow> (super_error + fuse_config) \<times> vfile" where
  "aulsmfs_super_read config fd =
     (case file_read_at fd super_size 0 of
        (Inl e, fd') \<Rightarrow> (Inl Super_short, fd')
      | (Inr bs, fd') \<Rightarrow>
          if length bs \<noteq> super_size then (Inl Super_short, fd')
          else (let super = super_dec bs in
            if s_magic super \<noteq> AULSMFS_MAGIC then (Inl Super_magic, fd')
            else (let csum = s_csum super; super' = super\<lparr>s_csum := 0\<rparr> in
              if csum \<noteq> crc64 (super_enc super') then (Inl Super_csum, fd')
              else (Inr (config\<lparr>fc_minor := AULSMFS_GET_MINOR (s_version super),
                                fc_major := AULSMFS_GET_MAJOR (s_version super),
                                fc_pages := s_pages super,
                                fc_page_size := s_page_size super\<rparr>), fd'))))"

section \<open>What is written can be mounted\<close>

lemma le64_enc_0: "le64_enc 0 = replicate 8 0"
  by (simp add: le64_enc_def le_enc_0)

lemma super_enc_csum_0:
  assumes "length bs = super_size"
  shows "super_enc ((super_dec bs)\<lparr>s_csum := 0\<rparr>) = take 272 bs @ replicate 8 0"
proof -
  have "super_enc ((super_dec bs)\<lparr>s_csum := 0\<rparr>) = buf_get bs 0 272 @ le64_enc 0"
    using assms
    by (simp add: super_enc_def super_dec_def super_size_def le64_enc_dec tree_enc_dec ptr_enc_dec
        buf_get_join_app)
  then show ?thesis by (simp add: buf_get_0 le64_enc_0)
qed

lemma mkfs_super_csum:
  "s_csum (mkfs_super config) = crc64 (super_enc ((mkfs_super config)\<lparr>s_csum := 0\<rparr>))"
  by (simp add: mkfs_super_def Let_def super_zero_def)

lemma mkfs_super_fields [simp]:
  "s_magic (mkfs_super config) = AULSMFS_MAGIC"
  "s_version (mkfs_super config) = AULSMFS_VERSION"
  "s_pages (mkfs_super config) = c_pages config"
  "s_page_size (mkfs_super config) = c_page_size config"
  by (simp_all add: mkfs_super_def Let_def)

lemma version_numbers [simp]:
  "AULSMFS_GET_MINOR AULSMFS_VERSION = AULSMFS_MINOR" "AULSMFS_GET_MAJOR AULSMFS_VERSION = AULSMFS_MAJOR"
  by (simp_all add: AULSMFS_GET_MINOR_def AULSMFS_GET_MAJOR_def AULSMFS_VERSION_def
      AULSMFS_MINOR_def AULSMFS_MAJOR_def)

lemma super_read_ok:
  assumes "script fd = []"
  shows "aulsmfs_super_read config fd =
    (let bs = take super_size (content fd); super = super_dec bs in
     if length bs \<noteq> super_size then (Inl Super_short, fd)
     else if s_magic super \<noteq> AULSMFS_MAGIC then (Inl Super_magic, fd)
     else if s_csum super \<noteq> crc64 (take 272 bs @ replicate 8 0) then (Inl Super_csum, fd)
     else (Inr (config\<lparr>fc_minor := AULSMFS_GET_MINOR (s_version super),
              fc_major := AULSMFS_GET_MAJOR (s_version super),
              fc_pages := s_pages super, fc_page_size := s_page_size super\<rparr>), fd))"
  using assms by (simp add: aulsmfs_super_read_def file_read_at_ok Let_def super_enc_csum_0)

lemma super_read_of_mkfs:
  assumes "aulsmfs_mkfs config fd = (Inr (), fd')" and "script fd' = []"
  shows "aulsmfs_super_read fc fd' =
    (Inr (fc\<lparr>fc_minor := 1, fc_major := 0, fc_pages := c_pages config,
              fc_page_size := c_page_size config\<rparr>), fd')"
proof -
  let ?bs = "super_enc (mkfs_super config)"
  have "content fd' = file_put (content fd) 0 ?bs"
    using file_write_at_spec [OF assms(1) [unfolded aulsmfs_mkfs_def]] by simp
  then have get: "take super_size (content fd') = ?bs"
    using file_put_get [of ?bs 0 "content fd"] by simp
  have "crc64 (take 272 ?bs @ replicate 8 0) = s_csum (mkfs_super config)"
    using super_enc_csum_0 [of ?bs] by (simp add: mkfs_super_csum)
  then show ?thesis
    using assms(2)
    by (simp add: super_read_ok get AULSMFS_MINOR_def AULSMFS_MAJOR_def)
qed

lemma pages_request:
  assumes "0 < n" and "n < 2 ^ 64" and "opt \<in> {''-p'', ''--pages''}" and "take 1 path \<noteq> ''-''"
  shows "mkfs_request [name, opt, decimal n, path] =
    Some (aulsmfs_config_default\<lparr>c_pages := word_of_nat n, c_path := Some path\<rparr>)"
proof -
  have "take 2 path \<noteq> ''--''" "path \<noteq> ''--''" using assms(4) by (cases path; force)+
  then have "getopt_long aulsmfs_short_opts aulsmfs_long_opts [] [opt, decimal n, path] = ([(CHR ''p'', decimal n)], [path])"
    using assms(3,4) by (auto simp: aulsmfs_short_opts_def aulsmfs_long_opts_def long_opt_def)
  then show ?thesis
    using assms(1,2) by (simp add: mkfs_request_def mkfs_option_def strtoull_decimal)
qed

lemma pages_check:
  assumes "0 < n" and "n * 4096 < 2 ^ 63" and "ms_open sys path = Inr fd"
    and "ms_fstat sys fd = Inr (int (length (content fd)))" and "length (content fd) < 2 ^ 63"
    and "length (content fd) < n * 4096 \<longrightarrow> (\<exists>f. ms_ftruncate sys fd (int (n * 4096)) = Inr f \<and>
      length (content f) = n * 4096 \<and> script f = script fd)"
  obtains f where "aulsmfs_config_check sys (aulsmfs_config_default\<lparr>c_pages := word_of_nat n, c_path := Some path\<rparr>) =
      Some (Inr (aulsmfs_config_default\<lparr>c_bytes := word_of_nat (n * 4096), c_pages := word_of_nat n, c_path := Some path\<rparr>), Some f)"
    and "n * 4096 \<le> length (content f)" and "script f = script fd"
proof -
  let ?b = "word_of_nat (n * 4096) :: u64"
  have b: "unat ?b = n * 4096" "unat (word_of_nat (length (content fd)) :: u64) = length (content fd)"
    using assms(2,5) by (simp_all add: unat_of_nat del: of_nat_mult)
  have "sint ?b = int (n * 4096)"
    using assms(2) by (simp add: signed_of_nat signed_take_bit_int_eq_self del: of_nat_mult)
  then obtain f' where t: "length (content fd) < n * 4096 \<Longrightarrow> ms_ftruncate sys fd (sint ?b) = Inr f'"
      "length (content fd) < n * 4096 \<Longrightarrow> length (content f') = n * 4096 \<and> script f' = script fd"
    using assms(6) by auto
  have n: "(word_of_nat n :: u64) \<noteq> 0" using assms(1,2) by (auto simp: word_of_nat_eq_0_iff dvd_def)
  have "aulsmfs_config_check sys (aulsmfs_config_default\<lparr>c_pages := word_of_nat n, c_path := Some path\<rparr>) =
      Some (Inr (aulsmfs_config_default\<lparr>c_bytes := ?b, c_pages := word_of_nat n, c_path := Some path\<rparr>),
        Some (if n * 4096 \<le> length (content fd) then fd else f'))"
    using n t(1) assms(3,4) b not_le by (auto simp: aulsmfs_config_check_def aulsmfs_config_default_def page_size_valid_def
        file_size_def Let_def word_less_nat_alt)
  then show thesis using that t(2) b by (auto split: if_splits)
qed

text \<open>C33: what is asked of \<open>mkfs\<close> is what the daemon gets. Called with a number of pages below \<open>2\<^sup>5\<^sup>1\<close>, in
  decimal, and a path, with a file there of any size that \<open>open\<close>, \<open>fstat\<close> and \<open>pwrite\<close> work on and that
  \<open>ftruncate\<close> extends to these pages if it is smaller, it exits with 0 and leaves an image that has room for
  these pages and whose super block the daemon accepts, with this number of pages of 4096 bytes and version 0.1.\<close>

theorem mkfs_writes_request:
  assumes "0 < n" and "n * 4096 < 2 ^ 63" and "opt \<in> {''-p'', ''--pages''}" and "take 1 path \<noteq> ''-''"
    and "ms_open sys path = Inr fd" and "script fd = []"
    and "ms_fstat sys fd = Inr (int (length (content fd)))" and "length (content fd) < 2 ^ 63"
    and "length (content fd) < n * 4096 \<longrightarrow> (\<exists>f. ms_ftruncate sys fd (int (n * 4096)) = Inr f \<and>
      length (content f) = n * 4096 \<and> script f = script fd)"
  shows "\<exists>f. mkfs_main sys [name, opt, decimal n, path] = Some (0, [f]) \<and> n * 4096 \<le> length (content f) \<and>
    aulsmfs_super_read fc f = (Inr (fc\<lparr>fc_minor := 1, fc_major := 0, fc_pages := word_of_nat n, fc_page_size := 4096\<rparr>), f)"
proof -
  let ?c = "aulsmfs_config_default\<lparr>c_bytes := word_of_nat (n * 4096), c_pages := word_of_nat n, c_path := Some path\<rparr>"
  obtain f where c: "aulsmfs_config_check sys (aulsmfs_config_default\<lparr>c_pages := word_of_nat n, c_path := Some path\<rparr>) =
      Some (Inr ?c, Some f)" and f: "n * 4096 \<le> length (content f)" "script f = []"
    using pages_check [OF assms(1,2,5,7-9)] assms(6) by metis
  obtain f' where w: "aulsmfs_mkfs ?c f = (Inr (), f')" "script f' = []"
    and p: "content f' = file_put (content f) 0 (super_enc (mkfs_super ?c))"
    using file_write_at_ok [OF f(2), of "super_enc (mkfs_super ?c)" 0] by (auto simp: aulsmfs_mkfs_def)
  have r: "mkfs_request [name, opt, decimal n, path] =
      Some (aulsmfs_config_default\<lparr>c_pages := word_of_nat n, c_path := Some path\<rparr>)"
    using assms(2) by (intro pages_request [OF assms(1) _ assms(3,4)]) simp
  have "mkfs_main sys [name, opt, decimal n, path] = Some (0, [f'])"
    using r c w(1) by (simp add: mkfs_main_def aulsmfs_config_release_def)
  moreover have "n * 4096 \<le> length (content f')" using p f(1) by (simp add: file_put_def super_size_def) linarith
  ultimately show ?thesis
    using super_read_of_mkfs [OF w, of fc] by (auto simp: aulsmfs_config_default_def)
qed

text \<open>A system whose only file is empty. As POSIX has it, a negative length is an error.\<close>

definition demo_truncate :: "vfile \<Rightarrow> int \<Rightarrow> errno + vfile" where
  "demo_truncate f n = (if n < 0 then Inl (Errno 22)
     else Inr (f\<lparr>content := take (nat n) (content f @ replicate (nat n) 0)\<rparr>))"

definition demo_sys :: mkfs_sys where
  "demo_sys = \<lparr>ms_open = \<lambda>_. Inr \<lparr>content = [], script = []\<rparr>, ms_fstat = \<lambda>f. Inr (int (length (content f))),
     ms_ftruncate = demo_truncate\<rparr>"

theorem mkfs_writes_request_witness:
  "\<exists>f. mkfs_main demo_sys [''mkfs'', ''--pages'', decimal 10, ''img''] = Some (0, [f]) \<and> 40960 \<le> length (content f) \<and>
    aulsmfs_super_read \<lparr>fc_minor = 9, fc_major = 9, fc_page_size = 0, fc_pages = 0\<rparr> f =
      (Inr \<lparr>fc_minor = 1, fc_major = 0, fc_page_size = 4096, fc_pages = 10\<rparr>, f)"
  using mkfs_writes_request [of 10 "''--pages''" "''img''" demo_sys "\<lparr>content = [], script = []\<rparr>" "''mkfs''"
      "\<lparr>fc_minor = 9, fc_major = 9, fc_page_size = 0, fc_pages = 0\<rparr>"]
  by (simp add: demo_sys_def demo_truncate_def)

section \<open>What the check lets through\<close>

text \<open>The overflow that the check does not see. Asked for \<open>2\<^sup>5\<^sup>2\<close> pages of 4096 bytes
  on an empty image, the size in bytes wraps to 0, which agrees with the wrapped product;
  the check succeeds without extending the image, and the super block promises \<open>2\<^sup>5\<^sup>2\<close>
  pages.\<close>

theorem config_check_overflow:
  "aulsmfs_config_check demo_sys (aulsmfs_config_default\<lparr>c_pages := 2 ^ 52, c_path := Some path\<rparr>) =
   Some (Inr (aulsmfs_config_default\<lparr>c_pages := 2 ^ 52, c_path := Some path\<rparr>), Some \<lparr>content = [], script = []\<rparr>)"
  by (simp add: aulsmfs_config_check_def aulsmfs_config_default_def page_size_valid_def file_size_def demo_sys_def)

text \<open>A size of less than a page is rounded down to 0, and \<open>mkfs\<close> makes a file system of no pages.\<close>

theorem config_check_no_pages:
  "aulsmfs_config_check demo_sys (aulsmfs_config_default\<lparr>c_bytes := 100, c_path := Some path\<rparr>) =
   Some (Inr (aulsmfs_config_default\<lparr>c_path := Some path\<rparr>), Some \<lparr>content = [], script = []\<rparr>)"
  by (simp add: aulsmfs_config_check_def aulsmfs_config_default_def page_size_valid_def file_size_def demo_sys_def)

text \<open>A size from \<open>2\<^sup>6\<^sup>3\<close> bytes on reaches \<open>ftruncate\<close> as a negative length, and is refused there.\<close>

theorem config_check_negative:
  "aulsmfs_config_check demo_sys (aulsmfs_config_default\<lparr>c_bytes := 2 ^ 63, c_path := Some path\<rparr>) =
   Some (Inl Truncate_failed, Some \<lparr>content = [], script = []\<rparr>)"
  by (simp add: aulsmfs_config_check_def aulsmfs_config_default_def page_size_valid_def file_size_def demo_sys_def
      demo_truncate_def)

section \<open>Damage is detected\<close>

lemma le64_dec_inj: "length as = 8 \<Longrightarrow> length bs = 8 \<Longrightarrow> le64_dec as = le64_dec bs \<Longrightarrow> as = bs"
  by (metis le64_enc_dec)

lemma take_window:
  "length p + length w \<le> n \<Longrightarrow> take n (p @ w @ s) = p @ w @ take (n - length p - length w) s"
  by simp

text \<open>C34: damage to the super block is noticed. If an image mounts and up to eight consecutive bytes of its super
  block are changed, all of them among the 272 bytes of the fields or all of them among the 8 bytes of the stored
  checksum, the changed image is refused. (A change across the boundary at byte 272 may alter both alike.) The
  system calls that read the super block succeed in full.\<close>

theorem super_damage_detected:
  assumes "script fd = []" and "script fd' = []"
    and "fst (aulsmfs_super_read fc fd) = Inr fc1"
    and "content fd = p @ w @ s" and "content fd' = p @ w' @ s"
    and "length w = length w'" and "length w \<le> 8" and "w \<noteq> w'"
    and "length p + length w \<le> 272 \<or> 272 \<le> length p \<and> length p + length w \<le> super_size"
  shows "\<exists>e. fst (aulsmfs_super_read fc fd') = Inl e"
proof -
  let ?bs = "take super_size (content fd)" and ?bs' = "take super_size (content fd')"
  let ?crc = "\<lambda>bs. crc64 (take 272 bs @ replicate 8 0)"
  have ok: "length ?bs = super_size" "s_csum (super_dec ?bs) = ?crc ?bs"
    using assms(1,3) by (auto simp: super_read_ok Let_def split: if_splits)
  have win: "?bs = p @ w @ take (super_size - length p - length w) s"
      "?bs' = p @ w' @ take (super_size - length p - length w) s"
    using assms(4-6,9) by (auto simp: take_window super_size_def)
  have "s_csum (super_dec ?bs') \<noteq> ?crc ?bs'"
  proof (cases "length p + length w \<le> 272")
    case True
    let ?t = "take (272 - length p - length w) (take (super_size - length p - length w) s) @ replicate 8 0"
    have "take 272 ?bs @ replicate 8 0 = p @ w @ ?t" "take 272 ?bs' @ replicate 8 0 = p @ w' @ ?t"
      using win True assms(6) by (simp_all add: take_window del: take_take)
    then have "?crc ?bs \<noteq> ?crc ?bs'"
      using crc64_burst [OF assms(6-8)] by (simp add: crc64_def)
    moreover have "s_csum (super_dec ?bs') = s_csum (super_dec ?bs)"
      using win True assms(6) by (simp add: super_dec_def)
    ultimately show ?thesis using ok(2) by simp
  next
    case False
    then have p: "272 \<le> length p" using assms(9) by simp
    have "length ?bs' = length ?bs" unfolding win using assms(6) by simp
    then have len: "length (buf_get ?bs 272 8) = 8" "length (buf_get ?bs' 272 8) = 8"
      using ok(1) by (simp_all add: super_size_def)
    have eq: "take 272 ?bs = take 272 ?bs'" unfolding win using p by simp
    have "?bs \<noteq> ?bs'" unfolding win using assms(6,8) by simp
    moreover have "?bs = take 272 ?bs @ buf_get ?bs 272 8" "?bs' = take 272 ?bs' @ buf_get ?bs' 272 8"
      using ok(1) \<open>length ?bs' = length ?bs\<close> by (simp_all only: take_buf_get super_size_def)
    ultimately have "buf_get ?bs 272 8 \<noteq> buf_get ?bs' 272 8" using eq by metis
    then have "s_csum (super_dec ?bs') \<noteq> s_csum (super_dec ?bs)"
      using len le64_dec_inj by (metis (no_types) super_dec_def aulsmfs_super.select_convs(9))
    then show ?thesis using ok(2) eq by simp
  qed
  then show ?thesis
    using assms(2) by (auto simp: super_read_ok Let_def)
qed

theorem super_damage_detected_witness:
  "\<exists>b rest e. super_enc (mkfs_super aulsmfs_config_default) = b # rest \<and> fst (aulsmfs_super_read
     \<lparr>fc_minor = 0, fc_major = 0, fc_page_size = 0, fc_pages = 0\<rparr> \<lparr>content = (b + 1) # rest, script = []\<rparr>) = Inl e"
proof -
  let ?c = "aulsmfs_config_default" and ?fc = "\<lparr>fc_minor = 0, fc_major = 0, fc_page_size = 0, fc_pages = 0\<rparr>"
    and ?fd = "\<lparr>content = [], script = []\<rparr>"
  obtain fd where w: "aulsmfs_mkfs ?c ?fd = (Inr (), fd)" "script fd = []"
      "content fd = file_put [] 0 (super_enc (mkfs_super ?c))"
    using file_write_at_ok [of ?fd "super_enc (mkfs_super ?c)" 0] by (auto simp: aulsmfs_mkfs_def)
  then have len: "length (content fd) = super_size"
    using length_file_put [of "super_enc (mkfs_super ?c)" "[]" 0]
    by (auto simp: super_size_def length_0_conv [symmetric] simp del: length_0_conv)
  then obtain b rest where c: "content fd = [] @ [b] @ rest"
    by (cases "content fd") (auto simp: super_size_def)
  let ?fd' = "\<lparr>content = [] @ [b + 1] @ rest, script = []\<rparr>"
  have "\<exists>e. fst (aulsmfs_super_read ?fc ?fd') = Inl e"
    by (rule super_damage_detected [of fd ?fd' ?fc _ "[]" "[b]" rest "[b + 1]"])
       (use w c super_read_of_mkfs [OF w(1,2)] in auto)
  moreover have "content fd = super_enc (mkfs_super ?c)"
    using w(3) by (simp add: file_put_def super_size_def)
  ultimately show ?thesis using c by (intro exI [of _ b] exI [of _ rest]) simp
qed

end
