(* ===== verification/RbTree.thy ===== *)
theory RbTree
  imports Prelude
begin

text \<open>
  The red-black tree of \<open>util/rbtree.c\<close>, at the level of its pointers. Nodes live in
  a heap, a map from 64 bit addresses; address 0 is NULL. As in C, the colour of a node
  is the lowest bit of the word that also holds the address of its parent, and nodes are
  embedded at the start of larger structures: the record is extensible, and everything
  here works for any extension. Reading or writing through NULL or an address that is not
  allocated is \<open>None\<close>.
\<close>

section \<open>Nodes and the heap (inc/rbtree.h)\<close>

type_synonym ptr = u64

record rb_node =
  nleft :: ptr
  nright :: ptr
  nparent :: u64

type_synonym 'x heap = "ptr \<rightharpoonup> 'x rb_node_scheme"

definition load :: "'x heap \<Rightarrow> ptr \<Rightarrow> 'x rb_node_scheme option" where
  "load h p = (if p = 0 then None else h p)"

definition modify ::
    "'x heap \<Rightarrow> ptr \<Rightarrow> ('x rb_node_scheme \<Rightarrow> 'x rb_node_scheme) \<Rightarrow> 'x heap option" where
  "modify h p f = (case load h p of None \<Rightarrow> None | Some n \<Rightarrow> Some (h(p \<mapsto> f n)))"

definition RED :: u64 where
  "RED = 0"

definition BLACK :: u64 where
  "BLACK = 1"

definition rb_color :: "'x rb_node_scheme \<Rightarrow> u64" where
  "rb_color node = nparent node AND 1"

definition rb_set_color :: "u64 \<Rightarrow> 'x rb_node_scheme \<Rightarrow> 'x rb_node_scheme" where
  "rb_set_color color node = node\<lparr>nparent := (nparent node AND NOT 1) OR color\<rparr>"

definition rb_set_red :: "'x rb_node_scheme \<Rightarrow> 'x rb_node_scheme" where
  "rb_set_red node = rb_set_color RED node"

definition rb_set_black :: "'x rb_node_scheme \<Rightarrow> 'x rb_node_scheme" where
  "rb_set_black node = rb_set_color BLACK node"

definition rb_parent :: "'x rb_node_scheme \<Rightarrow> ptr" where
  "rb_parent node = nparent node AND NOT 1"

definition rb_set_parent :: "ptr \<Rightarrow> 'x rb_node_scheme \<Rightarrow> 'x rb_node_scheme" where
  "rb_set_parent parent child = child\<lparr>nparent := (nparent child AND 1) OR parent\<rparr>"

definition rb_red :: "'x heap \<Rightarrow> ptr \<Rightarrow> bool option" where
  "rb_red h node =
     (if node = 0 then Some False else map_option (\<lambda>n. rb_color n = RED) (load h node))"

definition rb_black :: "'x heap \<Rightarrow> ptr \<Rightarrow> bool option" where
  "rb_black h node = map_option Not (rb_red h node)"

text \<open>
  The code that makes the parent of a node (or the root) point to another node: it stands
  at the end of both rotations, of \<open>rb_swap_nodes\<close> and of \<open>rb_erase\<close>.
\<close>

definition rb_replace_child :: "ptr \<Rightarrow> ptr \<Rightarrow> ptr \<Rightarrow> 'x heap \<Rightarrow> ptr \<Rightarrow> ('x heap \<times> ptr) option" where
  "rb_replace_child p old new h root =
     (if p \<noteq> 0 then do {
        np \<leftarrow> load h p;
        h \<leftarrow> (if nleft np = old then modify h p (\<lambda>n. n\<lparr>nleft := new\<rparr>)
             else modify h p (\<lambda>n. n\<lparr>nright := new\<rparr>));
        Some (h, root)
      } else Some (h, new))"

text \<open>\<open>if (child) rb_set_parent(child, parent)\<close>, as after every change of a link.\<close>

definition rb_adopt :: "ptr \<Rightarrow> ptr \<Rightarrow> 'x heap \<Rightarrow> 'x heap option" where
  "rb_adopt child parent h =
     (if child \<noteq> 0 then modify h child (rb_set_parent parent) else Some h)"

text \<open>\<open>rb_link\<close>: the new node, and the link that is to point to it: the root, or the
  left or right link of the parent.\<close>

datatype side = L | R

definition rb_link :: "ptr \<Rightarrow> ptr \<Rightarrow> side \<Rightarrow> 'x heap \<Rightarrow> ptr \<Rightarrow> ('x heap \<times> ptr) option" where
  "rb_link node parent plink h root = do {
     h \<leftarrow> modify h node (\<lambda>n. n\<lparr>nparent := parent\<rparr>);
     h \<leftarrow> modify h node (\<lambda>n. n\<lparr>nleft := 0, nright := 0\<rparr>);
     (if parent = 0 then Some (h, node)
      else do {
        h \<leftarrow> modify h parent (\<lambda>n. case plink of L \<Rightarrow> n\<lparr>nleft := node\<rparr> | R \<Rightarrow> n\<lparr>nright := node\<rparr>);
        Some (h, root) })
   }"

section \<open>The operations (util/rbtree.c)\<close>

definition rb_swap_nodes :: "ptr \<Rightarrow> ptr \<Rightarrow> 'x heap \<Rightarrow> ptr \<Rightarrow> ('x heap \<times> ptr) option" where
  "rb_swap_nodes old new h root = do {
     nold \<leftarrow> load h old;
     let parent = rb_parent nold;
     h \<leftarrow> modify h new (\<lambda>n. n\<lparr>nleft := nleft nold, nright := nright nold, nparent := nparent nold\<rparr>);
     h \<leftarrow> rb_adopt (nleft nold) new h;
     h \<leftarrow> rb_adopt (nright nold) new h;
     rb_replace_child parent old new h root
   }"

definition rb_rotate_left :: "ptr \<Rightarrow> 'x heap \<Rightarrow> ptr \<Rightarrow> ('x heap \<times> ptr) option" where
  "rb_rotate_left x h root = do {
     nx \<leftarrow> load h x;
     let p = rb_parent nx;
     let r = nright nx;
     nr \<leftarrow> load h r;
     h \<leftarrow> modify h x (\<lambda>n. n\<lparr>nright := nleft nr\<rparr>);
     h \<leftarrow> rb_adopt (nleft nr) x h;
     h \<leftarrow> modify h r (\<lambda>n. n\<lparr>nleft := x\<rparr>);
     h \<leftarrow> modify h r (rb_set_parent p);
     (h, root) \<leftarrow> rb_replace_child p x r h root;
     h \<leftarrow> modify h x (rb_set_parent r);
     Some (h, root)
   }"

definition rb_rotate_right :: "ptr \<Rightarrow> 'x heap \<Rightarrow> ptr \<Rightarrow> ('x heap \<times> ptr) option" where
  "rb_rotate_right x h root = do {
     nx \<leftarrow> load h x;
     let p = rb_parent nx;
     let l = nleft nx;
     nl \<leftarrow> load h l;
     h \<leftarrow> modify h x (\<lambda>n. n\<lparr>nleft := nright nl\<rparr>);
     h \<leftarrow> rb_adopt (nright nl) x h;
     h \<leftarrow> modify h l (\<lambda>n. n\<lparr>nright := x\<rparr>);
     h \<leftarrow> modify h l (rb_set_parent p);
     (h, root) \<leftarrow> rb_replace_child p x l h root;
     h \<leftarrow> modify h x (rb_set_parent l);
     Some (h, root)
   }"

partial_function (option) rb_rightmost_from :: "'x heap \<Rightarrow> ptr \<Rightarrow> ptr option" where
  "rb_rightmost_from h node = do {
     n \<leftarrow> load h node;
     (if nright n \<noteq> 0 then rb_rightmost_from h (nright n) else Some node)
   }"

partial_function (option) rb_leftmost_from :: "'x heap \<Rightarrow> ptr \<Rightarrow> ptr option" where
  "rb_leftmost_from h node = do {
     n \<leftarrow> load h node;
     (if nleft n \<noteq> 0 then rb_leftmost_from h (nleft n) else Some node)
   }"

definition rb_rightmost :: "'x heap \<Rightarrow> ptr \<Rightarrow> ptr option" where
  "rb_rightmost h root = (if root = 0 then Some 0 else rb_rightmost_from h root)"

definition rb_leftmost :: "'x heap \<Rightarrow> ptr \<Rightarrow> ptr option" where
  "rb_leftmost h root = (if root = 0 then Some 0 else rb_leftmost_from h root)"

partial_function (option) rb_next_climb :: "'x heap \<Rightarrow> ptr \<Rightarrow> ptr \<Rightarrow> ptr option" where
  "rb_next_climb h node p =
     (if p = 0 then Some 0
      else do {
        np \<leftarrow> load h p;
        (if nright np = node then rb_next_climb h p (rb_parent np) else Some p) })"

definition rb_next :: "'x heap \<Rightarrow> ptr \<Rightarrow> ptr option" where
  "rb_next h node =
     (if node = 0 then Some 0
      else do {
        n \<leftarrow> load h node;
        (if nright n \<noteq> 0 then rb_leftmost h (nright n) else rb_next_climb h node (rb_parent n)) })"

partial_function (option) rb_prev_climb :: "'x heap \<Rightarrow> ptr \<Rightarrow> ptr \<Rightarrow> ptr option" where
  "rb_prev_climb h node p =
     (if p = 0 then Some 0
      else do {
        np \<leftarrow> load h p;
        (if nleft np = node then rb_prev_climb h p (rb_parent np) else Some p) })"

definition rb_prev :: "'x heap \<Rightarrow> ptr \<Rightarrow> ptr option" where
  "rb_prev h node =
     (if node = 0 then Some 0
      else do {
        n \<leftarrow> load h node;
        (if nleft n \<noteq> 0 then rb_rightmost h (nleft n) else rb_prev_climb h node (rb_parent n)) })"

partial_function (option) rb_insert_loop :: "ptr \<Rightarrow> ptr \<Rightarrow> 'x heap \<Rightarrow> ptr \<Rightarrow> ('x heap \<times> ptr) option" where
  "rb_insert_loop node p h root = do {
     red \<leftarrow> rb_red h p;
     (if \<not> red then Some (h, root)
      else do {
        np \<leftarrow> load h p;
        let g = rb_parent np;
        ng \<leftarrow> load h g;
        (if p = nleft ng then do {
           let r = nright ng;
           rr \<leftarrow> rb_red h r;
           (if rr then do {
              h \<leftarrow> modify h g rb_set_red;
              h \<leftarrow> modify h p rb_set_black;
              h \<leftarrow> modify h r rb_set_black;
              ng \<leftarrow> load h g;
              rb_insert_loop g (rb_parent ng) h root
            } else do {
              (h, root, p) \<leftarrow> (if node = nright np then do {
                  (h, root) \<leftarrow> rb_rotate_left p h root;
                  Some (h, root, node)
                } else Some (h, root, p));
              (h, root) \<leftarrow> rb_rotate_right g h root;
              h \<leftarrow> modify h p rb_set_black;
              h \<leftarrow> modify h g rb_set_red;
              Some (h, root)
            })
         } else do {
           let l = nleft ng;
           lr \<leftarrow> rb_red h l;
           (if lr then do {
              h \<leftarrow> modify h g rb_set_red;
              h \<leftarrow> modify h p rb_set_black;
              h \<leftarrow> modify h l rb_set_black;
              ng \<leftarrow> load h g;
              rb_insert_loop g (rb_parent ng) h root
            } else do {
              (h, root, p) \<leftarrow> (if node = nleft np then do {
                  (h, root) \<leftarrow> rb_rotate_right p h root;
                  Some (h, root, node)
                } else Some (h, root, p));
              (h, root) \<leftarrow> rb_rotate_left g h root;
              h \<leftarrow> modify h p rb_set_black;
              h \<leftarrow> modify h g rb_set_red;
              Some (h, root)
            })
         })
      })
   }"

definition rb_insert :: "ptr \<Rightarrow> 'x heap \<Rightarrow> ptr \<Rightarrow> ('x heap \<times> ptr) option" where
  "rb_insert node h root = do {
     n \<leftarrow> load h node;
     (h, root) \<leftarrow> rb_insert_loop node (rb_parent n) h root;
     h \<leftarrow> modify h root rb_set_black;
     Some (h, root)
   }"

end
