(* ===== verification/RbShape.thy ===== *)
theory RbShape
  imports RbTree
begin

text \<open>
  What a heap of red-black nodes means: the tree that hangs at a pointer, and the context
  (the path to the root with the subtrees beside it) above it. The lemmas say what a write
  to one node does to both, what the shared pieces of \<open>rbtree.c\<close> do to them, and that a
  rotation rotates.
\<close>

section \<open>The colour bit\<close>

definition aligned :: "ptr \<Rightarrow> bool" where
  "aligned p \<longleftrightarrow> \<not> bit p 0"

datatype rcolor = Red | Black

lemma rcolor_neq [simp]: "(c \<noteq> Black) = (c = Red)" "(c \<noteq> Red) = (c = Black)"
  by (cases c; simp)+

fun cbit :: "rcolor \<Rightarrow> u64" where
  "cbit Red = RED"
| "cbit Black = BLACK"

text \<open>A node with given links, parent, colour and payload.\<close>

definition mk_node :: "ptr \<Rightarrow> ptr \<Rightarrow> ptr \<Rightarrow> rcolor \<Rightarrow> 'x \<Rightarrow> 'x rb_node_scheme" where
  "mk_node l r par c x = \<lparr>nleft = l, nright = r, nparent = par OR cbit c, \<dots> = x\<rparr>"

lemma aligned_0 [simp]: "aligned 0"
  by (simp add: aligned_def)

lemma bit_cbit: "bit (cbit c) i \<longleftrightarrow> c = Black \<and> i = 0"
  by (cases c) (auto simp: RED_def BLACK_def bit_1_iff)

lemma cbit_inj [simp]: "cbit c = cbit d \<longleftrightarrow> c = d"
  by (cases c; cases d) (auto simp: RED_def BLACK_def)

lemma cbit_eq_RED [simp]: "cbit c = RED \<longleftrightarrow> c = Red"
  by (cases c) (auto simp: RED_def BLACK_def)

lemma mk_node_sel [simp]:
  "nleft (mk_node l r p c x) = l" "nright (mk_node l r p c x) = r"
  "rb_node.more (mk_node l r p c x) = x"
  by (simp_all add: mk_node_def)

lemma mk_node_upd [simp]:
  "(mk_node l r p c x)\<lparr>nleft := l'\<rparr> = mk_node l' r p c x"
  "(mk_node l r p c x)\<lparr>nright := r'\<rparr> = mk_node l r' p c x"
  by (simp_all add: mk_node_def)

lemma rb_parent_mk [simp]: "aligned p \<Longrightarrow> rb_parent (mk_node l r p c x) = p"
  by (rule bit_word_eqI)
     (auto simp: rb_parent_def mk_node_def bit_and_iff bit_not_iff bit_or_iff bit_cbit bit_1_iff aligned_def
       intro: gr0I)

lemma rb_color_mk [simp]: "aligned p \<Longrightarrow> rb_color (mk_node l r p c x) = cbit c"
  by (rule bit_word_eqI)
     (auto simp: rb_color_def mk_node_def bit_and_iff bit_or_iff bit_cbit bit_1_iff aligned_def
       intro: gr0I)

lemma rb_set_parent_mk [simp]:
  "aligned p \<Longrightarrow> rb_set_parent q (mk_node l r p c x) = mk_node l r q c x"
proof -
  assume "aligned p"
  then have "(p OR cbit c) AND 1 OR q = q OR cbit c"
    by (intro bit_word_eqI) (auto simp: bit_and_iff bit_or_iff bit_cbit bit_1_iff aligned_def
       intro: gr0I)
  then show ?thesis by (simp add: rb_set_parent_def mk_node_def)
qed

lemma rb_set_color_mk [simp]:
  "aligned p \<Longrightarrow> rb_set_color (cbit d) (mk_node l r p c x) = mk_node l r p d x"
proof -
  assume "aligned p"
  then have "(p OR cbit c) AND NOT 1 OR cbit d = p OR cbit d"
    by (intro bit_word_eqI) (auto simp: bit_and_iff bit_not_iff bit_or_iff bit_cbit bit_1_iff aligned_def
       intro: gr0I)
  then show ?thesis by (simp add: rb_set_color_def mk_node_def)
qed

lemma rb_set_red_mk [simp]: "aligned p \<Longrightarrow> rb_set_red (mk_node l r p c x) = mk_node l r p Red x"
  using rb_set_color_mk [of p Red l r c x] by (simp add: rb_set_red_def)

lemma rb_set_black_mk [simp]: "aligned p \<Longrightarrow> rb_set_black (mk_node l r p c x) = mk_node l r p Black x"
  using rb_set_color_mk [of p Black l r c x] by (simp add: rb_set_black_def)

text \<open>C38: the word of a node that holds both the colour and the address of the parent is a pair of two
  independent fields, as long as addresses are even: reading the colour gives red or black and reading
  the parent an even address, for any content; setting one field is read back and keeps the other.\<close>

theorem rb_tag_fields:
  assumes "aligned p"
  shows "(rb_color n = RED \<or> rb_color n = BLACK) \<and> aligned (rb_parent n) \<and>
    rb_parent (rb_set_parent p n) = p \<and> rb_color (rb_set_parent p n) = rb_color n \<and>
    rb_color (rb_set_red n) = RED \<and> rb_color (rb_set_black n) = BLACK \<and>
    rb_parent (rb_set_red n) = rb_parent n \<and> rb_parent (rb_set_black n) = rb_parent n"
proof -
  have bits: "bit (1 :: u64) i \<longleftrightarrow> i = 0" for i by (simp add: bit_1_iff)
  note fields = rb_color_def rb_parent_def rb_set_parent_def rb_set_red_def rb_set_black_def rb_set_color_def RED_def BLACK_def
  have "rb_color n = (if bit (nparent n) 0 then BLACK else RED)"
    by (rule bit_word_eqI) (auto simp: fields bit_and_iff bits intro: gr0I)
  moreover have "aligned (rb_parent n)" by (simp add: fields aligned_def bit_and_iff bit_not_iff)
  moreover have "rb_parent (rb_set_parent p n) = p"
    by (rule bit_word_eqI) (use assms in \<open>auto simp: fields aligned_def bit_and_iff bit_or_iff bit_not_iff bits intro: gr0I\<close>)
  moreover have "rb_color (rb_set_parent p n) = rb_color n"
    by (rule bit_word_eqI) (use assms in \<open>auto simp: fields aligned_def bit_and_iff bit_or_iff bits\<close>)
  moreover have "rb_color (rb_set_red n) = RED" "rb_color (rb_set_black n) = BLACK"
    by (rule bit_word_eqI, auto simp: fields bit_and_iff bit_or_iff bit_not_iff bits)+
  moreover have "rb_parent (rb_set_red n) = rb_parent n" "rb_parent (rb_set_black n) = rb_parent n"
    by (rule bit_word_eqI, auto simp: fields bit_and_iff bit_or_iff bit_not_iff bits)+
  ultimately show ?thesis by auto
qed

theorem rb_tag_fields_witness:
  "rb_parent (rb_set_parent 16 \<lparr>nleft = 0, nright = 0, nparent = 33\<rparr>) = 16 \<and>
   rb_color (rb_set_parent 16 \<lparr>nleft = 0, nright = 0, nparent = 33\<rparr>) = rb_color \<lparr>nleft = 0, nright = 0, nparent = 33\<rparr>"
proof -
  have "aligned 16" by (simp add: aligned_def)
  from rb_tag_fields [OF this] show ?thesis by blast
qed

section \<open>Trees and contexts\<close>

datatype 'x rtree = Leaf | Node "'x rtree" ptr rcolor 'x "'x rtree"

text \<open>A frame is a node on the path to the root with the subtree on its other side.\<close>

datatype 'x frame = InL ptr rcolor 'x "'x rtree" | InR "'x rtree" ptr rcolor 'x

type_synonym 'x rctx = "'x frame list"

fun rootp :: "'x rtree \<Rightarrow> ptr" where
  "rootp Leaf = 0"
| "rootp (Node l a c x r) = a"

fun tcolor :: "'x rtree \<Rightarrow> rcolor" where
  "tcolor Leaf = Black"
| "tcolor (Node l a c x r) = c"

fun paint :: "rcolor \<Rightarrow> 'x rtree \<Rightarrow> 'x rtree" where
  "paint d Leaf = Leaf"
| "paint d (Node l a c x r) = Node l a d x r"

fun inord :: "'x rtree \<Rightarrow> (ptr \<times> 'x) list" where
  "inord Leaf = []"
| "inord (Node l a c x r) = inord l @ (a, x) # inord r"

fun addrs :: "'x rtree \<Rightarrow> ptr list" where
  "addrs Leaf = []"
| "addrs (Node l a c x r) = addrs l @ a # addrs r"

fun faddr :: "'x frame \<Rightarrow> ptr" where
  "faddr (InL a c x r) = a"
| "faddr (InR l a c x) = a"

fun fcolor :: "'x frame \<Rightarrow> rcolor" where
  "fcolor (InL a c x r) = c"
| "fcolor (InR l a c x) = c"

fun fside :: "'x frame \<Rightarrow> 'x rtree" where
  "fside (InL a c x r) = r"
| "fside (InR l a c x) = l"

fun caddrs :: "'x rctx \<Rightarrow> ptr list" where
  "caddrs [] = []"
| "caddrs (f # k) = faddr f # addrs (fside f) @ caddrs k"

fun cpar :: "'x rctx \<Rightarrow> ptr" where
  "cpar [] = 0"
| "cpar (f # k) = faddr f"

fun croot :: "'x rctx \<Rightarrow> ptr \<Rightarrow> ptr" where
  "croot [] hole = hole"
| "croot (f # k) hole = croot k (faddr f)"

fun plug :: "'x rctx \<Rightarrow> 'x rtree \<Rightarrow> 'x rtree" where
  "plug [] t = t"
| "plug (InL a c x r # k) t = plug k (Node t a c x r)"
| "plug (InR l a c x # k) t = plug k (Node l a c x t)"

fun cleft :: "'x rctx \<Rightarrow> (ptr \<times> 'x) list" where
  "cleft [] = []"
| "cleft (InL a c x r # k) = cleft k"
| "cleft (InR l a c x # k) = cleft k @ inord l @ [(a, x)]"

fun cright :: "'x rctx \<Rightarrow> (ptr \<times> 'x) list" where
  "cright [] = []"
| "cright (InL a c x r # k) = (a, x) # inord r @ cright k"
| "cright (InR l a c x # k) = cright k"

lemma inord_plug: "inord (plug k t) = cleft k @ inord t @ cright k"
  by (induction k t rule: plug.induct) auto

lemma map_fst_inord: "map fst (inord t) = addrs t"
  by (induction t) auto

lemma inord_paint [simp]: "inord (paint c t) = inord t"
  by (cases t) auto

lemma rootp_paint [simp]: "rootp (paint c t) = rootp t"
  by (cases t) auto

lemma addrs_paint [simp]: "addrs (paint c t) = addrs t"
  by (cases t) auto

lemma rootp_plug: "rootp (plug k t) = croot k (rootp t)"
  by (induction k t rule: plug.induct) auto

lemma set_addrs_plug: "set (addrs (plug k t)) = set (caddrs k) \<union> set (addrs t)"
  by (induction k t rule: plug.induct) auto

lemma distinct_addrs_plug: "distinct (addrs (plug k t)) \<longleftrightarrow> distinct (caddrs k @ addrs t)"
  by (induction k t rule: plug.induct) auto

lemma rootp_in: "t \<noteq> Leaf \<Longrightarrow> rootp t \<in> set (addrs t)"
  by (cases t) auto

section \<open>Trees and contexts in a heap\<close>

fun tree_at :: "'x heap \<Rightarrow> ptr \<Rightarrow> 'x rtree \<Rightarrow> bool" where
  "tree_at h par Leaf = True"
| "tree_at h par (Node l a c x r) =
     (a \<noteq> 0 \<and> aligned a \<and> h a = Some (mk_node (rootp l) (rootp r) par c x) \<and>
      tree_at h a l \<and> tree_at h a r)"

fun ctx_at :: "'x heap \<Rightarrow> 'x rctx \<Rightarrow> ptr \<Rightarrow> bool" where
  "ctx_at h [] hole = True"
| "ctx_at h (InL a c x r # k) hole =
     (a \<noteq> 0 \<and> aligned a \<and> h a = Some (mk_node hole (rootp r) (cpar k) c x) \<and>
      tree_at h a r \<and> ctx_at h k a)"
| "ctx_at h (InR l a c x # k) hole =
     (a \<noteq> 0 \<and> aligned a \<and> h a = Some (mk_node (rootp l) hole (cpar k) c x) \<and>
      tree_at h a l \<and> ctx_at h k a)"

lemma tree_at_plug: "tree_at h (cpar []) (plug k t) \<longleftrightarrow> ctx_at h k (rootp t) \<and> tree_at h (cpar k) t"
proof (induction k t rule: plug.induct)
  case (1 t)
  then show ?case by simp
qed (auto simp del: cpar.simps simp: cpar.simps(2))

lemma tree_at_upd [simp, heap_frame]:
  "a \<notin> set (addrs t) \<Longrightarrow> tree_at (h(a := v)) par t = tree_at h par t"
  by (induction t arbitrary: par) auto

lemma ctx_at_upd [simp, heap_frame]:
  "a \<notin> set (caddrs k) \<Longrightarrow> ctx_at (h(a := v)) k hole = ctx_at h k hole"
  by (induction h k hole rule: ctx_at.induct) auto

lemma tree_at_not_0: "tree_at h par t \<Longrightarrow> 0 \<notin> set (addrs t)"
  by (induction t arbitrary: par) auto

lemma ctx_at_not_0: "ctx_at h k hole \<Longrightarrow> 0 \<notin> set (caddrs k)"
  by (induction h k hole rule: ctx_at.induct) (auto dest: tree_at_not_0)

lemma aligned_rootp: "tree_at h par t \<Longrightarrow> aligned (rootp t)"
  by (cases t) auto

lemma aligned_cpar [simp]: "ctx_at h k hole \<Longrightarrow> aligned (cpar k)"
  by (cases "(h, k, hole)" rule: ctx_at.cases) auto

lemma rootp_eq_0: "tree_at h par t \<Longrightarrow> rootp t = 0 \<longleftrightarrow> t = Leaf"
  by (cases t) auto

text \<open>Loads and writes on nodes that are there.\<close>

lemma load_0 [simp]: "load h 0 = None"
  by (simp add: load_def)

lemma load_eq: "p \<noteq> 0 \<Longrightarrow> load h p = h p"
  by (simp add: load_def)

lemma modify_eq: "p \<noteq> 0 \<Longrightarrow> modify h p f = map_option (\<lambda>n. h(p \<mapsto> f n)) (h p)"
  by (simp add: modify_def load_def split: option.split)

lemma rb_red_tree [simp]: "tree_at h par t \<Longrightarrow> aligned par \<Longrightarrow> rb_red h (rootp t) = Some (tcolor t = Red)"
  by (cases t) (auto simp: rb_red_def load_def)

lemma rb_black_tree [simp]: "tree_at h par t \<Longrightarrow> aligned par \<Longrightarrow> rb_black h (rootp t) = Some (tcolor t = Black)"
  by (cases "tcolor t") (simp_all add: rb_black_def)

section \<open>Giving a subtree another parent\<close>

fun reparent :: "'x heap \<Rightarrow> 'x rtree \<Rightarrow> ptr \<Rightarrow> 'x heap" where
  "reparent h Leaf p = h"
| "reparent h (Node l a c x r) p = h(a \<mapsto> mk_node (rootp l) (rootp r) p c x)"

lemma set_parent_tree:
  "tree_at h q t \<Longrightarrow> aligned q \<Longrightarrow>
   rb_adopt (rootp t) p h = Some (reparent h t p)"
  by (cases t) (auto simp: modify_eq rb_adopt_def)

lemma reparent_other [simp]: "b \<notin> set (addrs t) \<Longrightarrow> reparent h t p b = h b"
  by (cases t) auto

lemma reparent_same [simp]: "tree_at h q t \<Longrightarrow> distinct (addrs t) \<Longrightarrow> tree_at (reparent h t p) p t"
  by (cases t) auto

lemma reparent_tree [simp]:
  "set (addrs t) \<inter> set (addrs u) = {} \<Longrightarrow> tree_at (reparent h t p) q u = tree_at h q u"
  by (cases t) auto

lemma reparent_ctx [simp]:
  "set (addrs t) \<inter> set (caddrs k) = {} \<Longrightarrow> ctx_at (reparent h t p) k hole = ctx_at h k hole"
  by (cases t) auto

section \<open>Giving a context another subtree\<close>

fun ctx_put :: "'x heap \<Rightarrow> 'x rctx \<Rightarrow> ptr \<Rightarrow> 'x heap" where
  "ctx_put h [] r = h"
| "ctx_put h (InL a c x t # k) r = h(a \<mapsto> mk_node r (rootp t) (cpar k) c x)"
| "ctx_put h (InR t a c x # k) r = h(a \<mapsto> mk_node (rootp t) r (cpar k) c x)"

lemma replace_child_ctx:
  assumes "ctx_at h k old" and "old \<noteq> 0" and "old \<notin> set (caddrs k)"
  shows "rb_replace_child (cpar k) old new h (croot k old) = Some (ctx_put h k new, croot k new)"
proof (cases k)
  case Nil
  then show ?thesis by (simp add: rb_replace_child_def)
next
  case (Cons f k')
  then show ?thesis
  proof (cases f)
    case (InL a c x t)
    with Cons assms show ?thesis
      by (simp add: rb_replace_child_def load_eq modify_eq)
  next
    case (InR t a c x)
    moreover have "rootp t \<noteq> old" using assms Cons InR rootp_in [of t] by (cases t) auto
    ultimately show ?thesis using Cons assms
      by (simp add: rb_replace_child_def load_eq modify_eq)
  qed
qed

lemma ctx_put_other [simp]: "b \<notin> set (caddrs k) \<Longrightarrow> ctx_put h k r b = h b"
  by (cases "(h, k, r)" rule: ctx_put.cases) auto

lemma ctx_put_same [simp]:
  "ctx_at h k old \<Longrightarrow> distinct (caddrs k) \<Longrightarrow> ctx_at (ctx_put h k r) k r"
  by (cases "(h, k, r)" rule: ctx_put.cases) auto

lemma ctx_put_tree [simp]:
  "set (caddrs k) \<inter> set (addrs u) = {} \<Longrightarrow> tree_at (ctx_put h k r) q u = tree_at h q u"
  by (cases "(h, k, r)" rule: ctx_put.cases) auto

section \<open>Rotations\<close>

text \<open>Nothing outside a set of addresses has changed.\<close>

definition outside :: "ptr set \<Rightarrow> 'x heap \<Rightarrow> 'x heap \<Rightarrow> bool" where
  "outside A h h' \<longleftrightarrow> (\<forall>p. p \<notin> A \<longrightarrow> h' p = h p)"

lemma outside_refl [simp]: "outside A h h"
  by (simp add: outside_def)

lemma outside_trans: "outside A h h' \<Longrightarrow> outside B h' h'' \<Longrightarrow> A \<subseteq> C \<Longrightarrow> B \<subseteq> C \<Longrightarrow> outside C h h''"
  unfolding outside_def by (metis subsetD)

lemma outside_upd [simp]: "a \<in> A \<Longrightarrow> outside A h (h'(a := v)) \<longleftrightarrow> outside A h (h'(a := h a))"
  by (auto simp: outside_def)

lemma rb_rotate_left_at:
  assumes c: "ctx_at h k x" and t: "tree_at h (cpar k) (Node a x cx vx (Node b r cr vr c))"
    and d: "distinct (caddrs k @ addrs (Node a x cx vx (Node b r cr vr c)))"
  shows "\<exists>h'. rb_rotate_left x h (croot k x) = Some (h', croot k r) \<and> ctx_at h' k r \<and>
    tree_at h' (cpar k) (Node (Node a x cx vx b) r cr vr c) \<and>
    outside (set (caddrs k @ addrs (Node a x cx vx (Node b r cr vr c)))) h h'"
proof -
  let ?h1 = "h(x \<mapsto> mk_node (rootp a) (rootp b) (cpar k) cx vx)"
  let ?h2 = "reparent ?h1 b x"
  let ?h3 = "?h2(r \<mapsto> mk_node x (rootp c) x cr vr)"
  let ?h4 = "?h3(r \<mapsto> mk_node x (rootp c) (cpar k) cr vr)"
  let ?h5 = "ctx_put ?h4 k r"
  let ?h6 = "?h5(x \<mapsto> mk_node (rootp a) (rootp b) r cx vx)"
  have al [simp]: "aligned (cpar k)" using c by simp
  have nz: "x \<noteq> 0" "r \<noteq> 0" and al' [simp]: "aligned x" "aligned r" using t by auto
  have ne: "x \<noteq> r" "r \<noteq> x" using d by auto
  have s2: "rb_adopt (rootp b) x ?h1 = Some ?h2"
    by (rule set_parent_tree [where q = r]) (use t d in auto)
  have dis: "set (addrs b) \<inter> set (caddrs k) = {}" "set (addrs b) \<inter> set (addrs a) = {}"
      "set (addrs b) \<inter> set (addrs c) = {}" "set (caddrs k) \<inter> set (addrs a) = {}"
      "set (caddrs k) \<inter> set (addrs b) = {}" "set (caddrs k) \<inter> set (addrs c) = {}"
    using d by auto
  then have c4: "ctx_at ?h4 k x" using c d by auto
  have s5: "rb_replace_child (cpar k) x r ?h4 (croot k x) = Some (?h5, croot k r)"
    by (rule replace_child_ctx [OF c4]) (use d nz in auto)
  have "rb_rotate_left x h (croot k x) = Some (?h6, croot k r)"
    using t d nz ne s2 s5 by (simp add: rb_rotate_left_def load_eq modify_eq Let_def)
  moreover have "ctx_at ?h6 k r" using c4 d by auto
  moreover have "tree_at ?h6 (cpar k) (Node (Node a x cx vx b) r cr vr c)"
    using t d dis by auto
  moreover have "outside (set (caddrs k @ addrs (Node a x cx vx (Node b r cr vr c)))) h ?h6"
    by (auto simp: outside_def)
  ultimately show ?thesis by blast
qed

lemma rb_rotate_right_at:
  assumes c: "ctx_at h k x" and t: "tree_at h (cpar k) (Node (Node a l cl vl b) x cx vx c)"
    and d: "distinct (caddrs k @ addrs (Node (Node a l cl vl b) x cx vx c))"
  shows "\<exists>h'. rb_rotate_right x h (croot k x) = Some (h', croot k l) \<and> ctx_at h' k l \<and>
    tree_at h' (cpar k) (Node a l cl vl (Node b x cx vx c)) \<and>
    outside (set (caddrs k @ addrs (Node (Node a l cl vl b) x cx vx c))) h h'"
proof -
  let ?h1 = "h(x \<mapsto> mk_node (rootp b) (rootp c) (cpar k) cx vx)"
  let ?h2 = "reparent ?h1 b x"
  let ?h3 = "?h2(l \<mapsto> mk_node (rootp a) x x cl vl)"
  let ?h4 = "?h3(l \<mapsto> mk_node (rootp a) x (cpar k) cl vl)"
  let ?h5 = "ctx_put ?h4 k l"
  let ?h6 = "?h5(x \<mapsto> mk_node (rootp b) (rootp c) l cx vx)"
  have al [simp]: "aligned (cpar k)" using c by simp
  have nz: "x \<noteq> 0" "l \<noteq> 0" and al' [simp]: "aligned x" "aligned l" using t by auto
  have ne: "x \<noteq> l" "l \<noteq> x" using d by auto
  have s2: "rb_adopt (rootp b) x ?h1 = Some ?h2"
    by (rule set_parent_tree [where q = l]) (use t d in auto)
  have dis: "set (addrs b) \<inter> set (caddrs k) = {}" "set (addrs b) \<inter> set (addrs a) = {}"
      "set (addrs b) \<inter> set (addrs c) = {}" "set (caddrs k) \<inter> set (addrs a) = {}"
      "set (caddrs k) \<inter> set (addrs b) = {}" "set (caddrs k) \<inter> set (addrs c) = {}"
    using d by auto
  then have c4: "ctx_at ?h4 k x" using c d by auto
  have s5: "rb_replace_child (cpar k) x l ?h4 (croot k x) = Some (?h5, croot k l)"
    by (rule replace_child_ctx [OF c4]) (use d nz in auto)
  have "rb_rotate_right x h (croot k x) = Some (?h6, croot k l)"
    using t d nz ne s2 s5 by (simp add: rb_rotate_right_def load_eq modify_eq Let_def)
  moreover have "ctx_at ?h6 k l" using c4 d by auto
  moreover have "tree_at ?h6 (cpar k) (Node a l cl vl (Node b x cx vx c))"
    using t d dis by auto
  moreover have "outside (set (caddrs k @ addrs (Node (Node a l cl vl b) x cx vx c))) h ?h6"
    by (auto simp: outside_def)
  ultimately show ?thesis by blast
qed

end
