(* ===== verification/RbInsert.thy ===== *)
theory RbInsert
  imports RbShape
begin

text \<open>
  \<open>rb_insert\<close> restores the red-black invariant after a red node has been linked in. The
  loop over pointers refines a function on the tree and its context (\<open>ins_fix\<close>), and that
  function keeps the order of the nodes and restores the invariant.
\<close>

section \<open>The loop as a function on trees\<close>

fun ins_fix :: "'x rctx \<Rightarrow> 'x rtree \<Rightarrow> 'x rtree" where
  "ins_fix (InL p Red xp s # InL g cg xg u # k) t =
     (if tcolor u = Red then ins_fix k (Node (Node t p Black xp s) g Red xg (paint Black u))
      else plug k (Node t p Black xp (Node s g Red xg u)))"
| "ins_fix (InR s p Red xp # InL g cg xg u # k) t =
     (if tcolor u = Red then ins_fix k (Node (Node s p Black xp t) g Red xg (paint Black u))
      else (case t of
          Node a n c x b \<Rightarrow> plug k (Node (Node s p Red xp a) n Black x (Node b g Red xg u))
        | Leaf \<Rightarrow> Leaf))"
| "ins_fix (InR s p Red xp # InR u g cg xg # k) t =
     (if tcolor u = Red then ins_fix k (Node (paint Black u) g Red xg (Node s p Black xp t))
      else plug k (Node (Node u g Red xg s) p Black xp t))"
| "ins_fix (InL p Red xp s # InR u g cg xg # k) t =
     (if tcolor u = Red then ins_fix k (Node (paint Black u) g Red xg (Node t p Black xp s))
      else (case t of
          Node a n c x b \<Rightarrow> plug k (Node (Node u g Red xg a) n Black x (Node b p Red xp s))
        | Leaf \<Rightarrow> Leaf))"
| "ins_fix k t = plug k t"

text \<open>The frame next to the root is black, as the root of a red-black tree is.\<close>

fun root_black :: "'x rctx \<Rightarrow> bool" where
  "root_black [] = True"
| "root_black [f] = (fcolor f = Black)"
| "root_black (f # g # k) = root_black (g # k)"

lemma root_black_tl: "root_black (f # k) \<Longrightarrow> root_black k"
  by (cases k) auto

lemma red_has_grandparent:
  assumes "root_black k" and "k \<noteq> []" and "fcolor (hd k) = Red"
  obtains f g k' where "k = f # g # k'"
  using assms by (cases k rule: root_black.cases) auto

section \<open>The pointers follow\<close>

text \<open>The state in which the loop runs: the current node is the root of a red tree.\<close>

definition loop_at :: "'x heap \<Rightarrow> 'x rctx \<Rightarrow> 'x rtree \<Rightarrow> bool" where
  "loop_at h k t \<longleftrightarrow> ctx_at h k (rootp t) \<and> tree_at h (cpar k) t \<and> distinct (caddrs k @ addrs t)"

lemma rb_red_cpar: "ctx_at h k hole \<Longrightarrow> rb_red h (cpar k) = Some (k \<noteq> [] \<and> fcolor (hd k) = Red)"
  by (cases "(h, k, hole)" rule: ctx_at.cases) (auto simp: rb_red_def load_eq)

text \<open>The new heap holds the given tree under the given root, and nothing else changed.\<close>

definition holds_tree :: "'x heap \<Rightarrow> 'x heap \<Rightarrow> ptr \<Rightarrow> 'x rtree \<Rightarrow> bool" where
  "holds_tree h h' root t \<longleftrightarrow> root = rootp t \<and> tree_at h' 0 t \<and> distinct (addrs t) \<and>
     outside (set (addrs t)) h h'"

lemma holds_treeI:
  assumes "ctx_at h' k (rootp t)" and "tree_at h' (cpar k) t" and "distinct (caddrs k @ addrs t)"
    and "outside (set (caddrs k @ addrs t)) h h'"
  shows "holds_tree h h' (croot k (rootp t)) (plug k t)"
  using assms tree_at_plug [of h' k t]
  by (simp add: holds_tree_def rootp_plug distinct_addrs_plug set_addrs_plug)

lemma rb_insert_loop_black:
  assumes "loop_at h k t" and "k = [] \<or> fcolor (hd k) = Black"
  shows "\<exists>h' root'. rb_insert_loop (rootp t) (cpar k) h (croot k (rootp t)) = Some (h', root') \<and>
    holds_tree h h' root' (plug k t)"
proof -
  have "rb_red h (cpar k) = Some False"
    using assms rb_red_cpar [of h k "rootp t"] by (auto simp: loop_at_def)
  then have "rb_insert_loop (rootp t) (cpar k) h (croot k (rootp t)) = Some (h, croot k (rootp t))"
    by (subst rb_insert_loop.simps) simp
  with assms(1) show ?thesis
    by (auto simp: loop_at_def intro!: holds_treeI)
qed

text \<open>First case: the uncle is red. Three nodes are recoloured and the loop moves up.\<close>

fun plug1 :: "'x frame \<Rightarrow> 'x rtree \<Rightarrow> 'x rtree" where
  "plug1 (InL a c x r) t = Node t a c x r"
| "plug1 (InR l a c x) t = Node l a c x t"

lemma addrs_plug1: "set (addrs (plug1 f t)) = set (faddr f # addrs (fside f) @ addrs t)"
  by (cases f) auto

lemma recolor_L:
  assumes at: "loop_at h (f # InL g cg xg u # k) t" and red: "fcolor f = Red" "tcolor u = Red"
  shows "\<exists>h'. rb_insert_loop (rootp t) (faddr f) h (croot k g) = rb_insert_loop g (cpar k) h' (croot k g) \<and>
    loop_at h' k (Node (paint Black (plug1 f t)) g Red xg (paint Black u)) \<and>
    outside {g, faddr f, rootp u} h h'"
proof -
  obtain ul ua ux ur where u: "u = Node ul ua Red ux ur" using red by (cases u) auto
  let ?p = "faddr f"
  let ?l = "case f of InL a c x r \<Rightarrow> rootp t | InR l a c x \<Rightarrow> rootp l"
  let ?r = "case f of InL a c x r \<Rightarrow> rootp r | InR l a c x \<Rightarrow> rootp t"
  let ?x = "case f of InL a c x r \<Rightarrow> x | InR l a c x \<Rightarrow> x"
  let ?h' = "h(g \<mapsto> mk_node ?p ua (cpar k) Red xg, ?p \<mapsto> mk_node ?l ?r g Black ?x,
     ua \<mapsto> mk_node (rootp ul) (rootp ur) g Black ux)"
  have ne: "?p \<noteq> g" "g \<noteq> ?p" "ua \<noteq> g" "g \<noteq> ua" "ua \<noteq> ?p" "?p \<noteq> ua"
    using at u by (auto simp: loop_at_def)
  have al: "aligned (cpar k)" using at by (cases f) (auto simp: loop_at_def)
  have "rb_insert_loop (rootp t) ?p h (croot k g) = rb_insert_loop g (cpar k) ?h' (croot k g)"
    using at red ne u al
    by (subst rb_insert_loop.simps)
       (cases f; simp add: loop_at_def rb_red_def load_eq modify_eq Let_def)
  moreover have "loop_at ?h' k (Node (paint Black (plug1 f t)) g Red xg (paint Black u))"
    using at red ne u by (cases f) (auto simp: loop_at_def)
  ultimately show ?thesis using u by (auto simp: outside_def)
qed

lemma recolor_R:
  assumes at: "loop_at h (f # InR u g cg xg # k) t" and red: "fcolor f = Red" "tcolor u = Red"
  shows "\<exists>h'. rb_insert_loop (rootp t) (faddr f) h (croot k g) = rb_insert_loop g (cpar k) h' (croot k g) \<and>
    loop_at h' k (Node (paint Black u) g Red xg (paint Black (plug1 f t))) \<and>
    outside {g, faddr f, rootp u} h h'"
proof -
  obtain ul ua ux ur where u: "u = Node ul ua Red ux ur" using red by (cases u) auto
  let ?p = "faddr f"
  let ?l = "case f of InL a c x r \<Rightarrow> rootp t | InR l a c x \<Rightarrow> rootp l"
  let ?r = "case f of InL a c x r \<Rightarrow> rootp r | InR l a c x \<Rightarrow> rootp t"
  let ?x = "case f of InL a c x r \<Rightarrow> x | InR l a c x \<Rightarrow> x"
  let ?h' = "h(g \<mapsto> mk_node ua ?p (cpar k) Red xg, ?p \<mapsto> mk_node ?l ?r g Black ?x,
     ua \<mapsto> mk_node (rootp ul) (rootp ur) g Black ux)"
  have ne: "?p \<noteq> g" "g \<noteq> ?p" "ua \<noteq> g" "g \<noteq> ua" "ua \<noteq> ?p" "?p \<noteq> ua"
    using at u by (auto simp: loop_at_def)
  have al: "aligned (cpar k)" using at by (cases f) (auto simp: loop_at_def)
  have "rb_insert_loop (rootp t) ?p h (croot k g) = rb_insert_loop g (cpar k) ?h' (croot k g)"
    using at red ne u al
    by (subst rb_insert_loop.simps)
       (cases f; simp add: loop_at_def rb_red_def load_eq modify_eq Let_def)
  moreover have "loop_at ?h' k (Node (paint Black u) g Red xg (paint Black (plug1 f t)))"
    using at red ne u by (cases f) (auto simp: loop_at_def)
  ultimately show ?thesis using u by (auto simp: outside_def)
qed

text \<open>Second case: the uncle is black. One or two rotations, and the loop ends.\<close>

lemma last_rotation_right:
  assumes c: "ctx_at h k g" and t: "tree_at h (cpar k) (Node (Node a p cp xp b) g cg xg u)"
    and d: "distinct (caddrs k @ addrs (Node (Node a p cp xp b) g cg xg u))"
  shows "\<exists>h' root'. (do {
       (h, root) \<leftarrow> rb_rotate_right g h (croot k g);
       h \<leftarrow> modify h p rb_set_black;
       h \<leftarrow> modify h g rb_set_red;
       Some (h, root) }) = Some (h', root') \<and>
    holds_tree h h' root' (plug k (Node a p Black xp (Node b g Red xg u)))"
proof -
  from rb_rotate_right_at [OF c t d] obtain h1 where
    r: "rb_rotate_right g h (croot k g) = Some (h1, croot k p)" and c1: "ctx_at h1 k p" and
    t1: "tree_at h1 (cpar k) (Node a p cp xp (Node b g cg xg u))" and
    o1: "outside (set (caddrs k @ addrs (Node (Node a p cp xp b) g cg xg u))) h h1"
    by blast
  let ?h2 = "h1(p \<mapsto> mk_node (rootp a) g (cpar k) Black xp, g \<mapsto> mk_node (rootp b) (rootp u) p Red xg)"
  let ?t2 = "Node a p Black xp (Node b g Red xg u)"
  have ne: "p \<noteq> g" "g \<noteq> p" using d by auto
  have al: "aligned (cpar k)" using c1 by simp
  have "holds_tree h ?h2 (croot k (rootp ?t2)) (plug k ?t2)"
  proof (rule holds_treeI)
    show "ctx_at ?h2 k (rootp ?t2)" using c1 d by auto
    show "tree_at ?h2 (cpar k) ?t2" using t1 d by auto
    show "distinct (caddrs k @ addrs ?t2)" using d by auto
    show "outside (set (caddrs k @ addrs ?t2)) h ?h2" using o1 by (auto simp: outside_def)
  qed
  moreover have "(do {
       (h, root) \<leftarrow> rb_rotate_right g h (croot k g);
       h \<leftarrow> modify h p rb_set_black;
       h \<leftarrow> modify h g rb_set_red;
       Some (h, root) }) = Some (?h2, croot k (rootp ?t2))"
    using t1 ne al by (simp add: r modify_eq)
  ultimately show ?thesis by blast
qed

lemma last_rotation_left:
  assumes c: "ctx_at h k g" and t: "tree_at h (cpar k) (Node u g cg xg (Node a p cp xp b))"
    and d: "distinct (caddrs k @ addrs (Node u g cg xg (Node a p cp xp b)))"
  shows "\<exists>h' root'. (do {
       (h, root) \<leftarrow> rb_rotate_left g h (croot k g);
       h \<leftarrow> modify h p rb_set_black;
       h \<leftarrow> modify h g rb_set_red;
       Some (h, root) }) = Some (h', root') \<and>
    holds_tree h h' root' (plug k (Node (Node u g Red xg a) p Black xp b))"
proof -
  from rb_rotate_left_at [OF c t d] obtain h1 where
    r: "rb_rotate_left g h (croot k g) = Some (h1, croot k p)" and c1: "ctx_at h1 k p" and
    t1: "tree_at h1 (cpar k) (Node (Node u g cg xg a) p cp xp b)" and
    o1: "outside (set (caddrs k @ addrs (Node u g cg xg (Node a p cp xp b)))) h h1"
    by blast
  let ?h2 = "h1(p \<mapsto> mk_node g (rootp b) (cpar k) Black xp, g \<mapsto> mk_node (rootp u) (rootp a) p Red xg)"
  let ?t2 = "Node (Node u g Red xg a) p Black xp b"
  have ne: "p \<noteq> g" "g \<noteq> p" using d by auto
  have al: "aligned (cpar k)" using c1 by simp
  have "holds_tree h ?h2 (croot k (rootp ?t2)) (plug k ?t2)"
  proof (rule holds_treeI)
    show "ctx_at ?h2 k (rootp ?t2)" using c1 d by auto
    show "tree_at ?h2 (cpar k) ?t2" using t1 d by auto
    show "distinct (caddrs k @ addrs ?t2)" using d by auto
    show "outside (set (caddrs k @ addrs ?t2)) h ?h2" using o1 by (auto simp: outside_def)
  qed
  moreover have "(do {
       (h, root) \<leftarrow> rb_rotate_left g h (croot k g);
       h \<leftarrow> modify h p rb_set_black;
       h \<leftarrow> modify h g rb_set_red;
       Some (h, root) }) = Some (?h2, croot k (rootp ?t2))"
    using t1 ne al by (simp add: r modify_eq)
  ultimately show ?thesis by blast
qed

text \<open>A subtree's root differs from everything in a disjoint subtree, and from NULL if it
  is there at all.\<close>

lemma rootp_neq:
  "tree_at h q t \<Longrightarrow> t \<noteq> Leaf \<Longrightarrow> tree_at h q' s \<Longrightarrow> set (addrs s) \<inter> set (addrs t) = {} \<Longrightarrow> rootp t \<noteq> rootp s"
  by (cases t; cases s) auto

lemma holds_tree_trans:
  "outside (set (addrs t)) h h1 \<Longrightarrow> holds_tree h1 h' root t \<Longrightarrow> holds_tree h h' root t"
  unfolding holds_tree_def by (blast intro: outside_trans)

lemma rotate_LL:
  assumes at: "loop_at h (InL p Red xp s # InL g cg xg u # k) t" and "t \<noteq> Leaf" and "tcolor u \<noteq> Red"
  shows "\<exists>h' root'. rb_insert_loop (rootp t) p h (croot k g) = Some (h', root') \<and>
    holds_tree h h' root' (plug k (Node t p Black xp (Node s g Red xg u)))"
proof -
  have c: "ctx_at h k g" and tr: "tree_at h (cpar k) (Node (Node t p Red xp s) g cg xg u)"
    and d: "distinct (caddrs k @ addrs (Node (Node t p Red xp s) g cg xg u))"
    using at by (auto simp: loop_at_def)
  have al: "aligned (cpar k)" using c by simp
  have "rootp t \<noteq> rootp s" using tr d assms(2) by (intro rootp_neq [of h p]) auto
  moreover have "rb_red h (rootp u) = Some False" using tr assms(3) by (subst rb_red_tree) auto
  ultimately show ?thesis
    using last_rotation_right [OF c tr d] tr al
    by (subst rb_insert_loop.simps) (simp add: rb_red_def load_eq Let_def)
qed

lemma rotate_RR:
  assumes at: "loop_at h (InR s p Red xp # InR u g cg xg # k) t" and "t \<noteq> Leaf" and "tcolor u \<noteq> Red"
  shows "\<exists>h' root'. rb_insert_loop (rootp t) p h (croot k g) = Some (h', root') \<and>
    holds_tree h h' root' (plug k (Node (Node u g Red xg s) p Black xp t))"
proof -
  have c: "ctx_at h k g" and tr: "tree_at h (cpar k) (Node u g cg xg (Node s p Red xp t))"
    and d: "distinct (caddrs k @ addrs (Node u g cg xg (Node s p Red xp t)))"
    using at by (auto simp: loop_at_def)
  have al: "aligned (cpar k)" using c by simp
  have "rootp t \<noteq> rootp s" using tr d assms(2) by (intro rootp_neq [of h p]) auto
  moreover have "p \<noteq> rootp u" using tr d by (cases u) auto
  moreover have "rb_red h (rootp u) = Some False" using tr assms(3) by (subst rb_red_tree) auto
  ultimately show ?thesis
    using last_rotation_left [OF c tr d] tr al
    by (subst rb_insert_loop.simps) (simp add: rb_red_def load_eq Let_def)
qed

lemma rotate_LR:
  assumes at: "loop_at h (InR s p Red xp # InL g cg xg u # k) (Node a n c x b)" and "tcolor u \<noteq> Red"
  shows "\<exists>h' root'. rb_insert_loop n p h (croot k g) = Some (h', root') \<and>
    holds_tree h h' root' (plug k (Node (Node s p Red xp a) n Black x (Node b g Red xg u)))"
proof -
  let ?k1 = "InL g cg xg u # k"
  have c: "ctx_at h ?k1 p" and tr: "tree_at h (cpar ?k1) (Node s p Red xp (Node a n c x b))"
    and d: "distinct (caddrs ?k1 @ addrs (Node s p Red xp (Node a n c x b)))"
    using at by (auto simp: loop_at_def)
  have al: "aligned (cpar k)" "aligned g" and red: "rb_red h (rootp u) = Some False"
    using c assms(2) by auto
  from rb_rotate_left_at [OF c tr d] obtain h1 where
    r: "rb_rotate_left p h (croot k g) = Some (h1, croot k g)" and c1: "ctx_at h1 ?k1 n" and
    t1: "tree_at h1 (cpar ?k1) (Node (Node s p Red xp a) n c x b)" and
    o1: "outside (set (caddrs ?k1 @ addrs (Node s p Red xp (Node a n c x b)))) h h1"
    by auto
  have c2: "ctx_at h1 k g" and t2: "tree_at h1 (cpar k) (Node (Node (Node s p Red xp a) n c x b) g cg xg u)"
    using c1 t1 by auto
  have d2: "distinct (caddrs k @ addrs (Node (Node (Node s p Red xp a) n c x b) g cg xg u))"
    using d by auto
  from last_rotation_right [OF c2 t2 d2] obtain h' root' where
    l: "(do {
       (h, root) \<leftarrow> rb_rotate_right g h1 (croot k g);
       h \<leftarrow> modify h n rb_set_black;
       h \<leftarrow> modify h g rb_set_red;
       Some (h, root) }) = Some (h', root')" and
    ht: "holds_tree h1 h' root' (plug k (Node (Node s p Red xp a) n Black x (Node b g Red xg u)))"
    by blast
  have "rb_insert_loop n p h (croot k g) = Some (h', root')"
    using tr c al red r l by (subst rb_insert_loop.simps) (simp add: rb_red_def load_eq Let_def)
  moreover have "outside (set (addrs (plug k (Node (Node s p Red xp a) n Black x (Node b g Red xg u))))) h h1"
    using o1 by (auto simp: set_addrs_plug outside_def)
  ultimately show ?thesis using holds_tree_trans [OF _ ht] by blast
qed

lemma rotate_RL:
  assumes at: "loop_at h (InL p Red xp s # InR u g cg xg # k) (Node a n c x b)" and "tcolor u \<noteq> Red"
  shows "\<exists>h' root'. rb_insert_loop n p h (croot k g) = Some (h', root') \<and>
    holds_tree h h' root' (plug k (Node (Node u g Red xg a) n Black x (Node b p Red xp s)))"
proof -
  let ?k1 = "InR u g cg xg # k"
  have c: "ctx_at h ?k1 p" and tr: "tree_at h (cpar ?k1) (Node (Node a n c x b) p Red xp s)"
    and d: "distinct (caddrs ?k1 @ addrs (Node (Node a n c x b) p Red xp s))"
    using at by (auto simp: loop_at_def)
  have al: "aligned (cpar k)" "aligned g" and red: "rb_red h (rootp u) = Some False"
    using c assms(2) by auto
  have pu: "p \<noteq> rootp u" using tr d by (cases u) auto
  from rb_rotate_right_at [OF c tr d] obtain h1 where
    r: "rb_rotate_right p h (croot k g) = Some (h1, croot k g)" and c1: "ctx_at h1 ?k1 n" and
    t1: "tree_at h1 (cpar ?k1) (Node a n c x (Node b p Red xp s))" and
    o1: "outside (set (caddrs ?k1 @ addrs (Node (Node a n c x b) p Red xp s))) h h1"
    by auto
  have c2: "ctx_at h1 k g" and t2: "tree_at h1 (cpar k) (Node u g cg xg (Node a n c x (Node b p Red xp s)))"
    using c1 t1 by auto
  have d2: "distinct (caddrs k @ addrs (Node u g cg xg (Node a n c x (Node b p Red xp s))))"
    using d by auto
  from last_rotation_left [OF c2 t2 d2] obtain h' root' where
    l: "(do {
       (h, root) \<leftarrow> rb_rotate_left g h1 (croot k g);
       h \<leftarrow> modify h n rb_set_black;
       h \<leftarrow> modify h g rb_set_red;
       Some (h, root) }) = Some (h', root')" and
    ht: "holds_tree h1 h' root' (plug k (Node (Node u g Red xg a) n Black x (Node b p Red xp s)))"
    by blast
  have "rb_insert_loop n p h (croot k g) = Some (h', root')"
    using tr c al red r l pu by (subst rb_insert_loop.simps) (simp add: rb_red_def load_eq Let_def)
  moreover have "outside (set (addrs (plug k (Node (Node u g Red xg a) n Black x (Node b p Red xp s))))) h h1"
    using o1 by (auto simp: set_addrs_plug outside_def)
  ultimately show ?thesis using holds_tree_trans [OF _ ht] by blast
qed

text \<open>All cases: the loop ends and has computed \<open>ins_fix\<close>. The induction is on the number
  of frames, since a round of the loop removes two.\<close>

lemma ins_fix_black: "k = [] \<or> fcolor (hd k) = Black \<Longrightarrow> ins_fix k t = plug k t"
  by (cases "(k, t)" rule: ins_fix.cases) auto

lemma set_addrs_ins_fix: "t \<noteq> Leaf \<Longrightarrow> set (addrs (ins_fix k t)) = set (addrs (plug k t))"
  by (induction k t rule: ins_fix.induct) (auto simp: set_addrs_plug split: rtree.splits)

lemma rb_insert_loop_refines:
  "loop_at h k t \<Longrightarrow> t \<noteq> Leaf \<Longrightarrow> root_black k \<Longrightarrow>
   \<exists>h' root'. rb_insert_loop (rootp t) (cpar k) h (croot k (rootp t)) = Some (h', root') \<and>
     holds_tree h h' root' (ins_fix k t)"
proof (induction k arbitrary: h t rule: length_induct)
  case (1 k)
  show ?case
  proof (cases "k = [] \<or> fcolor (hd k) = Black")
    case True
    then show ?thesis using rb_insert_loop_black [OF "1.prems"(1)] by (simp add: ins_fix_black)
  next
    case False
    then have "k \<noteq> []" and "fcolor (hd k) = Red" by (auto intro: rcolor.exhaust)
    with "1.prems"(3) obtain f f2 k' where k: "k = f # f2 # k'" and f: "fcolor f = Red"
      by (metis red_has_grandparent list.sel(1))
    then have rb: "root_black k'" using "1.prems"(3) by (auto dest: root_black_tl)
    obtain a n c x b where t: "t = Node a n c x b" using "1.prems"(2) by (cases t) auto
    show ?thesis
    proof (cases "tcolor (fside f2) = Red")
      case red: True
      obtain h1 t1 where step: "rb_insert_loop (rootp t) (cpar k) h (croot k (rootp t)) =
            rb_insert_loop (rootp t1) (cpar k') h1 (croot k' (rootp t1))"
          and l1: "loop_at h1 k' t1" and fix1: "ins_fix k t = ins_fix k' t1" and "t1 \<noteq> Leaf"
          and o1: "outside (set (addrs (plug k t))) h h1"
          and a1: "set (addrs (plug k' t1)) = set (addrs (plug k t))"
      proof (cases f2)
        case (InL g cg xg u)
        with recolor_L [of h f g cg xg u k' t] "1.prems"(1) k f red obtain h1 where
          "rb_insert_loop (rootp t) (faddr f) h (croot k' g) = rb_insert_loop g (cpar k') h1 (croot k' g)"
          "loop_at h1 k' (Node (paint Black (plug1 f t)) g Red xg (paint Black u))"
          "outside {g, faddr f, rootp u} h h1" by auto
        then show ?thesis
          using k f red InL by (intro that [of "Node (paint Black (plug1 f t)) g Red xg (paint Black u)" h1];
            cases f; cases u) (auto simp: outside_def set_addrs_plug)
      next
        case (InR u g cg xg)
        with recolor_R [of h f u g cg xg k' t] "1.prems"(1) k f red obtain h1 where
          "rb_insert_loop (rootp t) (faddr f) h (croot k' g) = rb_insert_loop g (cpar k') h1 (croot k' g)"
          "loop_at h1 k' (Node (paint Black u) g Red xg (paint Black (plug1 f t)))"
          "outside {g, faddr f, rootp u} h h1" by auto
        then show ?thesis
          using k f red InR by (intro that [of "Node (paint Black u) g Red xg (paint Black (plug1 f t))" h1];
            cases f; cases u) (auto simp: outside_def set_addrs_plug)
      qed
      have "length k' < length k" using k by simp
      with "1.IH" l1 \<open>t1 \<noteq> Leaf\<close> rb obtain h' root' where
        "rb_insert_loop (rootp t1) (cpar k') h1 (croot k' (rootp t1)) = Some (h', root')"
        "holds_tree h1 h' root' (ins_fix k' t1)" by blast
      moreover have "outside (set (addrs (ins_fix k' t1))) h h1"
        using o1 a1 set_addrs_ins_fix [OF \<open>t1 \<noteq> Leaf\<close>] by simp
      ultimately show ?thesis using step fix1 holds_tree_trans by metis
    next
      case False
      then show ?thesis
        using "1.prems"(1) k f t
          rotate_LL [of h _ _ _ _ _ _ _ k' t] rotate_RR [of h _ _ _ _ _ _ _ k' t]
          rotate_LR [of h _ _ _ _ _ _ _ k' a n c x b] rotate_RL [of h _ _ _ _ _ _ _ k' a n c x b]
        by (cases f; cases f2) simp_all
    qed
  qed
qed

section \<open>The red-black invariant\<close>

fun bheight :: "'x rtree \<Rightarrow> nat" where
  "bheight Leaf = 0"
| "bheight (Node l a c x r) = bheight l + (if c = Black then 1 else 0)"

text \<open>No red node has a red child.\<close>

fun invc :: "'x rtree \<Rightarrow> bool" where
  "invc Leaf = True"
| "invc (Node l a c x r) \<longleftrightarrow>
     (c = Red \<longrightarrow> tcolor l = Black \<and> tcolor r = Black) \<and> invc l \<and> invc r"

text \<open>Every path down from a node passes the same number of black nodes.\<close>

fun invh :: "'x rtree \<Rightarrow> bool" where
  "invh Leaf = True"
| "invh (Node l a c x r) \<longleftrightarrow> bheight l = bheight r \<and> invh l \<and> invh r"

definition rbt :: "'x rtree \<Rightarrow> bool" where
  "rbt t \<longleftrightarrow> invc t \<and> invh t \<and> tcolor t = Black"

text \<open>What a context needs so that a tree of a given colour and black height fits.\<close>

fun ctx_inv :: "'x rctx \<Rightarrow> rcolor \<Rightarrow> nat \<Rightarrow> bool" where
  "ctx_inv [] d n \<longleftrightarrow> True"
| "ctx_inv (f # k) d n \<longleftrightarrow>
     invc (fside f) \<and> invh (fside f) \<and> bheight (fside f) = n \<and>
     (fcolor f = Red \<longrightarrow> tcolor (fside f) = Black \<and> d = Black) \<and>
     ctx_inv k (fcolor f) (n + (if fcolor f = Black then 1 else 0))"

lemma inv_plug:
  "invc (plug k t) \<and> invh (plug k t) \<longleftrightarrow> invc t \<and> invh t \<and> ctx_inv k (tcolor t) (bheight t)"
  by (induction k t rule: plug.induct) auto

lemma inv_paint_Black:
  "invc t \<Longrightarrow> invc (paint Black t)" "invh t \<Longrightarrow> invh (paint c t)" "tcolor (paint Black t) = Black"
  by (cases t; simp)+

lemma ctx_inv_Red_Black: "ctx_inv k Red n \<Longrightarrow> ctx_inv k Black n"
  by (cases k) auto

lemma inv_plug_ctx:
  "invc t \<Longrightarrow> invh t \<Longrightarrow> ctx_inv k (tcolor t) (bheight t) \<Longrightarrow> invc (plug k t) \<and> invh (plug k t)"
  by (simp add: inv_plug)

text \<open>
  The loop starts with a red node whose parent may be red: the context would take a black
  subtree of the same black height. It ends with a tree that is right but perhaps for a
  red root.
\<close>

lemma ins_fix_inv:
  "invc t \<Longrightarrow> invh t \<Longrightarrow> tcolor t = Red \<Longrightarrow> ctx_inv k Black (bheight t) \<Longrightarrow> root_black k \<Longrightarrow>
   invc (ins_fix k t) \<and> invh (ins_fix k t)"
proof (induction k t rule: ins_fix.induct)
  case (1 p xp s g cg xg u k t)
  then show ?case
    by (cases u) (auto simp: inv_plug_ctx inv_plug dest: root_black_tl split: if_splits)
next
  case (2 s p xp g cg xg u k t)
  then show ?case
    by (cases u; cases t) (auto simp: inv_plug_ctx inv_plug dest: root_black_tl split: if_splits)
next
  case (3 s p xp u g cg xg k t)
  then show ?case
    by (cases u) (auto simp: inv_plug_ctx inv_plug dest: root_black_tl split: if_splits)
next
  case (4 p xp s u g cg xg k t)
  then show ?case
    by (cases u; cases t) (auto simp: inv_plug_ctx inv_plug dest: root_black_tl split: if_splits)
qed (auto simp: inv_plug_ctx inv_plug)


lemma inord_ins_fix: "t \<noteq> Leaf \<Longrightarrow> inord (ins_fix k t) = inord (plug k t)"
  by (induction k t rule: ins_fix.induct) (auto simp: inord_plug split: rtree.splits)

lemma ins_fix_neq_Leaf: "t \<noteq> Leaf \<Longrightarrow> ins_fix k t \<noteq> Leaf"
  using set_addrs_ins_fix [of t k] by (cases t) (auto simp: set_addrs_plug)

lemma tcolor_plug: "k \<noteq> [] \<Longrightarrow> tcolor (plug k t) = fcolor (last k)"
  by (induction k t rule: plug.induct) auto

lemma root_black_last: "k \<noteq> [] \<Longrightarrow> root_black k = (fcolor (last k) = Black)"
  by (induction k rule: root_black.induct) auto

lemma root_black_rbt: "rbt (plug k t) \<Longrightarrow> root_black k"
  by (cases "k = []") (auto simp: rbt_def tcolor_plug root_black_last)

lemma rbt_paint_Black: "invc t \<Longrightarrow> invh t \<Longrightarrow> rbt (paint Black t)"
  by (simp add: rbt_def inv_paint_Black)

lemma invc_invh_new:
  "rbt (plug k Leaf) \<Longrightarrow> ctx_inv k Black 0"
  using inv_plug [of k Leaf] by (simp add: rbt_def)

section \<open>Linking and inserting\<close>

text \<open>The link that the innermost frame leaves open.\<close>

fun cside :: "'x rctx \<Rightarrow> side" where
  "cside [] = L"
| "cside (InL a c x r # k) = L"
| "cside (InR l a c x # k) = R"

lemma mk_node_Red: "mk_node l r p Red x = \<lparr>nleft = l, nright = r, nparent = p, \<dots> = x\<rparr>"
  by (simp add: mk_node_def RED_def)

lemma rb_link_at:
  assumes t: "tree_at h 0 (plug k Leaf)" and d: "distinct (addrs (plug k Leaf))"
    and z: "z \<noteq> 0" "aligned z" "z \<notin> set (caddrs k)" "h z = Some n"
  shows "\<exists>h'. rb_link z (cpar k) (cside k) h (croot k 0) = Some (h', croot k z) \<and>
    tree_at h' 0 (plug k (Node Leaf z Red (rb_node.more n) Leaf)) \<and>
    outside (insert z (set (caddrs k))) h h'"
proof -
  let ?n = "mk_node 0 0 (cpar k) Red (rb_node.more n)"
  let ?h' = "ctx_put (h(z \<mapsto> ?n)) k z"
  have c: "ctx_at h k 0" using t tree_at_plug [of h k Leaf] by simp
  have d': "distinct (caddrs k)" using d by (simp add: distinct_addrs_plug)
  have n: "n\<lparr>nparent := cpar k, nleft := 0, nright := 0\<rparr> = ?n"
    by (cases n) (simp add: mk_node_Red)
  have "rb_link z (cpar k) (cside k) h (croot k 0) = Some (?h', croot k z)"
  proof (cases k)
    case Nil
    then show ?thesis using z n by (simp add: rb_link_def modify_eq)
  next
    case (Cons f k')
    then show ?thesis using z c n by (cases f) (auto simp: rb_link_def modify_eq)
  qed
  moreover have "ctx_at ?h' k z"
    using c d' z by (intro ctx_put_same [of _ _ 0]) auto
  then have "tree_at ?h' 0 (plug k (Node Leaf z Red (rb_node.more n) Leaf))"
    using tree_at_plug [of ?h' k "Node Leaf z Red (rb_node.more n) Leaf"] z by simp
  moreover have "outside (insert z (set (caddrs k))) h ?h'" by (auto simp: outside_def)
  ultimately show ?thesis by blast
qed

lemma rb_insert_at:
  assumes t: "tree_at h 0 (plug k (Node Leaf z Red x Leaf))"
    and d: "distinct (addrs (plug k (Node Leaf z Red x Leaf)))"
    and inv: "rbt (plug k Leaf)"
  shows "\<exists>h' t'. rb_insert z h (croot k z) = Some (h', rootp t') \<and> tree_at h' 0 t' \<and> rbt t' \<and>
    inord t' = cleft k @ (z, x) # cright k \<and> outside (set (addrs t')) h h'"
proof -
  let ?n = "Node Leaf z Red x Leaf"
  let ?t = "ins_fix k ?n"
  have at: "loop_at h k ?n"
    using t d tree_at_plug [of h k ?n] by (auto simp: loop_at_def distinct_addrs_plug)
  have rb: "root_black k" using inv by (rule root_black_rbt)
  from rb_insert_loop_refines [OF at _ rb] obtain h1 where
    l: "rb_insert_loop z (cpar k) h (croot k z) = Some (h1, rootp ?t)" and
    t1: "tree_at h1 0 ?t" and d1: "distinct (addrs ?t)" and o1: "outside (set (addrs ?t)) h h1"
    by (auto simp: holds_tree_def)
  have ht: "invc ?t" "invh ?t" using ins_fix_inv [of ?n k] invc_invh_new [OF inv] rb by auto
  obtain a n c y b where tn: "?t = Node a n c y b"
    using ins_fix_neq_Leaf [of ?n k] by (cases ?t) auto
  let ?h' = "h1(n \<mapsto> mk_node (rootp a) (rootp b) 0 Black y)"
  have al: "aligned (cpar k)" and z: "h z = Some (mk_node 0 0 (cpar k) Red x)" "z \<noteq> 0"
    using at by (auto simp: loop_at_def)
  have "rb_insert z h (croot k z) = Some (?h', rootp (paint Black ?t))"
    using l t1 tn z al by (simp add: rb_insert_def load_eq modify_eq)
  moreover have "tree_at ?h' 0 (paint Black ?t)" using t1 d1 tn by auto
  moreover have "rbt (paint Black ?t)" using ht by (rule rbt_paint_Black)
  moreover have "inord (paint Black ?t) = cleft k @ (z, x) # cright k"
    using inord_ins_fix [of ?n k] by (simp add: inord_plug)
  moreover have "outside (set (addrs (paint Black ?t))) h ?h'"
    using o1 tn by (auto simp: outside_def)
  ultimately show ?thesis by blast
qed

section \<open>The height\<close>

fun rheight :: "'x rtree \<Rightarrow> nat" where
  "rheight Leaf = 0"
| "rheight (Node l a c x r) = max (rheight l) (rheight r) + 1"

lemma rheight_bheight:
  "invc t \<Longrightarrow> invh t \<Longrightarrow> rheight t \<le> 2 * bheight t + (if tcolor t = Red then 1 else 0)"
  by (induction t) (auto split: if_splits)

lemma bheight_size: "invh t \<Longrightarrow> 2 ^ bheight t \<le> Suc (length (inord t))"
  by (induction t) auto

lemma rbt_balanced: "rbt t \<Longrightarrow> 2 ^ (rheight t div 2) \<le> Suc (length (inord t))"
proof -
  assume "rbt t"
  then have "rheight t div 2 \<le> bheight t" using rheight_bheight [of t] by (auto simp: rbt_def)
  then have "(2::nat) ^ (rheight t div 2) \<le> 2 ^ bheight t" by (rule power_increasing) simp
  also have "\<dots> \<le> Suc (length (inord t))" using bheight_size [of t] \<open>rbt t\<close> by (simp add: rbt_def)
  finally show ?thesis .
qed

lemma rb_link_insert:
  assumes "tree_at h 0 (plug k Leaf)" and "distinct (addrs (plug k Leaf))" and "rbt (plug k Leaf)"
    and "z \<noteq> 0" and "aligned z" and "z \<notin> set (addrs (plug k Leaf))" and "h z = Some n"
  shows "\<exists>h1 h' t'. rb_link z (cpar k) (cside k) h (rootp (plug k Leaf)) = Some (h1, croot k z) \<and>
    rb_insert z h1 (croot k z) = Some (h', rootp t') \<and> tree_at h' 0 t' \<and> rbt t' \<and>
    inord (plug k Leaf) = cleft k @ cright k \<and>
    inord t' = cleft k @ (z, rb_node.more n) # cright k \<and> outside (set (addrs t')) h h'"
proof -
  have z: "z \<notin> set (caddrs k)" using assms(6) by (simp add: set_addrs_plug)
  from rb_link_at [OF assms(1,2,4,5) z assms(7)] obtain h1 where
    l: "rb_link z (cpar k) (cside k) h (croot k 0) = Some (h1, croot k z)" and
    t1: "tree_at h1 0 (plug k (Node Leaf z Red (rb_node.more n) Leaf))" and
    o1: "outside (insert z (set (caddrs k))) h h1" by blast
  have "distinct (addrs (plug k (Node Leaf z Red (rb_node.more n) Leaf)))"
    using assms(2) z by (simp add: distinct_addrs_plug)
  from rb_insert_at [OF t1 this assms(3)] obtain h' t' where
    i: "rb_insert z h1 (croot k z) = Some (h', rootp t')" "tree_at h' 0 t'" "rbt t'"
      "inord t' = cleft k @ (z, rb_node.more n) # cright k" "outside (set (addrs t')) h1 h'" by blast
  have s: "addrs t' = map fst (cleft k) @ z # map fst (cright k)"
    using i(4) by (simp flip: map_fst_inord)
  have "set (caddrs k) = set (map fst (cleft k) @ map fst (cright k))"
    using set_addrs_plug [of k Leaf] map_fst_inord [of "plug k Leaf"] inord_plug [of k Leaf]
    by (metis Un_empty_right addrs.simps(1) append_Nil inord.simps(1) list.set(1) map_append)
  then have "insert z (set (caddrs k)) = set (addrs t')" using s by auto
  then have "outside (set (addrs t')) h h'"
    using outside_trans [OF o1 i(5)] by simp
  then show ?thesis using l i by (auto simp: rootp_plug inord_plug)
qed

text \<open>C16: linking a new node at an open link of a red-black tree and calling \<open>rb_insert\<close>
  never follows a NULL or stray pointer and ends; the heap then holds a red-black tree whose
  nodes are the old ones, in the old order, with the new node in its place, whose height is
  at most twice the logarithm of its size, and nothing else in the heap has changed.\<close>

theorem rb_insert_correct:
  assumes "tree_at h 0 (plug k Leaf)" and "distinct (addrs (plug k Leaf))" and "rbt (plug k Leaf)"
    and "z \<noteq> 0" and "aligned z" and "z \<notin> set (addrs (plug k Leaf))" and "h z = Some n"
  shows "\<exists>h1 h' t'. rb_link z (cpar k) (cside k) h (rootp (plug k Leaf)) = Some (h1, croot k z) \<and>
    rb_insert z h1 (croot k z) = Some (h', rootp t') \<and> tree_at h' 0 t' \<and> rbt t' \<and>
    inord (plug k Leaf) = cleft k @ cright k \<and>
    inord t' = cleft k @ (z, rb_node.more n) # cright k \<and>
    2 ^ (rheight t' div 2) \<le> Suc (length (inord t')) \<and> outside (set (addrs t')) h h'"
  using rb_link_insert [OF assms] rbt_balanced by blast

definition demo_ctx :: "nat rctx" where
  "demo_ctx = [InL 16 Red 1 Leaf, InL 32 Black 2 Leaf]"

definition demo_heap :: "nat heap" where
  "demo_heap = [32 \<mapsto> mk_node 16 0 0 Black 2, 16 \<mapsto> mk_node 0 0 32 Red 1, 8 \<mapsto> mk_node 0 0 0 Red 0]"

lemma aligned_even: "even p \<Longrightarrow> aligned p"
  by (simp add: aligned_def bit_0)

theorem rb_insert_correct_witness:
  "\<exists>h1 h' t'. rb_link 8 16 L demo_heap 32 = Some (h1, 32) \<and>
    rb_insert 8 h1 32 = Some (h', rootp t') \<and> rbt t' \<and> inord t' = [(8, 0), (16, 1), (32, 2 :: nat)]"
  using rb_insert_correct [of demo_heap demo_ctx 8 "mk_node 0 0 0 Red 0"]
  by (simp add: demo_heap_def demo_ctx_def rbt_def aligned_even) blast

end
