(* ===== verification/RbWalk.thy ===== *)
theory RbWalk
  imports RbInsert
begin

text \<open>
  The operations of \<open>rbtree.c\<close> that walk a tree (first, last, next and previous node) and
  the one that puts a node in the place of another, in terms of the ordered list of the
  nodes of the tree.
\<close>

section \<open>First and last\<close>

definition hdp :: "(ptr \<times> 'x) list \<Rightarrow> ptr" where
  "hdp xs = (case xs of [] \<Rightarrow> 0 | n # _ \<Rightarrow> fst n)"

definition lastp :: "(ptr \<times> 'x) list \<Rightarrow> ptr" where
  "lastp xs = (if xs = [] then 0 else fst (last xs))"

lemma hdp_simps [simp]: "hdp [] = 0" "hdp (n # xs) = fst n"
  by (simp_all add: hdp_def)

lemma lastp_simps [simp]: "lastp [] = 0" "lastp (xs @ [n]) = fst n"
  by (simp_all add: lastp_def)

lemma hdp_append: "hdp (xs @ ys) = (if xs = [] then hdp ys else hdp xs)"
  by (cases xs) auto

lemma lastp_append: "lastp (xs @ ys) = (if ys = [] then lastp xs else lastp ys)"
  by (simp add: lastp_def)

lemma lastp_Cons: "lastp (n # xs) = (if xs = [] then fst n else lastp xs)"
  by (simp add: lastp_def)

lemma inord_Nil [simp]: "inord t = [] \<longleftrightarrow> t = Leaf"
  by (cases t) auto

lemma rb_leftmost_from_tree:
  "tree_at h par t \<Longrightarrow> t \<noteq> Leaf \<Longrightarrow> rb_leftmost_from h (rootp t) = Some (hdp (inord t))"
proof (induction t arbitrary: par)
  case Leaf
  then show ?case by simp
next
  case (Node l a c x r)
  then show ?case
    by (subst rb_leftmost_from.simps) (cases "l = Leaf", auto simp: load_eq hdp_append rootp_eq_0)
qed

lemma rb_rightmost_from_tree:
  "tree_at h par t \<Longrightarrow> t \<noteq> Leaf \<Longrightarrow> rb_rightmost_from h (rootp t) = Some (lastp (inord t))"
proof (induction t arbitrary: par)
  case Leaf
  then show ?case by simp
next
  case (Node l a c x r)
  then show ?case
    by (subst rb_rightmost_from.simps)
       (cases "r = Leaf", auto simp: load_eq lastp_append lastp_Cons rootp_eq_0)
qed

lemma rb_leftmost_tree: "tree_at h par t \<Longrightarrow> rb_leftmost h (rootp t) = Some (hdp (inord t))"
  using rb_leftmost_from_tree [of h par t] by (cases t) (auto simp: rb_leftmost_def)

lemma rb_rightmost_tree: "tree_at h par t \<Longrightarrow> rb_rightmost h (rootp t) = Some (lastp (inord t))"
  using rb_rightmost_from_tree [of h par t] by (cases t) (auto simp: rb_rightmost_def)

section \<open>Next and previous\<close>

lemma rb_next_climb_ctx:
  "ctx_at h k hole \<Longrightarrow> hole \<noteq> 0 \<Longrightarrow> hole \<notin> set (caddrs k) \<Longrightarrow> distinct (caddrs k) \<Longrightarrow>
   rb_next_climb h hole (cpar k) = Some (hdp (cright k))"
proof (induction k arbitrary: hole)
  case Nil
  then show ?case by (subst rb_next_climb.simps) simp
next
  case (Cons f k)
  show ?case
  proof (cases f)
    case (InL a c x r)
    then have "rootp r \<noteq> hole" using Cons.prems rootp_in [of r] by (cases r) auto
    then show ?thesis using Cons.prems InL by (subst rb_next_climb.simps) (auto simp: load_eq)
  next
    case (InR l a c x)
    then show ?thesis using Cons.prems Cons.IH [of a]
      by (subst rb_next_climb.simps) (auto simp: load_eq)
  qed
qed

lemma rb_prev_climb_ctx:
  "ctx_at h k hole \<Longrightarrow> hole \<noteq> 0 \<Longrightarrow> hole \<notin> set (caddrs k) \<Longrightarrow> distinct (caddrs k) \<Longrightarrow>
   rb_prev_climb h hole (cpar k) = Some (lastp (cleft k))"
proof (induction k arbitrary: hole)
  case Nil
  then show ?case by (subst rb_prev_climb.simps) simp
next
  case (Cons f k)
  show ?case
  proof (cases f)
    case (InR l a c x)
    then have "rootp l \<noteq> hole" using Cons.prems rootp_in [of l] by (cases l) auto
    then show ?thesis using Cons.prems InR
      by (subst rb_prev_climb.simps) (auto simp: load_eq lastp_append lastp_Cons)
  next
    case (InL a c x r)
    then show ?thesis using Cons.prems Cons.IH [of a]
      by (subst rb_prev_climb.simps) (auto simp: load_eq)
  qed
qed

text \<open>A tree that holds a node is a context around that node.\<close>

lemma split_plug:
  "n \<in> set (inord t) \<Longrightarrow> \<exists>k' l c r. plug k t = plug k' (Node l (fst n) c (snd n) r)"
proof (induction t arbitrary: k)
  case Leaf
  then show ?case by simp
next
  case (Node l a c x r)
  consider "n = (a, x)" | "n \<in> set (inord l)" | "n \<in> set (inord r)" using Node.prems by auto
  then show ?case
  proof cases
    case 1
    then show ?thesis by auto
  next
    case 2
    then show ?thesis using Node.IH(1) [of "InL a c x r # k"] by simp
  next
    case 3
    then show ?thesis using Node.IH(2) [of "InR l a c x # k"] by simp
  qed
qed

lemma split_append_unique:
  "xs @ n # ys = xs' @ n # ys' \<Longrightarrow> distinct (xs @ n # ys) \<Longrightarrow> xs = xs' \<and> ys = ys'"
  by (metis append_Cons_eq_iff distinct.simps(2) distinct_append not_distinct_conv_prefix)

lemma focus:
  assumes "inord t = xs @ (a, x) # ys" and "distinct (addrs t)"
  obtains k l c r where "t = plug k (Node l a c x r)" and "xs = cleft k @ inord l"
    and "ys = inord r @ cright k"
proof -
  have "(a, x) \<in> set (inord t)" using assms(1) by simp
  then obtain k l c r where t: "t = plug k (Node l a c x r)"
    using split_plug [of "(a, x)" t "[]"] by auto
  have "distinct (xs @ (a, x) # ys)"
    using assms by (metis distinct_map map_fst_inord)
  moreover have "xs @ (a, x) # ys = (cleft k @ inord l) @ (a, x) # (inord r @ cright k)"
    using assms(1) t by (simp add: inord_plug)
  ultimately have "xs = cleft k @ inord l \<and> ys = inord r @ cright k"
    by (intro split_append_unique)
  with t show ?thesis using that by blast
qed

lemma rb_next_at:
  assumes "tree_at h 0 t" and "distinct (addrs t)" and "inord t = xs @ (a, x) # ys"
  shows "rb_next h a = Some (hdp ys)"
proof -
  obtain k l c r where t: "t = plug k (Node l a c x r)" and ys: "ys = inord r @ cright k"
    using focus [OF assms(3,2)] by metis
  have c: "ctx_at h k a" and n: "tree_at h (cpar k) (Node l a c x r)"
    using assms(1) t tree_at_plug [of h k "Node l a c x r"] by auto
  have d: "distinct (caddrs k)" "a \<notin> set (caddrs k)"
    using assms(2) t by (auto simp: distinct_addrs_plug)
  have al: "aligned (cpar k)" using c by simp
  show ?thesis using rb_next_climb_ctx [OF c _ d(2,1)] n al ys rb_leftmost_tree [of h a r]
    by (cases "r = Leaf") (auto simp: rb_next_def load_eq rootp_eq_0 hdp_append)
qed

lemma rb_prev_at:
  assumes "tree_at h 0 t" and "distinct (addrs t)" and "inord t = xs @ (a, x) # ys"
  shows "rb_prev h a = Some (lastp xs)"
proof -
  obtain k l c r where t: "t = plug k (Node l a c x r)" and xs: "xs = cleft k @ inord l"
    using focus [OF assms(3,2)] by metis
  have c: "ctx_at h k a" and n: "tree_at h (cpar k) (Node l a c x r)"
    using assms(1) t tree_at_plug [of h k "Node l a c x r"] by auto
  have d: "distinct (caddrs k)" "a \<notin> set (caddrs k)"
    using assms(2) t by (auto simp: distinct_addrs_plug)
  have al: "aligned (cpar k)" using c by simp
  show ?thesis using rb_prev_climb_ctx [OF c _ d(2,1)] n al xs rb_rightmost_tree [of h a l]
    by (cases "l = Leaf") (auto simp: rb_prev_def load_eq rootp_eq_0 lastp_append)
qed

text \<open>In a heap that holds a tree, \<open>rb_leftmost\<close> and \<open>rb_rightmost\<close> return its first and
  last node, and for every node of the tree \<open>rb_next\<close> and \<open>rb_prev\<close> return its neighbours
  in the order of the tree; where there is none they return NULL. All four end.\<close>

theorem rb_walk_in_order:
  assumes "tree_at h 0 t" and "distinct (addrs t)"
  shows "rb_leftmost h (rootp t) = Some (hdp (inord t)) \<and>
    rb_rightmost h (rootp t) = Some (lastp (inord t)) \<and>
    (\<forall>xs n ys. inord t = xs @ n # ys \<longrightarrow>
       rb_next h (fst n) = Some (hdp ys) \<and> rb_prev h (fst n) = Some (lastp xs))"
proof (intro conjI allI impI)
  show "rb_leftmost h (rootp t) = Some (hdp (inord t))"
    and "rb_rightmost h (rootp t) = Some (lastp (inord t))"
    using assms rb_leftmost_tree rb_rightmost_tree by blast+
next
  fix xs n ys
  assume "inord t = xs @ n # ys"
  then show "rb_next h (fst n) = Some (hdp ys)" and "rb_prev h (fst n) = Some (lastp xs)"
    using rb_next_at [OF assms, of xs "fst n" "snd n" ys]
      rb_prev_at [OF assms, of xs "fst n" "snd n" ys] by simp_all
qed

theorem rb_walk_in_order_witness:
  "rb_leftmost demo_heap 32 = Some 16 \<and> rb_next demo_heap 16 = Some 32 \<and>
   rb_next demo_heap 32 = Some 0 \<and> rb_prev demo_heap 32 = Some 16"
proof -
  let ?t = "plug demo_ctx Leaf"
  have "tree_at demo_heap 0 ?t" and "distinct (addrs ?t)"
    by (auto simp: demo_heap_def demo_ctx_def aligned_even)
  note w = rb_walk_in_order [OF this]
  have i: "inord ?t = [(16, 1), (32, 2)]" and r: "rootp ?t = 32" by (simp_all add: demo_ctx_def)
  from i have "inord ?t = [] @ (16, 1) # [(32, 2)]" and "inord ?t = [(16, 1)] @ (32, 2) # []"
    by simp_all
  with w i r show ?thesis
    by (metis append_self_conv2 fst_conv hdp_simps(1,2) lastp_simps(2))
qed

section \<open>Replacing a node\<close>

lemma rb_swap_nodes_at:
  assumes t: "tree_at h 0 (plug k (Node l old c x r))"
    and d: "distinct (addrs (plug k (Node l old c x r)))"
    and z: "new \<noteq> 0" "aligned new" "new \<notin> set (addrs (plug k (Node l old c x r)))" "h new = Some n"
  shows "\<exists>h'. rb_swap_nodes old new h (croot k old) = Some (h', croot k new) \<and>
    tree_at h' 0 (plug k (Node l new c (rb_node.more n) r)) \<and>
    outside (insert new (set (addrs (plug k (Node l old c x r))))) h h'"
proof -
  let ?n = "mk_node (rootp l) (rootp r) (cpar k) c (rb_node.more n)"
  let ?h1 = "h(new \<mapsto> ?n)"
  let ?h2 = "reparent ?h1 l new"
  let ?h3 = "reparent ?h2 r new"
  let ?h' = "ctx_put ?h3 k new"
  have c: "ctx_at h k old" and n: "tree_at h (cpar k) (Node l old c x r)"
    using t tree_at_plug [of h k "Node l old c x r"] by auto
  have dd: "distinct (caddrs k @ addrs (Node l old c x r))"
    using d by (simp add: distinct_addrs_plug)
  have nin: "new \<notin> set (caddrs k)" "new \<noteq> old" "new \<notin> set (addrs l)" "new \<notin> set (addrs r)"
    using z(3) by (auto simp: set_addrs_plug)
  have al: "aligned (cpar k)" using c by simp
  have cn: "n\<lparr>nleft := rootp l, nright := rootp r, nparent := cpar k OR cbit c\<rparr> = ?n"
    by (cases n) (simp add: mk_node_def)
  have par: "nparent (mk_node (rootp l) (rootp r) (cpar k) c x) = cpar k OR cbit c"
    by (simp add: mk_node_def)
  have dis: "set (addrs l) \<inter> set (addrs r) = {}" "set (addrs l) \<inter> set (caddrs k) = {}"
      "set (addrs r) \<inter> set (caddrs k) = {}" "set (caddrs k) \<inter> set (addrs l) = {}"
      "set (caddrs k) \<inter> set (addrs r) = {}" "set (addrs r) \<inter> set (addrs l) = {}"
    using dd by auto
  have a1: "rb_adopt (rootp l) new ?h1 = Some ?h2"
    by (rule set_parent_tree [where q = old]) (use n nin in auto)
  have a2: "rb_adopt (rootp r) new ?h2 = Some ?h3"
    by (rule set_parent_tree [where q = old]) (use n nin dis in auto)
  have c3: "ctx_at ?h3 k old" using c nin dis by simp
  have rc: "rb_replace_child (cpar k) old new ?h3 (croot k old) = Some (?h', croot k new)"
    by (rule replace_child_ctx [OF c3]) (use n dd in auto)
  have "rb_swap_nodes old new h (croot k old) = Some (?h', croot k new)"
    using n z al a1 a2 rc by (simp add: rb_swap_nodes_def load_eq modify_eq cn par)
  moreover have "ctx_at ?h' k new" using c3 dd by (intro ctx_put_same [of _ _ old]) auto
  moreover have "tree_at ?h' (cpar k) (Node l new c (rb_node.more n) r)"
    using n z nin dd dis reparent_same [of ?h1 old l new] reparent_same [of ?h2 old r new] by simp
  then have "tree_at ?h' 0 (plug k (Node l new c (rb_node.more n) r))"
    using tree_at_plug [of ?h' k "Node l new c (rb_node.more n) r"] \<open>ctx_at ?h' k new\<close> by simp
  moreover have "outside (insert new (set (addrs (plug k (Node l old c x r))))) h ?h'"
    by (auto simp: outside_def set_addrs_plug)
  ultimately show ?thesis by blast
qed

lemma tcolor_plug_node: "tcolor (plug k (Node l a c x r)) = tcolor (plug k (Node l' a' c x' r'))"
  by (cases "k = []") (auto simp: tcolor_plug)

lemma rbt_swap: "rbt (plug k (Node l a c x r)) = rbt (plug k (Node l b c y r))"
  using inv_plug [of k "Node l a c x r"] inv_plug [of k "Node l b c y r"]
    tcolor_plug_node [of k l a c x r l b y r]
  by (auto simp: rbt_def)

end
