(* ===== verification/RbErase.thy ===== *)
theory RbErase
  imports RbWalk
begin

text \<open>
  \<open>rb_erase\<close> (\<open>util/rbtree.c\<close>) takes a node out of a red-black tree. This theory holds its model
  and what \<open>rb_erase_fix\<close> does: the loop over pointers refines a function on the tree and its
  context (\<open>del_fix\<close>), which keeps the order of the nodes and restores the invariant.
\<close>

section \<open>The code\<close>

text \<open>The half of the loop for a left child. First the sibling is made black.\<close>

definition rb_erase_left_sibling :: "ptr \<Rightarrow> 'x heap \<Rightarrow> ptr \<Rightarrow> ('x heap \<times> ptr \<times> ptr) option" where
  "rb_erase_left_sibling parent h root = do {
     np \<leftarrow> load h parent;
     let b = nright np;
     red \<leftarrow> rb_red h b;
     (if red then do {
        h \<leftarrow> modify h b rb_set_black;
        h \<leftarrow> modify h parent rb_set_red;
        (h, root) \<leftarrow> rb_rotate_left parent h root;
        np \<leftarrow> load h parent;
        Some (h, root, nright np)
      } else Some (h, root, b))
   }"

definition rb_erase_left_turn :: "ptr \<Rightarrow> ptr \<Rightarrow> 'x heap \<Rightarrow> ptr \<Rightarrow> ('x heap \<times> ptr \<times> ptr) option" where
  "rb_erase_left_turn b parent h root = do {
     nb \<leftarrow> load h b;
     black \<leftarrow> rb_black h (nright nb);
     (if black then do {
        h \<leftarrow> modify h (nleft nb) rb_set_black;
        h \<leftarrow> modify h b rb_set_red;
        (h, root) \<leftarrow> rb_rotate_right b h root;
        np \<leftarrow> load h parent;
        Some (h, root, nright np)
      } else Some (h, root, b))
   }"

definition rb_erase_left_end :: "ptr \<Rightarrow> ptr \<Rightarrow> 'x heap \<Rightarrow> ptr \<Rightarrow> ('x heap \<times> ptr) option" where
  "rb_erase_left_end b parent h root = do {
     np \<leftarrow> load h parent;
     h \<leftarrow> modify h b (rb_set_color (rb_color np));
     h \<leftarrow> modify h parent rb_set_black;
     nb \<leftarrow> load h b;
     h \<leftarrow> (if nright nb \<noteq> 0 then modify h (nright nb) rb_set_black else Some h);
     rb_rotate_left parent h root
   }"

text \<open>The result: the heap, the root, the new \<open>child\<close> and \<open>parent\<close>, and whether the loop goes on.\<close>

definition rb_erase_left :: "ptr \<Rightarrow> 'x heap \<Rightarrow> ptr \<Rightarrow> ('x heap \<times> ptr \<times> ptr \<times> ptr \<times> bool) option" where
  "rb_erase_left parent h root = do {
     (h, root, b) \<leftarrow> rb_erase_left_sibling parent h root;
     nb \<leftarrow> load h b;
     black \<leftarrow> rb_black h (nleft nb);
     black \<leftarrow> (if black then rb_black h (nright nb) else Some False);
     (if black then do {
        h \<leftarrow> modify h b rb_set_red;
        np \<leftarrow> load h parent;
        Some (h, root, parent, rb_parent np, True)
      } else do {
        (h, root, b) \<leftarrow> rb_erase_left_turn b parent h root;
        (h, root) \<leftarrow> rb_erase_left_end b parent h root;
        Some (h, root, root, parent, False)
      })
   }"

text \<open>The half of the loop for a right child.\<close>

definition rb_erase_right_sibling :: "ptr \<Rightarrow> 'x heap \<Rightarrow> ptr \<Rightarrow> ('x heap \<times> ptr \<times> ptr) option" where
  "rb_erase_right_sibling parent h root = do {
     np \<leftarrow> load h parent;
     let b = nleft np;
     red \<leftarrow> rb_red h b;
     (if red then do {
        h \<leftarrow> modify h b rb_set_black;
        h \<leftarrow> modify h parent rb_set_red;
        (h, root) \<leftarrow> rb_rotate_right parent h root;
        np \<leftarrow> load h parent;
        Some (h, root, nleft np)
      } else Some (h, root, b))
   }"

definition rb_erase_right_turn :: "ptr \<Rightarrow> ptr \<Rightarrow> 'x heap \<Rightarrow> ptr \<Rightarrow> ('x heap \<times> ptr \<times> ptr) option" where
  "rb_erase_right_turn b parent h root = do {
     nb \<leftarrow> load h b;
     black \<leftarrow> rb_black h (nleft nb);
     (if black then do {
        h \<leftarrow> modify h (nright nb) rb_set_black;
        h \<leftarrow> modify h b rb_set_red;
        (h, root) \<leftarrow> rb_rotate_left b h root;
        np \<leftarrow> load h parent;
        Some (h, root, nleft np)
      } else Some (h, root, b))
   }"

definition rb_erase_right_end :: "ptr \<Rightarrow> ptr \<Rightarrow> 'x heap \<Rightarrow> ptr \<Rightarrow> ('x heap \<times> ptr) option" where
  "rb_erase_right_end b parent h root = do {
     np \<leftarrow> load h parent;
     h \<leftarrow> modify h b (rb_set_color (rb_color np));
     h \<leftarrow> modify h parent rb_set_black;
     nb \<leftarrow> load h b;
     h \<leftarrow> (if nleft nb \<noteq> 0 then modify h (nleft nb) rb_set_black else Some h);
     rb_rotate_right parent h root
   }"

definition rb_erase_right :: "ptr \<Rightarrow> 'x heap \<Rightarrow> ptr \<Rightarrow> ('x heap \<times> ptr \<times> ptr \<times> ptr \<times> bool) option" where
  "rb_erase_right parent h root = do {
     (h, root, b) \<leftarrow> rb_erase_right_sibling parent h root;
     nb \<leftarrow> load h b;
     black \<leftarrow> rb_black h (nright nb);
     black \<leftarrow> (if black then rb_black h (nleft nb) else Some False);
     (if black then do {
        h \<leftarrow> modify h b rb_set_red;
        np \<leftarrow> load h parent;
        Some (h, root, parent, rb_parent np, True)
      } else do {
        (h, root, b) \<leftarrow> rb_erase_right_turn b parent h root;
        (h, root) \<leftarrow> rb_erase_right_end b parent h root;
        Some (h, root, root, parent, False)
      })
   }"

text \<open>The loop gives the heap, the root and the last \<open>child\<close>.\<close>

partial_function (option) rb_erase_loop :: "ptr \<Rightarrow> ptr \<Rightarrow> 'x heap \<Rightarrow> ptr \<Rightarrow> ('x heap \<times> ptr \<times> ptr) option" where
  "rb_erase_loop child parent h root = do {
     black \<leftarrow> rb_black h child;
     (if black \<and> child \<noteq> root then do {
        np \<leftarrow> load h parent;
        (h, root, child, parent, go) \<leftarrow>
          (if child = nleft np then rb_erase_left parent h root else rb_erase_right parent h root);
        (if go then rb_erase_loop child parent h root else Some (h, root, child))
      } else Some (h, root, child))
   }"

definition rb_erase_fix :: "ptr \<Rightarrow> ptr \<Rightarrow> 'x heap \<Rightarrow> ptr \<Rightarrow> ('x heap \<times> ptr) option" where
  "rb_erase_fix child parent h root = do {
     (h, root, child) \<leftarrow> rb_erase_loop child parent h root;
     h \<leftarrow> (if child \<noteq> 0 then modify h child rb_set_black else Some h);
     Some (h, root)
   }"

text \<open>A node with two children: the next node takes its place. The result: the heap, \<open>x\<close>, \<open>c\<close>, \<open>p\<close>
  and \<open>color\<close>.\<close>

definition rb_erase_two :: "ptr \<Rightarrow> 'x heap \<Rightarrow> ('x heap \<times> ptr \<times> ptr \<times> ptr \<times> u64) option" where
  "rb_erase_two node h = do {
     x \<leftarrow> rb_next h node;
     nx \<leftarrow> load h x;
     let c = nright nx;
     let color = rb_color nx;
     n \<leftarrow> load h node;
     (if x = nright n then do {
        h \<leftarrow> modify h x (\<lambda>m. m\<lparr>nleft := nleft n\<rparr>);
        h \<leftarrow> modify h x (\<lambda>m. m\<lparr>nparent := nparent n\<rparr>);
        nx \<leftarrow> load h x;
        h \<leftarrow> modify h (nleft nx) (rb_set_parent x);
        Some (h, x, c, x, color)
      } else do {
        let p = rb_parent nx;
        h \<leftarrow> modify h x (\<lambda>m. m\<lparr>nleft := nleft n, nright := nright n, nparent := nparent n\<rparr>);
        h \<leftarrow> modify h p (\<lambda>m. m\<lparr>nleft := c\<rparr>);
        h \<leftarrow> rb_adopt c p h;
        nx \<leftarrow> load h x;
        h \<leftarrow> modify h (nleft nx) (rb_set_parent x);
        nx \<leftarrow> load h x;
        h \<leftarrow> modify h (nright nx) (rb_set_parent x);
        Some (h, x, c, p, color)
      })
   }"

text \<open>A node with at most one child: the child takes its place.\<close>

definition rb_erase_one :: "ptr \<Rightarrow> 'x heap \<Rightarrow> ('x heap \<times> ptr \<times> ptr \<times> ptr \<times> u64) option" where
  "rb_erase_one node h = do {
     n \<leftarrow> load h node;
     let p = rb_parent n;
     let color = rb_color n;
     let c = (if nleft n \<noteq> 0 then nleft n else nright n);
     h \<leftarrow> rb_adopt c p h;
     Some (h, c, c, p, color)
   }"

definition rb_erase :: "ptr \<Rightarrow> 'x heap \<Rightarrow> ptr \<Rightarrow> ('x heap \<times> ptr) option" where
  "rb_erase node h root = do {
     n \<leftarrow> load h node;
     (h, x, c, p, color) \<leftarrow>
       (if nleft n \<noteq> 0 \<and> nright n \<noteq> 0 then rb_erase_two node h else rb_erase_one node h);
     n \<leftarrow> load h node;
     (h, root) \<leftarrow> rb_replace_child (rb_parent n) node x h root;
     (if color = BLACK then rb_erase_fix c p h root else Some (h, root))
   }"

section \<open>The loop as a function on trees\<close>

text \<open>A round of the loop on a black sibling: whether to go on, and the new subtree.\<close>

fun fixL :: "'x rtree \<Rightarrow> ptr \<Rightarrow> rcolor \<Rightarrow> 'x \<Rightarrow> 'x rtree \<Rightarrow> bool \<times> 'x rtree" where
  "fixL t p cp xp (Node sl b cb xb sr) =
     (if tcolor sr = Red then (False, Node (Node t p Black xp sl) b cp xb (paint Black sr))
      else case sl of
        Node a l Red xl c \<Rightarrow> (False, Node (Node t p Black xp a) l cp xl (Node c b Black xb sr))
      | _ \<Rightarrow> (True, Node t p cp xp (Node sl b Red xb sr)))"
| "fixL t p cp xp Leaf = (True, Leaf)"

fun fixR :: "'x rtree \<Rightarrow> ptr \<Rightarrow> rcolor \<Rightarrow> 'x \<Rightarrow> 'x rtree \<Rightarrow> bool \<times> 'x rtree" where
  "fixR (Node sl b cb xb sr) p cp xp t =
     (if tcolor sl = Red then (False, Node (paint Black sl) b cp xb (Node sr p Black xp t))
      else case sr of
        Node a r Red xr c \<Rightarrow> (False, Node (Node sl b Black xb a) r cp xr (Node c p Black xp t))
      | _ \<Rightarrow> (True, Node (Node sl b Red xb sr) p cp xp t))"
| "fixR Leaf p cp xp t = (True, Leaf)"

text \<open>A red sibling is rotated up first; after that one round is enough.\<close>

fun del_fix :: "'x rctx \<Rightarrow> 'x rtree \<Rightarrow> 'x rtree" where
  "del_fix [] t = paint Black t"
| "del_fix (InL p cp xp s # k) t =
     (if tcolor t = Red then plug (InL p cp xp s # k) (paint Black t)
      else case s of
        Node sl b Red xb sr \<Rightarrow>
          (case fixL t p Red xp sl of
             (True, u) \<Rightarrow> plug (InL b Black xb sr # k) (paint Black u)
           | (False, u) \<Rightarrow> paint Black (plug (InL b Black xb sr # k) u))
      | _ \<Rightarrow> (case fixL t p cp xp s of (True, u) \<Rightarrow> del_fix k u | (False, u) \<Rightarrow> paint Black (plug k u)))"
| "del_fix (InR s p cp xp # k) t =
     (if tcolor t = Red then plug (InR s p cp xp # k) (paint Black t)
      else case s of
        Node sl b Red xb sr \<Rightarrow>
          (case fixR sr p Red xp t of
             (True, u) \<Rightarrow> plug (InR sl b Black xb # k) (paint Black u)
           | (False, u) \<Rightarrow> paint Black (plug (InR sl b Black xb # k) u))
      | _ \<Rightarrow> (case fixR s p cp xp t of (True, u) \<Rightarrow> del_fix k u | (False, u) \<Rightarrow> paint Black (plug k u)))"

section \<open>The pointers follow\<close>

lemma left_sibling_black:
  assumes "loop_at h (InL p cp xp s # k) t" and "tcolor s = Black"
  shows "rb_erase_left_sibling p h root = Some (h, root, rootp s)"
  using assms by (auto simp: rb_erase_left_sibling_def loop_at_def load_eq Let_def)

lemma left_sibling_red:
  assumes at: "loop_at h (InL p cp xp (Node sl b Red xb sr) # k) t"
  shows "\<exists>h'. rb_erase_left_sibling p h (croot k p) = Some (h', croot k b, rootp sl) \<and>
    loop_at h' (InL p Red xp sl # InL b Black xb sr # k) t \<and>
    outside (set (addrs (plug (InL p cp xp (Node sl b Red xb sr) # k) t))) h h'"
proof -
  let ?h1 = "h(b \<mapsto> mk_node (rootp sl) (rootp sr) p Black xb, p \<mapsto> mk_node (rootp t) b (cpar k) Red xp)"
  have al: "aligned (cpar k)" "aligned p" "aligned b" and nz: "p \<noteq> 0" "b \<noteq> 0"
    using at by (auto simp: loop_at_def)
  have c: "ctx_at ?h1 k p" and t: "tree_at ?h1 (cpar k) (Node t p Red xp (Node sl b Black xb sr))"
    and d: "distinct (caddrs k @ addrs (Node t p Red xp (Node sl b Black xb sr)))"
    using at by (auto simp: loop_at_def)
  from rb_rotate_left_at [OF c t d] obtain h' where
    r: "rb_rotate_left p ?h1 (croot k p) = Some (h', croot k b)" and c': "ctx_at h' k b" and
    t': "tree_at h' (cpar k) (Node (Node t p Red xp sl) b Black xb sr)" and
    o: "outside (set (caddrs k @ addrs (Node t p Red xp (Node sl b Black xb sr)))) ?h1 h'" by blast
  have ne: "p \<noteq> b" "b \<noteq> p" using d by auto
  have hp: "h p = Some (mk_node (rootp t) b (cpar k) cp xp)" "h b = Some (mk_node (rootp sl) (rootp sr) p Red xb)"
    using at by (auto simp: loop_at_def)
  have "rb_erase_left_sibling p h (croot k p) = Some (h', croot k b, rootp sl)"
    using hp al nz ne r t' by (simp add: rb_erase_left_sibling_def load_eq modify_eq rb_red_def)
  moreover have "loop_at h' (InL p Red xp sl # InL b Black xb sr # k) t"
    using c' t' d by (auto simp: loop_at_def)
  moreover have "outside (set (addrs (plug (InL p cp xp (Node sl b Red xb sr) # k) t))) h h'"
    using o by (auto simp: outside_def set_addrs_plug)
  ultimately show ?thesis by blast
qed

lemma left_end:
  assumes at: "loop_at h (InL p cp xp (Node sl b cb xb sr) # k) t" and sr: "sr \<noteq> Leaf"
  shows "\<exists>h'. rb_erase_left_end b p h (croot k p) = Some (h', croot k b) \<and>
    holds_tree h h' (croot k b) (plug k (Node (Node t p Black xp sl) b cp xb (paint Black sr)))"
proof -
  obtain e1 e ce xe e2 where e: "sr = Node e1 e ce xe e2" using sr by (cases sr) auto
  let ?h1 = "h(b \<mapsto> mk_node (rootp sl) e p cp xb, p \<mapsto> mk_node (rootp t) b (cpar k) Black xp,
    e \<mapsto> mk_node (rootp e1) (rootp e2) b Black xe)"
  let ?u = "Node (Node t p Black xp sl) b cp xb (Node e1 e Black xe e2)"
  have al: "aligned (cpar k)" "aligned p" "aligned b" and nz: "p \<noteq> 0" "b \<noteq> 0" "e \<noteq> 0"
    using at e by (auto simp: loop_at_def)
  have c: "ctx_at ?h1 k p" and t: "tree_at ?h1 (cpar k) (Node t p Black xp (Node sl b cp xb (Node e1 e Black xe e2)))"
    and d: "distinct (caddrs k @ addrs (Node t p Black xp (Node sl b cp xb (Node e1 e Black xe e2))))"
    using at e by (auto simp: loop_at_def)
  from rb_rotate_left_at [OF c t d] obtain h' where
    r: "rb_rotate_left p ?h1 (croot k p) = Some (h', croot k b)" and c': "ctx_at h' k b" and
    t': "tree_at h' (cpar k) ?u" and
    o: "outside (set (caddrs k @ addrs (Node t p Black xp (Node sl b cp xb (Node e1 e Black xe e2))))) ?h1 h'" by blast
  have ne: "p \<noteq> b" "b \<noteq> p" "p \<noteq> e" "e \<noteq> p" "b \<noteq> e" "e \<noteq> b" using d by auto
  have hp: "h p = Some (mk_node (rootp t) b (cpar k) cp xp)" "h b = Some (mk_node (rootp sl) e p cb xb)"
    "h e = Some (mk_node (rootp e1) (rootp e2) b ce xe)"
    using at e by (auto simp: loop_at_def)
  have "rb_erase_left_end b p h (croot k p) = Some (h', croot k b)"
    using hp al nz ne r by (simp add: rb_erase_left_end_def load_eq modify_eq)
  moreover have "holds_tree h h' (croot k (rootp ?u)) (plug k ?u)"
    by (rule holds_treeI) (use c' t' d o in \<open>auto simp: outside_def\<close>)
  ultimately show ?thesis using e by simp
qed

lemma left_turn_none:
  assumes "loop_at h (InL p cp xp (Node sl b cb xb sr) # k) t" and "tcolor sr = Red"
  shows "rb_erase_left_turn b p h root = Some (h, root, b)"
  using assms by (auto simp: rb_erase_left_turn_def loop_at_def load_eq)

lemma left_turn:
  assumes at: "loop_at h (InL p cp xp (Node (Node a l Red xl c) b cb xb sr) # k) t" and sr: "tcolor sr = Black"
  shows "\<exists>h'. rb_erase_left_turn b p h (croot k p) = Some (h', croot k p, l) \<and>
    loop_at h' (InL p cp xp (Node a l Black xl (Node c b Red xb sr)) # k) t \<and>
    outside (set (addrs (plug (InL p cp xp (Node (Node a l Red xl c) b cb xb sr) # k) t))) h h'"
proof -
  let ?h1 = "h(l \<mapsto> mk_node (rootp a) (rootp c) b Black xl, b \<mapsto> mk_node l (rootp sr) p Red xb)"
  let ?k = "InR t p cp xp # k" and ?s = "Node (Node a l Black xl c) b Red xb sr"
  have al: "aligned (cpar k)" "aligned p" "aligned b" and nz: "p \<noteq> 0" "b \<noteq> 0" "l \<noteq> 0"
    using at by (auto simp: loop_at_def)
  have c: "ctx_at ?h1 ?k b" and t: "tree_at ?h1 (cpar ?k) ?s" and d: "distinct (caddrs ?k @ addrs ?s)"
    using at by (auto simp: loop_at_def)
  from rb_rotate_right_at [OF c t d] obtain h' where
    r: "rb_rotate_right b ?h1 (croot k p) = Some (h', croot k p)" and c': "ctx_at h' ?k l" and
    t': "tree_at h' (cpar ?k) (Node a l Black xl (Node c b Red xb sr))" and
    o: "outside (set (caddrs ?k @ addrs ?s)) ?h1 h'" by auto
  have ne: "p \<noteq> b" "b \<noteq> p" "p \<noteq> l" "l \<noteq> p" "b \<noteq> l" "l \<noteq> b" using d by auto
  have hp: "h b = Some (mk_node l (rootp sr) p cb xb)" "h l = Some (mk_node (rootp a) (rootp c) b Red xl)"
    and tsr: "tree_at h b sr" using at by (auto simp: loop_at_def)
  have "rb_erase_left_turn b p h (croot k p) = Some (h', croot k p, l)"
    using hp al nz ne r c' tsr sr by (simp add: rb_erase_left_turn_def load_eq modify_eq)
  moreover have "loop_at h' (InL p cp xp (Node a l Black xl (Node c b Red xb sr)) # k) t"
    using c' t' d by (auto simp: loop_at_def)
  moreover have "outside (set (addrs (plug (InL p cp xp (Node (Node a l Red xl c) b cb xb sr) # k) t))) h h'"
    using o by (auto simp: outside_def set_addrs_plug)
  ultimately show ?thesis by blast
qed

lemma right_sibling_black:
  assumes "loop_at h (InR s p cp xp # k) t" and "tcolor s = Black"
  shows "rb_erase_right_sibling p h root = Some (h, root, rootp s)"
  using assms by (auto simp: rb_erase_right_sibling_def loop_at_def load_eq Let_def)

lemma right_sibling_red:
  assumes at: "loop_at h (InR (Node sl b Red xb sr) p cp xp # k) t"
  shows "\<exists>h'. rb_erase_right_sibling p h (croot k p) = Some (h', croot k b, rootp sr) \<and>
    loop_at h' (InR sr p Red xp # InR sl b Black xb # k) t \<and>
    outside (set (addrs (plug (InR (Node sl b Red xb sr) p cp xp # k) t))) h h'"
proof -
  let ?h1 = "h(b \<mapsto> mk_node (rootp sl) (rootp sr) p Black xb, p \<mapsto> mk_node b (rootp t) (cpar k) Red xp)"
  have al: "aligned (cpar k)" "aligned p" "aligned b" and nz: "p \<noteq> 0" "b \<noteq> 0"
    using at by (auto simp: loop_at_def)
  have c: "ctx_at ?h1 k p" and t: "tree_at ?h1 (cpar k) (Node (Node sl b Black xb sr) p Red xp t)"
    and d: "distinct (caddrs k @ addrs (Node (Node sl b Black xb sr) p Red xp t))"
    using at by (auto simp: loop_at_def)
  from rb_rotate_right_at [OF c t d] obtain h' where
    r: "rb_rotate_right p ?h1 (croot k p) = Some (h', croot k b)" and c': "ctx_at h' k b" and
    t': "tree_at h' (cpar k) (Node sl b Black xb (Node sr p Red xp t))" and
    o: "outside (set (caddrs k @ addrs (Node (Node sl b Black xb sr) p Red xp t))) ?h1 h'" by blast
  have ne: "p \<noteq> b" "b \<noteq> p" using d by auto
  have hp: "h p = Some (mk_node b (rootp t) (cpar k) cp xp)" "h b = Some (mk_node (rootp sl) (rootp sr) p Red xb)"
    using at by (auto simp: loop_at_def)
  have "rb_erase_right_sibling p h (croot k p) = Some (h', croot k b, rootp sr)"
    using hp al nz ne r t' by (simp add: rb_erase_right_sibling_def load_eq modify_eq rb_red_def)
  moreover have "loop_at h' (InR sr p Red xp # InR sl b Black xb # k) t"
    using c' t' d by (auto simp: loop_at_def)
  moreover have "outside (set (addrs (plug (InR (Node sl b Red xb sr) p cp xp # k) t))) h h'"
    using o by (auto simp: outside_def set_addrs_plug)
  ultimately show ?thesis by blast
qed

lemma right_end:
  assumes at: "loop_at h (InR (Node sl b cb xb sr) p cp xp # k) t" and sl: "sl \<noteq> Leaf"
  shows "\<exists>h'. rb_erase_right_end b p h (croot k p) = Some (h', croot k b) \<and>
    holds_tree h h' (croot k b) (plug k (Node (paint Black sl) b cp xb (Node sr p Black xp t)))"
proof -
  obtain e1 e ce xe e2 where e: "sl = Node e1 e ce xe e2" using sl by (cases sl) auto
  let ?h1 = "h(b \<mapsto> mk_node e (rootp sr) p cp xb, p \<mapsto> mk_node b (rootp t) (cpar k) Black xp,
    e \<mapsto> mk_node (rootp e1) (rootp e2) b Black xe)"
  let ?v = "Node (Node (Node e1 e Black xe e2) b cp xb sr) p Black xp t"
  let ?u = "Node (Node e1 e Black xe e2) b cp xb (Node sr p Black xp t)"
  have al: "aligned (cpar k)" "aligned p" "aligned b" and nz: "p \<noteq> 0" "b \<noteq> 0" "e \<noteq> 0"
    using at e by (auto simp: loop_at_def)
  have c: "ctx_at ?h1 k p" and t: "tree_at ?h1 (cpar k) ?v" and d: "distinct (caddrs k @ addrs ?v)"
    using at e by (auto simp: loop_at_def)
  from rb_rotate_right_at [OF c t d] obtain h' where
    r: "rb_rotate_right p ?h1 (croot k p) = Some (h', croot k b)" and c': "ctx_at h' k b" and
    t': "tree_at h' (cpar k) ?u" and o: "outside (set (caddrs k @ addrs ?v)) ?h1 h'" by blast
  have ne: "p \<noteq> b" "b \<noteq> p" "p \<noteq> e" "e \<noteq> p" "b \<noteq> e" "e \<noteq> b" using d by auto
  have hp: "h p = Some (mk_node b (rootp t) (cpar k) cp xp)" "h b = Some (mk_node e (rootp sr) p cb xb)"
    "h e = Some (mk_node (rootp e1) (rootp e2) b ce xe)"
    using at e by (auto simp: loop_at_def)
  have "rb_erase_right_end b p h (croot k p) = Some (h', croot k b)"
    using hp al nz ne r by (simp add: rb_erase_right_end_def load_eq modify_eq)
  moreover have "holds_tree h h' (croot k (rootp ?u)) (plug k ?u)"
    by (rule holds_treeI) (use c' t' d o in \<open>auto simp: outside_def\<close>)
  ultimately show ?thesis using e by simp
qed

lemma right_turn_none:
  assumes "loop_at h (InR (Node sl b cb xb sr) p cp xp # k) t" and "tcolor sl = Red"
  shows "rb_erase_right_turn b p h root = Some (h, root, b)"
  using assms by (auto simp: rb_erase_right_turn_def loop_at_def load_eq)

lemma right_turn:
  assumes at: "loop_at h (InR (Node sl b cb xb (Node a r Red xr c)) p cp xp # k) t" and sl: "tcolor sl = Black"
  shows "\<exists>h'. rb_erase_right_turn b p h (croot k p) = Some (h', croot k p, r) \<and>
    loop_at h' (InR (Node (Node sl b Red xb a) r Black xr c) p cp xp # k) t \<and>
    outside (set (addrs (plug (InR (Node sl b cb xb (Node a r Red xr c)) p cp xp # k) t))) h h'"
proof -
  let ?h1 = "h(r \<mapsto> mk_node (rootp a) (rootp c) b Black xr, b \<mapsto> mk_node (rootp sl) r p Red xb)"
  let ?k = "InL p cp xp t # k" and ?s = "Node sl b Red xb (Node a r Black xr c)"
  have al: "aligned (cpar k)" "aligned p" "aligned b" and nz: "p \<noteq> 0" "b \<noteq> 0" "r \<noteq> 0"
    using at by (auto simp: loop_at_def)
  have c: "ctx_at ?h1 ?k b" and t: "tree_at ?h1 (cpar ?k) ?s" and d: "distinct (caddrs ?k @ addrs ?s)"
    using at by (auto simp: loop_at_def)
  from rb_rotate_left_at [OF c t d] obtain h' where
    rot: "rb_rotate_left b ?h1 (croot k p) = Some (h', croot k p)" and c': "ctx_at h' ?k r" and
    t': "tree_at h' (cpar ?k) (Node (Node sl b Red xb a) r Black xr c)" and
    o: "outside (set (caddrs ?k @ addrs ?s)) ?h1 h'" by auto
  have ne: "p \<noteq> b" "b \<noteq> p" "p \<noteq> r" "r \<noteq> p" "b \<noteq> r" "r \<noteq> b" using d by auto
  have hp: "h b = Some (mk_node (rootp sl) r p cb xb)" "h r = Some (mk_node (rootp a) (rootp c) b Red xr)"
    and tsl: "tree_at h b sl" using at by (auto simp: loop_at_def)
  have "rb_erase_right_turn b p h (croot k p) = Some (h', croot k p, r)"
    using hp al nz ne rot c' tsl sl by (simp add: rb_erase_right_turn_def load_eq modify_eq)
  moreover have "loop_at h' (InR (Node (Node sl b Red xb a) r Black xr c) p cp xp # k) t"
    using c' t' d by (auto simp: loop_at_def)
  moreover have "outside (set (addrs (plug (InR (Node sl b cb xb (Node a r Red xr c)) p cp xp # k) t))) h h'"
    using o by (auto simp: outside_def set_addrs_plug)
  ultimately show ?thesis by blast
qed

section \<open>A round of the loop\<close>

lemma set_addrs_fixL: "s \<noteq> Leaf \<Longrightarrow> set (addrs (snd (fixL t p cp xp s))) = insert p (set (addrs t) \<union> set (addrs s))"
  by (cases "(t, p, cp, xp, s)" rule: fixL.cases) (auto split: rtree.splits rcolor.splits)

lemma set_addrs_fixR: "s \<noteq> Leaf \<Longrightarrow> set (addrs (snd (fixR s p cp xp t))) = insert p (set (addrs t) \<union> set (addrs s))"
  by (cases "(s, p, cp, xp, t)" rule: fixR.cases) (auto split: rtree.splits rcolor.splits)

lemma tcolor_fixL: "s \<noteq> Leaf \<Longrightarrow> tcolor (snd (fixL t p cp xp s)) = cp"
  by (cases "(t, p, cp, xp, s)" rule: fixL.cases) (auto split: rtree.splits rcolor.splits)

lemma tcolor_fixR: "s \<noteq> Leaf \<Longrightarrow> tcolor (snd (fixR s p cp xp t)) = cp"
  by (cases "(s, p, cp, xp, t)" rule: fixR.cases) (auto split: rtree.splits rcolor.splits)

lemma left_black_done:
  assumes sib: "rb_erase_left_sibling p h0 root0 = Some (h, croot k p, rootp s)"
    and at: "loop_at h (InL p cp xp s # k) t" and f: "fixL t p cp xp s = (False, u)" and b: "tcolor s = Black"
  shows "\<exists>h' q. rb_erase_left p h0 root0 = Some (h', rootp (plug k u), rootp (plug k u), q, False) \<and>
    holds_tree h h' (rootp (plug k u)) (plug k u)"
proof -
  obtain sl a xa sr where s: "s = Node sl a Black xa sr" using f b by (cases s) auto
  have hs: "load h a = Some (mk_node (rootp sl) (rootp sr) p Black xa)" and al: "aligned a"
    and ts: "tree_at h a sl" "tree_at h a sr" using at s by (auto simp: loop_at_def load_eq)
  have col: "rb_black h (rootp sl) = Some (tcolor sl = Black)" "rb_black h (rootp sr) = Some (tcolor sr = Black)"
    using ts al by auto
  show ?thesis
  proof (cases "tcolor sr")
    case Red
    then have u: "u = Node (Node t p Black xp sl) a cp xa (paint Black sr)" using f s by simp
    from left_end [of h p cp xp sl a Black xa sr k t] at s Red obtain h' where
      e: "rb_erase_left_end a p h (croot k p) = Some (h', croot k a)" and ht: "holds_tree h h' (croot k a) (plug k u)"
      unfolding u by (cases sr) auto
    have "rb_erase_left_turn a p h (croot k p) = Some (h, croot k p, a)"
      using left_turn_none [of h p cp xp sl a Black xa sr k t] at s Red by simp
    then have "rb_erase_left p h0 root0 = Some (h', rootp (plug k u), rootp (plug k u), p, False)"
      using sib s hs col Red e u by (simp add: rb_erase_left_def rootp_plug)
    with ht u show ?thesis by (auto simp: rootp_plug)
  next
    case Black
    then obtain c1 l xl c2 where sl: "sl = Node c1 l Red xl c2"
      and u: "u = Node (Node t p Black xp c1) l cp xl (Node c2 a Black xa sr)"
      using f s by (auto split: rtree.splits rcolor.splits)
    from left_turn [of h p cp xp c1 l xl c2 a Black xa sr k t] at s sl Black obtain h1 where
      t1: "rb_erase_left_turn a p h (croot k p) = Some (h1, croot k p, l)" and
      at1: "loop_at h1 (InL p cp xp (Node c1 l Black xl (Node c2 a Red xa sr)) # k) t" and
      o1: "outside (set (addrs (plug (InL p cp xp (Node (Node c1 l Red xl c2) a Black xa sr) # k) t))) h h1" by auto
    from left_end [OF at1] obtain h' where
      e: "rb_erase_left_end l p h1 (croot k p) = Some (h', croot k l)" and
      ht: "holds_tree h1 h' (croot k l) (plug k u)" unfolding u by auto
    have "rb_erase_left p h0 root0 = Some (h', rootp (plug k u), rootp (plug k u), p, False)"
      using sib s sl hs col Black e u t1 by (simp add: rb_erase_left_def rootp_plug)
    moreover have "holds_tree h h' (rootp (plug k u)) (plug k u)"
      using holds_tree_trans [OF _ ht, of h] o1 u by (simp add: set_addrs_plug rootp_plug insert_commute Un_ac)
    ultimately show ?thesis by blast
  qed
qed

lemma left_black_go:
  assumes sib: "rb_erase_left_sibling p h0 root0 = Some (h, croot k p, rootp s)"
    and at: "loop_at h (InL p cp xp s # k) t" and f: "fixL t p cp xp s = (True, u)" and b: "tcolor s = Black"
    and ne: "s \<noteq> Leaf"
  shows "\<exists>h'. rb_erase_left p h0 root0 = Some (h', croot k p, p, cpar k, True) \<and>
    loop_at h' k u \<and> rootp u = p \<and> outside (set (addrs (plug k u))) h h'"
proof -
  obtain sl a xa sr where s: "s = Node sl a Black xa sr" using b ne by (cases s) auto
  have black: "tcolor sl = Black" "tcolor sr = Black" and u: "u = Node t p cp xp (Node sl a Red xa sr)"
    using f s by (auto split: rtree.splits rcolor.splits if_splits)
  let ?h = "h(a \<mapsto> mk_node (rootp sl) (rootp sr) p Red xa)"
  have ha: "h a = Some (mk_node (rootp sl) (rootp sr) p Black xa)" and al: "aligned a" "aligned p" "aligned (cpar k)"
    and ts: "tree_at h a sl" "tree_at h a sr" and nz: "a \<noteq> 0" "p \<noteq> 0" "a \<noteq> p"
    and hp: "h p = Some (mk_node (rootp t) a (cpar k) cp xp)"
    using at s by (auto simp: loop_at_def)
  have col: "rb_black h (rootp sl) = Some True" "rb_black h (rootp sr) = Some True"
    using ts al black by auto
  have "rb_erase_left p h0 root0 = Some (?h, croot k p, p, cpar k, True)"
    using sib s ha al nz hp col by (simp add: rb_erase_left_def load_eq modify_eq)
  moreover have "loop_at ?h k u" using at s u by (auto simp: loop_at_def)
  moreover have "outside (set (addrs (plug k u))) h ?h" using u by (auto simp: outside_def set_addrs_plug)
  ultimately show ?thesis using u by auto
qed

lemma right_black_done:
  assumes sib: "rb_erase_right_sibling p h0 root0 = Some (h, croot k p, rootp s)"
    and at: "loop_at h (InR s p cp xp # k) t" and f: "fixR s p cp xp t = (False, u)" and b: "tcolor s = Black"
  shows "\<exists>h' q. rb_erase_right p h0 root0 = Some (h', rootp (plug k u), rootp (plug k u), q, False) \<and>
    holds_tree h h' (rootp (plug k u)) (plug k u)"
proof -
  obtain sl a xa sr where s: "s = Node sl a Black xa sr" using f b by (cases s) auto
  have hs: "load h a = Some (mk_node (rootp sl) (rootp sr) p Black xa)" and al: "aligned a"
    and ts: "tree_at h a sl" "tree_at h a sr" using at s by (auto simp: loop_at_def load_eq)
  have col: "rb_black h (rootp sl) = Some (tcolor sl = Black)" "rb_black h (rootp sr) = Some (tcolor sr = Black)"
    using ts al by auto
  show ?thesis
  proof (cases "tcolor sl")
    case Red
    then have u: "u = Node (paint Black sl) a cp xa (Node sr p Black xp t)" using f s by simp
    from right_end [of h sl a Black xa sr p cp xp k t] at s Red obtain h' where
      e: "rb_erase_right_end a p h (croot k p) = Some (h', croot k a)" and ht: "holds_tree h h' (croot k a) (plug k u)"
      unfolding u by (cases sl) auto
    have "rb_erase_right_turn a p h (croot k p) = Some (h, croot k p, a)"
      using right_turn_none [of h sl a Black xa sr p cp xp k t] at s Red by simp
    then have "rb_erase_right p h0 root0 = Some (h', rootp (plug k u), rootp (plug k u), p, False)"
      using sib s hs col Red e u by (simp add: rb_erase_right_def rootp_plug)
    with ht u show ?thesis by (auto simp: rootp_plug)
  next
    case Black
    then obtain c1 r xr c2 where sr: "sr = Node c1 r Red xr c2"
      and u: "u = Node (Node sl a Black xa c1) r cp xr (Node c2 p Black xp t)"
      using f s by (auto split: rtree.splits rcolor.splits)
    from right_turn [of h sl a Black xa c1 r xr c2 p cp xp k t] at s sr Black obtain h1 where
      t1: "rb_erase_right_turn a p h (croot k p) = Some (h1, croot k p, r)" and
      at1: "loop_at h1 (InR (Node (Node sl a Red xa c1) r Black xr c2) p cp xp # k) t" and
      o1: "outside (set (addrs (plug (InR (Node sl a Black xa (Node c1 r Red xr c2)) p cp xp # k) t))) h h1" by auto
    from right_end [OF at1] obtain h' where
      e: "rb_erase_right_end r p h1 (croot k p) = Some (h', croot k r)" and
      ht: "holds_tree h1 h' (croot k r) (plug k u)" unfolding u by auto
    have "rb_erase_right p h0 root0 = Some (h', rootp (plug k u), rootp (plug k u), p, False)"
      using sib s sr hs col Black e u t1 by (simp add: rb_erase_right_def rootp_plug)
    moreover have "holds_tree h h' (rootp (plug k u)) (plug k u)"
      using holds_tree_trans [OF _ ht, of h] o1 u by (simp add: set_addrs_plug rootp_plug insert_commute Un_ac)
    ultimately show ?thesis by blast
  qed
qed

lemma right_black_go:
  assumes sib: "rb_erase_right_sibling p h0 root0 = Some (h, croot k p, rootp s)"
    and at: "loop_at h (InR s p cp xp # k) t" and f: "fixR s p cp xp t = (True, u)" and b: "tcolor s = Black"
    and ne: "s \<noteq> Leaf"
  shows "\<exists>h'. rb_erase_right p h0 root0 = Some (h', croot k p, p, cpar k, True) \<and>
    loop_at h' k u \<and> rootp u = p \<and> outside (set (addrs (plug k u))) h h'"
proof -
  obtain sl a xa sr where s: "s = Node sl a Black xa sr" using b ne by (cases s) auto
  have black: "tcolor sl = Black" "tcolor sr = Black" and u: "u = Node (Node sl a Red xa sr) p cp xp t"
    using f s by (auto split: rtree.splits rcolor.splits if_splits)
  let ?h = "h(a \<mapsto> mk_node (rootp sl) (rootp sr) p Red xa)"
  have ha: "h a = Some (mk_node (rootp sl) (rootp sr) p Black xa)" and al: "aligned a" "aligned p" "aligned (cpar k)"
    and ts: "tree_at h a sl" "tree_at h a sr" and nz: "a \<noteq> 0" "p \<noteq> 0" "a \<noteq> p"
    and hp: "h p = Some (mk_node a (rootp t) (cpar k) cp xp)"
    using at s by (auto simp: loop_at_def)
  have col: "rb_black h (rootp sl) = Some True" "rb_black h (rootp sr) = Some True"
    using ts al black by auto
  have "rb_erase_right p h0 root0 = Some (?h, croot k p, p, cpar k, True)"
    using sib s ha al nz hp col by (simp add: rb_erase_right_def load_eq modify_eq)
  moreover have "loop_at ?h k u" using at s u by (auto simp: loop_at_def)
  moreover have "outside (set (addrs (plug k u))) h ?h" using u by (auto simp: outside_def set_addrs_plug)
  ultimately show ?thesis using u by auto
qed

section \<open>The invariant\<close>

lemma fixL_inv:
  assumes "fixL t p cp xp s = (go, u)" and "tcolor s = Black" and "bheight s = Suc (bheight t)"
    and "invc s" and "invh s" and "invc t" and "invh t" and "tcolor t = Black"
  shows "invh u \<and> tcolor u = cp \<and>
    (if go then invc (paint Black u) \<and> bheight u = bheight t + (if cp = Black then 1 else 0)
     else invc u \<and> bheight u = Suc (bheight t) + (if cp = Black then 1 else 0))"
proof (cases s)
  case Leaf
  with assms(3) show ?thesis by simp
next
  case (Node sl a c xa sr)
  show ?thesis
  proof (cases "tcolor sr")
    case Red
    with Node assms show ?thesis by (cases sr) auto
  next
    case Black
    with Node assms show ?thesis by (auto split: rtree.splits rcolor.splits)
  qed
qed

lemma fixR_inv:
  assumes "fixR s p cp xp t = (go, u)" and "tcolor s = Black" and "bheight s = Suc (bheight t)"
    and "invc s" and "invh s" and "invc t" and "invh t" and "tcolor t = Black"
  shows "invh u \<and> tcolor u = cp \<and>
    (if go then invc (paint Black u) \<and> bheight u = bheight t + (if cp = Black then 1 else 0)
     else invc u \<and> bheight u = Suc (bheight t) + (if cp = Black then 1 else 0))"
proof (cases s)
  case Leaf
  with assms(3) show ?thesis by simp
next
  case (Node sl a c xa sr)
  show ?thesis
  proof (cases "tcolor sl")
    case Red
    with Node assms show ?thesis by (cases sl) auto
  next
    case Black
    with Node assms show ?thesis by (auto split: rtree.splits rcolor.splits)
  qed
qed

lemma ctx_inv_Black: "ctx_inv k c n \<Longrightarrow> ctx_inv k Black n"
  by (cases c) (auto intro: ctx_inv_Red_Black)

text \<open>The state in which the loop runs: the subtree is one black node short.\<close>

definition short_at :: "'x rctx \<Rightarrow> 'x rtree \<Rightarrow> bool" where
  "short_at k t \<longleftrightarrow> invc (paint Black t) \<and> invh t \<and> ctx_inv k Black (Suc (bheight t)) \<and> root_black k"

lemma short_at_black:
  assumes "short_at k t" and "tcolor t = Black"
  shows "invc t" and "invh t" and "ctx_inv k Black (Suc (bheight t))" and "root_black k"
  using assms by (cases t; auto simp: short_at_def)+

lemma short_at_go_L:
  assumes "short_at (InL p cp xp s # k) t" and "tcolor t = Black" and "tcolor s = Black"
    and "fixL t p cp xp s = (True, u)"
  shows "short_at k u"
  using fixL_inv [OF assms(4)] short_at_black [OF assms(1,2)] assms(2,3) ctx_inv_Black [of k cp]
  by (auto simp: short_at_def dest: root_black_tl split: if_splits)

lemma short_at_go_R:
  assumes "short_at (InR s p cp xp # k) t" and "tcolor t = Black" and "tcolor s = Black"
    and "fixR s p cp xp t = (True, u)"
  shows "short_at k u"
  using fixR_inv [OF assms(4)] short_at_black [OF assms(1,2)] assms(2,3) ctx_inv_Black [of k cp]
  by (auto simp: short_at_def dest: root_black_tl split: if_splits)

lemma done_inv_L:
  assumes "short_at (InL p cp xp s # k) t" and "tcolor t = Black" and "tcolor s = Black"
    and "fixL t p cp xp s = (False, u)"
  shows "rbt (paint Black (plug k u))"
  using fixL_inv [OF assms(4)] short_at_black [OF assms(1,2)] assms(2,3)
  by (intro rbt_paint_Black) (auto intro!: inv_plug_ctx [THEN conjunct1] inv_plug_ctx [THEN conjunct2])

lemma done_inv_R:
  assumes "short_at (InR s p cp xp # k) t" and "tcolor t = Black" and "tcolor s = Black"
    and "fixR s p cp xp t = (False, u)"
  shows "rbt (paint Black (plug k u))"
  using fixR_inv [OF assms(4)] short_at_black [OF assms(1,2)] assms(2,3)
  by (intro rbt_paint_Black) (auto intro!: inv_plug_ctx [THEN conjunct1] inv_plug_ctx [THEN conjunct2])

lemma root_black_Black: "root_black (f # k) \<Longrightarrow> fcolor g = Black \<Longrightarrow> root_black (g # k)"
  by (cases k) auto

text \<open>A red sibling: rotating it up changes the context but not what it needs.\<close>

lemma short_at_red_L:
  assumes "short_at (InL p cp xp (Node sl b Red xb sr) # k) t" and "tcolor t = Black"
  shows "short_at (InL p Red xp sl # InL b Black xb sr # k) t" and "tcolor sl = Black" and "sl \<noteq> Leaf"
    and "cp = Black"
  using assms by (auto simp: short_at_def intro: rcolor.exhaust [of cp] root_black_Black)

lemma short_at_red_R:
  assumes "short_at (InR (Node sl b Red xb sr) p cp xp # k) t" and "tcolor t = Black"
  shows "short_at (InR sr p Red xp # InR sl b Black xb # k) t" and "tcolor sr = Black" and "sr \<noteq> Leaf"
    and "cp = Black"
  using assms by (auto simp: short_at_def intro: rcolor.exhaust [of cp] root_black_Black)

lemma short_at_stop:
  assumes "short_at k t" and "tcolor t = Red \<or> k = []"
  shows "rbt (plug k (paint Black t))"
proof (cases "k = []")
  case True
  with assms show ?thesis by (auto simp: short_at_def rbt_def inv_paint_Black)
next
  case False
  with assms obtain l a x r where t: "t = Node l a Red x r" by (cases t) auto
  have "tcolor (plug k (paint Black t)) = Black"
    using False assms(1) by (simp add: tcolor_plug root_black_last short_at_def)
  moreover have "invc (plug k (paint Black t)) \<and> invh (plug k (paint Black t))"
    using assms(1) t by (intro inv_plug_ctx) (auto simp: short_at_def)
  ultimately show ?thesis by (simp add: rbt_def)
qed

lemma del_fix_red_L:
  assumes sh: "short_at (InL p cp xp (Node sl b Red xb sr) # k) t" and tb: "tcolor t = Black"
  shows "rbt (del_fix (InL p cp xp (Node sl b Red xb sr) # k) t)"
proof -
  let ?k = "InL b Black xb sr # k"
  have r: "short_at (InL p Red xp sl # ?k) t" "tcolor sl = Black" "sl \<noteq> Leaf"
    using short_at_red_L [OF sh tb] by auto
  obtain go u where f: "fixL t p Red xp sl = (go, u)" by fastforce
  have u: "tcolor u = Red" using tcolor_fixL [OF r(3), of t p Red xp] f by simp
  show ?thesis
  proof (cases go)
    case True
    then have "short_at ?k u" using short_at_go_L [OF r(1) tb r(2)] f by simp
    then show ?thesis using short_at_stop [of ?k u] u tb f True by simp
  next
    case False
    then have "rbt (paint Black (plug ?k u))" using done_inv_L [OF r(1) tb r(2)] f by simp
    then show ?thesis using tb f False by simp
  qed
qed

lemma del_fix_red_R:
  assumes sh: "short_at (InR (Node sl b Red xb sr) p cp xp # k) t" and tb: "tcolor t = Black"
  shows "rbt (del_fix (InR (Node sl b Red xb sr) p cp xp # k) t)"
proof -
  let ?k = "InR sl b Black xb # k"
  have r: "short_at (InR sr p Red xp # ?k) t" "tcolor sr = Black" "sr \<noteq> Leaf"
    using short_at_red_R [OF sh tb] by auto
  obtain go u where f: "fixR sr p Red xp t = (go, u)" by fastforce
  have u: "tcolor u = Red" using tcolor_fixR [OF r(3), of p Red xp t] f by simp
  show ?thesis
  proof (cases go)
    case True
    then have "short_at ?k u" using short_at_go_R [OF r(1) tb r(2)] f by simp
    then show ?thesis using short_at_stop [of ?k u] u tb f True by simp
  next
    case False
    then have "rbt (paint Black (plug ?k u))" using done_inv_R [OF r(1) tb r(2)] f by simp
    then show ?thesis using tb f False by simp
  qed
qed

lemma del_fix_rbt: "short_at k t \<Longrightarrow> rbt (del_fix k t)"
proof (induction k t rule: del_fix.induct)
  case (1 t)
  then show ?case using short_at_stop [of "[]" t] by simp
next
  case (2 p cp xp s k t)
  show ?case
  proof (cases "tcolor t = Red")
    case True
    with "2.prems" show ?thesis using short_at_stop [of "InL p cp xp s # k" t] by simp
  next
    case t: False
    then have tb: "tcolor t = Black" by simp
    show ?thesis
    proof (cases "tcolor s")
      case Red
      then obtain sl b xb sr where s: "s = Node sl b Red xb sr" by (cases s) auto
      show ?thesis unfolding s by (rule del_fix_red_L [OF "2.prems" [unfolded s] tb])
    next
      case Black
      obtain go u where f: "fixL t p cp xp s = (go, u)" by fastforce
      with Black t "2.prems" show ?thesis
        using done_inv_L [of p cp xp s k t u] short_at_go_L [of p cp xp s k t u] 2
        by (cases go) (auto split: rtree.splits rcolor.splits)
    qed
  qed
next
  case (3 s p cp xp k t)
  show ?case
  proof (cases "tcolor t = Red")
    case True
    with "3.prems" show ?thesis using short_at_stop [of "InR s p cp xp # k" t] by simp
  next
    case t: False
    then have tb: "tcolor t = Black" by simp
    show ?thesis
    proof (cases "tcolor s")
      case Red
      then obtain sl b xb sr where s: "s = Node sl b Red xb sr" by (cases s) auto
      show ?thesis unfolding s by (rule del_fix_red_R [OF "3.prems" [unfolded s] tb])
    next
      case Black
      obtain go u where f: "fixR s p cp xp t = (go, u)" by fastforce
      with Black t "3.prems" show ?thesis
        using done_inv_R [of s p cp xp k t u] short_at_go_R [of s p cp xp k t u] 3
        by (cases go) (auto split: rtree.splits rcolor.splits)
    qed
  qed
qed

text \<open>The order of the nodes stays.\<close>

lemma inord_fixL: "s \<noteq> Leaf \<Longrightarrow> inord (snd (fixL t p cp xp s)) = inord t @ (p, xp) # inord s"
  by (cases "(t, p, cp, xp, s)" rule: fixL.cases) (auto split: rtree.splits rcolor.splits)

lemma inord_fixR: "s \<noteq> Leaf \<Longrightarrow> inord (snd (fixR s p cp xp t)) = inord s @ (p, xp) # inord t"
  by (cases "(s, p, cp, xp, t)" rule: fixR.cases) (auto split: rtree.splits rcolor.splits)

lemma inord_del_fix: "short_at k t \<Longrightarrow> inord (del_fix k t) = inord (plug k t)"
proof (induction k t rule: del_fix.induct)
  case (1 t)
  then show ?case by simp
next
  case (2 p cp xp s k t)
  have sn: "tcolor t = Black \<Longrightarrow> s \<noteq> Leaf" using "2.prems" by (auto simp: short_at_def)
  show ?case
  proof (cases "tcolor t = Red")
    case True
    then show ?thesis by (simp add: inord_plug)
  next
    case t: False
    show ?thesis
    proof (cases "tcolor s")
      case Red
      then obtain sl b xb sr where s: "s = Node sl b Red xb sr" by (cases s) auto
      have r: "sl \<noteq> Leaf" using short_at_red_L [OF "2.prems" [unfolded s]] t by auto
      obtain go u where f: "fixL t p Red xp sl = (go, u)" by fastforce
      with inord_fixL [OF r, of t p Red xp] show ?thesis using t s by (cases go) (simp_all add: inord_plug)
    next
      case Black
      obtain go u where f: "fixL t p cp xp s = (go, u)" by fastforce
      with Black t "2.prems" inord_fixL [of s t p cp xp] sn show ?thesis
        using short_at_go_L [of p cp xp s k t u] 2
        by (cases go) (auto simp: inord_plug split: rtree.splits rcolor.splits)
    qed
  qed
next
  case (3 s p cp xp k t)
  have sn: "tcolor t = Black \<Longrightarrow> s \<noteq> Leaf" using "3.prems" by (auto simp: short_at_def)
  show ?case
  proof (cases "tcolor t = Red")
    case True
    then show ?thesis by (simp add: inord_plug)
  next
    case t: False
    show ?thesis
    proof (cases "tcolor s")
      case Red
      then obtain sl b xb sr where s: "s = Node sl b Red xb sr" by (cases s) auto
      have r: "sr \<noteq> Leaf" using short_at_red_R [OF "3.prems" [unfolded s]] t by auto
      obtain go u where f: "fixR sr p Red xp t = (go, u)" by fastforce
      with inord_fixR [OF r, of p Red xp t] show ?thesis using t s by (cases go) (simp_all add: inord_plug)
    next
      case Black
      obtain go u where f: "fixR s p cp xp t = (go, u)" by fastforce
      with Black t "3.prems" inord_fixR [of s p cp xp t] sn show ?thesis
        using short_at_go_R [of s p cp xp k t u] 3
        by (cases go) (auto simp: inord_plug split: rtree.splits rcolor.splits)
    qed
  qed
qed

lemma set_addrs_del_fix: "short_at k t \<Longrightarrow> set (addrs (del_fix k t)) = set (addrs (plug k t))"
  using inord_del_fix [of k t] by (simp flip: map_fst_inord)

section \<open>The loop\<close>

lemma fix_stop:
  assumes at: "loop_at h k t" and "tcolor t = Red \<or> k = []"
  shows "\<exists>h'. rb_erase_fix (rootp t) (cpar k) h (croot k (rootp t)) = Some (h', croot k (rootp t)) \<and>
    holds_tree h h' (croot k (rootp t)) (plug k (paint Black t))"
proof -
  have al: "aligned (cpar k)" and tr: "tree_at h (cpar k) t" using at by (auto simp: loop_at_def)
  then have "rb_black h (rootp t) = Some (tcolor t = Black)" by simp
  then have l: "rb_erase_loop (rootp t) (cpar k) h (croot k (rootp t)) = Some (h, croot k (rootp t), rootp t)"
    using assms(2) by (subst rb_erase_loop.simps) auto
  show ?thesis
  proof (cases t)
    case Leaf
    have "holds_tree h h (croot k (rootp t)) (plug k t)"
      by (rule holds_treeI) (use at in \<open>auto simp: loop_at_def\<close>)
    with Leaf l show ?thesis by (simp add: rb_erase_fix_def)
  next
    case (Node u a c x v)
    let ?h = "h(a \<mapsto> mk_node (rootp u) (rootp v) (cpar k) Black x)"
    have "rb_erase_fix (rootp t) (cpar k) h (croot k (rootp t)) = Some (?h, croot k (rootp t))"
      using l Node tr al by (simp add: rb_erase_fix_def modify_eq)
    moreover have "holds_tree h ?h (croot k (rootp (paint Black t))) (plug k (paint Black t))"
      by (rule holds_treeI) (use at Node in \<open>auto simp: loop_at_def outside_def\<close>)
    ultimately show ?thesis by auto
  qed
qed

lemma croot_in: "k \<noteq> [] \<Longrightarrow> croot k a \<in> set (caddrs k)"
  by (induction k arbitrary: a) (case_tac k; force)+

lemma fix_unfold:
  assumes at: "loop_at h (f # k) t" and b: "tcolor t = Black" and ne: "fside f \<noteq> Leaf"
  shows "rb_erase_fix (rootp t) (faddr f) h (croot k (faddr f)) =
    do { (h, root, child, parent, go) \<leftarrow>
           (case f of InL p cp xp s \<Rightarrow> rb_erase_left p h (croot k p) | InR s p cp xp \<Rightarrow> rb_erase_right p h (croot k p));
         (if go then rb_erase_fix child parent h root
          else do { h \<leftarrow> (if child \<noteq> 0 then modify h child rb_set_black else Some h); Some (h, root) }) }"
proof -
  have c: "ctx_at h (f # k) (rootp t)" and tr: "tree_at h (faddr f) t" and d: "distinct (caddrs (f # k) @ addrs t)"
    using at by (auto simp: loop_at_def)
  have al: "aligned (faddr f)" and nz: "faddr f \<noteq> 0" and s: "tree_at h (faddr f) (fside f)" using c by (cases f; auto)+
  have bl: "rb_black h (rootp t) = Some True" using tr al b by simp
  have "croot (f # k) (rootp t) \<in> set (caddrs (f # k))" by (rule croot_in) simp
  moreover have "0 \<notin> set (caddrs (f # k))" using c by (rule ctx_at_not_0)
  ultimately have nr: "rootp t \<noteq> croot k (faddr f)" using d rootp_in [of t] by (cases t) auto
  have "set (addrs t) \<inter> set (addrs (fside f)) = {}" using d by auto
  then have ns: "rootp t \<noteq> rootp (fside f)" using rootp_neq [OF s ne tr] by auto
  show ?thesis
  proof (cases f)
    case (InL p cp xp s)
    then have "load h p = Some (mk_node (rootp t) (rootp s) (cpar k) cp xp)" using c by (simp add: load_eq)
    then show ?thesis unfolding rb_erase_fix_def
      by (subst rb_erase_loop.simps) (use InL bl nr in \<open>auto split: Option.bind_splits\<close>)
  next
    case (InR s p cp xp)
    then have "load h p = Some (mk_node (rootp s) (rootp t) (cpar k) cp xp)" using c by (simp add: load_eq)
    then show ?thesis unfolding rb_erase_fix_def
      by (subst rb_erase_loop.simps) (use InR bl nr ns in \<open>auto split: Option.bind_splits\<close>)
  qed
qed

lemma paint_root:
  assumes "holds_tree h h1 (rootp t) t"
  shows "\<exists>h'. (if rootp t \<noteq> 0 then modify h1 (rootp t) rb_set_black else Some h1) = Some h' \<and>
    holds_tree h h' (rootp (paint Black t)) (paint Black t)"
  using assms by (cases t) (auto simp: holds_tree_def modify_eq outside_def)

lemma fix_done:
  assumes "half = Some (h2, rootp w, rootp w, q, False)"
    and "res = do { (h, root, child, parent, go) \<leftarrow> half;
         (if go then rb_erase_fix child parent h root
          else do { h \<leftarrow> (if child \<noteq> 0 then modify h child rb_set_black else Some h); Some (h, root) }) }"
    and "holds_tree h h2 (rootp w) w"
  shows "\<exists>h'. res = Some (h', rootp (paint Black w)) \<and> holds_tree h h' (rootp (paint Black w)) (paint Black w)"
proof -
  obtain h' where "(if rootp w \<noteq> 0 then modify h2 (rootp w) rb_set_black else Some h2) = Some h'"
    "holds_tree h h' (rootp (paint Black w)) (paint Black w)" using paint_root [OF assms(3)] by blast
  then show ?thesis using assms(1,2) by simp
qed

text \<open>The loop gives the tree of \<open>del_fix\<close>.\<close>

definition fixed :: "'x heap \<Rightarrow> 'x rctx \<Rightarrow> 'x rtree \<Rightarrow> bool" where
  "fixed h k t \<longleftrightarrow> (\<exists>h'. rb_erase_fix (rootp t) (cpar k) h (croot k (rootp t)) = Some (h', rootp (del_fix k t)) \<and>
     holds_tree h h' (rootp (del_fix k t)) (del_fix k t))"

lemma fix_left_red:
  assumes at: "loop_at h (InL p cp xp (Node sl b Red xb sr) # k) t" and sh: "short_at (InL p cp xp (Node sl b Red xb sr) # k) t" and tb: "tcolor t = Black"
  shows "fixed h (InL p cp xp (Node sl b Red xb sr) # k) t"
proof -
  let ?t = "plug (InL p cp xp (Node sl b Red xb sr) # k) t"
  have ne: "Node sl b Red xb sr \<noteq> Leaf" by simp
  note unf = fix_unfold [OF at tb, simplified]
  let ?k = "InL b Black xb sr # k"
  have r: "short_at (InL p Red xp sl # ?k) t" "tcolor sl = Black" "sl \<noteq> Leaf"
    using short_at_red_L [OF sh tb] by auto
  obtain h1 where h1: "rb_erase_left_sibling p h (croot k p) = Some (h1, croot ?k p, rootp sl)"
    and at1: "loop_at h1 (InL p Red xp sl # ?k) t" and o1: "outside (set (addrs ?t)) h h1"
    using left_sibling_red [OF at] by auto
  obtain go u where f: "fixL t p Red xp sl = (go, u)" by fastforce
  have u: "tcolor u = Red" using tcolor_fixL [OF r(3), of t p Red xp] f by simp
  have a: "set (addrs (plug ?k u)) = set (addrs ?t)"
    using set_addrs_fixL [OF r(3), of t p Red xp] f by (auto simp: set_addrs_plug)
  show ?thesis
  proof (cases go)
    case True
    from left_black_go [OF h1 at1 _ r(2,3)] f True obtain h2 where
      e: "rb_erase_left p h (croot k p) = Some (h2, croot ?k p, p, cpar ?k, True)" and at2: "loop_at h2 ?k u"
      and ru: "rootp u = p" and o2: "outside (set (addrs (plug ?k u))) h1 h2" by auto
    from fix_stop [OF at2] u ru obtain h' where
      "rb_erase_fix p (cpar ?k) h2 (croot ?k p) = Some (h', croot ?k p)"
      "holds_tree h2 h' (croot ?k p) (plug ?k (paint Black u))" by auto
    moreover have "del_fix (InL p cp xp (Node sl b Red xb sr) # k) t = plug ?k (paint Black u)" using tb f True by simp
    moreover have "outside (set (addrs (plug ?k (paint Black u)))) h h2"
    proof -
      have "set (addrs (plug ?k (paint Black u))) = set (addrs ?t)"
        unfolding a [symmetric] by (simp only: set_addrs_plug addrs_paint)
      then show ?thesis using outside_trans [OF o1 o2 order_refl] a by (simp only: order_refl)
    qed
    ultimately show ?thesis using e unf ru holds_tree_trans by (auto simp: fixed_def rootp_plug)
  next
    case False
    from left_black_done [OF h1 at1 _ r(2)] f False obtain h2 q where
      e: "rb_erase_left p h (croot k p) = Some (h2, rootp (plug ?k u), rootp (plug ?k u), q, False)" and
      ht: "holds_tree h1 h2 (rootp (plug ?k u)) (plug ?k u)" by auto
    have df: "del_fix (InL p cp xp (Node sl b Red xb sr) # k) t = paint Black (plug ?k u)" using tb f False by simp
    have "holds_tree h h2 (rootp (plug ?k u)) (plug ?k u)" using holds_tree_trans [OF _ ht] o1 a by simp
    from fix_done [OF e unf this] show ?thesis unfolding fixed_def df by simp
  qed
qed

lemma fix_left_black:
  assumes at: "loop_at h (InL p cp xp s # k) t" and sh: "short_at (InL p cp xp s # k) t" and tb: "tcolor t = Black" and Black: "tcolor s = Black"
    and IH: "\<And>h u. loop_at h k u \<Longrightarrow> short_at k u \<Longrightarrow> fixed h k u"
  shows "fixed h (InL p cp xp s # k) t"
proof -
  let ?t = "plug (InL p cp xp s # k) t"
  have ne: "s \<noteq> Leaf" using sh tb by (auto simp: short_at_def)
  note unf = fix_unfold [OF at tb, simplified, OF ne]
  have h1: "rb_erase_left_sibling p h (croot k p) = Some (h, croot k p, rootp s)"
    by (rule left_sibling_black [OF at Black])
  obtain go u where f: "fixL t p cp xp s = (go, u)" by fastforce
  have a: "set (addrs (plug k u)) = set (addrs ?t)"
    using set_addrs_fixL [OF ne, of t p cp xp] f by (auto simp: set_addrs_plug)
  have df: "del_fix (InL p cp xp s # k) t = (if go then del_fix k u else paint Black (plug k u))"
    using tb Black f by (auto split: rtree.splits rcolor.splits)
  show ?thesis
  proof (cases go)
    case True
    from left_black_go [OF h1 at _ Black ne] f True obtain h2 where
      e: "rb_erase_left p h (croot k p) = Some (h2, croot k p, p, cpar k, True)" and at2: "loop_at h2 k u"
      and ru: "rootp u = p" and o2: "outside (set (addrs (plug k u))) h h2" by auto
    have sh2: "short_at k u" using short_at_go_L [OF sh tb Black] f True by simp
    obtain h' where
      "rb_erase_fix p (cpar k) h2 (croot k p) = Some (h', rootp (del_fix k u))"
      "holds_tree h2 h' (rootp (del_fix k u)) (del_fix k u)"
      using IH [OF at2 sh2] ru by (auto simp: fixed_def)
    moreover have "outside (set (addrs (del_fix k u))) h h2" using o2 set_addrs_del_fix [OF sh2] by simp
    ultimately show ?thesis using e unf df True holds_tree_trans by (auto simp: fixed_def)
  next
    case False
    from left_black_done [OF h1 at _ Black] f False obtain h2 q where
      e: "rb_erase_left p h (croot k p) = Some (h2, rootp (plug k u), rootp (plug k u), q, False)" and
      ht: "holds_tree h h2 (rootp (plug k u)) (plug k u)" by auto
    from fix_done [OF e unf ht] show ?thesis unfolding fixed_def df using False by simp
  qed
qed

lemma fix_left:
  assumes at: "loop_at h (InL p cp xp s # k) t" and sh: "short_at (InL p cp xp s # k) t"
    and IH: "\<And>h u. loop_at h k u \<Longrightarrow> short_at k u \<Longrightarrow> fixed h k u"
  shows "fixed h (InL p cp xp s # k) t"
proof (cases "tcolor t = Red")
  case True
  with fix_stop [OF at] show ?thesis by (simp add: fixed_def rootp_plug)
next
  case False
  then have tb: "tcolor t = Black" by simp
  show ?thesis
  proof (cases "tcolor s")
    case Red
    then obtain sl b xb sr where s: "s = Node sl b Red xb sr" by (cases s) auto
    show ?thesis unfolding s by (rule fix_left_red [OF at [unfolded s] sh [unfolded s] tb])
  next
    case Black
    show ?thesis by (rule fix_left_black [OF at sh tb Black IH])
  qed
qed

lemma fix_right_red:
  assumes at: "loop_at h (InR (Node sl b Red xb sr) p cp xp # k) t" and sh: "short_at (InR (Node sl b Red xb sr) p cp xp # k) t" and tb: "tcolor t = Black"
  shows "fixed h (InR (Node sl b Red xb sr) p cp xp # k) t"
proof -
  let ?t = "plug (InR (Node sl b Red xb sr) p cp xp # k) t"
  have ne: "Node sl b Red xb sr \<noteq> Leaf" by simp
  note unf = fix_unfold [OF at tb, simplified]
  let ?k = "InR sl b Black xb # k"
  have r: "short_at (InR sr p Red xp # ?k) t" "tcolor sr = Black" "sr \<noteq> Leaf"
    using short_at_red_R [OF sh tb] by auto
  obtain h1 where h1: "rb_erase_right_sibling p h (croot k p) = Some (h1, croot ?k p, rootp sr)"
    and at1: "loop_at h1 (InR sr p Red xp # ?k) t" and o1: "outside (set (addrs ?t)) h h1"
    using right_sibling_red [OF at] by auto
  obtain go u where f: "fixR sr p Red xp t = (go, u)" by fastforce
  have u: "tcolor u = Red" using tcolor_fixR [OF r(3), of p Red xp t] f by simp
  have a: "set (addrs (plug ?k u)) = set (addrs ?t)"
    using set_addrs_fixR [OF r(3), of p Red xp t] f by (auto simp: set_addrs_plug)
  show ?thesis
  proof (cases go)
    case True
    from right_black_go [OF h1 at1 _ r(2,3)] f True obtain h2 where
      e: "rb_erase_right p h (croot k p) = Some (h2, croot ?k p, p, cpar ?k, True)" and at2: "loop_at h2 ?k u"
      and ru: "rootp u = p" and o2: "outside (set (addrs (plug ?k u))) h1 h2" by auto
    from fix_stop [OF at2] u ru obtain h' where
      "rb_erase_fix p (cpar ?k) h2 (croot ?k p) = Some (h', croot ?k p)"
      "holds_tree h2 h' (croot ?k p) (plug ?k (paint Black u))" by auto
    moreover have "del_fix (InR (Node sl b Red xb sr) p cp xp # k) t = plug ?k (paint Black u)" using tb f True by simp
    moreover have "outside (set (addrs (plug ?k (paint Black u)))) h h2"
    proof -
      have "set (addrs (plug ?k (paint Black u))) = set (addrs ?t)"
        unfolding a [symmetric] by (simp only: set_addrs_plug addrs_paint)
      then show ?thesis using outside_trans [OF o1 o2 order_refl] a by (simp only: order_refl)
    qed
    ultimately show ?thesis using e unf ru holds_tree_trans by (auto simp: fixed_def rootp_plug)
  next
    case False
    from right_black_done [OF h1 at1 _ r(2)] f False obtain h2 q where
      e: "rb_erase_right p h (croot k p) = Some (h2, rootp (plug ?k u), rootp (plug ?k u), q, False)" and
      ht: "holds_tree h1 h2 (rootp (plug ?k u)) (plug ?k u)" by auto
    have df: "del_fix (InR (Node sl b Red xb sr) p cp xp # k) t = paint Black (plug ?k u)" using tb f False by simp
    have "holds_tree h h2 (rootp (plug ?k u)) (plug ?k u)" using holds_tree_trans [OF _ ht] o1 a by simp
    from fix_done [OF e unf this] show ?thesis unfolding fixed_def df by simp
  qed
qed

lemma fix_right_black:
  assumes at: "loop_at h (InR s p cp xp # k) t" and sh: "short_at (InR s p cp xp # k) t" and tb: "tcolor t = Black" and Black: "tcolor s = Black"
    and IH: "\<And>h u. loop_at h k u \<Longrightarrow> short_at k u \<Longrightarrow> fixed h k u"
  shows "fixed h (InR s p cp xp # k) t"
proof -
  let ?t = "plug (InR s p cp xp # k) t"
  have ne: "s \<noteq> Leaf" using sh tb by (auto simp: short_at_def)
  note unf = fix_unfold [OF at tb, simplified, OF ne]
  have h1: "rb_erase_right_sibling p h (croot k p) = Some (h, croot k p, rootp s)"
    by (rule right_sibling_black [OF at Black])
  obtain go u where f: "fixR s p cp xp t = (go, u)" by fastforce
  have a: "set (addrs (plug k u)) = set (addrs ?t)"
    using set_addrs_fixR [OF ne, of p cp xp t] f by (auto simp: set_addrs_plug)
  have df: "del_fix (InR s p cp xp # k) t = (if go then del_fix k u else paint Black (plug k u))"
    using tb Black f by (auto split: rtree.splits rcolor.splits)
  show ?thesis
  proof (cases go)
    case True
    from right_black_go [OF h1 at _ Black ne] f True obtain h2 where
      e: "rb_erase_right p h (croot k p) = Some (h2, croot k p, p, cpar k, True)" and at2: "loop_at h2 k u"
      and ru: "rootp u = p" and o2: "outside (set (addrs (plug k u))) h h2" by auto
    have sh2: "short_at k u" using short_at_go_R [OF sh tb Black] f True by simp
    obtain h' where
      "rb_erase_fix p (cpar k) h2 (croot k p) = Some (h', rootp (del_fix k u))"
      "holds_tree h2 h' (rootp (del_fix k u)) (del_fix k u)"
      using IH [OF at2 sh2] ru by (auto simp: fixed_def)
    moreover have "outside (set (addrs (del_fix k u))) h h2" using o2 set_addrs_del_fix [OF sh2] by simp
    ultimately show ?thesis using e unf df True holds_tree_trans by (auto simp: fixed_def)
  next
    case False
    from right_black_done [OF h1 at _ Black] f False obtain h2 q where
      e: "rb_erase_right p h (croot k p) = Some (h2, rootp (plug k u), rootp (plug k u), q, False)" and
      ht: "holds_tree h h2 (rootp (plug k u)) (plug k u)" by auto
    from fix_done [OF e unf ht] show ?thesis unfolding fixed_def df using False by simp
  qed
qed

lemma fix_right:
  assumes at: "loop_at h (InR s p cp xp # k) t" and sh: "short_at (InR s p cp xp # k) t"
    and IH: "\<And>h u. loop_at h k u \<Longrightarrow> short_at k u \<Longrightarrow> fixed h k u"
  shows "fixed h (InR s p cp xp # k) t"
proof (cases "tcolor t = Red")
  case True
  with fix_stop [OF at] show ?thesis by (simp add: fixed_def rootp_plug)
next
  case False
  then have tb: "tcolor t = Black" by simp
  show ?thesis
  proof (cases "tcolor s")
    case Red
    then obtain sl b xb sr where s: "s = Node sl b Red xb sr" by (cases s) auto
    show ?thesis unfolding s by (rule fix_right_red [OF at [unfolded s] sh [unfolded s] tb])
  next
    case Black
    show ?thesis by (rule fix_right_black [OF at sh tb Black IH])
  qed
qed

lemma rb_erase_fix_refines: "loop_at h k t \<Longrightarrow> short_at k t \<Longrightarrow> fixed h k t"
proof (induction k arbitrary: h t)
  case Nil
  with fix_stop [of h "[]" t] show ?case by (simp add: fixed_def)
next
  case (Cons f k)
  show ?case
  proof (cases f)
    case (InL p cp xp s)
    show ?thesis unfolding InL
      by (rule fix_left [OF Cons.prems [unfolded InL] Cons.IH])
  next
    case (InR s p cp xp)
    show ?thesis unfolding InR
      by (rule fix_right [OF Cons.prems [unfolded InR] Cons.IH])
  qed
qed

end
