(* ===== verification/RbUnlink.thy ===== *)
theory RbUnlink
  imports RbErase
begin

text \<open>
  Taking a node out of the tree: what \<open>rb_erase\<close> does before \<open>rb_erase_fix\<close>, and the
  correctness of the whole.
\<close>

section \<open>Contexts put together\<close>

lemma plug_append: "plug (k1 @ k2) t = plug k2 (plug k1 t)"
  by (induction k1 t rule: plug.induct) auto

lemma caddrs_append [simp]: "caddrs (k1 @ k2) = caddrs k1 @ caddrs k2"
  by (induction k1) auto

lemma croot_append [simp]: "croot (k1 @ k2) a = croot k2 (croot k1 a)"
  by (induction k1 arbitrary: a) auto

lemma cleft_append: "cleft (k1 @ k2) = cleft k2 @ cleft k1"
  by (induction k1 rule: cleft.induct) auto

lemma leftmost_split:
  "t \<noteq> Leaf \<Longrightarrow> \<exists>k x c v r. t = plug k (Node Leaf x c v r) \<and> cleft k = []"
proof (induction t)
  case Leaf
  then show ?case by simp
next
  case (Node l a c v r)
  show ?case
  proof (cases "l = Leaf")
    case True
    then show ?thesis by (intro exI [of _ "[]"]) auto
  next
    case False
    with Node.IH(1) obtain k x d w s where "l = plug k (Node Leaf x d w s)" "cleft k = []" by blast
    then have "Node l a c v r = plug (k @ [InL a c v r]) (Node Leaf x d w s)" "cleft (k @ [InL a c v r]) = []"
      by (simp_all add: plug_append cleft_append)
    then show ?thesis by blast
  qed
qed

text \<open>Only the colours on the path and the trees beside it matter to the invariant.\<close>

lemma ctx_inv_relabel: "ctx_inv (k2 @ InR l z c v # k) d n = ctx_inv (k2 @ InR l x c w # k) d n"
  by (induction k2 arbitrary: d n) auto

lemma root_black_relabel: "root_black (k2 @ InR l z c v # k) = root_black (k2 @ InR l x c w # k)"
  by (cases "k = []") (simp_all add: root_black_last)

lemma short_at_relabel: "short_at (k2 @ InR l z c v # k) t = short_at (k2 @ InR l x c w # k) t"
  by (simp add: short_at_def ctx_inv_relabel [of k2 l z c v k _ _ x w] root_black_relabel [of k2 l z c v k x w])

lemma rbt_relabel: "rbt (plug (k2 @ InR l z c v # k) t) = rbt (plug (k2 @ InR l x c w # k) t)"
  by (simp add: plug_append rbt_swap [of k l z c v "plug k2 t" x w])

text \<open>Taking out a node with at most one child leaves the tree a black node short, if the node was black.\<close>

lemma short_at_remove:
  assumes "rbt (plug k (Node s1 w cw xw s2))" and "s1 = Leaf \<or> s2 = Leaf"
    and c: "c = (if s1 \<noteq> Leaf then s1 else s2)"
  shows "if cw = Black then short_at k c else rbt (plug k c)"
proof -
  have i: "invc (Node s1 w cw xw s2)" "invh (Node s1 w cw xw s2)"
    "ctx_inv k cw (bheight (Node s1 w cw xw s2))"
    using assms(1) inv_plug [of k "Node s1 w cw xw s2"] by (auto simp: rbt_def)
  have b0: "bheight s1 = 0" "bheight s2 = 0" using i(2) assms(2) by auto
  then have c0: "bheight c = 0" "invc c" "invh c" using i c by auto
  have rb: "root_black k" using assms(1) by (rule root_black_rbt)
  show ?thesis
  proof (cases cw)
    case Red
    then have "k \<noteq> []" using assms(1) by (auto simp: rbt_def)
    then have "tcolor (plug k c) = Black" using rb by (simp add: tcolor_plug root_black_last)
    moreover have "tcolor c = Black" using i(1) Red c by auto
    then have "invc (plug k c) \<and> invh (plug k c)"
      using i(3) Red b0 c0 by (intro inv_plug_ctx) (auto intro: ctx_inv_Red_Black)
    ultimately show ?thesis using Red by (simp add: rbt_def)
  next
    case Black
    then show ?thesis using i(3) b0 c0 rb by (auto simp: short_at_def inv_paint_Black)
  qed
qed

section \<open>What has been done when the tree is rebalanced\<close>

definition erased :: "'x heap \<Rightarrow> ptr \<Rightarrow> 'x rtree \<Rightarrow> (ptr \<times> 'x) list \<Rightarrow> bool" where
  "erased h z t ns \<longleftrightarrow> (\<exists>h2 k c col.
     rb_erase z h (rootp t) = (if col = Black then rb_erase_fix (rootp c) (cpar k) h2 (croot k (rootp c))
       else Some (h2, croot k (rootp c))) \<and>
     loop_at h2 k c \<and> inord (plug k c) = ns \<and> outside (set (addrs (plug k c))) h h2 \<and>
     (if col = Black then short_at k c else rbt (plug k c)))"

lemma cbit_eq_BLACK [simp]: "cbit c = BLACK \<longleftrightarrow> c = Black"
  by (cases c) (auto simp: RED_def BLACK_def)

lemma RED_neq_BLACK [simp]: "RED \<noteq> BLACK"
  by (simp add: RED_def BLACK_def)

lemma erased_one:
  assumes t: "tree_at h 0 (plug k (Node l z cz xz r))" and d: "distinct (addrs (plug k (Node l z cz xz r)))"
    and rb: "rbt (plug k (Node l z cz xz r))" and one: "l = Leaf \<or> r = Leaf"
  shows "erased h z (plug k (Node l z cz xz r)) (cleft k @ inord l @ inord r @ cright k)"
proof -
  define c where "c = (if l \<noteq> Leaf then l else r)"
  let ?h1 = "reparent h c (cpar k)" and ?n = "mk_node (rootp l) (rootp r) (cpar k) cz xz"
  let ?h2 = "ctx_put ?h1 k (rootp c)"
  have ck: "ctx_at h k z" and n: "tree_at h (cpar k) (Node l z cz xz r)"
    using t tree_at_plug [of h k "Node l z cz xz r"] by auto
  have dd: "distinct (caddrs k @ addrs (Node l z cz xz r))" using d by (simp add: distinct_addrs_plug)
  have al: "aligned (cpar k)" using ck by simp
  have tc: "tree_at h z c" and sub: "set (addrs c) \<subseteq> set (addrs l) \<union> set (addrs r)" and dc: "distinct (addrs c)"
    using n dd by (auto simp: c_def)
  have dis: "set (addrs c) \<inter> set (caddrs k) = {}" "set (caddrs k) \<inter> set (addrs c) = {}" "z \<notin> set (addrs c)" "z \<noteq> 0"
    and zk: "z \<notin> set (caddrs k)" using sub dd n by auto
  have a: "rb_adopt (rootp c) (cpar k) h = Some ?h1"
    by (rule set_parent_tree [OF tc]) (use n in simp)
  have c1: "ctx_at ?h1 k z" using ck dis by simp
  have rc: "rb_replace_child (cpar k) z (rootp c) ?h1 (croot k z) = Some (?h2, croot k (rootp c))"
    by (rule replace_child_ctx [OF c1 dis(4) zk])
  have hz: "load h z = Some ?n" "load ?h1 z = Some ?n" using n dis by (auto simp: load_eq)
  have pick: "rootp l = 0 \<and> rootp c = rootp r \<or> rootp l \<noteq> 0 \<and> rootp r = 0 \<and> rootp c = rootp l"
    using n rootp_eq_0 [of h z l] one by (auto simp: c_def)
  have "rb_erase z h (croot k z) = (if cz = Black then rb_erase_fix (rootp c) (cpar k) ?h2 (croot k (rootp c))
       else Some (?h2, croot k (rootp c)))"
    using pick hz a rc al by (auto simp: rb_erase_def rb_erase_one_def Let_def)
  moreover have "loop_at ?h2 k c"
    using c1 dis dd dc tc by (auto simp: loop_at_def intro!: ctx_put_same [of _ _ z])
  moreover have "inord (plug k c) = cleft k @ inord l @ inord r @ cright k"
    using one by (auto simp: c_def inord_plug)
  moreover have "outside (set (addrs (plug k c))) h ?h2"
    by (auto simp: outside_def set_addrs_plug)
  moreover have "if cz = Black then short_at k c else rbt (plug k c)"
    by (rule short_at_remove [OF rb one c_def])
  ultimately show ?thesis unfolding erased_def rootp_plug rootp.simps by blast
qed

text \<open>The next node is the right child.\<close>

lemma mk_node_nparent [simp]:
  "(mk_node l r p c x)\<lparr>nparent := nparent (mk_node l' r' q d y)\<rparr> = mk_node l r q d x"
  by (simp add: mk_node_def)

lemma modify_parent_tree:
  "tree_at h q t \<Longrightarrow> aligned q \<Longrightarrow> t \<noteq> Leaf \<Longrightarrow> modify h (rootp t) (rb_set_parent p) = Some (reparent h t p)"
  using set_parent_tree [of h q t p] rootp_eq_0 [of h q t] by (simp add: rb_adopt_def)

lemma rb_next_right:
  assumes "h z = Some (mk_node (rootp l) (rootp r) p c x)" and "z \<noteq> 0" and "tree_at h z r" and "r \<noteq> Leaf"
  shows "rb_next h z = Some (hdp (inord r))"
  using assms rb_leftmost_tree [of h z r] rootp_eq_0 [of h z r] by (simp add: rb_next_def load_eq)

lemma erased_adjacent:
  assumes t: "tree_at h 0 (plug k (Node l z cz xz (Node Leaf x cx xx c)))"
    and d: "distinct (addrs (plug k (Node l z cz xz (Node Leaf x cx xx c))))"
    and rb: "rbt (plug k (Node l z cz xz (Node Leaf x cx xx c)))" and l: "l \<noteq> Leaf"
  shows "erased h z (plug k (Node l z cz xz (Node Leaf x cx xx c)))
    (cleft k @ inord l @ (x, xx) # inord c @ cright k)"
proof -
  let ?r = "Node Leaf x cx xx c" and ?K = "InR l x cz xx # k"
  let ?h1 = "h(x \<mapsto> mk_node (rootp l) (rootp c) (cpar k) cz xx)"
  let ?h2 = "reparent ?h1 l x"
  let ?h3 = "ctx_put ?h2 k x"
  have ck: "ctx_at h k z" and n: "tree_at h (cpar k) (Node l z cz xz ?r)"
    using t tree_at_plug [of h k "Node l z cz xz ?r"] by auto
  have dd: "distinct (caddrs k @ addrs (Node l z cz xz ?r))" using d by (simp add: distinct_addrs_plug)
  have al: "aligned (cpar k)" "aligned z" "aligned x" and nz: "z \<noteq> 0" "x \<noteq> 0" "rootp l \<noteq> 0"
    using ck n l rootp_eq_0 [of h z l] by auto
  have nin: "x \<notin> set (caddrs k)" "z \<notin> set (caddrs k)" "x \<notin> set (addrs l)" "z \<notin> set (addrs l)" "x \<noteq> z" "z \<noteq> x"
    and dis: "set (addrs l) \<inter> set (caddrs k) = {}" "set (caddrs k) \<inter> set (addrs l) = {}"
      "set (addrs l) \<inter> set (addrs c) = {}" "set (caddrs k) \<inter> set (addrs c) = {}"
    using dd by auto
  have nx: "rb_next h z = Some x"
    using rb_next_right [of h z l ?r "cpar k" cz xz] n by simp
  have a: "modify ?h1 (rootp l) (rb_set_parent x) = Some ?h2"
    by (rule modify_parent_tree [of _ z]) (use n nin l in auto)
  have c2: "ctx_at ?h2 k z" using ck nin dis by simp
  have rc: "rb_replace_child (cpar k) z x ?h2 (croot k z) = Some (?h3, croot k x)"
    by (rule replace_child_ctx [OF c2 nz(1) nin(2)])
  have two: "rb_erase_two z h = Some (?h2, x, rootp c, x, cbit cx)"
    using nx n nz nin al a by (simp add: rb_erase_two_def load_eq modify_eq [of x] Let_def)
  have "rb_erase z h (croot k z) = (if cx = Black then rb_erase_fix (rootp c) (cpar ?K) ?h3 (croot ?K (rootp c))
       else Some (?h3, croot ?K (rootp c)))"
    using n nz nin al two rc by (simp add: rb_erase_def load_eq)
  moreover have "loop_at ?h3 ?K c"
    using c2 n dd nz al nin dis reparent_same [of ?h1 z l x]
    by (auto simp: loop_at_def intro!: ctx_put_same [of _ _ z])
  moreover have "inord (plug ?K c) = cleft k @ inord l @ (x, xx) # inord c @ cright k"
    by (simp add: inord_plug)
  moreover have "outside (set (addrs (plug ?K c))) h ?h3"
    by (auto simp: outside_def set_addrs_plug)
  moreover have "if cx = Black then short_at ?K c else rbt (plug ?K c)"
    using short_at_remove [of "InR l z cz xz # k" Leaf x cx xx c c] rb
      short_at_relabel [of "[]" l z cz xz k c x xx] rbt_relabel [of "[]" l z cz xz k c x xx] by (cases cx) simp_all
  ultimately show ?thesis unfolding erased_def rootp_plug rootp.simps by blast
qed

text \<open>The next node is further down: its parent takes over its child, and it takes the place of the node,
  as in \<open>rb_swap_nodes\<close>.\<close>

lemma load_modify: "modify h a f = Some h' \<Longrightarrow> b \<noteq> a \<Longrightarrow> load h' b = load h b"
  by (auto simp: modify_def load_def split: option.splits)

lemma replace_child_other:
  "rb_replace_child p old new h root = Some (h', root') \<Longrightarrow> b \<noteq> p \<Longrightarrow> h' b = h b"
  by (auto simp: rb_replace_child_def modify_def bind_eq_Some_conv split: if_splits option.splits)

lemma reparent_upd: "x \<notin> set (addrs c) \<Longrightarrow> reparent (h(x := v)) c p = (reparent h c p)(x := v)"
  by (cases c) auto

lemma erase_two_far:
  assumes hz: "load h z = Some (mk_node (rootp l) r q cz xz)"
    and hx: "h x = Some (mk_node 0 (rootp c) p cx xx)" and nx: "rb_next h z = Some x"
    and hp: "h p = Some (mk_node x (rootp s) q' cp xp)"
    and ne: "x \<noteq> r" "x \<noteq> p" "x \<noteq> 0" "p \<noteq> 0" "z \<noteq> x" "z \<noteq> p" "r \<noteq> z" "r \<noteq> 0" "rootp l \<noteq> 0" "rootp l \<noteq> x" "rootp l \<noteq> z"
      "z \<notin> set (addrs c)" "x \<notin> set (addrs c)" "p \<notin> set (addrs c)"
    and al: "aligned p" "aligned q" "aligned x" and tc: "tree_at h x c"
    and h2: "h2 = reparent (h(p \<mapsto> mk_node (rootp c) (rootp s) q' cp xp)) c p"
    and sw: "rb_swap_nodes z x h2 root = Some (h', root')"
  shows "\<exists>hE. rb_erase_two z h = Some (hE, x, rootp c, p, cbit cx) \<and>
    load hE z = Some (mk_node (rootp l) r q cz xz) \<and> rb_replace_child q z x hE root = Some (h', root')"
proof -
  let ?X = "mk_node (rootp l) r q cz xx"
  have z2: "load h2 z = Some (mk_node (rootp l) r q cz xz)" and x2: "h2 x = h x"
    using hz ne h2 by (auto simp: load_def split: if_splits)
  from sw obtain hD hE where
    D: "rb_adopt (rootp l) x (h2(x \<mapsto> ?X)) = Some hD" and E: "rb_adopt r x hD = Some hE"
    and rc: "rb_replace_child q z x hE root = Some (h', root')"
    using z2 x2 hx al ne
    by (auto simp: rb_swap_nodes_def modify_eq Let_def bind_eq_Some_conv)
  have C: "rb_adopt (rootp c) p (h(x \<mapsto> ?X, p \<mapsto> mk_node (rootp c) (rootp s) q' cp xp)) = Some (h2(x \<mapsto> ?X))"
  proof -
    have "rb_adopt (rootp c) p (h(x \<mapsto> ?X, p \<mapsto> mk_node (rootp c) (rootp s) q' cp xp)) =
        Some (reparent (h(x \<mapsto> ?X, p \<mapsto> mk_node (rootp c) (rootp s) q' cp xp)) c p)"
      by (rule set_parent_tree [of _ x]) (use tc ne al in auto)
    then show ?thesis using ne h2 by (simp add: reparent_upd [symmetric] fun_upd_twist)
  qed
  have D': "modify (h2(x \<mapsto> ?X)) (rootp l) (rb_set_parent x) = Some hD" and E': "modify hD r (rb_set_parent x) = Some hE"
    using D E ne by (simp_all add: rb_adopt_def)
  have xD: "load hD x = Some ?X" using load_modify [OF D', of x] ne by (simp add: load_eq)
  have zE: "load hE z = Some (mk_node (rootp l) r q cz xz)"
    using load_modify [OF D', of z] load_modify [OF E', of z] z2 ne by (simp add: load_def split: if_splits)
  have "rb_erase_two z h = Some (hE, x, rootp c, p, cbit cx)"
    using nx hx hz hp ne al C D' E' xD by (simp add: rb_erase_two_def load_eq [of x] modify_eq [of x] modify_eq [of p] Let_def)
  then show ?thesis using zE rc by blast
qed

lemma far_step:
  assumes K: "k2 \<noteq> []" "cleft k2 = []" and r: "r = plug k2 (Node Leaf x cx xx c)"
    and t: "tree_at h 0 (plug k (Node l z cz xz r))" and d: "distinct (addrs (plug k (Node l z cz xz r)))"
    and l: "l \<noteq> Leaf"
  shows "\<exists>hE h'. rb_erase_two z h = Some (hE, x, rootp c, cpar k2, cbit cx) \<and>
    load hE z = Some (mk_node (rootp l) (rootp r) (cpar k) cz xz) \<and>
    rb_replace_child (cpar k) z x hE (croot k z) = Some (h', croot k x) \<and>
    tree_at h' 0 (plug (k2 @ InR l x cz xx # k) c) \<and>
    outside (insert x (set (addrs (plug (k2 @ InR l z cz xz # k) c)))) h h'"
proof -
  obtain p cp xp s k3 where k2: "k2 = InL p cp xp s # k3"
    using K by (cases k2 rule: cleft.cases) auto
  let ?J = "k2 @ InR l z cz xz # k" and ?K = "k2 @ InR l x cz xx # k" and ?x = "Node Leaf x cx xx c"
  have t0: "plug k (Node l z cz xz r) = plug ?J ?x" by (simp add: plug_append r)
  have ck: "ctx_at h ?J x" and n: "tree_at h p ?x"
    using t tree_at_plug [of h ?J ?x] k2 by (auto simp: t0 del: plug.simps)
  have tz: "tree_at h (cpar k) (Node l z cz xz r)" and ckz: "ctx_at h k z"
    using t tree_at_plug [of h k "Node l z cz xz r"] by auto
  have dd: "distinct (caddrs ?J @ addrs ?x)" using d unfolding t0 by (simp only: distinct_addrs_plug)
  have dz: "distinct (caddrs k @ addrs (Node l z cz xz r))" using d by (simp add: distinct_addrs_plug)
  have p3: "p \<in> set (addrs r)" "p \<in> set (caddrs ?J)" using k2 r by (auto simp: set_addrs_plug)
  have hx: "h x = Some (mk_node 0 (rootp c) p cx xx)" "x \<noteq> 0" "aligned x" and tc: "tree_at h x c" using n by auto
  have ap: "aligned p" "p \<noteq> 0" using ck k2 by auto
  have hp: "h p = Some (mk_node x (rootp s) (cpar (k3 @ InR l z cz xz # k)) cp xp)" using ck k2 by simp
  have xr: "x \<in> set (addrs r)" and cr: "set (addrs c) \<subseteq> set (addrs r)" using r by (auto simp: set_addrs_plug)
  then have rne: "r \<noteq> Leaf" by auto
  have hz: "load h z = Some (mk_node (rootp l) (rootp r) (cpar k) cz xz)" "z \<noteq> 0" using tz by (auto simp: load_eq)
  have nx: "rb_next h z = Some x"
    using rb_next_right [of h z l r "cpar k" cz xz] tz rne K(2) by (simp add: r inord_plug)
  let ?h1 = "ctx_put h ?J (rootp c)"
  let ?h2 = "reparent ?h1 c p"
  have h1: "?h1 = h(p \<mapsto> mk_node (rootp c) (rootp s) (cpar (k3 @ InR l z cz xz # k)) cp xp)" using k2 by simp
  have Jp: "cpar ?J = p" using k2 by simp
  have dc: "distinct (addrs c)" "set (addrs c) \<inter> set (caddrs ?J) = {}" "set (caddrs ?J) \<inter> set (addrs c) = {}"
    and x: "x \<notin> set (caddrs ?J)" "x \<notin> set (addrs c)" using dd by auto
  have dj: "distinct (caddrs ?J)" using dd by (simp only: distinct_append)
  have "ctx_at ?h2 ?J (rootp c)"
    using ctx_put_same [OF ck dj, of "rootp c"] dc(2) by simp
  moreover have "tree_at ?h1 x c" using tc dc(3) by (rule ctx_put_tree [THEN iffD2, rotated])
  then have "tree_at ?h2 (cpar ?J) c" using dc(1) Jp by simp
  ultimately have t2: "tree_at ?h2 0 (plug k (Node l z cz xz (plug k2 c)))"
    using tree_at_plug [of ?h2 ?J c] by (simp add: plug_append)
  have pe: "plug k (Node l z cz xz (plug k2 c)) = plug ?J c" by (simp add: plug_append)
  have d2: "distinct (addrs (plug k (Node l z cz xz (plug k2 c))))"
    unfolding pe distinct_addrs_plug using dd by simp
  have x2: "x \<notin> set (addrs (plug k (Node l z cz xz (plug k2 c))))"
    unfolding pe set_addrs_plug using x by simp
  have h2x: "?h2 x = Some (mk_node 0 (rootp c) p cx xx)" using hx x by simp
  obtain h' where sw: "rb_swap_nodes z x ?h2 (croot k z) = Some (h', croot k x)"
    and t': "tree_at h' 0 (plug k (Node l x cz xx (plug k2 c)))"
    and o': "outside (insert x (set (addrs (plug k (Node l z cz xz (plug k2 c)))))) ?h2 h'"
    using rb_swap_nodes_at [OF t2 d2 hx(2,3) x2 h2x] by auto
  have rr: "rootp (plug k2 c) = rootp r" using k2 r by (simp add: rootp_plug)
  have rin: "rootp r \<in> set (caddrs k2)" using croot_in [OF K(1), of x] r by (simp add: rootp_plug)
  then have xr': "x \<noteq> rootp r" using x(1) by (auto simp: k2)
  have lin: "rootp l \<in> set (addrs l)" using l by (rule rootp_in)
  have ns: "z \<noteq> x" "z \<noteq> p" "rootp r \<noteq> z" "rootp r \<noteq> 0" "rootp l \<noteq> 0" "rootp l \<noteq> x" "rootp l \<noteq> z" "z \<notin> set (addrs c)"
    using dz tz xr p3(1) cr rootp_in [OF rne] lin l rne rootp_eq_0 [of h z l] rootp_eq_0 [of h z r] by auto
  have pe': "x \<noteq> p" "p \<notin> set (addrs c)" using x(1) dc(2) p3(2) by auto
  have al: "aligned (cpar k)" using ckz by simp
  obtain hE where e: "rb_erase_two z h = Some (hE, x, rootp c, p, cbit cx)"
    "load hE z = Some (mk_node (rootp l) (rootp r) (cpar k) cz xz)"
    "rb_replace_child (cpar k) z x hE (croot k z) = Some (h', croot k x)"
    using erase_two_far [OF hz(1) hx(1) nx hp xr' pe'(1) hx(2) ap(2) ns(1-4) ns(5-8) x(2) pe'(2) ap(1) al hx(3) tc
        _ sw [unfolded h1]] by (auto simp: h1)
  moreover have "outside (insert x (set (addrs (plug ?J c)))) h h'"
    using o' p3(2) unfolding pe h1 by (auto simp: outside_def set_addrs_plug)
  ultimately show ?thesis using e t' k2 by (auto simp: plug_append)
qed

lemma erased_far:
  assumes K: "k2 \<noteq> []" "cleft k2 = []" and r: "r = plug k2 (Node Leaf x cx xx c)"
    and t: "tree_at h 0 (plug k (Node l z cz xz r))" and d: "distinct (addrs (plug k (Node l z cz xz r)))"
    and rb: "rbt (plug k (Node l z cz xz r))" and l: "l \<noteq> Leaf"
  shows "erased h z (plug k (Node l z cz xz r)) (cleft k @ inord l @ inord r @ cright k)"
proof -
  let ?J = "k2 @ InR l z cz xz # k" and ?K = "k2 @ InR l x cz xx # k" and ?x = "Node Leaf x cx xx c"
  have t0: "plug k (Node l z cz xz r) = plug ?J ?x" by (simp add: plug_append r)
  have tz: "tree_at h (cpar k) (Node l z cz xz r)" and ckz: "ctx_at h k z"
    using t tree_at_plug [of h k "Node l z cz xz r"] by auto
  have dd: "distinct (caddrs ?J @ addrs ?x)" using d unfolding t0 by (simp only: distinct_addrs_plug)
  have zk: "z \<notin> set (caddrs k)" using dd by auto
  have hz: "load h z = Some (mk_node (rootp l) (rootp r) (cpar k) cz xz)" "z \<noteq> 0" and al: "aligned (cpar k)"
    using tz ckz by (auto simp: load_eq)
  have "x \<in> set (addrs r)" using r by (simp add: set_addrs_plug)
  then have "r \<noteq> Leaf" by auto
  then have ch: "rootp l \<noteq> 0" "rootp r \<noteq> 0" using tz l rootp_eq_0 [of h z l] rootp_eq_0 [of h z r] by auto
  obtain hE h' where e: "rb_erase_two z h = Some (hE, x, rootp c, cpar k2, cbit cx)"
    "load hE z = Some (mk_node (rootp l) (rootp r) (cpar k) cz xz)"
    "rb_replace_child (cpar k) z x hE (croot k z) = Some (h', croot k x)"
    and t': "tree_at h' 0 (plug ?K c)" and o': "outside (insert x (set (addrs (plug ?J c)))) h h'"
    using far_step [OF K r t d l] by blast
  have pk: "cpar ?K = cpar k2" using K(1) by (cases k2) auto
  have "rb_erase z h (croot k z) = (if cx = Black then rb_erase_fix (rootp c) (cpar ?K) h' (croot ?K (rootp c))
       else Some (h', croot ?K (rootp c)))"
    using e hz ch al pk by (simp add: rb_erase_def)
  moreover have "loop_at h' ?K c"
  proof -
    have "ctx_at h' ?K (rootp c)" and "tree_at h' (cpar ?K) c"
      using t' tree_at_plug [of h' ?K c] by simp_all
    moreover have "distinct (caddrs ?K @ addrs c)" using dd by auto
    ultimately show ?thesis by (simp add: loop_at_def)
  qed
  moreover have "inord (plug ?K c) = cleft k @ inord l @ inord r @ cright k"
    using K(2) by (simp add: plug_append inord_plug r)
  moreover have "outside (set (addrs (plug ?K c))) h h'"
  proof -
    have "z \<noteq> cpar k" using zk hz(2) by (cases k) auto
    then have "h' z = h z" using replace_child_other [OF e(3), of z] e(2) hz by (simp add: load_eq)
    moreover have "h' b = h b" if "b \<noteq> z" "b \<notin> set (addrs (plug ?K c))" for b
      using o' that by (auto simp: outside_def set_addrs_plug)
    ultimately show ?thesis by (metis outside_def)
  qed
  moreover have "if cx = Black then short_at ?K c else rbt (plug ?K c)"
    using short_at_remove [of ?J Leaf x cx xx c c] rb
      short_at_relabel [of k2 l z cz xz k c x xx] rbt_relabel [of k2 l z cz xz k c x xx] by (cases cx) (simp_all add: t0)
  ultimately show ?thesis unfolding erased_def rootp_plug rootp.simps by blast
qed

section \<open>Erasing\<close>

lemma erased_node:
  assumes t: "tree_at h 0 (plug k (Node l z cz xz r))" and d: "distinct (addrs (plug k (Node l z cz xz r)))"
    and rb: "rbt (plug k (Node l z cz xz r))"
  shows "erased h z (plug k (Node l z cz xz r)) (cleft k @ inord l @ inord r @ cright k)"
proof (cases "l = Leaf \<or> r = Leaf")
  case True
  with assms show ?thesis by (rule erased_one)
next
  case False
  then obtain k2 x cx xx c where r: "r = plug k2 (Node Leaf x cx xx c)" "cleft k2 = []"
    using leftmost_split by metis
  show ?thesis
  proof (cases k2)
    case Nil
    with r have "r = Node Leaf x cx xx c" by simp
    with erased_adjacent [of h k l z cz xz x cx xx c] assms False show ?thesis by simp
  next
    case Cons
    with erased_far [OF _ r(2,1) assms] False show ?thesis by simp
  qed
qed

lemma outside_mono: "outside A h h' \<Longrightarrow> A \<subseteq> B \<Longrightarrow> outside B h h'"
  by (auto simp: outside_def)

text \<open>C18: \<open>rb_erase\<close> on a node of a red-black tree never follows a NULL or stray pointer and ends;
  the heap then holds a red-black tree of the other nodes, in the old order, whose height is at most
  twice the logarithm of its size. Neither the erased node nor anything else outside the tree has changed.\<close>

theorem rb_erase_correct:
  assumes "tree_at h 0 t" and "distinct (addrs t)" and "rbt t" and "inord t = xs @ (z, v) # ys"
  shows "\<exists>h' t'. rb_erase z h (rootp t) = Some (h', rootp t') \<and> tree_at h' 0 t' \<and> distinct (addrs t') \<and>
    rbt t' \<and> inord t' = xs @ ys \<and> 2 ^ (rheight t' div 2) \<le> Suc (length (inord t')) \<and>
    outside (set (addrs t')) h h'"
proof -
  obtain k l cz r where t: "t = plug k (Node l z cz v r)" "xs = cleft k @ inord l" "ys = inord r @ cright k"
    using focus [OF assms(4,2)] by metis
  from erased_node [of h k l z cz v r] assms(1-3) t have "erased h z t (xs @ ys)" by simp
  then obtain h2 K c col where
    e: "rb_erase z h (rootp t) = (if col = Black then rb_erase_fix (rootp c) (cpar K) h2 (croot K (rootp c))
       else Some (h2, croot K (rootp c)))" and at: "loop_at h2 K c" and i: "inord (plug K c) = xs @ ys" and
    o: "outside (set (addrs (plug K c))) h h2" and inv: "if col = Black then short_at K c else rbt (plug K c)"
    unfolding erased_def by blast
  show ?thesis
  proof (cases col)
    case Black
    with inv have sh: "short_at K c" by simp
    from rb_erase_fix_refines [OF at sh] obtain h' where
      f: "rb_erase_fix (rootp c) (cpar K) h2 (croot K (rootp c)) = Some (h', rootp (del_fix K c))"
      and ht: "holds_tree h2 h' (rootp (del_fix K c)) (del_fix K c)" by (auto simp: fixed_def)
    have "holds_tree h h' (rootp (del_fix K c)) (del_fix K c)"
      by (rule holds_tree_trans [OF _ ht]) (simp add: o set_addrs_del_fix [OF sh])
    then show ?thesis
      using e f Black del_fix_rbt [OF sh] inord_del_fix [OF sh] i rbt_balanced [of "del_fix K c"]
      by (intro exI [of _ h'] exI [of _ "del_fix K c"]) (simp add: holds_tree_def)
  next
    case Red
    with inv have "rbt (plug K c)" by simp
    moreover have "holds_tree h h2 (croot K (rootp c)) (plug K c)"
      by (rule holds_treeI) (use at o in \<open>auto simp: loop_at_def set_addrs_plug\<close>)
    ultimately show ?thesis
      using e Red i rbt_balanced [of "plug K c"]
      by (intro exI [of _ h2] exI [of _ "plug K c"]) (simp add: holds_tree_def rootp_plug)
  qed
qed

definition demo_rb :: "nat rtree" where
  "demo_rb = Node (Node Leaf 16 Black 1 Leaf) 32 Black 2 (Node Leaf 48 Black 3 Leaf)"

definition demo_rb_heap :: "nat heap" where
  "demo_rb_heap = [32 \<mapsto> mk_node 16 48 0 Black 2, 16 \<mapsto> mk_node 0 0 32 Black 1, 48 \<mapsto> mk_node 0 0 32 Black 3]"

theorem rb_erase_correct_witness:
  "\<exists>h' t'. rb_erase 32 demo_rb_heap 32 = Some (h', rootp t') \<and> rbt t' \<and> inord t' = [(16, 1), (48, 3 :: nat)]"
  using rb_erase_correct [of demo_rb_heap demo_rb "[(16, 1)]" 32 2 "[(48, 3)]"]
  by (simp add: demo_rb_heap_def demo_rb_def rbt_def aligned_even) blast

end
