(* ===== verification/KeyOrder.thy ===== *)
theory KeyOrder
  imports Prelude
begin

text \<open>
  Keys, values and the comparison function that the trees are given (\<open>inc/lsm_fwd.h\<close>,
  \<open>mtree_cmp_t\<close>, \<open>ctree_cmp_t\<close>). A key or value is the block of bytes its pointer and
  size describe. What the trees need of a comparison function is the locale \<open>key_order\<close>;
  the comparison function of the repository's tests satisfies it. The lists sorted by such
  an order, with insertion, lookup and the two bounds, are the abstract specification of
  every tree in the program.
\<close>

type_synonym bytes = "byte list"
type_synonym lsm_key = bytes
type_synonym lsm_val = bytes
type_synonym kv = "lsm_key \<times> lsm_val"
type_synonym cmp = "lsm_key \<Rightarrow> lsm_key \<Rightarrow> int"

section \<open>Sorted lists of entries\<close>

definition kv_sorted :: "cmp \<Rightarrow> kv list \<Rightarrow> bool" where
  "kv_sorted cmp xs \<longleftrightarrow> sorted_wrt (\<lambda>x y. cmp (fst x) (fst y) < 0) xs"

text \<open>Insertion replaces an entry with an equal key.\<close>

fun kv_put :: "cmp \<Rightarrow> lsm_key \<Rightarrow> lsm_val \<Rightarrow> kv list \<Rightarrow> kv list" where
  "kv_put cmp k v [] = [(k, v)]"
| "kv_put cmp k v (e # xs) =
     (if cmp (fst e) k < 0 then e # kv_put cmp k v xs
      else if cmp (fst e) k = 0 then (k, v) # xs
      else (k, v) # e # xs)"

definition kv_get :: "cmp \<Rightarrow> lsm_key \<Rightarrow> kv list \<Rightarrow> lsm_val option" where
  "kv_get cmp k xs = map_option snd (find (\<lambda>e. cmp (fst e) k = 0) xs)"

text \<open>The position of the first entry that is not below a key, and of the first above it.\<close>

definition kv_lower :: "cmp \<Rightarrow> lsm_key \<Rightarrow> kv list \<Rightarrow> nat" where
  "kv_lower cmp k xs = length (takeWhile (\<lambda>e. cmp (fst e) k < 0) xs)"

definition kv_upper :: "cmp \<Rightarrow> lsm_key \<Rightarrow> kv list \<Rightarrow> nat" where
  "kv_upper cmp k xs = length (takeWhile (\<lambda>e. cmp (fst e) k \<le> 0) xs)"

lemma kv_sorted_Nil [simp]: "kv_sorted cmp []"
  by (simp add: kv_sorted_def)

lemma kv_sorted_Cons:
  "kv_sorted cmp (e # xs) \<longleftrightarrow> (\<forall>y \<in> set xs. cmp (fst e) (fst y) < 0) \<and> kv_sorted cmp xs"
  by (simp add: kv_sorted_def)

lemma kv_sorted_append:
  "kv_sorted cmp (xs @ ys) \<longleftrightarrow> kv_sorted cmp xs \<and> kv_sorted cmp ys \<and>
     (\<forall>x \<in> set xs. \<forall>y \<in> set ys. cmp (fst x) (fst y) < 0)"
  by (simp add: kv_sorted_def sorted_wrt_append)

lemma kv_put_append:
  "\<forall>e \<in> set xs. cmp (fst e) k < 0 \<Longrightarrow> kv_put cmp k v (xs @ ys) = xs @ kv_put cmp k v ys"
  by (induction xs) auto

lemma kv_put_above:
  "\<forall>e \<in> set ys. 0 < cmp (fst e) k \<Longrightarrow> kv_put cmp k v ys = (k, v) # ys"
  by (cases ys) auto

lemma kv_put_keys: "fst ` set (kv_put cmp k v xs) \<subseteq> insert k (fst ` set xs)"
  by (induction xs) auto

lemma set_kv_put: "set (kv_put cmp k v xs) \<subseteq> insert (k, v) (set xs)"
  by (induction xs) auto

lemma kv_put_mem: "(k, v) \<in> set (kv_put cmp k v xs)"
  by (induction xs) auto

lemma kv_lower_le [simp]: "kv_lower cmp k xs \<le> length xs"
  by (simp add: kv_lower_def length_takeWhile_le)

lemma kv_upper_le [simp]: "kv_upper cmp k xs \<le> length xs"
  by (simp add: kv_upper_def length_takeWhile_le)

lemma kv_lower_append:
  "kv_lower cmp k (xs @ ys) =
     (if \<forall>e \<in> set xs. cmp (fst e) k < 0 then length xs + kv_lower cmp k ys else kv_lower cmp k xs)"
  by (auto simp: kv_lower_def takeWhile_append)

lemma kv_upper_append:
  "kv_upper cmp k (xs @ ys) =
     (if \<forall>e \<in> set xs. cmp (fst e) k \<le> 0 then length xs + kv_upper cmp k ys else kv_upper cmp k xs)"
  by (auto simp: kv_upper_def takeWhile_append)

lemma kv_lower_Cons [simp]:
  "kv_lower cmp k (e # xs) = (if cmp (fst e) k < 0 then Suc (kv_lower cmp k xs) else 0)"
  by (simp add: kv_lower_def)

lemma kv_upper_Cons [simp]:
  "kv_upper cmp k (e # xs) = (if cmp (fst e) k \<le> 0 then Suc (kv_upper cmp k xs) else 0)"
  by (simp add: kv_upper_def)

lemma kv_lower_Nil [simp]: "kv_lower cmp k [] = 0"
  by (simp add: kv_lower_def)

lemma kv_upper_Nil [simp]: "kv_upper cmp k [] = 0"
  by (simp add: kv_upper_def)

lemma kv_lower_eq_length: "kv_lower cmp k xs = length xs \<longleftrightarrow> (\<forall>e \<in> set xs. cmp (fst e) k < 0)"
  by (induction xs) auto

lemma kv_upper_eq_length: "kv_upper cmp k xs = length xs \<longleftrightarrow> (\<forall>e \<in> set xs. cmp (fst e) k \<le> 0)"
  by (induction xs) auto

lemma kv_lower_below: "i < kv_lower cmp k xs \<Longrightarrow> cmp (fst (xs ! i)) k < 0"
  unfolding kv_lower_def by (metis nth_mem set_takeWhileD takeWhile_nth)

lemma kv_upper_below: "i < kv_upper cmp k xs \<Longrightarrow> cmp (fst (xs ! i)) k \<le> 0"
  unfolding kv_upper_def by (metis nth_mem set_takeWhileD takeWhile_nth)

lemma kv_lower_at: "kv_lower cmp k xs < length xs \<Longrightarrow> 0 \<le> cmp (fst (xs ! kv_lower cmp k xs)) k"
  unfolding kv_lower_def using nth_length_takeWhile by fastforce

lemma kv_upper_at: "kv_upper cmp k xs < length xs \<Longrightarrow> 0 < cmp (fst (xs ! kv_upper cmp k xs)) k"
  unfolding kv_upper_def using nth_length_takeWhile by fastforce

section \<open>The contract of a comparison function\<close>

locale key_order =
  fixes cmp :: cmp
  assumes cmp_flip: "cmp a b < 0 \<longleftrightarrow> 0 < cmp b a"
    and cmp_trans: "cmp a b \<le> 0 \<Longrightarrow> cmp b c \<le> 0 \<Longrightarrow> cmp a c \<le> 0"
begin

lemma cmp_refl [simp]: "cmp a a = 0"
  using cmp_flip [of a a] by linarith

lemma cmp_eq_sym: "cmp a b = 0 \<longleftrightarrow> cmp b a = 0"
  using cmp_flip [of a b] cmp_flip [of b a] by linarith

lemma cmp_ge: "0 \<le> cmp a b \<longleftrightarrow> cmp b a \<le> 0"
  using cmp_flip [of a b] cmp_flip [of b a] by linarith

lemma cmp_less_trans: "cmp a b < 0 \<Longrightarrow> cmp b c \<le> 0 \<Longrightarrow> cmp a c < 0"
  using cmp_flip [of a b] cmp_flip [of a c] cmp_flip [of c a] cmp_trans [of b c a] cmp_ge by force

lemma cmp_trans_less: "cmp a b \<le> 0 \<Longrightarrow> cmp b c < 0 \<Longrightarrow> cmp a c < 0"
  using cmp_flip [of b c] cmp_flip [of a c] cmp_flip [of c a] cmp_trans [of c a b] cmp_ge by force

lemma cmp_cong_left: "cmp a b = 0 \<Longrightarrow> cmp a c < 0 \<longleftrightarrow> cmp b c < 0"
  using cmp_trans_less [of a b c] cmp_trans_less [of b a c] cmp_eq_sym [of a b] by auto

lemma cmp_cong_eq: "cmp a b = 0 \<Longrightarrow> cmp a c = 0 \<longleftrightarrow> cmp b c = 0"
  using cmp_trans [of a b c] cmp_trans [of b a c] cmp_trans [of c a b] cmp_trans [of c b a]
    cmp_eq_sym [of a b] cmp_eq_sym [of a c] cmp_eq_sym [of b c] cmp_ge [of a c] cmp_ge [of b c]
  by linarith

lemma kv_sorted_put: "kv_sorted cmp xs \<Longrightarrow> kv_sorted cmp (kv_put cmp k v xs)"
proof (induction xs)
  case Nil
  then show ?case by (simp add: kv_sorted_Cons)
next
  case (Cons e xs)
  consider "cmp (fst e) k < 0" | "cmp (fst e) k = 0" | "0 < cmp (fst e) k" by linarith
  then show ?case
  proof cases
    case 1
    then have "\<forall>y \<in> set (kv_put cmp k v xs). cmp (fst e) (fst y) < 0"
      using Cons.prems kv_put_keys [of cmp k v xs] by (force simp: kv_sorted_Cons)
    then show ?thesis using Cons 1 by (simp add: kv_sorted_Cons)
  next
    case 2
    then show ?thesis using Cons.prems cmp_cong_left [OF 2] by (simp add: kv_sorted_Cons)
  next
    case 3
    then have "cmp k (fst e) < 0" using cmp_flip by simp
    then show ?thesis using Cons.prems cmp_less_trans 3 by (fastforce simp: kv_sorted_Cons)
  qed
qed

lemma kv_get_put:
  "kv_sorted cmp xs \<Longrightarrow> kv_get cmp k' (kv_put cmp k v xs) = (if cmp k k' = 0 then Some v else kv_get cmp k' xs)"
proof (induction xs)
  case Nil
  then show ?case by (simp add: kv_get_def)
next
  case (Cons e xs)
  then have IH: "kv_get cmp k' (kv_put cmp k v xs) = (if cmp k k' = 0 then Some v else kv_get cmp k' xs)"
    by (simp add: kv_sorted_Cons)
  have "cmp (fst e) k < 0 \<Longrightarrow> cmp k k' = 0 \<Longrightarrow> cmp (fst e) k' < 0"
    using cmp_less_trans [of "fst e" k k'] by simp
  moreover have "cmp (fst e) k = 0 \<Longrightarrow> cmp (fst e) k' = 0 \<longleftrightarrow> cmp k k' = 0"
    by (rule cmp_cong_eq)
  ultimately show ?case using IH by (cases e) (auto simp: kv_get_def)
qed

lemma kv_lower_above:
  "kv_sorted cmp xs \<Longrightarrow> kv_lower cmp k xs \<le> i \<Longrightarrow> i < length xs \<Longrightarrow> 0 \<le> cmp (fst (xs ! i)) k"
proof (induction xs arbitrary: i)
  case Nil
  then show ?case by simp
next
  case (Cons e xs)
  show ?case
  proof (cases "cmp (fst e) k < 0")
    case True
    then show ?thesis using Cons by (cases i) (auto simp: kv_sorted_Cons)
  next
    case False
    then have "cmp k (fst e) \<le> 0" using cmp_ge [of "fst e" k] by simp
    moreover have "i = 0 \<or> cmp (fst e) (fst ((e # xs) ! i)) < 0"
      using Cons.prems by (cases i) (auto simp: kv_sorted_Cons)
    ultimately show ?thesis using cmp_trans [of k "fst e" "fst ((e # xs) ! i)"] cmp_ge
      by (metis nth_Cons_0 order_less_imp_le)
  qed
qed

lemma kv_upper_above:
  "kv_sorted cmp xs \<Longrightarrow> kv_upper cmp k xs \<le> i \<Longrightarrow> i < length xs \<Longrightarrow> 0 < cmp (fst (xs ! i)) k"
proof (induction xs arbitrary: i)
  case Nil
  then show ?case by simp
next
  case (Cons e xs)
  show ?case
  proof (cases "cmp (fst e) k \<le> 0")
    case True
    then show ?thesis using Cons by (cases i) (auto simp: kv_sorted_Cons)
  next
    case False
    then have "cmp k (fst e) < 0" using cmp_flip [of k "fst e"] by simp
    moreover have "i = 0 \<or> cmp (fst e) (fst ((e # xs) ! i)) < 0"
      using Cons.prems by (cases i) (auto simp: kv_sorted_Cons)
    ultimately show ?thesis using cmp_less_trans [of k "fst e" "fst ((e # xs) ! i)"] cmp_flip
      by (metis nth_Cons_0 order_less_imp_le)
  qed
qed

text \<open>Both bounds of a key agree unless it is there.\<close>

lemma kv_lower_upper:
  "kv_sorted cmp xs \<Longrightarrow> kv_upper cmp k xs =
     (let i = kv_lower cmp k xs in if i < length xs \<and> cmp (fst (xs ! i)) k = 0 then Suc i else i)"
proof (induction xs)
  case Nil
  then show ?case by simp
next
  case (Cons e xs)
  show ?case
  proof (cases "cmp (fst e) k = 0")
    case True
    then have "kv_upper cmp k xs = 0"
      using Cons.prems cmp_flip [of k "fst (hd xs)"] cmp_flip [of "fst (hd xs)" k] cmp_trans_less [of k "fst e"] cmp_eq_sym
      by (cases xs) (fastforce simp: kv_sorted_Cons)+
    then show ?thesis using True by simp
  next
    case False
    then show ?thesis using Cons by (auto simp: kv_sorted_Cons Let_def)
  qed
qed

lemma filter_kv_lower:
  "kv_sorted cmp xs \<Longrightarrow> filter (\<lambda>e. 0 \<le> cmp (fst e) k) xs = drop (kv_lower cmp k xs) xs"
proof (induction xs)
  case Nil
  then show ?case by simp
next
  case (Cons e xs)
  show ?case
  proof (cases "cmp (fst e) k < 0")
    case True
    then show ?thesis using Cons by (simp add: kv_sorted_Cons)
  next
    case False
    then have "\<forall>y \<in> set (e # xs). 0 \<le> cmp (fst y) k"
      using kv_lower_above [OF Cons.prems, of k] by (force simp: in_set_conv_nth)
    then have "filter (\<lambda>e. 0 \<le> cmp (fst e) k) (e # xs) = e # xs" by (simp only: filter_True)
    then show ?thesis using False by simp
  qed
qed

text \<open>A key is there exactly if the lower bound points at it.\<close>

lemma kv_get_lower:
  "kv_sorted cmp xs \<Longrightarrow> kv_get cmp k xs =
     (let i = kv_lower cmp k xs in if i < length xs \<and> cmp (fst (xs ! i)) k = 0 then Some (snd (xs ! i)) else None)"
proof (induction xs)
  case Nil
  then show ?case by (simp add: kv_get_def)
next
  case (Cons e xs)
  have rest: "\<exists>y \<in> set xs. cmp (fst y) k = 0 \<Longrightarrow> cmp (fst e) k < 0"
    using Cons.prems cmp_less_trans by (fastforce simp: kv_sorted_Cons)
  have none: "find (\<lambda>e. cmp (fst e) k = 0) xs = None" if "\<not> cmp (fst e) k < 0"
    unfolding find_None_iff using that rest by blast
  show ?case
  proof (cases "cmp (fst e) k < 0")
    case True
    then show ?thesis using Cons by (simp add: kv_get_def kv_sorted_Cons Let_def)
  next
    case False
    then show ?thesis using none by (simp add: kv_get_def)
  qed
qed

end

section \<open>The comparison function of the tests (test/ctree_test.c, test/lsm_test.c)\<close>

text \<open>Keys are blocks of at least eight bytes that hold a signed 64 bit number.\<close>

definition test_value :: "lsm_key \<Rightarrow> int" where
  "test_value k = sint (le64_dec (take 8 k))"

definition test_cmp :: cmp where
  "test_cmp l r =
     (if test_value l \<noteq> test_value r then (if test_value l < test_value r then -1 else 1) else 0)"

interpretation test_keys: key_order test_cmp
  by unfold_locales (auto simp: test_cmp_def split: if_splits)

end
