(* ===== verification/Cursor.thy ===== *)
theory Cursor
  imports KeyOrder
begin

text \<open>
  What the iterators of the in-memory trees and of the disk trees have in common: a position
  in the sorted list of the entries of a tree, moved by a step forward or back, and the entry
  at the position. The loops that walk over a whole tree are written against this contract
  once (\<open>lsm.c\<close> does so with both kinds of iterator, and so do the tests).
\<close>

section \<open>Walking a cursor\<close>

text \<open>
  Collect the entries from the position on, as the loops of \<open>lsm_build_default\<close> and of the
  tests do; the fuel bounds the number of rounds.
\<close>

fun cursor_scan ::
    "('s \<Rightarrow> (errno + lsm_key) option) \<Rightarrow> ('s \<Rightarrow> (errno + lsm_val) option) \<Rightarrow>
     ('s \<Rightarrow> ((errno + unit) \<times> 's) option) \<Rightarrow> nat \<Rightarrow> 's \<Rightarrow> kv list option" where
  "cursor_scan key val fwd 0 s = None"
| "cursor_scan key val fwd (Suc n) s = do {
     k \<leftarrow> key s;
     v \<leftarrow> val s;
     (case (k, v) of
        (Inr k, Inr v) \<Rightarrow> do {
          (r, s) \<leftarrow> fwd s;
          (if r = Inr () \<or> r = Inl ENOENT then do {
             rest \<leftarrow> cursor_scan key val fwd n s;
             Some ((k, v) # rest)
           } else None)
        }
      | _ \<Rightarrow> Some []) }"

text \<open>Collect the entries before the position, last one first.\<close>

fun cursor_scan_back ::
    "('s \<Rightarrow> (errno + lsm_key) option) \<Rightarrow> ('s \<Rightarrow> (errno + lsm_val) option) \<Rightarrow>
     ('s \<Rightarrow> ((errno + unit) \<times> 's) option) \<Rightarrow> nat \<Rightarrow> 's \<Rightarrow> kv list option" where
  "cursor_scan_back key val bwd 0 s = None"
| "cursor_scan_back key val bwd (Suc n) s = do {
     (r, s) \<leftarrow> bwd s;
     (if r = Inl ENOENT then Some []
      else do {
        k \<leftarrow> key s;
        v \<leftarrow> val s;
        (case (k, v) of
           (Inr k, Inr v) \<Rightarrow> do {
             rest \<leftarrow> cursor_scan_back key val bwd n s;
             Some ((k, v) # rest)
           }
         | _ \<Rightarrow> None) }) }"

section \<open>The contract\<close>

text \<open>
  \<open>pos s xs i\<close>: the iterator in state \<open>s\<close> is on a tree with the entries \<open>xs\<close>, at
  position \<open>i\<close>; the position after the last entry is the end. A step from the last entry
  goes to the end, and whether it reports that is left open: \<open>mtree_next\<close> does not,
  \<open>ctree_next\<close> does.
\<close>

locale cursor =
  fixes pos :: "'s \<Rightarrow> kv list \<Rightarrow> nat \<Rightarrow> bool"
    and key :: "'s \<Rightarrow> (errno + lsm_key) option"
    and val :: "'s \<Rightarrow> (errno + lsm_val) option"
    and fwd :: "'s \<Rightarrow> ((errno + unit) \<times> 's) option"
    and bwd :: "'s \<Rightarrow> ((errno + unit) \<times> 's) option"
  assumes pos_le: "pos s xs i \<Longrightarrow> i \<le> length xs"
    and key_at: "pos s xs i \<Longrightarrow> key s = Some (if i < length xs then Inr (fst (xs ! i)) else Inl ENOENT)"
    and val_at: "pos s xs i \<Longrightarrow> val s = Some (if i < length xs then Inr (snd (xs ! i)) else Inl ENOENT)"
    and fwd_at: "pos s xs i \<Longrightarrow> \<exists>r s'. fwd s = Some (r, s') \<and> pos s' xs (min (Suc i) (length xs)) \<and>
      (r = Inr () \<or> r = Inl ENOENT) \<and> (Suc i < length xs \<longrightarrow> r = Inr ()) \<and>
      (i = length xs \<longrightarrow> r = Inl ENOENT)"
    and bwd_at: "pos s xs i \<Longrightarrow> \<exists>r s'. bwd s = Some (r, s') \<and> pos s' xs (i - 1) \<and>
      r = (if i = 0 then Inl ENOENT else Inr ())"
begin

lemma scan_at: "pos s xs i \<Longrightarrow> length xs - i < n \<Longrightarrow> cursor_scan key val fwd n s = Some (drop i xs)"
proof (induction n arbitrary: s i)
  case 0
  then show ?case by simp
next
  case (Suc n)
  show ?case
  proof (cases "i < length xs")
    case True
    from fwd_at [OF Suc.prems(1)] obtain r s' where
      s: "fwd s = Some (r, s')" "pos s' xs (Suc i)" "r = Inr () \<or> r = Inl ENOENT"
      using True by (auto simp: min_def)
    have "cursor_scan key val fwd n s' = Some (drop (Suc i) xs)"
      using Suc.IH [OF s(2)] Suc.prems(2) True by simp
    moreover have "(fst (xs ! i), snd (xs ! i)) # drop (Suc i) xs = drop i xs"
      using True by (simp add: Cons_nth_drop_Suc)
    ultimately show ?thesis
      using key_at [OF Suc.prems(1)] val_at [OF Suc.prems(1)] s(1,3) True by auto
  next
    case False
    then show ?thesis using key_at [OF Suc.prems(1)] val_at [OF Suc.prems(1)] by simp
  qed
qed

lemma scan_back_at: "pos s xs i \<Longrightarrow> i < n \<Longrightarrow> cursor_scan_back key val bwd n s = Some (rev (take i xs))"
proof (induction n arbitrary: s i)
  case 0
  then show ?case by simp
next
  case (Suc n)
  from bwd_at [OF Suc.prems(1)] obtain r s' where
    s: "bwd s = Some (r, s')" "pos s' xs (i - 1)" "r = (if i = 0 then Inl ENOENT else Inr ())"
    by auto
  show ?case
  proof (cases i)
    case 0
    then show ?thesis using s by simp
  next
    case (Suc j)
    then have "j < length xs" using pos_le [OF Suc.prems(1)] by simp
    moreover have "cursor_scan_back key val bwd n s' = Some (rev (take j xs))"
      using Suc.IH [of s' j] s(2) Suc.prems(2) Suc by simp
    ultimately show ?thesis
      using s Suc key_at [OF s(2)] val_at [OF s(2)] by (simp add: take_Suc_conv_app_nth)
  qed
qed

end

end
