(* ===== verification/Mtree.thy ===== *)
theory Mtree
  imports RbWalk Cursor
begin

text \<open>
  The in-memory trees (\<open>lib/mtree.c\<close>, \<open>inc/mtree.h\<close>): red-black trees of entries over the
  heap of nodes of \<open>RbTree\<close>. A node's payload is its key and value. An address that
  \<open>malloc\<close> returned, with the content the block happened to have, is an argument of the
  operation that asked for it; the address is NULL if the request failed.
\<close>

section \<open>Data\<close>

type_synonym mnode = "kv rb_node_scheme"
type_synonym mheap = "kv heap"
type_synonym block = "ptr \<times> mnode"

definition node_key :: "mnode \<Rightarrow> lsm_key" where
  "node_key n = fst (rb_node.more n)"

definition node_val :: "mnode \<Rightarrow> lsm_val" where
  "node_val n = snd (rb_node.more n)"

record mtree =
  mt_cmp :: cmp
  mt_bytes :: nat
  mt_root :: ptr

text \<open>An iterator's pointer to its tree is the tree argument of the operations below.\<close>

record mtree_iter =
  it_cmp :: cmp
  it_node :: ptr

section \<open>Operations\<close>

definition mtree_node_create :: "lsm_key \<Rightarrow> lsm_val \<Rightarrow> block \<Rightarrow> mheap \<Rightarrow> ptr \<times> mheap" where
  "mtree_node_create key val blk h =
     (case blk of (new, junk) \<Rightarrow>
        if new = 0 then (0, h) else (new, h(new \<mapsto> rb_node.more_update (\<lambda>_. (key, val)) junk)))"

text \<open>\<open>free\<close> of a block that is not allocated is undefined.\<close>

definition mtree_node_destroy :: "ptr \<Rightarrow> mheap \<Rightarrow> mheap option" where
  "mtree_node_destroy node h =
     (if node = 0 then Some h else do { _ \<leftarrow> h node; Some (h(node := None)) })"

definition mtree_setup :: "cmp \<Rightarrow> mtree" where
  "mtree_setup cmp = \<lparr>mt_cmp = cmp, mt_bytes = 0, mt_root = 0\<rparr>"

partial_function (option) mtree_release_nodes :: "ptr \<Rightarrow> mheap \<Rightarrow> mheap option" where
  "mtree_release_nodes node h =
     (if node = 0 then Some h
      else do {
        n \<leftarrow> load h node;
        h \<leftarrow> mtree_release_nodes (nright n) h;
        n \<leftarrow> load h node;
        h \<leftarrow> mtree_node_destroy node h;
        mtree_release_nodes (nleft n) h })"

definition mtree_release :: "mtree \<Rightarrow> mheap \<Rightarrow> (mtree \<times> mheap) option" where
  "mtree_release tree h = do {
     h \<leftarrow> mtree_release_nodes (mt_root tree) h;
     Some (tree\<lparr>mt_root := 0, mt_bytes := 0\<rparr>, h) }"

definition mtree_reset :: "mtree \<Rightarrow> mheap \<Rightarrow> (mtree \<times> mheap) option" where
  "mtree_reset tree h = do {
     let root = mt_root tree;
     let tree = tree\<lparr>mt_root := 0, mt_bytes := 0\<rparr>;
     h \<leftarrow> mtree_release_nodes root h;
     Some (tree, h) }"

definition mtree_is_empty :: "mtree \<Rightarrow> bool" where
  "mtree_is_empty tree \<longleftrightarrow> mt_root tree = 0"

definition mtree_swap :: "mtree \<Rightarrow> mtree \<Rightarrow> mtree \<times> mtree" where
  "mtree_swap l r = (r, l)"

text \<open>\<open>*plink\<close>: the root, or a link of the parent.\<close>

definition read_link :: "mheap \<Rightarrow> ptr \<Rightarrow> ptr \<Rightarrow> side \<Rightarrow> ptr option" where
  "read_link h root parent plink =
     (if parent = 0 then Some root
      else map_option (\<lambda>n. case plink of L \<Rightarrow> nleft n | R \<Rightarrow> nright n) (load h parent))"

partial_function (option) mtree_insert ::
    "cmp \<Rightarrow> ptr \<Rightarrow> ptr \<Rightarrow> side \<Rightarrow> mheap \<Rightarrow> ptr \<Rightarrow> (mheap \<times> ptr) option" where
  "mtree_insert cmp new parent plink h root = do {
     p \<leftarrow> read_link h root parent plink;
     (if p \<noteq> 0 then do {
        old \<leftarrow> load h p;
        nn \<leftarrow> load h new;
        let c = cmp (node_key old) (node_key nn);
        (if c = 0 then do {
           (h, root) \<leftarrow> rb_swap_nodes p new h root;
           h \<leftarrow> mtree_node_destroy p h;
           Some (h, root)
         }
         else mtree_insert cmp new p (if c < 0 then R else L) h root)
      } else do {
        (h, root) \<leftarrow> rb_link new parent plink h root;
        rb_insert new h root
      })
   }"

definition mtree_add ::
    "mtree \<Rightarrow> lsm_key \<Rightarrow> lsm_val \<Rightarrow> block \<Rightarrow> mheap \<Rightarrow> ((errno + unit) \<times> mtree \<times> mheap) option" where
  "mtree_add tree key val blk h =
     (case mtree_node_create key val blk h of (new, h) \<Rightarrow>
        if new = 0 then Some (Inl ENOMEM, tree, h)
        else do {
          (h, root) \<leftarrow> mtree_insert (mt_cmp tree) new 0 L h (mt_root tree);
          Some (Inr (), tree\<lparr>mt_root := root,
             mt_bytes := (mt_bytes tree + length key + length val) mod 2 ^ 64\<rparr>, h) })"

definition mtree_iter_setup :: "mtree \<Rightarrow> mtree_iter" where
  "mtree_iter_setup tree = \<lparr>it_cmp = mt_cmp tree, it_node = 0\<rparr>"

definition mtree_iter_release :: "mtree_iter \<Rightarrow> mtree_iter" where
  "mtree_iter_release iter = iter\<lparr>it_node := 0\<rparr>"

partial_function (option) mtree_lower_loop ::
    "cmp \<Rightarrow> lsm_key \<Rightarrow> mheap \<Rightarrow> ptr \<Rightarrow> ptr \<Rightarrow> ptr option" where
  "mtree_lower_loop cmp key h p lower =
     (if p = 0 then Some lower
      else do {
        node \<leftarrow> load h p;
        (if 0 \<le> cmp (node_key node) key then mtree_lower_loop cmp key h (nleft node) p
         else mtree_lower_loop cmp key h (nright node) lower) })"

definition mtree_lower_bound :: "mheap \<Rightarrow> mtree \<Rightarrow> lsm_key \<Rightarrow> mtree_iter \<Rightarrow> mtree_iter option" where
  "mtree_lower_bound h tree key iter = do {
     lower \<leftarrow> mtree_lower_loop (it_cmp iter) key h (mt_root tree) 0;
     Some (iter\<lparr>it_node := lower\<rparr>) }"

partial_function (option) mtree_upper_loop ::
    "cmp \<Rightarrow> lsm_key \<Rightarrow> mheap \<Rightarrow> ptr \<Rightarrow> ptr \<Rightarrow> ptr option" where
  "mtree_upper_loop cmp key h p upper =
     (if p = 0 then Some upper
      else do {
        node \<leftarrow> load h p;
        (if cmp (node_key node) key \<le> 0 then mtree_upper_loop cmp key h (nright node) p
         else mtree_upper_loop cmp key h (nleft node) upper) })"

definition mtree_upper_bound :: "mheap \<Rightarrow> mtree \<Rightarrow> lsm_key \<Rightarrow> mtree_iter \<Rightarrow> mtree_iter option" where
  "mtree_upper_bound h tree key iter = do {
     upper \<leftarrow> mtree_upper_loop (it_cmp iter) key h (mt_root tree) 0;
     Some (iter\<lparr>it_node := upper\<rparr>) }"

definition mtree_begin :: "mheap \<Rightarrow> mtree \<Rightarrow> mtree_iter \<Rightarrow> mtree_iter option" where
  "mtree_begin h tree iter = do {
     p \<leftarrow> rb_leftmost h (mt_root tree);
     Some (iter\<lparr>it_node := p\<rparr>) }"

definition mtree_end :: "mtree_iter \<Rightarrow> mtree_iter" where
  "mtree_end iter = iter\<lparr>it_node := 0\<rparr>"

definition mtree_lookup :: "mheap \<Rightarrow> mtree \<Rightarrow> lsm_key \<Rightarrow> mtree_iter \<Rightarrow> (bool \<times> mtree_iter) option" where
  "mtree_lookup h tree key iter = do {
     iter \<leftarrow> mtree_lower_bound h tree key iter;
     (if it_node iter = 0 then Some (False, iter)
      else do {
        n \<leftarrow> load h (it_node iter);
        (if it_cmp iter (node_key n) key \<noteq> 0 then Some (False, iter\<lparr>it_node := 0\<rparr>)
         else Some (True, iter)) }) }"

definition mtree_next :: "mheap \<Rightarrow> mtree_iter \<Rightarrow> ((errno + unit) \<times> mtree_iter) option" where
  "mtree_next h iter =
     (if it_node iter = 0 then Some (Inl ENOENT, iter)
      else do {
        p \<leftarrow> rb_next h (it_node iter);
        Some (Inr (), iter\<lparr>it_node := p\<rparr>) })"

definition mtree_prev :: "mheap \<Rightarrow> mtree \<Rightarrow> mtree_iter \<Rightarrow> ((errno + unit) \<times> mtree_iter) option" where
  "mtree_prev h tree iter = do {
     first \<leftarrow> rb_leftmost h (mt_root tree);
     (if it_node iter = first then Some (Inl ENOENT, iter)
      else do {
        p \<leftarrow> (if it_node iter = 0 then rb_rightmost h (mt_root tree) else rb_prev h (it_node iter));
        Some (Inr (), iter\<lparr>it_node := p\<rparr>) }) }"

text \<open>\<open>mtree_key\<close> and \<open>mtree_val\<close> return an error where there is no entry; the key or value
  they store is then a NULL pointer of size 0.\<close>

definition mtree_key :: "mheap \<Rightarrow> mtree_iter \<Rightarrow> (errno + lsm_key) option" where
  "mtree_key h iter =
     (if it_node iter = 0 then Some (Inl ENOENT)
      else map_option (\<lambda>n. Inr (node_key n)) (load h (it_node iter)))"

definition mtree_val :: "mheap \<Rightarrow> mtree_iter \<Rightarrow> (errno + lsm_val) option" where
  "mtree_val h iter =
     (if it_node iter = 0 then Some (Inl ENOENT)
      else map_option (\<lambda>n. Inr (node_val n)) (load h (it_node iter)))"

lemma node_key_mk [simp]: "node_key (mk_node l r p c x) = fst x"
  by (simp add: node_key_def)

lemma node_val_mk [simp]: "node_val (mk_node l r p c x) = snd x"
  by (simp add: node_val_def)

section \<open>The invariant\<close>

text \<open>The entries of a tree in order, and a heap that holds a well-formed tree.\<close>

definition entries :: "kv rtree \<Rightarrow> kv list" where
  "entries t = map snd (inord t)"

definition mtree_inv :: "mheap \<Rightarrow> mtree \<Rightarrow> kv rtree \<Rightarrow> bool" where
  "mtree_inv h m t \<longleftrightarrow> tree_at h 0 t \<and> distinct (addrs t) \<and> rbt t \<and> mt_root m = rootp t \<and>
     kv_sorted (mt_cmp m) (entries t)"

lemma entries_plug:
  "entries (plug k t) = map snd (cleft k) @ entries t @ map snd (cright k)"
  by (simp add: entries_def inord_plug)

lemma entries_Node [simp]: "entries (Node l a c x r) = entries l @ x # entries r"
  by (simp add: entries_def)

lemma entries_Leaf [simp]: "entries Leaf = []"
  by (simp add: entries_def)

lemma mtree_inv_setup: "mtree_inv h (mtree_setup cmp) Leaf"
  by (simp add: mtree_inv_def mtree_setup_def rbt_def)

lemma read_link_ctx:
  "ctx_at h k p \<Longrightarrow> read_link h (croot k p) (cpar k) (cside k) = Some p"
  by (cases "(h, k, p)" rule: ctx_at.cases) (auto simp: read_link_def load_eq)

section \<open>Insertion\<close>

lemma key_order_above:
  "key_order cmp \<Longrightarrow> kv_sorted cmp (xs @ e # ys) \<Longrightarrow> 0 < cmp (fst e) k \<Longrightarrow> y \<in> set (e # ys) \<Longrightarrow> 0 < cmp (fst y) k"
  by (auto simp: kv_sorted_append kv_sorted_Cons)
     (metis key_order.cmp_flip key_order.cmp_less_trans order_less_imp_le)

lemma key_order_below:
  "key_order cmp \<Longrightarrow> kv_sorted cmp (xs @ e # ys) \<Longrightarrow> cmp (fst e) k \<le> 0 \<Longrightarrow> x \<in> set xs \<Longrightarrow> cmp (fst x) k < 0"
  by (auto simp: kv_sorted_append) (metis fst_conv key_order.cmp_less_trans)

text \<open>What an insertion leaves: a tree with the entry put in, on the old nodes and the new
  one, without the node it replaced.\<close>

definition inserted ::
    "cmp \<Rightarrow> ptr \<Rightarrow> kv \<Rightarrow> kv rtree \<Rightarrow> mheap \<Rightarrow> mheap \<Rightarrow> kv rtree \<Rightarrow> bool" where
  "inserted cmp new e t h h' t' \<longleftrightarrow> tree_at h' 0 t' \<and> distinct (addrs t') \<and> rbt t' \<and>
     entries t' = kv_put cmp (fst e) (snd e) (entries t) \<and>
     (\<forall>p. p \<notin> insert new (set (addrs t)) \<longrightarrow> h' p = h p) \<and>
     set (addrs t') = {p \<in> insert new (set (addrs t)). h' p \<noteq> None}"

lemma tree_at_Some: "tree_at h par t \<Longrightarrow> p \<in> set (addrs t) \<Longrightarrow> h p \<noteq> None"
  by (induction t arbitrary: par) auto

lemma distinct_addrs_inord: "distinct (map fst (inord t)) = distinct (addrs t)"
  by (simp add: map_fst_inord)

lemma inserted_leaf:
  assumes t: "tree_at h 0 (plug k Leaf)" "distinct (addrs (plug k Leaf))" "rbt (plug k Leaf)"
    and z: "new \<noteq> 0" "aligned new" "new \<notin> set (addrs (plug k Leaf))" "h new = Some nn"
    and lo: "\<forall>e \<in> set (cleft k). cmp (fst (snd e)) (fst (rb_node.more nn)) < 0"
    and hi: "\<forall>e \<in> set (cright k). 0 < cmp (fst (snd e)) (fst (rb_node.more nn))"
  shows "\<exists>h' t'. mtree_insert cmp new (cpar k) (cside k) h (croot k 0) = Some (h', rootp t') \<and>
    inserted cmp new (rb_node.more nn) (plug k Leaf) h h' t'"
proof -
  from rb_link_insert [OF t z] obtain h1 h' t' where
    l: "rb_link new (cpar k) (cside k) h (croot k 0) = Some (h1, croot k new)" and
    i: "rb_insert new h1 (croot k new) = Some (h', rootp t')" and t': "tree_at h' 0 t'" "rbt t'" and
    io: "inord t' = cleft k @ (new, rb_node.more nn) # cright k" and o: "outside (set (addrs t')) h h'"
    by (auto simp: rootp_plug)
  have "ctx_at h k 0" using t(1) tree_at_plug [of h k Leaf] by simp
  then have "mtree_insert cmp new (cpar k) (cside k) h (croot k 0) = Some (h', rootp t')"
    using read_link_ctx [of h k 0] l i by (subst mtree_insert.simps) simp
  moreover have a: "addrs t' = map fst (cleft k) @ new # map fst (cright k)"
    using map_fst_inord [of t'] io by simp
  have b: "addrs (plug k Leaf) = map fst (cleft k) @ map fst (cright k)"
    using map_fst_inord [of "plug k Leaf"] by (simp add: inord_plug)
  have "distinct (addrs t')" using a b t(2) z(3) by auto
  moreover have "entries t' = kv_put cmp (fst (rb_node.more nn)) (snd (rb_node.more nn)) (entries (plug k Leaf))"
    using io lo hi by (simp add: entries_def inord_plug kv_put_append kv_put_above)
  moreover have "insert new (set (addrs (plug k Leaf))) = set (addrs t')" using a b by auto
  moreover have "\<forall>p \<in> set (addrs t'). h' p \<noteq> None" using tree_at_Some [OF t'(1)] by blast
  ultimately show ?thesis using t' o by (auto simp: inserted_def outside_def)
qed

lemma insert_equal_shape:
  assumes t: "tree_at h 0 (plug k (Node l a c x r))" "distinct (addrs (plug k (Node l a c x r)))"
    and z: "new \<noteq> 0" "aligned new" "new \<notin> set (addrs (plug k (Node l a c x r)))" "h new = Some nn"
    and eq: "cmp (fst x) (fst (rb_node.more nn)) = 0"
  shows "\<exists>h1. mtree_insert cmp new (cpar k) (cside k) h (croot k a) =
      Some (h1(a := None), rootp (plug k (Node l new c (rb_node.more nn) r))) \<and>
    tree_at h1 0 (plug k (Node l new c (rb_node.more nn) r)) \<and>
    outside (insert new (set (addrs (plug k (Node l a c x r))))) h h1 \<and>
    a \<notin> set (addrs (plug k (Node l new c (rb_node.more nn) r))) \<and>
    distinct (addrs (plug k (Node l new c (rb_node.more nn) r)))"
proof -
  let ?t = "plug k (Node l a c x r)" and ?t' = "plug k (Node l new c (rb_node.more nn) r)"
  from rb_swap_nodes_at [OF t z] obtain h1 where
    s: "rb_swap_nodes a new h (croot k a) = Some (h1, croot k new)" and t1: "tree_at h1 0 ?t'" and
    o: "outside (insert new (set (addrs ?t))) h h1" by blast
  have c: "ctx_at h k a" and n: "tree_at h (cpar k) (Node l a c x r)"
    using t(1) tree_at_plug [of h k "Node l a c x r"] by auto
  have da: "a \<notin> set (addrs ?t')" "distinct (addrs ?t')"
    using t(2) z(3) by (auto simp: set_addrs_plug distinct_addrs_plug)
  obtain na where na: "h1 a = Some na"
  proof (cases "h1 a")
    case None
    have "rb_swap_nodes a new h (croot k a) \<noteq> Some (h1, croot k new)"
    proof
      assume "rb_swap_nodes a new h (croot k a) = Some (h1, croot k new)"
      then show False using None n by (auto simp: rb_swap_nodes_def rb_adopt_def rb_replace_child_def
          modify_def load_def Let_def split: if_splits Option.bind_splits option.splits prod.splits)
    qed
    then show ?thesis using s by simp
  qed
  have "mtree_insert cmp new (cpar k) (cside k) h (croot k a) = Some (h1(a := None), rootp ?t')"
    using n z s na eq read_link_ctx [OF c]
    by (subst mtree_insert.simps) (simp add: load_eq mtree_node_destroy_def node_key_def rootp_plug)
  then show ?thesis using t1 o da by blast
qed

lemma inserted_equal:
  assumes t: "tree_at h 0 (plug k (Node l a c x r))" "distinct (addrs (plug k (Node l a c x r)))"
      "rbt (plug k (Node l a c x r))" "kv_sorted cmp (entries (plug k (Node l a c x r)))"
    and z: "new \<noteq> 0" "aligned new" "new \<notin> set (addrs (plug k (Node l a c x r)))" "h new = Some nn"
    and ko: "key_order cmp" and eq: "cmp (fst x) (fst (rb_node.more nn)) = 0"
  shows "\<exists>h' t'. mtree_insert cmp new (cpar k) (cside k) h (croot k a) = Some (h', rootp t') \<and>
    inserted cmp new (rb_node.more nn) (plug k (Node l a c x r)) h h' t'"
proof -
  let ?t = "plug k (Node l a c x r)" and ?t' = "plug k (Node l new c (rb_node.more nn) r)"
  from insert_equal_shape [of h k l a c x r new nn cmp, OF t(1,2) z eq] obtain h1 where
    ins: "mtree_insert cmp new (cpar k) (cside k) h (croot k a) = Some (h1(a := None), rootp ?t')" and
    t1: "tree_at h1 0 ?t'" and o: "outside (insert new (set (addrs ?t))) h h1" and
    da: "a \<notin> set (addrs ?t')" "distinct (addrs ?t')" by blast
  have s': "set (addrs ?t') = insert new (set (addrs ?t)) - {a}"
    using da t(2) z(3) by (auto simp: set_addrs_plug distinct_addrs_plug)
  have "tree_at (h1(a := None)) 0 ?t'" using t1 da by simp
  moreover have "rbt ?t'" using t(3) rbt_swap [of k l a c x r new "rb_node.more nn"] by simp
  moreover have lo: "\<forall>e \<in> set (map snd (cleft k) @ entries l). cmp (fst e) (fst (rb_node.more nn)) < 0"
    using key_order_below [OF ko, of "map snd (cleft k) @ entries l" x] t(4) eq
    by (simp add: entries_plug)
  have "kv_put cmp (fst (rb_node.more nn)) (snd (rb_node.more nn)) (entries ?t) = entries ?t'"
    using eq kv_put_append [where cmp = cmp and k = "fst (rb_node.more nn)" and
      xs = "map snd (cleft k) @ entries l" and ys = "x # entries r @ map snd (cright k)", OF lo]
    by (simp add: entries_plug)
  moreover have "a \<in> set (addrs ?t)" by (simp add: set_addrs_plug)
  then have "\<forall>p. p \<notin> insert new (set (addrs ?t)) \<longrightarrow> (h1(a := None)) p = h p"
    using o by (auto simp: outside_def)
  moreover have "set (addrs ?t') = {p \<in> insert new (set (addrs ?t)). (h1(a := None)) p \<noteq> None}"
    unfolding s' using tree_at_Some [OF t1] s' by auto
  ultimately have "inserted cmp new (rb_node.more nn) ?t h (h1(a := None)) ?t'"
    using da(2) by (simp only: inserted_def simp_thms)
  with ins show ?thesis by blast
qed

lemma mtree_insert_at:
  assumes ko: "key_order cmp"
    and z: "new \<noteq> 0" "aligned new" "new \<notin> set (addrs (plug k t))" "h new = Some nn"
  shows "tree_at h 0 (plug k t) \<Longrightarrow> distinct (addrs (plug k t)) \<Longrightarrow> rbt (plug k t) \<Longrightarrow>
    kv_sorted cmp (entries (plug k t)) \<Longrightarrow>
    \<forall>e \<in> set (cleft k). cmp (fst (snd e)) (fst (rb_node.more nn)) < 0 \<Longrightarrow>
    \<forall>e \<in> set (cright k). 0 < cmp (fst (snd e)) (fst (rb_node.more nn)) \<Longrightarrow>
    \<exists>h' t'. mtree_insert cmp new (cpar k) (cside k) h (croot k (rootp t)) = Some (h', rootp t') \<and>
      inserted cmp new (rb_node.more nn) (plug k t) h h' t'"
  using z(3)
proof (induction t arbitrary: k)
  case Leaf
  then show ?case using inserted_leaf [of h k new nn cmp] z by simp
next
  case (Node l a c x r)
  let ?key = "fst (rb_node.more nn)"
  have cx: "ctx_at h k a" and n: "tree_at h (cpar k) (Node l a c x r)"
    using Node.prems(1) tree_at_plug [of h k "Node l a c x r"] by auto
  have srt: "kv_sorted cmp ((map snd (cleft k) @ entries l) @ x # (entries r @ map snd (cright k)))"
    using Node.prems(4) by (simp add: entries_plug)
  have mem: "\<And>e. e \<in> set (inord l) \<Longrightarrow> snd e \<in> set (entries l)"
      "\<And>e. e \<in> set (inord r) \<Longrightarrow> snd e \<in> set (entries r)"
    by (auto simp: entries_def)
  consider "cmp (fst x) ?key = 0" | "cmp (fst x) ?key < 0" | "0 < cmp (fst x) ?key" by linarith
  then show ?case
  proof cases
    case 1
    then show ?thesis using inserted_equal [of h k l a c x r cmp new nn] Node.prems z ko by simp
  next
    case 2
    then have step: "mtree_insert cmp new (cpar k) (cside k) h (croot k a) = mtree_insert cmp new a R h (croot k a)"
      using n z read_link_ctx [OF cx] by (subst mtree_insert.simps) (simp add: load_eq node_key_def)
    have lo: "\<forall>e \<in> set (cleft (InR l a c x # k)). cmp (fst (snd e)) ?key < 0"
    proof -
      have "cmp (fst x) ?key \<le> 0" using 2 by simp
      from key_order_below [OF ko srt this] show ?thesis using Node.prems(5) 2 mem(1) by force
    qed
    show ?thesis using Node.IH(2) [of "InR l a c x # k"] Node.prems lo step by simp
  next
    case 3
    then have step: "mtree_insert cmp new (cpar k) (cside k) h (croot k a) = mtree_insert cmp new a L h (croot k a)"
      using n z read_link_ctx [OF cx] by (subst mtree_insert.simps) (simp add: load_eq node_key_def)
    have hi: "\<forall>e \<in> set (cright (InL a c x r # k)). 0 < cmp (fst (snd e)) ?key"
      using Node.prems(6) 3 key_order_above [OF ko srt 3] mem(2) by force
    show ?thesis using Node.IH(1) [of "InL a c x r # k"] Node.prems hi step by simp
  qed
qed

text \<open>The new node's links before it is linked in are whatever \<open>malloc\<close> returned.\<close>

lemma mtree_add_at:
  assumes ko: "key_order (mt_cmp m)" and inv: "mtree_inv h m t"
    and new: "new \<noteq> 0" "aligned new" "h new = None"
  shows "\<exists>h' root t'. mtree_add m key val (new, junk) h = Some (Inr (), m\<lparr>mt_root := root,
       mt_bytes := (mt_bytes m + length key + length val) mod 2 ^ 64\<rparr>, h') \<and>
    root = rootp t' \<and> inserted (mt_cmp m) new (key, val) t h h' t'"
proof -
  let ?nn = "rb_node.more_update (\<lambda>_. (key, val)) junk"
  let ?h1 = "h(new \<mapsto> ?nn)"
  have nin: "new \<notin> set (addrs t)" using inv new(3) tree_at_Some [of h 0 t new] by (auto simp: mtree_inv_def)
  have "tree_at ?h1 0 (plug [] t)" using inv nin by (simp add: mtree_inv_def)
  moreover have "rb_node.more ?nn = (key, val)" by (cases junk) simp
  ultimately obtain h' t' where
    i: "mtree_insert (mt_cmp m) new 0 L ?h1 (rootp t) = Some (h', rootp t')" and
    t': "inserted (mt_cmp m) new (key, val) t ?h1 h' t'"
    using mtree_insert_at [OF ko new(1,2), of "[]" t ?h1 ?nn] inv nin by (auto simp: mtree_inv_def)
  have "inserted (mt_cmp m) new (key, val) t h h' t'" using t' by (auto simp: inserted_def)
  moreover have "mtree_add m key val (new, junk) h = Some (Inr (), m\<lparr>mt_root := rootp t',
       mt_bytes := (mt_bytes m + length key + length val) mod 2 ^ 64\<rparr>, h')"
    using i inv new by (simp add: mtree_add_def mtree_node_create_def mtree_inv_def)
  ultimately show ?thesis by blast
qed

lemma mtree_inv_inserted:
  assumes "key_order (mt_cmp m)" and "mtree_inv h m t" and "inserted (mt_cmp m) new (k, v) t h h' t'"
  shows "mtree_inv h' (m\<lparr>mt_root := rootp t', mt_bytes := b\<rparr>) t'"
  using assms key_order.kv_sorted_put [OF assms(1), of "entries t" k v]
  by (simp add: mtree_inv_def inserted_def)

text \<open>C17: \<open>mtree_add\<close> keeps the in-memory tree well formed (a red-black tree over sorted
  entries), its content becomes that of the sorted list with the entry inserted or replaced,
  it writes to no other part of the heap, and it leaks no node: what stays allocated of the
  old nodes and the new one is the new tree. If \<open>malloc\<close> fails nothing changes.\<close>

theorem mtree_add_correct:
  assumes "key_order (mt_cmp m)" and "mtree_inv h m t"
    and "new = 0 \<or> aligned new \<and> h new = None"
  shows "if new = 0 then mtree_add m key val (new, junk) h = Some (Inl ENOMEM, m, h)
    else \<exists>m' h' t'. mtree_add m key val (new, junk) h = Some (Inr (), m', h') \<and>
      mtree_inv h' m' t' \<and> entries t' = kv_put (mt_cmp m) key val (entries t) \<and>
      (\<forall>p. p \<notin> insert new (set (addrs t)) \<longrightarrow> h' p = h p) \<and>
      set (addrs t') = {p \<in> insert new (set (addrs t)). h' p \<noteq> None}"
proof (cases "new = 0")
  case True
  then show ?thesis by (simp add: mtree_add_def mtree_node_create_def)
next
  case False
  with mtree_add_at [OF assms(1,2), of new key val junk] assms(3) obtain h' t' where
    a: "mtree_add m key val (new, junk) h = Some (Inr (), m\<lparr>mt_root := rootp t',
       mt_bytes := (mt_bytes m + length key + length val) mod 2 ^ 64\<rparr>, h')" and
    i: "inserted (mt_cmp m) new (key, val) t h h' t'" by auto
  from mtree_inv_inserted [OF assms(1,2) i] a i False show ?thesis
    by (auto simp: inserted_def)
qed

section \<open>Bounds\<close>

text \<open>The node at a position of the ordered list; the position after the last one is NULL.\<close>

definition node_at :: "kv rtree \<Rightarrow> nat \<Rightarrow> ptr" where
  "node_at t i = hdp (drop i (inord t))"

lemma length_entries [simp]: "length (entries t) = length (inord t)"
  by (simp add: entries_def)

lemma mtree_lower_loop_at:
  assumes ko: "key_order cmp"
  shows "tree_at h par t \<Longrightarrow> kv_sorted cmp (entries t) \<Longrightarrow>
    mtree_lower_loop cmp key h (rootp t) lower =
      Some (let i = kv_lower cmp key (entries t) in if i < length (inord t) then node_at t i else lower)"
proof (induction t arbitrary: par lower)
  case Leaf
  then show ?case by (subst mtree_lower_loop.simps) simp
next
  case (Node l a c x r)
  show ?case
  proof (cases "cmp (fst x) key < 0")
    case True
    then have "\<forall>e \<in> set (entries l). cmp (fst e) key < 0"
      using key_order_below [OF ko, of "entries l" x "entries r" key] Node.prems(2) by simp
    then show ?thesis using Node.prems Node.IH(2) [of a lower] True
      by (subst mtree_lower_loop.simps)
         (simp add: load_eq kv_sorted_append kv_sorted_Cons kv_lower_append node_at_def Let_def)
  next
    case False
    have "kv_lower cmp key (entries l) = length (inord l) \<longleftrightarrow> (\<forall>e \<in> set (entries l). cmp (fst e) key < 0)"
      using kv_lower_eq_length [of cmp key "entries l"] by simp
    then show ?thesis using Node.prems Node.IH(1) [of a a] False kv_lower_le [of cmp key "entries l"]
      by (subst mtree_lower_loop.simps)
         (auto simp: load_eq kv_sorted_append kv_sorted_Cons kv_lower_append node_at_def Let_def hdp_append)
  qed
qed

lemma mtree_upper_loop_at:
  assumes ko: "key_order cmp"
  shows "tree_at h par t \<Longrightarrow> kv_sorted cmp (entries t) \<Longrightarrow>
    mtree_upper_loop cmp key h (rootp t) upper =
      Some (let i = kv_upper cmp key (entries t) in if 0 < i then node_at t (i - 1) else upper)"
proof (induction t arbitrary: par upper)
  case Leaf
  then show ?case by (subst mtree_upper_loop.simps) simp
next
  case (Node l a c x r)
  show ?case
  proof (cases "cmp (fst x) key \<le> 0")
    case True
    then have "\<forall>e \<in> set (entries l). cmp (fst e) key \<le> 0"
      using key_order_below [OF ko, of "entries l" x "entries r" key] Node.prems(2) by fastforce
    then show ?thesis using Node.prems Node.IH(2) [of a a] True
      by (subst mtree_upper_loop.simps)
         (auto simp: load_eq kv_sorted_append kv_sorted_Cons kv_upper_append node_at_def Let_def
           split: nat_diff_split)
  next
    case False
    have le: "kv_upper cmp key (entries l) \<le> length (inord l)" using kv_upper_le [of cmp key "entries l"] by simp
    have "kv_upper cmp key (entries (Node l a c x r)) = kv_upper cmp key (entries l)"
      using False kv_upper_eq_length [of cmp key "entries l"] by (auto simp: kv_upper_append)
    moreover have "0 < kv_upper cmp key (entries l) \<Longrightarrow>
        node_at (Node l a c x r) (kv_upper cmp key (entries l) - 1) = node_at l (kv_upper cmp key (entries l) - 1)"
      using le by (auto simp: node_at_def hdp_append)
    ultimately show ?thesis using Node.prems Node.IH(1) [of a upper] False
      by (subst mtree_upper_loop.simps)
         (simp add: load_eq kv_sorted_append kv_sorted_Cons Let_def)
  qed
qed

section \<open>Iterators\<close>

text \<open>An iterator at a position of a tree.\<close>

definition iter_at :: "mheap \<Rightarrow> mtree \<Rightarrow> kv rtree \<Rightarrow> mtree_iter \<Rightarrow> nat \<Rightarrow> bool" where
  "iter_at h m t iter i \<longleftrightarrow> key_order (mt_cmp m) \<and> mtree_inv h m t \<and> it_cmp iter = mt_cmp m \<and>
     i \<le> length (inord t) \<and> it_node iter = node_at t i"

lemma inord_nz: "tree_at h par t \<Longrightarrow> n \<in> set (inord t) \<Longrightarrow> fst n \<noteq> 0"
  using tree_at_not_0 [of h par t] by (metis imageI map_fst_inord set_map)

lemma node_at_nth: "i < length (inord t) \<Longrightarrow> node_at t i = fst (inord t ! i)"
  by (simp add: node_at_def flip: Cons_nth_drop_Suc)

lemma node_at_end [simp]: "length (inord t) \<le> i \<Longrightarrow> node_at t i = 0"
  by (simp add: node_at_def)

lemma node_at_0: "tree_at h par t \<Longrightarrow> i \<le> length (inord t) \<Longrightarrow> node_at t i = 0 \<longleftrightarrow> i = length (inord t)"
  using inord_nz [of h par t "inord t ! i"] by (cases "i < length (inord t)") (auto simp: node_at_nth)

lemma node_at_inj:
  assumes "tree_at h par t" and "distinct (addrs t)" and "i \<le> length (inord t)" and "j \<le> length (inord t)"
  shows "node_at t i = node_at t j \<longleftrightarrow> i = j"
proof -
  have "\<And>i. i < length (inord t) \<Longrightarrow> node_at t i = addrs t ! i"
    by (simp add: node_at_nth flip: map_fst_inord)
  moreover have l: "length (addrs t) = length (inord t)" by (simp flip: map_fst_inord)
  ultimately show ?thesis
    using assms node_at_0 [OF assms(1)] nth_eq_iff_index_eq [OF assms(2)]
    by (metis le_neq_implies_less)
qed

lemma load_inord:
  "tree_at h par t \<Longrightarrow> n \<in> set (inord t) \<Longrightarrow> \<exists>m. load h (fst n) = Some m \<and> rb_node.more m = snd n"
  by (induction t arbitrary: par) (auto simp: load_eq)

lemma load_node_at:
  assumes "tree_at h par t" and "i < length (inord t)"
  shows "\<exists>n. load h (node_at t i) = Some n \<and> (node_key n, node_val n) = entries t ! i"
  using load_inord [OF assms(1), of "inord t ! i"] assms(2)
  by (auto simp: node_at_nth entries_def node_key_def node_val_def)

lemma inord_split: "i < length (inord t) \<Longrightarrow>
  inord t = take i (inord t) @ (node_at t i, snd (inord t ! i)) # drop (Suc i) (inord t)"
  by (simp add: node_at_nth id_take_nth_drop)

lemma mtree_next_at:
  assumes "iter_at h m t iter i"
  shows "mtree_next h iter = Some (if i < length (inord t) then Inr () else Inl ENOENT,
    iter\<lparr>it_node := node_at t (min (Suc i) (length (inord t)))\<rparr>)"
proof (cases "i < length (inord t)")
  case True
  have t: "tree_at h 0 t" "distinct (addrs t)" and n: "it_node iter = node_at t i"
    using assms by (auto simp: iter_at_def mtree_inv_def)
  have "rb_next h (node_at t i) = Some (node_at t (Suc i))"
    using rb_next_at [OF t inord_split [OF True]] by (simp add: node_at_def)
  then show ?thesis using True n node_at_0 [OF t(1), of i] by (simp add: mtree_next_def min_def)
next
  case False
  then show ?thesis using assms by (cases iter) (simp add: mtree_next_def iter_at_def)
qed

lemma mtree_prev_at:
  assumes "iter_at h m t iter i"
  shows "mtree_prev h m iter = Some (if i = 0 then (Inl ENOENT, iter)
    else (Inr (), iter\<lparr>it_node := node_at t (i - 1)\<rparr>))"
proof -
  have t: "tree_at h 0 t" "distinct (addrs t)" and n: "it_node iter = node_at t i"
    and i: "i \<le> length (inord t)" and r: "mt_root m = rootp t"
    using assms by (auto simp: iter_at_def mtree_inv_def)
  have first: "rb_leftmost h (rootp t) = Some (node_at t 0)"
    using rb_leftmost_tree [OF t(1)] by (simp add: node_at_def)
  have prev: "node_at t (i - 1) = lastp (take i (inord t))" if "0 < i"
    using that i by (cases i) (auto simp: node_at_nth take_Suc_conv_app_nth)
  have "rb_prev h (node_at t i) = Some (node_at t (i - 1))" if "0 < i" "i < length (inord t)"
    using rb_prev_at [OF t inord_split [OF that(2)]] prev that by simp
  moreover have "rb_rightmost h (rootp t) = Some (node_at t (i - 1))" if "0 < i" "i = length (inord t)"
    using rb_rightmost_tree [OF t(1)] prev that by simp
  ultimately show ?thesis
    using n r i first node_at_inj [OF t i, of 0] node_at_0 [OF t(1) i] by (auto simp: mtree_prev_def)
qed

lemma mtree_key_at:
  "iter_at h m t iter i \<Longrightarrow>
   mtree_key h iter = Some (if i < length (inord t) then Inr (fst (entries t ! i)) else Inl ENOENT)"
  using load_node_at [of h 0 t i] node_at_0 [of h 0 t i]
  by (force simp: iter_at_def mtree_inv_def mtree_key_def dest: arg_cong [where f = fst])

lemma mtree_val_at:
  "iter_at h m t iter i \<Longrightarrow>
   mtree_val h iter = Some (if i < length (inord t) then Inr (snd (entries t ! i)) else Inl ENOENT)"
  using load_node_at [of h 0 t i] node_at_0 [of h 0 t i]
  by (force simp: iter_at_def mtree_inv_def mtree_val_def dest: arg_cong [where f = snd])

text \<open>The state of a walk: the heap, the tree and the iterator.\<close>

type_synonym mwalk = "mheap \<times> mtree \<times> mtree_iter"

fun mpos :: "mwalk \<Rightarrow> kv list \<Rightarrow> nat \<Rightarrow> bool" where
  "mpos (h, m, iter) xs i \<longleftrightarrow> (\<exists>t. iter_at h m t iter i \<and> xs = entries t)"

fun mkey :: "mwalk \<Rightarrow> (errno + lsm_key) option" where
  "mkey (h, m, iter) = mtree_key h iter"

fun mval :: "mwalk \<Rightarrow> (errno + lsm_val) option" where
  "mval (h, m, iter) = mtree_val h iter"

fun mnext :: "mwalk \<Rightarrow> ((errno + unit) \<times> mwalk) option" where
  "mnext (h, m, iter) = map_option (\<lambda>(r, iter). (r, h, m, iter)) (mtree_next h iter)"

fun mprev :: "mwalk \<Rightarrow> ((errno + unit) \<times> mwalk) option" where
  "mprev (h, m, iter) = map_option (\<lambda>(r, iter). (r, h, m, iter)) (mtree_prev h m iter)"

lemma iter_at_move:
  "iter_at h m t iter i \<Longrightarrow> j \<le> length (inord t) \<Longrightarrow> iter_at h m t (iter\<lparr>it_node := node_at t j\<rparr>) j"
  by (simp add: iter_at_def)

interpretation mtree_cursor: cursor mpos mkey mval mnext mprev
proof
  fix s :: mwalk and xs i
  assume p: "mpos s xs i"
  obtain h m iter where s: "s = (h, m, iter)" by (cases s)
  then obtain t where at: "iter_at h m t iter i" and xs: "xs = entries t" using p by auto
  show "i \<le> length xs" using at xs by (simp add: iter_at_def)
  show "mkey s = Some (if i < length xs then Inr (fst (xs ! i)) else Inl ENOENT)"
    using mtree_key_at [OF at] s xs by simp
  show "mval s = Some (if i < length xs then Inr (snd (xs ! i)) else Inl ENOENT)"
    using mtree_val_at [OF at] s xs by simp
  show "\<exists>r s'. mnext s = Some (r, s') \<and> mpos s' xs (min (Suc i) (length xs)) \<and>
      (r = Inr () \<or> r = Inl ENOENT) \<and> (Suc i < length xs \<longrightarrow> r = Inr ()) \<and>
      (i = length xs \<longrightarrow> r = Inl ENOENT)"
    using mtree_next_at [OF at] iter_at_move [OF at, of "min (Suc i) (length (inord t))"] s xs by auto
  show "\<exists>r s'. mprev s = Some (r, s') \<and> mpos s' xs (i - 1) \<and> r = (if i = 0 then Inl ENOENT else Inr ())"
    using mtree_prev_at [OF at] iter_at_move [OF at, of "i - 1"] at s xs by (auto simp: iter_at_def)
qed

lemma iter_at_begin:
  assumes "key_order (mt_cmp m)" and "mtree_inv h m t" and "it_cmp iter = mt_cmp m"
  shows "\<exists>iter'. mtree_begin h m iter = Some iter' \<and> iter_at h m t iter' 0"
  using assms rb_leftmost_tree [of h 0 t]
  by (simp add: mtree_begin_def iter_at_def mtree_inv_def node_at_def)

lemma iter_at_end:
  assumes "key_order (mt_cmp m)" and "mtree_inv h m t" and "it_cmp iter = mt_cmp m"
  shows "iter_at h m t (mtree_end iter) (length (inord t))"
  using assms by (simp add: mtree_end_def iter_at_def)

lemma iter_at_lower:
  assumes "key_order (mt_cmp m)" and "mtree_inv h m t" and "it_cmp iter = mt_cmp m"
  shows "\<exists>iter'. mtree_lower_bound h m key iter = Some iter' \<and>
    iter_at h m t iter' (kv_lower (mt_cmp m) key (entries t))"
proof -
  have "mtree_lower_loop (mt_cmp m) key h (rootp t) 0 = Some (node_at t (kv_lower (mt_cmp m) key (entries t)))"
    using mtree_lower_loop_at [OF assms(1), of h 0 t key 0] assms(2) by (simp add: mtree_inv_def Let_def)
  then show ?thesis using assms kv_lower_le [of "mt_cmp m" key "entries t"]
    by (simp add: mtree_lower_bound_def iter_at_def mtree_inv_def)
qed

text \<open>C25: walking over an in-memory tree. From \<open>mtree_begin\<close> the iterator meets every entry
  in key order and stops; from \<open>mtree_end\<close> backwards it meets them in reverse; from
  \<open>mtree_lower_bound\<close> it meets exactly the entries whose key is not below the given one.\<close>

theorem mtree_walk_complete:
  assumes "key_order (mt_cmp m)" and "mtree_inv h m t" and "it_cmp iter = mt_cmp m"
    and "length (entries t) < n"
  shows "\<exists>b l. mtree_begin h m iter = Some b \<and> mtree_lower_bound h m key iter = Some l \<and>
    cursor_scan mkey mval mnext n (h, m, b) = Some (entries t) \<and>
    cursor_scan_back mkey mval mprev n (h, m, mtree_end iter) = Some (rev (entries t)) \<and>
    cursor_scan mkey mval mnext n (h, m, l) = Some (filter (\<lambda>e. 0 \<le> mt_cmp m (fst e) key) (entries t))"
proof -
  obtain b l where b: "mtree_begin h m iter = Some b" "iter_at h m t b 0"
    and l: "mtree_lower_bound h m key iter = Some l" "iter_at h m t l (kv_lower (mt_cmp m) key (entries t))"
    using iter_at_begin [OF assms(1-3)] iter_at_lower [OF assms(1-3)] by blast
  have s: "kv_sorted (mt_cmp m) (entries t)" using assms(2) by (simp add: mtree_inv_def)
  have "filter (\<lambda>e. 0 \<le> mt_cmp m (fst e) key) (entries t) = drop (kv_lower (mt_cmp m) key (entries t)) (entries t)"
    by (rule key_order.filter_kv_lower [OF assms(1) s])
  moreover have "cursor_scan mkey mval mnext n (h, m, b) = Some (drop 0 (entries t))"
    by (rule mtree_cursor.scan_at) (use b assms(4) in auto)
  moreover have "cursor_scan_back mkey mval mprev n (h, m, mtree_end iter) =
      Some (rev (take (length (entries t)) (entries t)))"
    by (rule mtree_cursor.scan_back_at) (use iter_at_end [OF assms(1-3)] assms(4) in auto)
  moreover have "cursor_scan mkey mval mnext n (h, m, l) =
      Some (drop (kv_lower (mt_cmp m) key (entries t)) (entries t))"
    by (rule mtree_cursor.scan_at) (use l assms(4) in auto)
  ultimately show ?thesis using b(1) l(1) by simp
qed

text \<open>C26: \<open>mtree_lookup\<close> finds exactly the keys that are in the tree, and the iterator is
  then on an entry with that key, whose value is the one stored last; if the key is not
  there the iterator is at the end.\<close>

theorem mtree_lookup_correct:
  assumes "key_order (mt_cmp m)" and "mtree_inv h m t" and "it_cmp iter = mt_cmp m"
  shows "\<exists>iter'. mtree_lookup h m key iter = Some (kv_get (mt_cmp m) key (entries t) \<noteq> None, iter') \<and>
    mtree_val h iter' = Some (case kv_get (mt_cmp m) key (entries t) of Some v \<Rightarrow> Inr v | None \<Rightarrow> Inl ENOENT)"
proof -
  let ?i = "kv_lower (mt_cmp m) key (entries t)"
  obtain l where l: "mtree_lower_bound h m key iter = Some l" "iter_at h m t l ?i"
    using iter_at_lower [OF assms] by blast
  have t: "tree_at h 0 t" and s: "kv_sorted (mt_cmp m) (entries t)" and c: "it_cmp l = mt_cmp m"
    and p: "it_node l = node_at t ?i" "?i \<le> length (inord t)"
    using l(2) by (auto simp: iter_at_def mtree_inv_def)
  note g = key_order.kv_get_lower [OF assms(1) s, of key]
  show ?thesis
  proof (cases "?i < length (inord t)")
    case True
    obtain n where n: "load h (node_at t ?i) = Some n" "(node_key n, node_val n) = entries t ! ?i"
      using load_node_at [OF t True] by blast
    have "node_key n = fst (entries t ! ?i)" using n(2) by (metis fst_conv)
    moreover have "node_val n = snd (entries t ! ?i)" using n(2) by (metis snd_conv)
    ultimately show ?thesis
      using l(1) c p(1) g n(1) True node_at_0 [OF t p(2)]
      by (simp add: mtree_lookup_def mtree_val_def Let_def)
  next
    case False
    then show ?thesis using l(1) p g by (simp add: mtree_lookup_def mtree_val_def Let_def)
  qed
qed

text \<open>\<open>mtree_upper_bound\<close> leaves the iterator on the last entry whose key is not above the
  given one, and at the end if there is none: on the predecessor of the first entry above
  the key, where \<open>ctree_upper_bound\<close> goes to that entry itself.\<close>

theorem mtree_upper_bound_is_predecessor:
  assumes "key_order (mt_cmp m)" and "mtree_inv h m t" and "it_cmp iter = mt_cmp m"
  shows "\<exists>iter'. mtree_upper_bound h m key iter = Some iter' \<and>
    iter_at h m t iter' (let i = kv_upper (mt_cmp m) key (entries t) in
      if i = 0 then length (entries t) else i - 1)"
proof -
  have "mtree_upper_loop (mt_cmp m) key h (rootp t) 0 =
      Some (node_at t (let i = kv_upper (mt_cmp m) key (entries t) in if i = 0 then length (entries t) else i - 1))"
    using mtree_upper_loop_at [OF assms(1), of h 0 t key 0] assms(2) by (simp add: mtree_inv_def Let_def)
  then show ?thesis using assms kv_upper_le [of "mt_cmp m" key "entries t"]
    by (simp add: mtree_upper_bound_def iter_at_def mtree_inv_def Let_def le_diff_conv)
qed

section \<open>Release\<close>

lemma mtree_release_nodes_at:
  "tree_at h par t \<Longrightarrow> distinct (addrs t) \<Longrightarrow>
   mtree_release_nodes (rootp t) h = Some (\<lambda>p. if p \<in> set (addrs t) then None else h p)"
proof (induction t arbitrary: h par)
  case Leaf
  then show ?case by (subst mtree_release_nodes.simps) simp
next
  case (Node l a c x r)
  let ?h1 = "\<lambda>p. if p \<in> set (addrs r) then None else h p"
  have nin: "a \<notin> set (addrs r)" "a \<notin> set (addrs l)" "set (addrs l) \<inter> set (addrs r) = {}"
    using Node.prems(2) by auto
  have r: "mtree_release_nodes (rootp r) h = Some ?h1" using Node by auto
  have same: "\<And>h h' p t. \<forall>q \<in> set (addrs t). h' q = h q \<Longrightarrow> tree_at h p t \<Longrightarrow> tree_at h' p (t :: kv rtree)"
  proof -
    fix h h' :: mheap and p and t :: "kv rtree"
    show "\<forall>q \<in> set (addrs t). h' q = h q \<Longrightarrow> tree_at h p t \<Longrightarrow> tree_at h' p t"
      by (induction t arbitrary: p) auto
  qed
  have "tree_at (?h1(a := None)) a l"
    by (rule same [of l _ h]) (use Node.prems nin in auto)
  then have "mtree_release_nodes (rootp l) (?h1(a := None)) =
      Some (\<lambda>p. if p \<in> set (addrs l) then None else (?h1(a := None)) p)"
    by (rule Node.IH(1)) (use Node.prems(2) in simp)
  then show ?case
    using Node.prems r nin by (subst mtree_release_nodes.simps)
      (auto simp: load_eq mtree_node_destroy_def fun_eq_iff)
qed

text \<open>C32: \<open>mtree_release\<close> and \<open>mtree_reset\<close> free every node of the tree exactly once and
  nothing else (a second \<open>free\<close> of a node would be undefined), and leave an empty,
  well-formed tree.\<close>

theorem mtree_release_frees_all:
  assumes "mtree_inv h m t"
  shows "\<exists>h' m'. mtree_release m h = Some (m', h') \<and> mtree_reset m h = Some (m', h') \<and>
    h' = (\<lambda>p. if p \<in> set (addrs t) then None else h p) \<and>
    mtree_is_empty m' \<and> mtree_inv h' m' Leaf \<and> mt_bytes m' = 0"
  using assms mtree_release_nodes_at [of h 0 t]
  by (simp add: mtree_inv_def mtree_release_def mtree_reset_def mtree_is_empty_def rbt_def)

section \<open>A concrete tree\<close>

text \<open>Two entries under the order of the tests: a root with key 9 and its left child with
  key 5.\<close>

definition demo_key :: "nat \<Rightarrow> lsm_key" where
  "demo_key n = le_enc 8 n"

definition demo_tree :: "kv rtree" where
  "demo_tree = Node (Node Leaf 16 Red (demo_key 5, [1]) Leaf) 32 Black (demo_key 9, [2]) Leaf"

definition demo_mheap :: mheap where
  "demo_mheap = [32 \<mapsto> mk_node 16 0 0 Black (demo_key 9, [2]),
     16 \<mapsto> mk_node 0 0 32 Red (demo_key 5, [1])]"

definition demo_mtree :: mtree where
  "demo_mtree = \<lparr>mt_cmp = test_cmp, mt_bytes = 18, mt_root = 32\<rparr>"

lemma test_value_demo [simp]: "n < 2 ^ 63 \<Longrightarrow> test_value (demo_key n) = int n"
proof -
  assume n: "n < 2 ^ 63"
  then have "le_dec (le_enc 8 n) = n" by (simp add: le_dec_enc)
  then have "test_value (demo_key n) = sint (word_of_nat n :: u64)"
    by (simp add: test_value_def demo_key_def le64_dec_def del: of_nat_unat)
  also have "\<dots> = int n" using n by (simp add: signed_of_nat signed_take_bit_int_eq_self)
  finally show ?thesis .
qed

lemma demo_mtree_inv: "mtree_inv demo_mheap demo_mtree demo_tree"
  by (simp add: mtree_inv_def demo_mtree_def demo_tree_def demo_mheap_def rbt_def kv_sorted_def
      aligned_even test_cmp_def)

lemma demo_mtree_sel [simp]: "mt_cmp demo_mtree = test_cmp"
  by (simp add: demo_mtree_def)

lemma entries_demo: "entries demo_tree = [(demo_key 5, [1]), (demo_key 9, [2])]"
  by (simp add: demo_tree_def)

theorem mtree_add_correct_witness:
  "\<exists>m' h' t'. mtree_add demo_mtree (demo_key 5) [3] (48, mk_node 1 2 3 Black ([], [])) demo_mheap =
      Some (Inr (), m', h') \<and> mtree_inv h' m' t' \<and> entries t' = [(demo_key 5, [3]), (demo_key 9, [2])]"
proof -
  have "aligned 48 \<and> demo_mheap 48 = None" by (simp add: aligned_even demo_mheap_def)
  then show ?thesis
    using mtree_add_correct [of demo_mtree demo_mheap demo_tree 48 "demo_key 5" "[3]" "mk_node 1 2 3 Black ([], [])"]
      test_keys.key_order_axioms demo_mtree_inv by (auto simp: entries_demo test_cmp_def)
qed

theorem mtree_walk_complete_witness:
  "\<exists>b. mtree_begin demo_mheap demo_mtree (mtree_iter_setup demo_mtree) = Some b \<and>
     cursor_scan mkey mval mnext 3 (demo_mheap, demo_mtree, b) = Some [(demo_key 5, [1]), (demo_key 9, [2])]"
  using mtree_walk_complete [of demo_mtree demo_mheap demo_tree "mtree_iter_setup demo_mtree" 3]
    test_keys.key_order_axioms demo_mtree_inv by (auto simp: entries_demo mtree_iter_setup_def)

theorem mtree_lookup_correct_witness:
  "\<exists>i. mtree_lookup demo_mheap demo_mtree (demo_key 9) (mtree_iter_setup demo_mtree) = Some (True, i) \<and>
     mtree_val demo_mheap i = Some (Inr [2])"
  using mtree_lookup_correct [of demo_mtree demo_mheap demo_tree "mtree_iter_setup demo_mtree" "demo_key 9"]
    test_keys.key_order_axioms demo_mtree_inv
  by (simp add: entries_demo mtree_iter_setup_def kv_get_def test_cmp_def)

theorem mtree_upper_bound_is_predecessor_witness:
  "\<exists>i. mtree_upper_bound demo_mheap demo_mtree (demo_key 7) (mtree_iter_setup demo_mtree) = Some i \<and>
     iter_at demo_mheap demo_mtree demo_tree i 0"
  using mtree_upper_bound_is_predecessor [of demo_mtree demo_mheap demo_tree "mtree_iter_setup demo_mtree" "demo_key 7"]
    test_keys.key_order_axioms demo_mtree_inv
  by (simp add: entries_demo mtree_iter_setup_def test_cmp_def)

theorem mtree_release_frees_all_witness:
  "\<exists>m'. mtree_release demo_mtree demo_mheap = Some (m', \<lambda>p. None) \<and> mtree_is_empty m'"
proof -
  have "(\<lambda>p. if p \<in> set (addrs demo_tree) then None else demo_mheap p) = (\<lambda>p. None)"
    by (auto simp: demo_tree_def demo_mheap_def)
  then show ?thesis using mtree_release_frees_all [OF demo_mtree_inv] by auto
qed

end
