(* ===== verification/MtreeEnds.thy ===== *)
theory MtreeEnds
  imports Mtree
begin

text \<open>
  The in-memory tree under any comparison function: a function that is no order at all can spoil the
  order of the entries, but nothing worse.
\<close>

lemma lower_loop_ends:
  "tree_at h par t \<Longrightarrow> \<exists>q \<in> insert acc (set (addrs t)). mtree_lower_loop cmp key h (rootp t) acc = Some q"
proof (induction t arbitrary: par acc)
  case Leaf
  then show ?case by (subst mtree_lower_loop.simps) simp
next
  case (Node l a c x r)
  show ?case
  proof (cases "0 \<le> cmp (fst x) key")
    case True
    with Node.prems Node.IH(1) [of a a] show ?thesis
      by (subst mtree_lower_loop.simps) (auto simp: load_eq)
  next
    case False
    with Node.prems Node.IH(2) [of a acc] show ?thesis
      by (subst mtree_lower_loop.simps) (auto simp: load_eq)
  qed
qed

lemma upper_loop_ends:
  "tree_at h par t \<Longrightarrow> \<exists>q \<in> insert acc (set (addrs t)). mtree_upper_loop cmp key h (rootp t) acc = Some q"
proof (induction t arbitrary: par acc)
  case Leaf
  then show ?case by (subst mtree_upper_loop.simps) simp
next
  case (Node l a c x r)
  show ?case
  proof (cases "cmp (fst x) key \<le> 0")
    case True
    with Node.prems Node.IH(2) [of a a] show ?thesis
      by (subst mtree_upper_loop.simps) (auto simp: load_eq)
  next
    case False
    with Node.prems Node.IH(1) [of a acc] show ?thesis
      by (subst mtree_upper_loop.simps) (auto simp: load_eq)
  qed
qed

lemma lookup_ends:
  assumes "tree_at h 0 t" and "mt_root m = rootp t"
  shows "\<exists>b it'. mtree_lookup h m key it = Some (b, it') \<and> it_node it' \<in> insert 0 (set (addrs t))"
proof -
  obtain q where q: "q \<in> insert 0 (set (addrs t))" "mtree_lower_loop (it_cmp it) key h (rootp t) 0 = Some q"
    using lower_loop_ends [OF assms(1)] by metis
  then have "q \<noteq> 0 \<Longrightarrow> load h q \<noteq> None" using tree_at_Some [OF assms(1), of q] by (auto simp: load_eq)
  with q assms(2) show ?thesis by (cases "q = 0") (auto simp: mtree_lookup_def mtree_lower_bound_def)
qed

lemma insert_ends:
  assumes z: "new \<noteq> 0" "aligned new" "new \<notin> set (addrs (plug k t))" "h new = Some nn"
  shows "tree_at h 0 (plug k t) \<Longrightarrow> distinct (addrs (plug k t)) \<Longrightarrow> rbt (plug k t) \<Longrightarrow>
    \<exists>h' t'. mtree_insert cmp new (cpar k) (cside k) h (croot k (rootp t)) = Some (h', rootp t') \<and>
      tree_at h' 0 t' \<and> distinct (addrs t') \<and> rbt t'"
  using z(3)
proof (induction t arbitrary: k)
  case Leaf
  from rb_link_insert [OF Leaf.prems(1-3) z(1,2) Leaf.prems(4) z(4)] obtain h1 h' t' where
    l: "rb_link new (cpar k) (cside k) h (croot k 0) = Some (h1, croot k new)"
      "rb_insert new h1 (croot k new) = Some (h', rootp t')" and
    t': "tree_at h' 0 t'" "rbt t'" and io: "inord t' = cleft k @ (new, rb_node.more nn) # cright k"
    and i: "inord (plug k Leaf) = cleft k @ cright k" by (auto simp: rootp_plug)
  have "ctx_at h k 0" using Leaf.prems(1) tree_at_plug [of h k Leaf] by simp
  then have "mtree_insert cmp new (cpar k) (cside k) h (croot k 0) = Some (h', rootp t')"
    using read_link_ctx [of h k 0] l by (subst mtree_insert.simps) simp
  moreover have "addrs t' = map fst (cleft k) @ new # map fst (cright k)"
    "addrs (plug k Leaf) = map fst (cleft k) @ map fst (cright k)"
    using io i map_fst_inord [of t'] map_fst_inord [of "plug k Leaf"] by simp_all
  then have "distinct (addrs t')" using Leaf.prems(2,4) by simp
  ultimately show ?case using t' by auto
next
  case (Node l a c x r)
  let ?key = "fst (rb_node.more nn)"
  have cx: "ctx_at h k a" and n: "tree_at h (cpar k) (Node l a c x r)"
    using Node.prems(1) tree_at_plug [of h k "Node l a c x r"] by auto
  consider "cmp (fst x) ?key = 0" | "cmp (fst x) ?key < 0" | "0 < cmp (fst x) ?key" by linarith
  then show ?case
  proof cases
    case 1
    let ?t' = "plug k (Node l new c (rb_node.more nn) r)"
    from insert_equal_shape [of h k l a c x r new nn cmp, OF Node.prems(1,2) z(1,2) Node.prems(4) z(4) 1] obtain h1 where
      "mtree_insert cmp new (cpar k) (cside k) h (croot k a) = Some (h1(a := None), rootp ?t')"
      "tree_at h1 0 ?t'" "a \<notin> set (addrs ?t')" "distinct (addrs ?t')" by blast
    moreover from this have "tree_at (h1(a := None)) 0 ?t'" by simp
    moreover have "rbt ?t'" using Node.prems(3) rbt_swap [of k l a c x r new "rb_node.more nn"] by simp
    ultimately show ?thesis unfolding rootp.simps by blast
  next
    case 2
    then have "mtree_insert cmp new (cpar k) (cside k) h (croot k a) = mtree_insert cmp new a R h (croot k a)"
      using n z read_link_ctx [OF cx] by (subst mtree_insert.simps) (simp add: load_eq node_key_def)
    then show ?thesis using Node.IH(2) [of "InR l a c x # k"] Node.prems by simp
  next
    case 3
    then have "mtree_insert cmp new (cpar k) (cside k) h (croot k a) = mtree_insert cmp new a L h (croot k a)"
      using n z read_link_ctx [OF cx] by (subst mtree_insert.simps) (simp add: load_eq node_key_def)
    then show ?thesis using Node.IH(1) [of "InL a c x r # k"] Node.prems by simp
  qed
qed

text \<open>C27: every loop of the in-memory tree ends, and no operation follows a bad pointer, whatever the
  comparison function answers: it need not be an order. The searches give NULL or a node of the tree,
  \<open>mtree_add\<close> leaves a red-black tree, and \<open>mtree_release\<close> ends.\<close>

theorem mtree_ends:
  assumes "tree_at h 0 t" and "distinct (addrs t)" and "rbt t" and "mt_root m = rootp t"
    and "new \<noteq> 0" and "aligned new" and "h new = None"
  shows "(\<exists>it'. mtree_lower_bound h m key it = Some it' \<and> it_node it' \<in> insert 0 (set (addrs t))) \<and>
    (\<exists>it'. mtree_upper_bound h m key it = Some it' \<and> it_node it' \<in> insert 0 (set (addrs t))) \<and>
    (\<exists>b it'. mtree_lookup h m key it = Some (b, it') \<and> it_node it' \<in> insert 0 (set (addrs t))) \<and>
    (\<exists>m' h' t'. mtree_add m key val (new, junk) h = Some (Inr (), m', h') \<and> mt_root m' = rootp t' \<and>
       tree_at h' 0 t' \<and> distinct (addrs t') \<and> rbt t') \<and>
    (\<exists>m' h'. mtree_release m h = Some (m', h'))"
proof (intro conjI)
  show "\<exists>it'. mtree_lower_bound h m key it = Some it' \<and> it_node it' \<in> insert 0 (set (addrs t))"
    using lower_loop_ends [OF assms(1), of 0 "it_cmp it" key] assms(4) by (auto simp: mtree_lower_bound_def)
  show "\<exists>it'. mtree_upper_bound h m key it = Some it' \<and> it_node it' \<in> insert 0 (set (addrs t))"
    using upper_loop_ends [OF assms(1), of 0 "it_cmp it" key] assms(4) by (auto simp: mtree_upper_bound_def)
  show "\<exists>b it'. mtree_lookup h m key it = Some (b, it') \<and> it_node it' \<in> insert 0 (set (addrs t))"
    using lookup_ends assms(1,4) by blast
  let ?nn = "rb_node.more_update (\<lambda>_. (key, val)) junk"
  let ?h1 = "h(new \<mapsto> ?nn)"
  have "new \<notin> set (addrs t)" using assms(7) tree_at_Some [OF assms(1), of new] by auto
  then show "\<exists>m' h' t'. mtree_add m key val (new, junk) h = Some (Inr (), m', h') \<and> mt_root m' = rootp t' \<and>
       tree_at h' 0 t' \<and> distinct (addrs t') \<and> rbt t'"
    using insert_ends [of new "[]" t ?h1 ?nn "mt_cmp m"] assms
    by (auto simp: mtree_add_def mtree_node_create_def)
  show "\<exists>m' h'. mtree_release m h = Some (m', h')"
    using mtree_release_nodes_at [OF assms(1,2)] assms(4) by (simp add: mtree_release_def)
qed

text \<open>A comparison that finds every key above every other.\<close>

theorem mtree_ends_witness:
  "\<exists>m' h' t'. mtree_add (demo_mtree\<lparr>mt_cmp := \<lambda>_ _. 1\<rparr>) (demo_key 9) [3] (48, mk_node 1 2 3 Black ([], [])) demo_mheap =
      Some (Inr (), m', h') \<and> mt_root m' = rootp t' \<and> tree_at h' 0 t' \<and> rbt t'"
proof -
  have new: "(48 :: ptr) \<noteq> 0" "aligned 48" "demo_mheap 48 = None" by (simp_all add: aligned_even demo_mheap_def)
  have t: "tree_at demo_mheap 0 demo_tree" "distinct (addrs demo_tree)" "rbt demo_tree"
    "mt_root (demo_mtree\<lparr>mt_cmp := \<lambda>_ _. 1\<rparr>) = rootp demo_tree"
    using demo_mtree_inv by (simp_all add: mtree_inv_def)
  from mtree_ends [OF t new, THEN conjunct2, THEN conjunct2, THEN conjunct2, THEN conjunct1] show ?thesis by blast
qed

end
