(* ===== verification/TestSupport.thy ===== *)
theory TestSupport
  imports Io FileWrappers
begin

text \<open>
  The device and the allocator the repository's tests run the library on
  (\<open>test/ctree_test.c\<close>, \<open>test/lsm_test.c\<close>): a file, read and written with the wrappers of
  \<open>lib/file_wrappers.c\<close>, and an allocator that hands out consecutive pages. They satisfy the
  contracts of \<open>Io\<close>.
\<close>

section \<open>The file device\<close>

definition test_read :: "vfile \<Rightarrow> nat \<Rightarrow> nat \<Rightarrow> (errno + byte list) \<times> vfile" where
  "test_read f n offs = file_read_at f n offs"

definition test_write :: "vfile \<Rightarrow> byte list \<Rightarrow> nat \<Rightarrow> (errno + unit) \<times> vfile" where
  "test_write f buf offs = file_write_at f buf offs"

definition test_sync :: "vfile \<Rightarrow> (errno + unit) \<times> vfile" where
  "test_sync f = (Inr (), f)"

definition test_io :: "vfile io" where
  "test_io = \<lparr>ops = \<lparr>op_read = test_read, op_write = Some test_write, op_sync = Some test_sync\<rparr>,
     page_size = 4096\<rparr>"

definition test_good :: "vfile \<Rightarrow> bool" where
  "test_good f \<longleftrightarrow> script f = []"

text \<open>The device has \<open>2\<^sup>5\<^sup>1\<close> pages, as many as fit the offsets of \<open>pread\<close>.\<close>

definition test_limit :: nat where
  "test_limit = 2 ^ 51"

definition test_stored :: "vfile \<Rightarrow> nat \<Rightarrow> byte list \<Rightarrow> bool" where
  "test_stored f off bs \<longleftrightarrow> off * 4096 + length bs \<le> length (content f) \<and>
     off * 4096 + length bs \<le> 2 ^ 63 \<and> buf_get (content f) (off * 4096) (length bs) = bs"

lemma page_size_test [simp]: "page_size test_io = 4096"
  by (simp add: test_io_def)

lemma page_ok_test: "page_ok test_io"
  unfolding page_ok_def by (rule exI [of _ 12]) simp

lemma test_read_stored:
  assumes "test_good d" and "test_stored d off bs" and "length bs = sz * page_size test_io"
  shows "io_read test_io d sz off = (Inr bs, d)"
proof -
  have "off * 4096 + sz * 4096 \<le> 2 ^ 63" using assms(2,3) by (simp add: test_stored_def)
  then show ?thesis using assms
    by (simp add: io_read_def test_io_def test_read_def file_read_at_ok test_good_def test_stored_def buf_get_def)
qed

lemma test_write_stores:
  assumes "test_good d" and "off + sz \<le> test_limit" and "sz * page_size test_io \<le> length buf"
  shows "\<exists>d'. io_write test_io d buf sz off = Some (Inr (), d') \<and> test_good d' \<and>
    content d' = file_put (content d) (off * 4096) (take (sz * 4096) buf)"
proof -
  have "off * 4096 + sz * 4096 \<le> 2 ^ 63" using assms(2) by (simp add: test_limit_def)
  then show ?thesis using assms file_write_at_ok [of d "take (sz * 4096) buf" "off * 4096"]
    by (auto simp: io_write_def test_io_def test_write_def test_good_def Let_def)
qed

lemma extent_disjoint_nat:
  "extent o' n \<inter> extent off sz = {} \<Longrightarrow> n = 0 \<or> sz = 0 \<or> o' + n \<le> off \<or> off + sz \<le> o'"
  by (auto simp: extent_def)

lemma test_stored_put:
  assumes "test_stored d o' bs'" and "length bs' = n * 4096" and "extent o' n \<inter> extent off sz = {}"
    and "sz * 4096 = length bs" and c: "content d' = file_put (content d) (off * 4096) bs"
  shows "test_stored d' o' bs'"
proof -
  have "bs = [] \<or> bs' = [] \<or> o' * 4096 + length bs' \<le> off * 4096 \<or> off * 4096 + length bs \<le> o' * 4096"
    using extent_disjoint_nat [OF assms(3)] assms(2,4) by auto
  moreover have "o' * 4096 + length bs' \<le> length (content d)" using assms(1) by (simp add: test_stored_def)
  ultimately have "take (length bs') (drop (o' * 4096) (content d')) = take (length bs') (drop (o' * 4096) (content d))"
    unfolding c using file_put_get_disjoint [of "o' * 4096" "length bs'" "off * 4096" bs "content d"] by auto
  moreover have "length (content d) \<le> length (content d')"
    unfolding c by (cases "bs = []") (simp_all add: length_file_put)
  ultimately show ?thesis using assms(1) by (auto simp: test_stored_def buf_get_def)
qed

interpretation test_device: page_device test_io test_good test_stored test_limit
proof
  show "page_ok test_io" by (rule page_ok_test)
  show "test_limit * page_size test_io \<le> 2 ^ 63" by (simp add: test_limit_def)
next
  fix d off bs sz
  assume "test_good d" "test_stored d off bs" "length bs = sz * page_size test_io"
  then show "\<exists>d'. io_read test_io d sz off = (Inr bs, d') \<and> test_good d' \<and>
      (\<forall>o' bs'. test_stored d o' bs' \<longrightarrow> test_stored d' o' bs')"
    using test_read_stored by blast
next
  fix d off sz and buf :: "byte list"
  assume g: "test_good d" and sz: "0 < sz" and l: "off + sz \<le> test_limit" and b: "sz * page_size test_io \<le> length buf"
  let ?bs = "take (sz * 4096) buf"
  obtain d' where d': "io_write test_io d buf sz off = Some (Inr (), d')" "test_good d'"
      "content d' = file_put (content d) (off * 4096) ?bs"
    using test_write_stores [OF g l b] by blast
  have len: "length ?bs = sz * 4096" using b by simp
  have "test_stored d' off ?bs"
    using file_put_get [of ?bs "off * 4096" "content d"] l d'(3) len sz
    by (cases "?bs = []") (auto simp: test_stored_def test_limit_def length_file_put buf_get_def)
  then show "\<exists>r d'. io_write test_io d buf sz off = Some (r, d') \<and> test_good d' \<and>
      (r = Inr () \<longrightarrow> test_stored d' off (take (sz * page_size test_io) buf)) \<and>
      (\<forall>o' n bs'. test_stored d o' bs' \<and> length bs' = n * page_size test_io \<and>
         extent o' n \<inter> extent off sz = {} \<longrightarrow> test_stored d' o' bs')"
    using d' test_stored_put [of d _ _ _ off sz ?bs d'] len by auto
qed

section \<open>The allocator\<close>

text \<open>The allocator of the tests never fails, and its offset wraps at 64 bits.\<close>

definition test_reserve :: "nat \<Rightarrow> nat \<Rightarrow> (errno + nat) \<times> nat" where
  "test_reserve a sz = (Inr a, wrap64 (a + sz))"

definition test_persist :: "nat \<Rightarrow> nat \<Rightarrow> nat \<Rightarrow> (errno + unit) \<times> nat" where
  "test_persist a sz offs = (Inr (), a)"

definition test_cancel :: "nat \<Rightarrow> nat \<Rightarrow> nat \<Rightarrow> (errno + unit) \<times> nat" where
  "test_cancel a sz offs = (Inr (), a)"

definition test_free :: "nat \<Rightarrow> nat \<Rightarrow> nat \<Rightarrow> (errno + unit) \<times> nat" where
  "test_free a sz offs = (Inr (), a)"

definition test_alloc :: "nat alloc_ops" where
  "test_alloc = \<lparr>op_reserve = test_reserve, op_cancel = test_cancel, op_commit = test_persist, op_free = test_free\<rparr>"

text \<open>Without a bound it does not keep the contract: it hands out pages behind the end of any device, and pages in use
  once its offset has wrapped. The same allocator on a volume of a given number of pages, where a reservation past
  the end fails, does; it is no part of the tests. As long as it does not fail it agrees with theirs.\<close>

definition volume_reserve :: "nat \<Rightarrow> nat \<Rightarrow> nat \<Rightarrow> (errno + nat) \<times> nat" where
  "volume_reserve pages a sz = (if a + sz \<le> pages then test_reserve a sz else (Inl (Errno 28), a))"

definition volume_alloc :: "nat alloc_ops" where
  "volume_alloc = test_alloc\<lparr>op_reserve := volume_reserve test_limit\<rparr>"

definition test_used :: "nat \<Rightarrow> nat set" where
  "test_used a = {..<a}"

interpretation test_allocator: page_allocator volume_alloc test_used test_limit
  by unfold_locales
     (auto simp: alloc_reserve_def volume_alloc_def test_alloc_def volume_reserve_def test_reserve_def test_used_def
        extent_def test_limit_def alloc_cancel_def test_cancel_def split: if_splits)

lemma volume_extends: "alloc_extends volume_alloc test_alloc"
  by (auto simp: alloc_extends_def alloc_reserve_def volume_alloc_def test_alloc_def volume_reserve_def split: if_splits)

end
