(* ===== verification/CtreeNode.thy ===== *)
theory CtreeNode
  imports Layout Crc64 Io KeyOrder TestSupport
begin

text \<open>
  The nodes of the disk trees (first part of \<open>lib/ctree.c\<close>, \<open>inc/aulsmfs.h\<close>): a buffer
  with the packed entries and an array that says where each entry's key and value are. The
  buffer is the block that \<open>malloc\<close> returned, so \<open>max_bytes\<close> is its length; the entry
  array's length is \<open>max_entries\<close>. Reading or writing past either is \<open>None\<close>.
\<close>

section \<open>Data\<close>

record ctree_entry =
  ce_key_offs :: nat
  ce_key_size :: nat
  ce_val_offs :: nat
  ce_val_size :: nat

record ctree_node =
  nd_buf :: "byte list"
  nd_bytes :: nat
  nd_entry :: "ctree_entry list"
  nd_entries :: nat
  nd_ptr :: aulsmfs_ptr
  nd_level :: int

definition MIN_FANOUT :: nat where
  "MIN_FANOUT = 100"

definition header_size :: nat where
  "header_size = 16"

definition nentry_size :: nat where
  "nentry_size = 4"

definition entry_null :: ctree_entry where
  "entry_null = \<lparr>ce_key_offs = 0, ce_key_size = 0, ce_val_offs = 0, ce_val_size = 0\<rparr>"

definition ctree_node_zero :: ctree_node where
  "ctree_node_zero = \<lparr>nd_buf = [], nd_bytes = 0, nd_entry = [], nd_entries = 0, nd_ptr = ptr_null,
     nd_level = 0\<rparr>"

section \<open>Making a node\<close>

text \<open>The buffer's content is undefined until the node is reset; zeros stand for it.\<close>

definition ctree_node_alloc ::
    "'d io \<Rightarrow> nat \<Rightarrow> nat \<Rightarrow> mem \<Rightarrow> ((errno + unit) \<times> ctree_node \<times> mem) option" where
  "ctree_node_alloc io sz count m =
     (if io_align io sz \<noteq> sz then None
      else Some (case mem_alloc m of
        (False, m) \<Rightarrow> (Inl ENOMEM, ctree_node_zero, m)
      | (True, m) \<Rightarrow>
          (case mem_alloc m of
             (False, m) \<Rightarrow> (Inl ENOMEM, ctree_node_zero, m)
           | (True, m) \<Rightarrow> (Inr (), ctree_node_zero\<lparr>nd_buf := replicate sz 0,
                 nd_entry := replicate count entry_null\<rparr>, m))))"

definition ctree_node_reset :: "ctree_node \<Rightarrow> ctree_node option" where
  "ctree_node_reset node =
     (if length (nd_buf node) < header_size then None
      else Some (node\<lparr>nd_entry := replicate (length (nd_entry node)) entry_null, nd_entries := 0,
        nd_buf := replicate (length (nd_buf node)) 0, nd_bytes := header_size\<rparr>))"

definition ctree_node_setup :: "'d io \<Rightarrow> mem \<Rightarrow> ((errno + unit) \<times> ctree_node \<times> mem) option" where
  "ctree_node_setup io m = do {
     (rc, node, m) \<leftarrow> ctree_node_alloc io (io_align io 4096) MIN_FANOUT m;
     (case rc of
        Inl e \<Rightarrow> Some (Inl e, node, m)
      | Inr _ \<Rightarrow> do {
          node \<leftarrow> ctree_node_reset node;
          Some (Inr (), node, m) }) }"

definition ctree_node_release :: "ctree_node \<Rightarrow> ctree_node" where
  "ctree_node_release node = ctree_node_zero"

text \<open>\<open>ctree_node_create\<close> does not check the result of \<open>malloc\<close> before it clears the node:
  where the request fails it writes through NULL.\<close>

definition ctree_node_create :: "mem \<Rightarrow> (ctree_node \<times> mem) option" where
  "ctree_node_create m = (case mem_alloc m of (ok, m) \<Rightarrow> if ok then Some (ctree_node_zero, m) else None)"

section \<open>Parsing\<close>

text \<open>\<open>realloc\<close> leaves the new cells of the entry array undefined; every cell is written
  before \<open>entries\<close> reaches it, and zeros stand for the rest.\<close>

definition grow_entries :: "ctree_entry list \<Rightarrow> nat \<Rightarrow> ctree_entry list" where
  "grow_entries arr n = take n arr @ replicate (n - length arr) entry_null"

definition ctree_grow :: "nat \<Rightarrow> ctree_entry list \<Rightarrow> mem \<Rightarrow> ctree_entry list option \<times> mem" where
  "ctree_grow cnt arr m =
     (if cnt = length arr then
        (case mem_alloc m of (ok, m) \<Rightarrow>
           if ok then (Some (grow_entries arr (if length arr \<noteq> 0 then length arr * 2 else MIN_FANOUT)), m)
           else (None, m))
      else (Some arr, m))"

text \<open>A read of \<open>n\<close> bytes at an offset of a buffer: \<open>None\<close> if it leaves the buffer.\<close>

definition buf_slice :: "byte list \<Rightarrow> nat \<Rightarrow> nat \<Rightarrow> byte list option" where
  "buf_slice buf offs n = (if offs + n \<le> length buf then Some (buf_get buf offs n) else None)"

text \<open>The loop over the entries. Copying the header of an entry from outside the buffer is \<open>None\<close>, as is
  storing behind the end of the entry array.\<close>

function ctree_parse_loop ::
    "mem \<Rightarrow> byte list \<Rightarrow> nat \<Rightarrow> nat \<Rightarrow> nat \<Rightarrow> ctree_entry list \<Rightarrow>
     ((errno + unit) \<times> nat \<times> ctree_entry list \<times> mem) option" where
  "ctree_parse_loop m buf bytes offs cnt arr =
     (if offs = bytes then Some (Inr (), cnt, arr, m)
      else if bytes < offs + nentry_size then Some (Inl EIO, cnt, arr, m)
      else
        (case buf_slice buf offs nentry_size of
           None \<Rightarrow> None
         | Some entry \<Rightarrow>
             (let key_size = unat (le16_dec (take 2 entry));
                  val_size = unat (le16_dec (drop 2 entry))
              in if bytes < offs + nentry_size + key_size + val_size then Some (Inl EIO, cnt, arr, m)
                 else
                   (case ctree_grow cnt arr m of
                      (None, m) \<Rightarrow> Some (Inl ENOMEM, cnt, arr, m)
                    | (Some arr, m) \<Rightarrow>
                        if length arr \<le> cnt then None
                        else ctree_parse_loop m buf bytes (offs + nentry_size + key_size + val_size) (Suc cnt)
                          (arr[cnt := \<lparr>ce_key_offs = offs + nentry_size, ce_key_size = key_size,
                             ce_val_offs = offs + nentry_size + key_size, ce_val_size = val_size\<rparr>])))))"
  by pat_completeness auto
termination
  by (relation "measure (\<lambda>(m, buf, bytes, offs, cnt, arr). bytes - offs)") (auto simp: nentry_size_def)

declare ctree_parse_loop.simps [simp del]

text \<open>The level is stored at 64 bits and read into an \<open>int\<close>.\<close>

definition int_of_u64 :: "u64 \<Rightarrow> int" where
  "int_of_u64 w = sint (ucast w :: 32 word)"

definition ctree_node_parse ::
    "'d io \<Rightarrow> ctree_node \<Rightarrow> mem \<Rightarrow> ((errno + unit) \<times> ctree_node \<times> mem) option" where
  "ctree_node_parse io node m =
     (let buf = nd_buf node in
      if length buf < header_size then None
      else
        (let level = int_of_u64 (le64_dec (buf_get buf 8 8));
             bytes = unat (le64_dec (buf_get buf 0 8));
             pages = unat (ptr_size (nd_ptr node))
         in if bytes > io_bytes io pages then Some (Inl EIO, node, m)
            else if level \<noteq> nd_level node then Some (Inl EIO, node, m)
            else do {
              (rc, cnt, arr, m) \<leftarrow> ctree_parse_loop m buf bytes header_size (nd_entries node) (nd_entry node);
              Some (rc, node\<lparr>nd_entries := cnt, nd_entry := arr\<rparr>, m) }))"

text \<open>
  Reading a node: what the device does not fill of the buffer keeps the undefined content of
  the block (zeros stand for it). On an error the caller destroys the node.
\<close>

definition ctree_node_read ::
    "'d io \<Rightarrow> 'd \<Rightarrow> aulsmfs_ptr \<Rightarrow> int \<Rightarrow> mem \<Rightarrow> ((errno + ctree_node) \<times> 'd \<times> mem) option" where
  "ctree_node_read io d ptr level m =
     (let pages = unat (ptr_size ptr); buf_size = io_bytes io pages in
      case mem_alloc m of
        (False, m) \<Rightarrow> Some (Inl ENOMEM, d, m)
      | (True, m) \<Rightarrow>
          (case io_read io d pages (unat (ptr_offs ptr)) of
             (Inl e, d) \<Rightarrow> Some (Inl e, d, m)
           | (Inr bs, d) \<Rightarrow>
               if buf_size < length bs then None
               else (let buf = bs @ replicate (buf_size - length bs) 0 in
                 if crc64 buf \<noteq> ptr_csum ptr then Some (Inl EIO, d, m)
                 else do {
                   (rc, node, m) \<leftarrow> ctree_node_parse io
                     (ctree_node_zero\<lparr>nd_buf := buf, nd_ptr := ptr, nd_level := level\<rparr>) m;
                   Some (case rc of Inl e \<Rightarrow> Inl e | Inr _ \<Rightarrow> Inr node, d, m) })))"

section \<open>The entries of a node\<close>

text \<open>An entry that is not there, or that is not inside the buffer, is \<open>None\<close>.\<close>

definition ctree_node_key :: "ctree_node \<Rightarrow> nat \<Rightarrow> lsm_key option" where
  "ctree_node_key node pos =
     (if pos < nd_entries node \<and> pos < length (nd_entry node)
      then buf_slice (nd_buf node) (ce_key_offs (nd_entry node ! pos)) (ce_key_size (nd_entry node ! pos))
      else None)"

definition ctree_node_val :: "ctree_node \<Rightarrow> nat \<Rightarrow> lsm_val option" where
  "ctree_node_val node pos =
     (if pos < nd_entries node \<and> pos < length (nd_entry node)
      then buf_slice (nd_buf node) (ce_val_offs (nd_entry node ! pos)) (ce_val_size (nd_entry node ! pos))
      else None)"

section \<open>Appending and writing\<close>

definition ctree_node_can_append :: "'d io \<Rightarrow> ctree_node \<Rightarrow> nat \<Rightarrow> nat \<Rightarrow> bool" where
  "ctree_node_can_append io node count sz =
     (let bytes = count * nentry_size + sz in
      nd_entries node + count \<le> MIN_FANOUT \<or> io_pages io (nd_bytes node + bytes) = io_pages io (nd_bytes node))"

definition ctree_ensure_entries ::
    "'d io \<Rightarrow> ctree_node \<Rightarrow> nat \<Rightarrow> nat \<Rightarrow> mem \<Rightarrow> (errno + unit) \<times> ctree_node \<times> mem" where
  "ctree_ensure_entries io node count sz m =
     (let entries = nd_entries node + count;
          bytes = io_bytes io (io_pages io (nd_bytes node + sz));
          prev = length (nd_entry node);
          (r1, node, m) =
            (if prev < entries then
               (case mem_alloc m of
                  (False, m) \<Rightarrow> (Inl ENOMEM, node, m)
                | (True, m) \<Rightarrow>
                    (let next_entries = (if prev * 2 < entries then prev * 2 else entries) in
                     (Inr (), node\<lparr>nd_entry := grow_entries (nd_entry node) next_entries\<rparr>, m)))
             else (Inr (), node, m))
      in case r1 of
           Inl e \<Rightarrow> (Inl e, node, m)
         | Inr _ \<Rightarrow>
             (let prev = length (nd_buf node) in
              if prev < bytes then
                (case mem_alloc m of
                   (False, m) \<Rightarrow> (Inl ENOMEM, node, m)
                 | (True, m) \<Rightarrow>
                     (let next_bytes = (if prev * 2 < bytes then prev * 2 else bytes) in
                      (Inr (), node\<lparr>nd_buf := nd_buf node @ replicate (next_bytes - prev) 0\<rparr>, m)))
              else (Inr (), node, m)))"

text \<open>The sizes are stored at 16 bits; the block is overrun if the buffer or the entry
  array is too small for the new entry.\<close>

definition ctree_node_append ::
    "'d io \<Rightarrow> ctree_node \<Rightarrow> lsm_key \<Rightarrow> lsm_val \<Rightarrow> mem \<Rightarrow> ((errno + unit) \<times> ctree_node \<times> mem) option" where
  "ctree_node_append io node key val m =
     (let sz = length key + length val + nentry_size in
      case ctree_ensure_entries io node 1 sz m of
        (Inl e, node, m) \<Rightarrow> Some (Inl e, node, m)
      | (Inr _, node, m) \<Rightarrow>
          if length (nd_buf node) < nd_bytes node + sz \<or> length (nd_entry node) \<le> nd_entries node then None
          else
            (let offs = nd_bytes node;
                 buf = buf_put (nd_buf node) offs
                   (le16_enc (word_of_nat (length key)) @ le16_enc (word_of_nat (length val)));
                 buf = buf_put buf (offs + nentry_size) key;
                 buf = buf_put buf (offs + nentry_size + length key) val;
                 centry = \<lparr>ce_key_offs = offs + nentry_size, ce_key_size = length key,
                   ce_val_offs = offs + nentry_size + length key, ce_val_size = length val\<rparr>
             in Some (Inr (), node\<lparr>nd_buf := buf, nd_entry := (nd_entry node)[nd_entries node := centry],
                  nd_bytes := offs + sz, nd_entries := Suc (nd_entries node)\<rparr>, m)))"

definition ctree_node_write ::
    "'d io \<Rightarrow> 'd \<Rightarrow> ctree_node \<Rightarrow> nat \<Rightarrow> int \<Rightarrow> ((errno + unit) \<times> ctree_node \<times> 'd) option" where
  "ctree_node_write io d node offs level =
     (let sz = io_pages io (nd_bytes node) in
      if length (nd_buf node) < header_size then None
      else
        (let buf = buf_put (nd_buf node) 0
               (le64_enc (word_of_nat (nd_bytes node)) @ le64_enc (word_of_int level));
             node = node\<lparr>nd_buf := buf\<rparr>
         in do {
           (rc, d) \<leftarrow> io_write io d buf sz offs;
           (case rc of
              Inl e \<Rightarrow> Some (Inl e, node, d)
            | Inr _ \<Rightarrow>
                if length buf < io_bytes io sz then None
                else Some (Inr (), node\<lparr>nd_ptr := \<lparr>ptr_offs = word_of_nat offs, ptr_size = word_of_nat sz,
                     ptr_csum = crc64 (take (io_bytes io sz) buf)\<rparr>, nd_level := level\<rparr>, d)) }))"

end
