(* ===== verification/CtreeLayout.thy ===== *)
theory CtreeLayout
  imports CtreeNode
begin

text \<open>
  What a node's buffer and entry array hold, as a list of entries: the packed format, the
  parser on that format and on arbitrary bytes, appending, and a node written to a device
  and read back.
\<close>

section \<open>The packed format\<close>

definition entry_enc :: "kv \<Rightarrow> byte list" where
  "entry_enc e = le16_enc (word_of_nat (length (fst e))) @ le16_enc (word_of_nat (length (snd e))) @ fst e @ snd e"

definition entries_enc :: "kv list \<Rightarrow> byte list" where
  "entries_enc es = concat (map entry_enc es)"

fun layout :: "nat \<Rightarrow> kv list \<Rightarrow> ctree_entry list" where
  "layout offs [] = []"
| "layout offs ((k, v) # es) =
     \<lparr>ce_key_offs = offs + 4, ce_key_size = length k, ce_val_offs = offs + 4 + length k,
      ce_val_size = length v\<rparr> # layout (offs + 4 + length k + length v) es"

text \<open>Sizes that fit their 16 bit fields.\<close>

definition entry_fits :: "kv \<Rightarrow> bool" where
  "entry_fits e \<longleftrightarrow> length (fst e) < 2 ^ 16 \<and> length (snd e) < 2 ^ 16"

definition node_bytes :: "kv list \<Rightarrow> nat" where
  "node_bytes es = 16 + length (entries_enc es)"

lemma length_entry_enc [simp]: "length (entry_enc e) = 4 + length (fst e) + length (snd e)"
  by (simp add: entry_enc_def)

lemma entries_enc_simps [simp]:
  "entries_enc [] = []" "entries_enc (e # es) = entry_enc e @ entries_enc es"
  "entries_enc (es @ fs) = entries_enc es @ entries_enc fs"
  by (simp_all add: entries_enc_def)

lemma length_layout [simp]: "length (layout offs es) = length es"
  by (induction offs es rule: layout.induct) auto

lemma layout_append: "layout offs (es @ fs) = layout offs es @ layout (offs + length (entries_enc es)) fs"
  by (induction offs es rule: layout.induct) (auto simp: add.assoc)

lemma buf_get_app: "n = length pre \<Longrightarrow> m = length xs \<Longrightarrow> buf_get (pre @ xs @ post) n m = xs"
  by (simp add: buf_get_def)

lemma buf_get_app_end: "n = length pre \<Longrightarrow> m = length xs \<Longrightarrow> buf_get (pre @ xs) n m = xs"
  by (simp add: buf_get_def)

lemma layout_nth:
  "i < length es \<Longrightarrow> length pre = offs \<Longrightarrow>
   buf_slice (pre @ entries_enc es @ post) (ce_key_offs (layout offs es ! i)) (ce_key_size (layout offs es ! i)) = Some (fst (es ! i)) \<and>
   buf_slice (pre @ entries_enc es @ post) (ce_val_offs (layout offs es ! i)) (ce_val_size (layout offs es ! i)) = Some (snd (es ! i))"
proof (induction offs es arbitrary: i pre rule: layout.induct)
  case (1 offs)
  then show ?case by simp
next
  case (2 offs k v es)
  show ?case
  proof (cases i)
    case 0
    have "buf_get (pre @ entry_enc (k, v) @ entries_enc es @ post) (offs + 4) (length k) = k"
      using buf_get_app [of "offs + 4" "pre @ le16_enc (word_of_nat (length k)) @ le16_enc (word_of_nat (length v))"
          "length k" k "v @ entries_enc es @ post"] 2(3) by (simp add: entry_enc_def)
    moreover have "buf_get (pre @ entry_enc (k, v) @ entries_enc es @ post) (offs + 4 + length k) (length v) = v"
      using buf_get_app [of "offs + 4 + length k" "pre @ le16_enc (word_of_nat (length k)) @ le16_enc (word_of_nat (length v)) @ k"
          "length v" v "entries_enc es @ post"] 2(3) by (simp add: entry_enc_def)
    ultimately show ?thesis using 0 2(3) by (simp add: buf_slice_def)
  next
    case (Suc j)
    have "length (pre @ entry_enc (k, v)) = offs + 4 + length k + length v" using 2(3) by simp
    from 2(1) [OF _ this, of j] show ?thesis using Suc 2(2) by simp
  qed
qed

section \<open>Parsing what was packed\<close>

lemma unat_le16_len [simp]: "n < 2 ^ 16 \<Longrightarrow> unat (word_of_nat n :: 16 word) = n"
  by (simp add: unat_of_nat)

lemma grow_entries_props:
  "length arr \<le> n \<Longrightarrow> length (grow_entries arr n) = n"
  "length arr \<le> n \<Longrightarrow> take (length arr) (grow_entries arr n) = arr"
  by (auto simp: grow_entries_def)

text \<open>Making room for one more entry fails or leaves the entries that are there.\<close>

lemma ctree_grow_room:
  assumes "cnt \<le> length arr" and "ctree_grow cnt arr m = (r, m')"
  shows "(r = None \<or> (\<exists>arr'. r = Some arr' \<and> cnt < length arr' \<and> take cnt arr' = take cnt arr)) \<and>
    (m = [] \<longrightarrow> r \<noteq> None \<and> m' = [])"
proof (cases "cnt = length arr")
  case True
  define n where "n = (if length arr \<noteq> 0 then length arr * 2 else MIN_FANOUT)"
  have "length arr < n" by (simp add: n_def MIN_FANOUT_def)
  then have g: "cnt < length (grow_entries arr n)" "take cnt (grow_entries arr n) = take cnt arr"
    using grow_entries_props [of arr n] True by simp_all
  obtain ok m1 where m: "mem_alloc m = (ok, m1)" by fastforce
  have "(r, m') = (if ok then (Some (grow_entries arr n), m1) else (None, m1))"
    by (cases ok) (use assms(2) True m in \<open>auto simp: ctree_grow_def n_def\<close>)
  then show ?thesis using g m by (cases ok) (auto simp: mem_alloc_def split: list.splits)
next
  case False
  then show ?thesis using assms by (auto simp: ctree_grow_def)
qed

lemma entry_head:
  assumes "entry_fits e"
  shows "\<exists>head. buf_slice (pre @ entry_enc e @ post) (length pre) nentry_size = Some head \<and>
    unat (le16_dec (take 2 head)) = length (fst e) \<and> unat (le16_dec (drop 2 head)) = length (snd e)"
proof -
  let ?a = "le16_enc (word_of_nat (length (fst e)))" and ?b = "le16_enc (word_of_nat (length (snd e)))"
  have "buf_get (pre @ (?a @ ?b) @ (fst e @ snd e @ post)) (length pre) nentry_size = ?a @ ?b"
    by (rule buf_get_app) (simp_all add: nentry_size_def)
  then have "buf_slice (pre @ entry_enc e @ post) (length pre) nentry_size = Some (?a @ ?b)"
    by (simp add: buf_slice_def entry_enc_def nentry_size_def)
  moreover have "unat (le16_dec ?a) = length (fst e)" "unat (le16_dec ?b) = length (snd e)"
    using assms by (simp_all only: le16_dec_enc unat_le16_len entry_fits_def)
  ultimately show ?thesis by simp
qed

lemma parse_loop_layout:
  "cnt \<le> length arr \<Longrightarrow> \<forall>e \<in> set es. entry_fits e \<Longrightarrow>
   \<exists>rc cnt' arr' m'. ctree_parse_loop m (pre @ entries_enc es @ post) (length pre + length (entries_enc es))
       (length pre) cnt arr = Some (rc, cnt', arr', m') \<and>
     (rc = Inl ENOMEM \<or> rc = Inr () \<and> cnt' = cnt + length es \<and> cnt' \<le> length arr' \<and>
        take cnt' arr' = take cnt arr @ layout (length pre) es) \<and>
     (m = [] \<longrightarrow> rc = Inr () \<and> m' = [])"
proof (induction es arbitrary: pre cnt arr m)
  case Nil
  then show ?case by (simp add: ctree_parse_loop.simps)
next
  case (Cons e es)
  obtain k v where e: "e = (k, v)" by (cases e)
  let ?buf = "pre @ entries_enc (e # es) @ post" and ?bytes = "length pre + length (entries_enc (e # es))"
  let ?pre = "pre @ entry_enc e"
  have fit: "entry_fits e" using Cons.prems(2) by simp
  obtain head where sizes: "buf_slice ?buf (length pre) nentry_size = Some head"
      "unat (le16_dec (take 2 head)) = length k" "unat (le16_dec (drop 2 head)) = length v"
    using entry_head [OF fit, of pre "entries_enc es @ post"] e by auto
  obtain r m1 where g: "ctree_grow cnt arr m = (r, m1)" by fastforce
  note room = ctree_grow_room [OF Cons.prems(1) g]
  have lens: "length pre \<noteq> ?bytes" "\<not> ?bytes < length pre + nentry_size"
      "\<not> ?bytes < length pre + nentry_size + length k + length v"
    using e by (auto simp: nentry_size_def)
  show ?case
  proof (cases r)
    case None
    then have "ctree_parse_loop m ?buf ?bytes (length pre) cnt arr = Some (Inl ENOMEM, cnt, arr, m1)"
      using g lens sizes by (subst ctree_parse_loop.simps) (simp only: Let_def if_False sizes option.case prod.case)
    then show ?thesis using None room by auto
  next
    case (Some arr1)
    let ?c = "\<lparr>ce_key_offs = length pre + nentry_size, ce_key_size = length k,
       ce_val_offs = length pre + nentry_size + length k, ce_val_size = length v\<rparr>"
    let ?arr = "arr1[cnt := ?c]"
    have a1: "cnt < length arr1" "take cnt arr1 = take cnt arr" using room Some by auto
    then have in_arr: "\<not> length arr1 \<le> cnt" by simp
    have step: "ctree_parse_loop m ?buf ?bytes (length pre) cnt arr =
        ctree_parse_loop m1 ?buf ?bytes (length pre + nentry_size + length k + length v) (Suc cnt) ?arr"
      using g lens sizes Some in_arr
      by (subst ctree_parse_loop.simps) (simp only: Let_def if_False sizes option.case prod.case)
    have args: "?buf = ?pre @ entries_enc es @ post" "?bytes = length ?pre + length (entries_enc es)"
        "length pre + nentry_size + length k + length v = length ?pre"
      using e by (simp_all add: nentry_size_def)
    have "Suc cnt \<le> length ?arr" using a1 by simp
    from Cons.IH [OF this, of m1 ?pre] Cons.prems(2) obtain rc cnt' arr' m' where
      ih: "ctree_parse_loop m1 (?pre @ entries_enc es @ post) (length ?pre + length (entries_enc es))
         (length ?pre) (Suc cnt) ?arr = Some (rc, cnt', arr', m')"
        "rc = Inl ENOMEM \<or> rc = Inr () \<and> cnt' = Suc cnt + length es \<and> cnt' \<le> length arr' \<and>
          take cnt' arr' = take (Suc cnt) ?arr @ layout (length ?pre) es"
        "m1 = [] \<longrightarrow> rc = Inr () \<and> m' = []" by auto
    have "take (Suc cnt) ?arr = take cnt arr @ [?c]"
      using a1 by (simp add: take_Suc_conv_app_nth)
    then have "take (Suc cnt) ?arr @ layout (length ?pre) es = take cnt arr @ layout (length pre) (e # es)"
      using e by (simp add: nentry_size_def add.assoc)
    moreover have "ctree_parse_loop m ?buf ?bytes (length pre) cnt arr = Some (rc, cnt', arr', m')"
      using step ih(1) by (simp only: args)
    ultimately show ?thesis using ih(2,3) room by (intro exI conjI) auto
  qed
qed

section \<open>A node that is being filled\<close>

definition node_rep :: "ctree_node \<Rightarrow> kv list \<Rightarrow> bool" where
  "node_rep node es \<longleftrightarrow>
     (\<exists>hdr z. length hdr = 16 \<and> nd_buf node = hdr @ entries_enc es @ replicate z 0) \<and>
     nd_bytes node = node_bytes es \<and> nd_entries node = length es \<and>
     length es \<le> length (nd_entry node) \<and> take (length es) (nd_entry node) = layout 16 es"

text \<open>The buffer is a whole number of pages, at least the 4096 bytes it starts with; a bound
  on its size keeps the page arithmetic from wrapping.\<close>

definition node_room :: "'d io \<Rightarrow> ctree_node \<Rightarrow> bool" where
  "node_room io node \<longleftrightarrow> page_size io dvd length (nd_buf node) \<and> 4096 \<le> length (nd_buf node) \<and>
     length (nd_buf node) \<le> 2 ^ 62 \<and> 1 \<le> length (nd_entry node)"

text \<open>An entry that a buffer of any size can take.\<close>

definition entry_small :: "kv \<Rightarrow> bool" where
  "entry_small e \<longleftrightarrow> 4 + length (fst e) + length (snd e) \<le> 4096"

lemma entry_small_fits: "entry_small e \<Longrightarrow> entry_fits e"
  by (simp add: entry_small_def entry_fits_def)

lemma node_rep_bytes: "node_rep node es \<Longrightarrow> nd_bytes node \<le> length (nd_buf node)"
  by (auto simp: node_rep_def node_bytes_def)

lemma node_pages_fit:
  assumes "page_ok io" and "node_rep node es" and "node_room io node"
  shows "npages io (node_bytes es) * page_size io \<le> length (nd_buf node)"
proof -
  obtain n where n: "length (nd_buf node) = n * page_size io"
    using assms(3) by (auto simp: node_room_def dvd_def mult.commute)
  have "node_bytes es \<le> n * page_size io"
    using node_rep_bytes [OF assms(2)] assms(2) n by (simp add: node_rep_def)
  then show ?thesis using npages_le_iff [OF assms(1)] n by simp
qed

lemma grown_pages_fit:
  assumes "page_ok io" and "node_rep node es" and "node_room io node" and "sz \<le> 4096"
  shows "npages io (node_bytes es + sz) * page_size io \<le> 2 * length (nd_buf node)"
proof -
  obtain n where n: "length (nd_buf node) = n * page_size io"
    using assms(3) by (auto simp: node_room_def dvd_def mult.commute)
  have "node_bytes es + sz \<le> (2 * n) * page_size io"
    using node_rep_bytes [OF assms(2)] assms n by (simp add: node_rep_def node_room_def)
  then have "npages io (node_bytes es + sz) \<le> 2 * n" using npages_le_iff [OF assms(1)] by blast
  then have "npages io (node_bytes es + sz) * page_size io \<le> (2 * n) * page_size io" by simp
  then show ?thesis using n by simp
qed

lemma node_rep_grow_buf:
  "node_rep node es \<Longrightarrow> node_rep (node\<lparr>nd_buf := nd_buf node @ replicate n 0\<rparr>) es"
  unfolding node_rep_def by (auto simp flip: replicate_add)

lemma node_rep_grow_entry:
  "node_rep node es \<Longrightarrow> length (nd_entry node) \<le> n \<Longrightarrow> node_rep (node\<lparr>nd_entry := grow_entries (nd_entry node) n\<rparr>) es"
  unfolding node_rep_def
  by (auto simp: grow_entries_def min_absorb1)

text \<open>The outcome of a request for memory: done, or refused and nothing lost.\<close>

lemma ensure_entries:
  assumes ok: "page_ok io" and rep: "node_rep node es" and room: "node_room io node" and sz: "sz \<le> 4096"
    and small: "length (nd_buf node) \<le> 2 ^ 61"
    and run: "ctree_ensure_entries io node 1 sz m = (rc, node', m')"
  shows "node_rep node' es \<and> node_room io node' \<and>
    length (nd_buf node') \<le> max (length (nd_buf node)) (npages io (node_bytes es + sz) * page_size io) \<and>
    nd_ptr node' = nd_ptr node \<and> nd_level node' = nd_level node \<and>
    (rc = Inl ENOMEM \<or> rc = Inr () \<and> length es < length (nd_entry node') \<and>
       node_bytes es + sz \<le> length (nd_buf node')) \<and>
    (m = [] \<longrightarrow> rc = Inr () \<and> m' = [])"
proof -
  let ?P = "npages io (node_bytes es + sz) * page_size io"
  have fit: "?P \<le> 2 * length (nd_buf node)" by (rule grown_pages_fit [OF ok rep room sz])
  have ge: "node_bytes es + sz \<le> ?P" by (rule npages_ge [OF ok])
  have nb: "nd_bytes node = node_bytes es" "nd_entries node = length es" "length es \<le> length (nd_entry node)"
    using rep by (auto simp: node_rep_def)
  have "node_bytes es + sz + page_size io \<le> 2 ^ 64"
    using node_rep_bytes [OF rep] nb sz small page_ok_le [OF ok] by simp
  then have pg: "io_bytes io (io_pages io (nd_bytes node + sz)) = ?P"
    using ok nb fit small by (simp add: io_pages_eq io_bytes_eq)
  have one: "1 \<le> length (nd_entry node)" using room by (simp add: node_room_def)
  define n1 where "n1 = (if length (nd_entry node) < Suc (length es)
     then node\<lparr>nd_entry := grow_entries (nd_entry node) (Suc (length es))\<rparr> else node)"
  have n1: "node_rep n1 es" "node_room io n1" "nd_buf n1 = nd_buf node" "length es < length (nd_entry n1)"
      "nd_ptr n1 = nd_ptr node" "nd_level n1 = nd_level node" "nd_bytes n1 = nd_bytes node"
    using rep room node_rep_grow_entry [OF rep, of "Suc (length es)"]
    by (auto simp: n1_def node_room_def grow_entries_def)
  define n2 where "n2 = (if length (nd_buf node) < ?P
     then n1\<lparr>nd_buf := nd_buf n1 @ replicate (?P - length (nd_buf node)) 0\<rparr> else n1)"
  have "page_size io dvd ?P" by simp
  then have n2: "node_rep n2 es" "node_room io n2" "length (nd_buf n2) \<le> max (length (nd_buf node)) ?P"
      "length es < length (nd_entry n2)" "?P \<le> length (nd_buf n2)"
      "nd_ptr n2 = nd_ptr node" "nd_level n2 = nd_level node"
    using n1 fit small node_rep_grow_buf [OF n1(1)] by (auto simp: n2_def node_room_def)
  have two: "\<not> length (nd_entry node) * 2 < Suc (length es)" using one nb(3) by simp
  consider "rc = Inl ENOMEM" "node' = node" "m \<noteq> []" | "rc = Inl ENOMEM" "node' = n1" "m \<noteq> []"
    | "rc = Inr ()" "node' = n2" "m = [] \<longrightarrow> m' = []"
    using run two fit pg nb(2) unfolding ctree_ensure_entries_def
    by (auto simp: n1_def n2_def Let_def mem_alloc_def split: if_splits list.splits bool.splits)
  then show ?thesis using n1 n2 ge rep room by cases auto
qed

lemma append_node:
  assumes ok: "page_ok io" and rep: "node_rep node es" and room: "node_room io node"
    and small: "entry_small (k, v)" "length (nd_buf node) \<le> 2 ^ 61"
  shows "\<exists>rc node' m'. ctree_node_append io node k v m = Some (rc, node', m') \<and> node_room io node' \<and>
    length (nd_buf node') \<le> max (length (nd_buf node)) (npages io (node_bytes (es @ [(k, v)])) * page_size io) \<and>
    nd_ptr node' = nd_ptr node \<and> nd_level node' = nd_level node \<and>
    (rc = Inl ENOMEM \<and> node_rep node' es \<or> rc = Inr () \<and> node_rep node' (es @ [(k, v)])) \<and>
    (m = [] \<longrightarrow> rc = Inr () \<and> m' = [])"
proof -
  let ?sz = "length k + length v + nentry_size"
  obtain rc n m' where en: "ctree_ensure_entries io node 1 ?sz m = (rc, n, m')" by (cases "ctree_ensure_entries io node 1 ?sz m")
  have sz: "?sz \<le> 4096" using small(1) by (simp add: entry_small_def nentry_size_def)
  have nb: "node_bytes (es @ [(k, v)]) = node_bytes es + ?sz" by (simp add: node_bytes_def nentry_size_def)
  note e = ensure_entries [OF ok rep room sz small(2) en, folded nb]
  show ?thesis
  proof (cases rc)
    case (Inl err)
    then show ?thesis using e en by (simp add: ctree_node_append_def Let_def)
  next
    case (Inr u)
    have n: "node_rep n es" "length es < length (nd_entry n)" "node_bytes es + ?sz \<le> length (nd_buf n)"
      using e Inr nb by auto
    obtain hdr z where b: "length hdr = 16" "nd_buf n = hdr @ entries_enc es @ replicate z 0"
      using n(1) by (auto simp: node_rep_def)
    have bytes: "nd_bytes n = node_bytes es" "nd_entries n = length es" using n(1) by (auto simp: node_rep_def)
    let ?h = "le16_enc (word_of_nat (length k)) @ le16_enc (word_of_nat (length v))"
    let ?pre = "hdr @ entries_enc es"
    have z: "z = ?sz + (z - ?sz)" and off: "node_bytes es = length ?pre"
      using n(3) b by (auto simp: node_bytes_def)
    have "replicate z 0 = replicate ?sz (0::byte) @ replicate (z - ?sz) 0"
      by (subst z) (rule replicate_add)
    then have buf: "nd_buf n = ?pre @ replicate ?sz 0 @ replicate (z - ?sz) 0" using b by simp
    have "buf_put (buf_put (buf_put (nd_buf n) (node_bytes es) ?h) (node_bytes es + nentry_size) k)
        (node_bytes es + nentry_size + length k) v = buf_put (nd_buf n) (node_bytes es) (?h @ k @ v)"
      by (rule buf_put_join3) (use n(3) in \<open>simp_all add: nentry_size_def\<close>)
    also have "\<dots> = ?pre @ entry_enc (k, v) @ replicate (z - ?sz) 0"
      unfolding buf off by (subst buf_put_replace) (simp_all add: nentry_size_def entry_enc_def)
    finally have put: "buf_put (buf_put (buf_put (nd_buf n) (node_bytes es) ?h) (node_bytes es + nentry_size) k)
        (node_bytes es + nentry_size + length k) v = ?pre @ entry_enc (k, v) @ replicate (z - ?sz) 0" .
    let ?c = "\<lparr>ce_key_offs = node_bytes es + nentry_size, ce_key_size = length k,
       ce_val_offs = node_bytes es + nentry_size + length k, ce_val_size = length v\<rparr>"
    let ?n = "n\<lparr>nd_buf := ?pre @ entry_enc (k, v) @ replicate (z - ?sz) 0, nd_entry := (nd_entry n)[length es := ?c],
       nd_bytes := node_bytes es + ?sz, nd_entries := Suc (length es)\<rparr>"
    have app: "ctree_node_append io node k v m = Some (Inr (), ?n, m')"
      using en Inr n bytes put by (simp add: ctree_node_append_def Let_def)
    have "take (Suc (length es)) ((nd_entry n)[length es := ?c]) = layout 16 es @ [?c]"
      using n(1,2) by (simp add: take_Suc_conv_app_nth node_rep_def)
    moreover have "layout 16 (es @ [(k, v)]) = layout 16 es @ [?c]"
      by (simp add: layout_append node_bytes_def nentry_size_def add.assoc)
    ultimately have "node_rep ?n (es @ [(k, v)])"
      unfolding node_rep_def using b n(2)
      by (auto simp: node_bytes_def nentry_size_def intro!: exI [of _ hdr])
    moreover have "length (nd_buf ?n) = length (nd_buf n)" using z off b by (simp add: nentry_size_def)
    ultimately show ?thesis using app e Inr by (auto simp: node_room_def)
  qed
qed

section \<open>Parsing any bytes\<close>

text \<open>What a parsed entry array can refer to: bytes inside the node.\<close>

definition entry_inside :: "nat \<Rightarrow> ctree_entry \<Rightarrow> bool" where
  "entry_inside bytes c \<longleftrightarrow> ce_key_offs c + ce_key_size c \<le> ce_val_offs c \<and> ce_val_offs c + ce_val_size c \<le> bytes"

definition entries_inside :: "nat \<Rightarrow> nat \<Rightarrow> ctree_entry list \<Rightarrow> bool" where
  "entries_inside bytes cnt arr \<longleftrightarrow> cnt \<le> length arr \<and> (\<forall>i < cnt. entry_inside bytes (arr ! i))"

lemma entries_inside_cong:
  "entries_inside bytes cnt arr \<Longrightarrow> cnt \<le> length arr' \<Longrightarrow> take cnt arr' = take cnt arr \<Longrightarrow>
   entries_inside bytes cnt arr'"
  unfolding entries_inside_def by (metis nth_take)

lemma entries_inside_add:
  "entries_inside bytes cnt arr \<Longrightarrow> cnt < length arr \<Longrightarrow> entry_inside bytes c \<Longrightarrow>
   entries_inside bytes (Suc cnt) (arr[cnt := c])"
  by (auto simp: entries_inside_def less_Suc_eq)

text \<open>The loop stays inside the buffer and the entry array, whatever the buffer holds.\<close>

lemma parse_loop_inside:
  "bytes \<le> length buf \<Longrightarrow> entries_inside bytes cnt arr \<Longrightarrow>
   \<exists>rc cnt' arr' m'. ctree_parse_loop m buf bytes offs cnt arr = Some (rc, cnt', arr', m') \<and>
     entries_inside bytes cnt' arr' \<and> (rc = Inr () \<or> rc = Inl EIO \<or> rc = Inl ENOMEM)"
proof (induction m buf bytes offs cnt arr rule: ctree_parse_loop.induct)
  case (1 m buf bytes offs cnt arr)
  show ?case
  proof (cases "offs = bytes \<or> bytes < offs + nentry_size")
    case True
    then show ?thesis using "1.prems" by (auto simp: ctree_parse_loop.simps [of m buf bytes offs])
  next
    case False
    then obtain head where h: "buf_slice buf offs nentry_size = Some head" using "1.prems"(1) by (auto simp: buf_slice_def)
    define key_size where "key_size = unat (le16_dec (take 2 head))"
    define val_size where "val_size = unat (le16_dec (drop 2 head))"
    obtain r m1 where g: "ctree_grow cnt arr m = (r, m1)" by fastforce
    have le: "cnt \<le> length arr" using "1.prems"(2) by (simp add: entries_inside_def)
    note room = ctree_grow_room [OF le g]
    have run: "ctree_parse_loop m buf bytes offs cnt arr =
      (if bytes < offs + nentry_size + key_size + val_size then Some (Inl EIO, cnt, arr, m)
       else case r of None \<Rightarrow> Some (Inl ENOMEM, cnt, arr, m1)
         | Some arr \<Rightarrow> if length arr \<le> cnt then None
             else ctree_parse_loop m1 buf bytes (offs + nentry_size + key_size + val_size) (Suc cnt)
               (arr[cnt := \<lparr>ce_key_offs = offs + nentry_size, ce_key_size = key_size,
                  ce_val_offs = offs + nentry_size + key_size, ce_val_size = val_size\<rparr>]))"
      using False h g by (subst ctree_parse_loop.simps) (simp add: Let_def key_size_def val_size_def split: option.split)
    show ?thesis
    proof (cases "bytes < offs + nentry_size + key_size + val_size \<or> r = None")
      case True
      then show ?thesis using run "1.prems"(2) by auto
    next
      case fit: False
      then obtain arr1 where Some: "r = Some arr1" by blast
      let ?c = "\<lparr>ce_key_offs = offs + nentry_size, ce_key_size = key_size,
         ce_val_offs = offs + nentry_size + key_size, ce_val_size = val_size\<rparr>"
      have a1: "entries_inside bytes cnt arr1" "cnt < length arr1"
        using room Some entries_inside_cong [OF "1.prems"(2), of arr1] by auto
      moreover have "entry_inside bytes ?c" using fit by (simp add: entry_inside_def)
      ultimately have "entries_inside bytes (Suc cnt) (arr1[cnt := ?c])" by (rule entries_inside_add)
      from "1.IH" [OF _ _ h key_size_def val_size_def _ g [symmetric] Some _ "1.prems"(1) this] False fit a1(2)
      show ?thesis using run Some by simp
    qed
  qed
qed

section \<open>A node on the device\<close>

text \<open>The pages that a node with given entries is written to, and the pointer to them.\<close>

definition node_pages :: "'d io \<Rightarrow> kv list \<Rightarrow> nat" where
  "node_pages io es = npages io (node_bytes es)"

definition node_img :: "'d io \<Rightarrow> int \<Rightarrow> kv list \<Rightarrow> byte list" where
  "node_img io level es = (le64_enc (word_of_nat (node_bytes es)) @ le64_enc (word_of_int level)) @
     entries_enc es @ replicate (node_pages io es * page_size io - node_bytes es) 0"

definition node_ptr :: "'d io \<Rightarrow> nat \<Rightarrow> int \<Rightarrow> kv list \<Rightarrow> aulsmfs_ptr" where
  "node_ptr io off level es = \<lparr>ptr_offs = word_of_nat off, ptr_size = word_of_nat (node_pages io es),
     ptr_csum = crc64 (node_img io level es)\<rparr>"

text \<open>A node as the iterators see it.\<close>

definition node_view :: "ctree_node \<Rightarrow> kv list \<Rightarrow> bool" where
  "node_view node es \<longleftrightarrow> nd_entries node = length es \<and>
     (\<forall>i < length es. ctree_node_key node i = Some (fst (es ! i)) \<and> ctree_node_val node i = Some (snd (es ! i)))"

lemma length_node_img:
  "page_ok io \<Longrightarrow> length (node_img io level es) = node_pages io es * page_size io"
  using npages_ge [of io "node_bytes es"]
  by (simp add: node_img_def node_pages_def node_bytes_def)

lemma int_of_u64_level: "0 \<le> level \<Longrightarrow> level < 2 ^ 31 \<Longrightarrow> int_of_u64 (word_of_int level) = level"
proof -
  assume l: "0 \<le> level" "level < 2 ^ 31"
  then have "uint (word_of_int level :: u64) = level" by (simp add: unsigned_of_int take_bit_int_eq_self)
  then have "(ucast (word_of_int level :: u64) :: 32 word) = word_of_int level" by (simp add: ucast_eq)
  then show ?thesis using l by (simp add: int_of_u64_def signed_of_int signed_take_bit_int_eq_self)
qed

lemma node_img_fields:
  "buf_get (node_img io level es) 0 8 = le64_enc (word_of_nat (node_bytes es))"
  "buf_get (node_img io level es) 8 8 = le64_enc (word_of_int level)"
  by (simp_all add: node_img_def)

lemma node_view_layout:
  assumes "nd_buf node = hdr @ entries_enc es @ post" and "length hdr = 16"
    and "nd_entries node = length es" and "length es \<le> length (nd_entry node)"
    and "take (length es) (nd_entry node) = layout 16 es"
  shows "node_view node es"
proof -
  have "nd_entry node ! i = layout 16 es ! i" if "i < length es" for i
    using assms(4,5) that by (metis nth_take)
  then show ?thesis
    using assms layout_nth [of _ es hdr 16 post]
    by (simp add: node_view_def ctree_node_key_def ctree_node_val_def)
qed

lemma node_rep_view: "node_rep node es \<Longrightarrow> node_view node es"
  unfolding node_rep_def using node_view_layout by blast

context page_device
begin

lemma page_bound: "n \<le> limit \<Longrightarrow> n * page_size io \<le> 2 ^ 63" "n \<le> limit \<Longrightarrow> n < 2 ^ 64"
proof -
  assume "n \<le> limit"
  then have "n * page_size io \<le> limit * page_size io" by simp
  then show le: "n * page_size io \<le> 2 ^ 63" using limit_bound by linarith
  have "n \<le> n * page_size io" using page_ok_pos [OF page] by simp
  then have "n \<le> 2 ^ 63" using le by (rule le_trans)
  then show "n < 2 ^ 64" by simp
qed

lemma node_write:
  assumes rep: "node_rep node es" and room: "node_room io node" and d: "good d"
    and lim: "off + node_pages io es \<le> limit"
  shows "\<exists>rc node' d'. ctree_node_write io d node off level = Some (rc, node', d') \<and> good d' \<and>
    node_rep node' es \<and> node_room io node' \<and> length (nd_buf node') = length (nd_buf node) \<and>
    (rc = Inr () \<longrightarrow> stored d' off (node_img io level es) \<and> nd_ptr node' = node_ptr io off level es) \<and>
    (\<forall>o' n bs'. stored d o' bs' \<and> length bs' = n * page_size io \<and> extent o' n \<inter> extent off (node_pages io es) = {} \<longrightarrow>
       stored d' o' bs') \<and>
    (\<forall>e. rc = Inl e \<longrightarrow> (\<exists>buf. 0 < node_pages io es \<and>
       node_pages io es * page_size io \<le> length buf \<and>
       io_write io d buf (node_pages io es) off = Some (Inl e, d')))"
proof -
  obtain hdr z where b: "length hdr = 16" "nd_buf node = hdr @ entries_enc es @ replicate z 0"
    using rep by (auto simp: node_rep_def)
  have nb: "nd_bytes node = node_bytes es" using rep by (simp add: node_rep_def)
  let ?hdr = "le64_enc (word_of_nat (node_bytes es)) @ le64_enc (word_of_int level)"
  let ?buf = "?hdr @ entries_enc es @ replicate z 0"
  have put: "buf_put (nd_buf node) 0 ?hdr = ?buf"
    unfolding b(2) using b(1) buf_put_replace [of hdr ?hdr "[]" "entries_enc es @ replicate z 0"] by simp
  have len: "length ?buf = length (nd_buf node)" using b by simp
  have fit: "node_pages io es * page_size io \<le> length ?buf"
    using node_pages_fit [OF page rep room] len by (simp add: node_pages_def)
  have small: "node_bytes es + page_size io \<le> 2 ^ 64"
    using node_rep_bytes [OF rep] nb room page_ok_le [OF page] by (simp add: node_room_def)
  have "node_pages io es * page_size io < 2 ^ 64"
    using page_bound(1) [of "node_pages io es"] lim by simp
  then have pg: "io_pages io (nd_bytes node) = node_pages io es"
      "io_bytes io (node_pages io es) = node_pages io es * page_size io"
    using nb small page by (simp_all add: io_pages_eq io_bytes_eq node_pages_def)
  have img: "take (node_pages io es * page_size io) ?buf = node_img io level es"
    using fit npages_ge [OF page, of "node_bytes es"]
    by (simp add: node_img_def node_pages_def node_bytes_def)
  have "0 < node_bytes es" by (simp add: node_bytes_def)
  then have pos: "0 < node_pages io es"
    using npages_le_iff [OF page, of "node_bytes es" 0] by (simp add: node_pages_def)
  from write_stores [OF d pos lim fit] obtain rc d' where
    w: "io_write io d ?buf (node_pages io es) off = Some (rc, d')" and g: "good d'" and
    st: "rc = Inr () \<longrightarrow> stored d' off (node_img io level es)" and
    keep: "\<forall>o' n bs'. stored d o' bs' \<and> length bs' = n * page_size io \<and>
      extent o' n \<inter> extent off (node_pages io es) = {} \<longrightarrow> stored d' o' bs'"
    unfolding img by blast
  let ?n1 = "node\<lparr>nd_buf := ?buf\<rparr>"
  let ?n2 = "?n1\<lparr>nd_ptr := node_ptr io off level es, nd_level := level\<rparr>"
  have n1: "node_rep ?n1 es" "node_room io ?n1"
    using rep room len by (auto simp: node_rep_def node_room_def intro!: exI [of _ ?hdr])
  then have n2: "node_rep ?n2 es" "node_room io ?n2" by (auto simp: node_rep_def node_room_def)
  have hs: "\<not> length (nd_buf node) < header_size" using b by (simp add: header_size_def)
  have "ctree_node_write io d node off level =
      Some (case rc of Inl e \<Rightarrow> (Inl e, ?n1, d') | Inr _ \<Rightarrow> (Inr (), ?n2, d'))"
    unfolding ctree_node_write_def Let_def
    using w pg hs put fit img by (auto simp: nb node_ptr_def split: sum.split)
  moreover have "\<forall>e. rc = Inl e \<longrightarrow> (\<exists>buf. 0 < node_pages io es \<and> node_pages io es * page_size io \<le> length buf \<and>
       io_write io d buf (node_pages io es) off = Some (Inl e, d'))"
    using pos fit w by blast
  ultimately show ?thesis using n1 n2 g st keep len by (cases rc) auto
qed

lemma node_read:
  assumes d: "good d" and st: "stored d off (node_img io level es)"
    and lim: "off + node_pages io es \<le> limit" and lev: "0 \<le> level" "level < 2 ^ 31"
    and fits: "\<forall>e \<in> set es. entry_fits e"
  shows "\<exists>rc d' m'. ctree_node_read io d (node_ptr io off level es) level m = Some (rc, d', m') \<and> good d' \<and>
    (\<forall>o' bs'. stored d o' bs' \<longrightarrow> stored d' o' bs') \<and>
    (rc = Inl ENOMEM \<or> (\<exists>node. rc = Inr node \<and> node_view node es \<and> nd_ptr node = node_ptr io off level es)) \<and>
    (m = [] \<longrightarrow> m' = [] \<and> (\<exists>node. rc = Inr node))"
proof -
  let ?img = "node_img io level es" and ?ptr = "node_ptr io off level es"
  have len: "length ?img = node_pages io es * page_size io" by (rule length_node_img [OF page])
  have lt: "off < 2 ^ 64" "node_pages io es < 2 ^ 64" "node_pages io es * page_size io \<le> 2 ^ 63"
    using page_bound(2) [of "node_pages io es"] page_bound(2) [of off] page_bound(1) [of "node_pages io es"] lim by auto
  then have p: "unat (ptr_size ?ptr) = node_pages io es" "unat (ptr_offs ?ptr) = off"
      "io_bytes io (node_pages io es) = length ?img"
    using len by (simp_all add: node_ptr_def unat_of_nat io_bytes_eq)
  have nb: "node_bytes es \<le> length ?img" using len npages_ge [OF page, of "node_bytes es"] by (simp add: node_pages_def)
  then have hd: "\<not> length ?img < header_size" by (simp add: header_size_def node_bytes_def)
  have "node_bytes es < 2 ^ 64" using nb len lt(3) by simp
  then have ub: "unat (le64_dec (buf_get ?img 0 8)) = node_bytes es"
    by (simp add: node_img_fields unat_of_nat)
  have lv: "int_of_u64 (le64_dec (buf_get ?img 8 8)) = level"
    using int_of_u64_level [OF lev] by (simp add: node_img_fields)
  obtain d' where r: "io_read io d (node_pages io es) off = (Inr ?img, d')" "good d'"
      "\<forall>o' bs'. stored d o' bs' \<longrightarrow> stored d' o' bs'"
    using read_stored [OF d st len] by blast
  let ?hdr = "le64_enc (word_of_nat (node_bytes es)) @ le64_enc (word_of_int level)"
  let ?post = "replicate (node_pages io es * page_size io - node_bytes es) (0::byte)"
  let ?init = "ctree_node_zero\<lparr>nd_buf := ?img, nd_ptr := ?ptr, nd_level := level\<rparr>"
  have img: "?img = ?hdr @ entries_enc es @ ?post" by (simp add: node_img_def)
  obtain ok m1 where m1: "mem_alloc m = (ok, m1)" by fastforce
  from parse_loop_layout [of 0 "[]" es m1 ?hdr ?post] fits obtain rc cnt arr m2 where
    ps: "ctree_parse_loop m1 ?img (node_bytes es) header_size 0 [] = Some (rc, cnt, arr, m2)" and
    res: "rc = Inl ENOMEM \<or> rc = Inr () \<and> cnt = length es \<and> cnt \<le> length arr \<and> take cnt arr = layout 16 es"
      "m1 = [] \<longrightarrow> rc = Inr () \<and> m2 = []"
    by (auto simp: img node_bytes_def header_size_def)
  let ?n = "?init\<lparr>nd_entries := cnt, nd_entry := arr\<rparr>"
  have parse: "ctree_node_parse io ?init m1 = Some (rc, ?n, m2)"
  proof -
    have sel: "nd_buf ?init = ?img" "nd_entries ?init = 0" "nd_entry ?init = []" "nd_ptr ?init = ?ptr" "nd_level ?init = level"
      by (simp_all add: ctree_node_zero_def)
    have "\<not> io_bytes io (unat (ptr_size ?ptr)) < node_bytes es" using p(1,3) nb by simp
    then show ?thesis
      unfolding ctree_node_parse_def Let_def sel ub lv ps using hd by simp
  qed
  have view: "node_view ?n es" if "rc = Inr ()"
    by (rule node_view_layout [of _ ?hdr _ ?post]) (use that res(1) in \<open>auto simp: img\<close>)
  show ?thesis
  proof (cases ok)
    case False
    then show ?thesis using m1 d by (auto simp: ctree_node_read_def Let_def mem_alloc_def split: list.splits)
  next
    case True
    have "ctree_node_read io d ?ptr level m = Some (case rc of Inl e \<Rightarrow> Inl e | Inr _ \<Rightarrow> Inr ?n, d', m2)"
    proof -
      have "ptr_csum ?ptr = crc64 ?img" by (simp add: node_ptr_def)
      then show ?thesis using True m1 r(1) p parse by (simp add: ctree_node_read_def Let_def)
    qed
    moreover have "m = [] \<longrightarrow> m1 = []" using m1 by auto
    moreover have "nd_ptr ?n = ?ptr" by simp
    ultimately show ?thesis using r res view by (cases rc) auto
  qed
qed

end

end
