(* ===== verification/CtreeNodeProps.thy ===== *)
theory CtreeNodeProps
  imports CtreeLayout
begin

text \<open>
  The properties of a single node: filled, written and read back it holds the entries it was
  given; whatever bytes a device returns, reading a node is safe; and the sizes at which the
  growth of a node's buffer goes wrong.
\<close>

section \<open>A fresh node\<close>

definition start_len :: "'d io \<Rightarrow> nat" where
  "start_len io = npages io 4096 * page_size io"

lemma start_len_bounds: "page_ok io \<Longrightarrow> 4096 \<le> start_len io \<and> start_len io < 2 ^ 33"
  using npages_ge [of io 4096] npages_less [of io 4096] page_ok_le [of io]
  by (simp add: start_len_def)

lemma io_align_start: "page_ok io \<Longrightarrow> io_align io 4096 = start_len io"
  using page_ok_le [of io] by (simp add: io_align_eq start_len_def)

lemma io_align_start_again: "page_ok io \<Longrightarrow> io_align io (start_len io) = start_len io"
  using page_ok_le [of io] start_len_bounds [of io] by (simp add: io_align_eq) (simp add: start_len_def)

lemma reset_node:
  "16 \<le> length (nd_buf node) \<Longrightarrow>
   \<exists>node'. ctree_node_reset node = Some node' \<and> node_rep node' [] \<and>
     length (nd_buf node') = length (nd_buf node) \<and> length (nd_entry node') = length (nd_entry node) \<and>
     nd_ptr node' = nd_ptr node"
  by (auto simp: ctree_node_reset_def header_size_def node_rep_def node_bytes_def
      intro!: exI [of _ "replicate 16 0"] exI [of _ "length (nd_buf node) - 16"] simp flip: replicate_add)

lemma setup_node:
  assumes "page_ok io"
  shows "\<exists>rc node m'. ctree_node_setup io m = Some (rc, node, m') \<and>
    (rc = Inl ENOMEM \<or> rc = Inr () \<and> node_rep node [] \<and> node_room io node \<and>
       length (nd_buf node) = start_len io) \<and>
    (m = [] \<longrightarrow> rc = Inr () \<and> m' = [])"
proof -
  note al = io_align_start [OF assms] io_align_start_again [OF assms]
  let ?n = "ctree_node_zero\<lparr>nd_buf := replicate (start_len io) 0, nd_entry := replicate MIN_FANOUT entry_null\<rparr>"
  have len: "16 \<le> length (nd_buf ?n)" using start_len_bounds [OF assms] by simp
  obtain n where n: "ctree_node_reset ?n = Some n" "node_rep n []" "length (nd_buf n) = start_len io"
      "length (nd_entry n) = MIN_FANOUT"
    using reset_node [OF len] by auto
  have "node_room io n"
    using n start_len_bounds [OF assms] by (simp add: node_room_def MIN_FANOUT_def) (simp add: start_len_def)
  then show ?thesis
    using n by (auto simp: ctree_node_setup_def ctree_node_alloc_def al mem_alloc_def split: list.splits bool.splits)
qed

section \<open>Filling a node\<close>

fun append_all :: "'d io \<Rightarrow> ctree_node \<Rightarrow> kv list \<Rightarrow> mem \<Rightarrow> ((errno + unit) \<times> ctree_node \<times> mem) option" where
  "append_all io node [] m = Some (Inr (), node, m)"
| "append_all io node (e # es) m = do {
     (rc, node, m) \<leftarrow> ctree_node_append io node (fst e) (snd e) m;
     (case rc of Inl err \<Rightarrow> Some (Inl err, node, m) | Inr _ \<Rightarrow> append_all io node es m) }"

definition node_sized :: "'d io \<Rightarrow> ctree_node \<Rightarrow> kv list \<Rightarrow> bool" where
  "node_sized io node es \<longleftrightarrow>
     length (nd_buf node) \<le> max (start_len io) (npages io (node_bytes es) * page_size io)"

lemma node_bytes_append: "node_bytes (es @ fs) = node_bytes es + length (entries_enc fs)"
  by (simp add: node_bytes_def)

lemma sized_bound:
  assumes "page_ok io" and "node_sized io node es" and "node_bytes es \<le> 2 ^ 60"
  shows "length (nd_buf node) \<le> 2 ^ 61"
proof -
  have "npages io (node_bytes es) * page_size io < node_bytes es + page_size io"
    by (rule npages_less [OF assms(1)])
  also have "\<dots> \<le> 2 ^ 60 + 2 ^ 32" using assms(3) page_ok_le [OF assms(1)] by simp
  finally have "max (start_len io) (npages io (node_bytes es) * page_size io) \<le> 2 ^ 61"
    using start_len_bounds [OF assms(1)] by simp
  then show ?thesis using assms(2) unfolding node_sized_def by (rule le_trans [rotated])
qed

lemma sized_step:
  assumes "page_ok io" and "node_sized io node es"
    and "length (nd_buf node') \<le> max (length (nd_buf node)) (npages io (node_bytes (es @ fs)) * page_size io)"
  shows "node_sized io node' (es @ fs)"
proof -
  have "npages io (node_bytes es) \<le> npages io (node_bytes (es @ fs))"
    by (rule npages_mono [OF assms(1)]) (simp add: node_bytes_append)
  then have "npages io (node_bytes es) * page_size io \<le> npages io (node_bytes (es @ fs)) * page_size io"
    by (rule mult_le_mono1)
  then show ?thesis using assms(2,3) unfolding node_sized_def by linarith
qed

lemma append_all_rep:
  assumes ok: "page_ok io"
  shows "node_rep node ds \<Longrightarrow> node_room io node \<Longrightarrow> node_sized io node ds \<Longrightarrow>
    node_bytes (ds @ es) \<le> 2 ^ 60 \<Longrightarrow> \<forall>e \<in> set es. entry_small e \<Longrightarrow>
    \<exists>rc node' m'. append_all io node es m = Some (rc, node', m') \<and>
      (rc = Inl ENOMEM \<or> rc = Inr () \<and> node_rep node' (ds @ es) \<and> node_room io node') \<and>
      (m = [] \<longrightarrow> rc = Inr () \<and> m' = [])"
proof (induction es arbitrary: node ds m)
  case Nil
  then show ?case by simp
next
  case (Cons e es)
  have "node_bytes ds \<le> 2 ^ 60" using Cons.prems(4) by (simp add: node_bytes_append)
  then have "length (nd_buf node) \<le> 2 ^ 61" by (rule sized_bound [OF ok Cons.prems(3)])
  with append_node [OF ok Cons.prems(1,2), of "fst e" "snd e" m] Cons.prems(5) obtain rc n m1 where
    a: "ctree_node_append io node (fst e) (snd e) m = Some (rc, n, m1)" "node_room io n" and
    len: "length (nd_buf n) \<le> max (length (nd_buf node)) (npages io (node_bytes (ds @ [e])) * page_size io)" and
    r: "rc = Inl ENOMEM \<or> rc = Inr () \<and> node_rep n (ds @ [e])" "m = [] \<longrightarrow> rc = Inr () \<and> m1 = []"
    by auto
  show ?case
  proof (cases rc)
    case (Inl err)
    then show ?thesis using a r by auto
  next
    case (Inr u)
    have "node_sized io n (ds @ [e])" by (rule sized_step [OF ok Cons.prems(3) len])
    have "node_rep n (ds @ [e])" using r Inr by auto
    from Cons.IH [OF this a(2) \<open>node_sized io n (ds @ [e])\<close>, of m1] obtain rc' node' m' where
      "append_all io n es m1 = Some (rc', node', m')"
      "rc' = Inl ENOMEM \<or> rc' = Inr () \<and> node_rep node' (ds @ e # es) \<and> node_room io node'"
      "m1 = [] \<longrightarrow> rc' = Inr () \<and> m' = []"
      using Cons.prems(4,5) by auto
    then show ?thesis using Inr a(1) r by (intro exI [of _ rc'] exI [of _ node'] exI [of _ m']) simp
  qed
qed

text \<open>C23: a node is a faithful container. Entries appended to a fresh node, the node written
  to the device and read back through the pointer that the write produced: the node that is
  read has the same entries. This for every device that keeps its contract, for entries of at most 4096 bytes with
  their header (\<open>entry_small\<close>, the size of the buffer at first) and \<open>2\<^sup>6\<^sup>0\<close> bytes in all, with \<open>malloc\<close> not
  failing, and if the write succeeds. What happens to larger entries is \<open>ctree_node_append_overruns\<close>.\<close>

theorem ctree_node_roundtrip:
  assumes "page_device io good stored limit" and "good d" and "\<forall>e \<in> set es. entry_small e"
    and "node_bytes es \<le> 2 ^ 60" and "off + node_pages io es \<le> limit" and "0 \<le> level" "level < 2 ^ 31"
    and "ctree_node_setup io [] = Some (Inr (), fresh, [])"
  shows "\<exists>node. append_all io fresh es [] = Some (Inr (), node, []) \<and>
    (\<exists>rc node' d'. ctree_node_write io d node off level = Some (rc, node', d') \<and>
      (rc = Inr () \<longrightarrow> (\<exists>d'' node''. ctree_node_read io d' (nd_ptr node') level [] = Some (Inr node'', d'', []) \<and>
         node_view node'' es)))"
proof -
  have ok: "page_ok io" by (rule page_device.page [OF assms(1)])
  have fresh: "node_rep fresh []" "node_room io fresh" "node_sized io fresh []"
    using setup_node [OF ok, of "[]"] assms(8) by (auto simp: node_sized_def)
  obtain node where n: "append_all io fresh es [] = Some (Inr (), node, [])" "node_rep node es" "node_room io node"
    using append_all_rep [OF ok fresh, of es "[]"] assms(3,4) by auto
  have fits: "\<forall>e \<in> set es. entry_fits e" using assms(3) entry_small_fits by blast
  from page_device.node_write [OF assms(1) n(2,3) assms(2,5), of level] obtain rc node' d' where
    w: "ctree_node_write io d node off level = Some (rc, node', d')" "good d'"
      "rc = Inr () \<longrightarrow> stored d' off (node_img io level es) \<and> nd_ptr node' = node_ptr io off level es"
    by blast
  have "\<exists>d'' node''. ctree_node_read io d' (nd_ptr node') level [] = Some (Inr node'', d'', []) \<and> node_view node'' es"
    if "rc = Inr ()"
    using that w page_device.node_read [OF assms(1) w(2) _ assms(5,6,7) fits, of "[]"] by fastforce
  then show ?thesis using n(1) w(1) by blast
qed

theorem ctree_node_roundtrip_witness:
  "\<exists>fresh node rc node' d'. ctree_node_setup test_io [] = Some (Inr (), fresh, []) \<and>
     append_all test_io fresh [([1], [2, 3]), ([4], [])] [] = Some (Inr (), node, []) \<and>
     ctree_node_write test_io \<lparr>content = [], script = []\<rparr> node 7 0 = Some (rc, node', d') \<and>
     (rc = Inr () \<longrightarrow> (\<exists>d'' node''. ctree_node_read test_io d' (nd_ptr node') 0 [] = Some (Inr node'', d'', []) \<and>
        node_view node'' [([1], [2, 3]), ([4], [])]))"
proof -
  let ?es = "[([1], [2, 3]), ([4], [])] :: kv list"
  obtain fresh where f: "ctree_node_setup test_io [] = Some (Inr (), fresh, [])"
    using setup_node [OF page_ok_test, of "[]"] by auto
  have nb: "node_bytes ?es = 28" by (simp add: node_bytes_def)
  then have "7 + node_pages test_io ?es \<le> test_limit"
    by (simp add: node_pages_def npages_def test_limit_def)
  moreover have "test_good \<lparr>content = [], script = []\<rparr>" by (simp add: test_good_def)
  moreover have "\<forall>e \<in> set ?es. entry_small e" by (simp add: entry_small_def)
  ultimately have "\<exists>node. append_all test_io fresh ?es [] = Some (Inr (), node, []) \<and>
    (\<exists>rc node' d'. ctree_node_write test_io \<lparr>content = [], script = []\<rparr> node 7 0 = Some (rc, node', d') \<and>
      (rc = Inr () \<longrightarrow> (\<exists>d'' node''. ctree_node_read test_io d' (nd_ptr node') 0 [] = Some (Inr node'', d'', []) \<and>
         node_view node'' ?es)))"
    using nb by (intro ctree_node_roundtrip [OF test_device.page_device_axioms _ _ _ _ _ _ f]) simp_all
  then show ?thesis using f by blast
qed

section \<open>Reading untrusted bytes\<close>

lemma parse_safe:
  assumes "nd_entries node = 0" and "16 \<le> length (nd_buf node)"
    and "length (nd_buf node) = io_bytes io (unat (ptr_size (nd_ptr node)))"
  shows "\<exists>rc cnt arr m'. ctree_node_parse io node m = Some (rc, node\<lparr>nd_entries := cnt, nd_entry := arr\<rparr>, m') \<and>
    entries_inside (length (nd_buf node)) cnt arr"
proof -
  let ?buf = "nd_buf node"
  let ?bytes = "unat (le64_dec (buf_get ?buf 0 8))"
  have same: "node\<lparr>nd_entries := 0, nd_entry := nd_entry node\<rparr> = node" using assms(1) by (cases node) simp
  have zero: "entries_inside n 0 (nd_entry node)" for n by (simp add: entries_inside_def)
  show ?thesis
  proof (cases "io_bytes io (unat (ptr_size (nd_ptr node))) < ?bytes \<or>
      int_of_u64 (le64_dec (buf_get ?buf 8 8)) \<noteq> nd_level node")
    case True
    then have "ctree_node_parse io node m = Some (Inl EIO, node\<lparr>nd_entries := 0, nd_entry := nd_entry node\<rparr>, m)"
      using assms(2) by (auto simp: ctree_node_parse_def Let_def header_size_def same)
    then show ?thesis using zero by blast
  next
    case False
    have "?bytes \<le> length ?buf" using False assms(3) by simp
    from parse_loop_inside [OF this zero, of m header_size] obtain rc cnt arr m' where
      p: "ctree_parse_loop m ?buf ?bytes header_size 0 (nd_entry node) = Some (rc, cnt, arr, m')"
      and i: "entries_inside ?bytes cnt arr" by blast
    from False i have "entries_inside (length ?buf) cnt arr"
      using assms(3) by (auto simp: entries_inside_def entry_inside_def)
    moreover have "ctree_node_parse io node m = Some (rc, node\<lparr>nd_entries := cnt, nd_entry := arr\<rparr>, m')"
      using False assms p by (simp add: ctree_node_parse_def Let_def header_size_def)
    ultimately show ?thesis by blast
  qed
qed

lemma entries_inside_access:
  assumes "entries_inside (length (nd_buf node)) (nd_entries node) (nd_entry node)" and "i < nd_entries node"
  shows "\<exists>k v. ctree_node_key node i = Some k \<and> ctree_node_val node i = Some v"
proof -
  have "i < length (nd_entry node)" "entry_inside (length (nd_buf node)) (nd_entry node ! i)"
    using assms by (auto simp: entries_inside_def)
  then show ?thesis using assms(2)
    by (auto simp: ctree_node_key_def ctree_node_val_def buf_slice_def entry_inside_def)
qed

text \<open>C24: reading a node is safe on any device. Whatever bytes the device returns (at most as
  many as were asked for) and whatever pointer is followed, as long as it covers at least
  one page and less than \<open>2\<^sup>6\<^sup>4\<close> bytes, the read ends without reading outside the buffer or storing outside the
  entry array; a node that it accepts has the checksum of the pointer, and every one of its entries lies inside
  the buffer. What happens with no page is \<open>ctree_node_read_null_ptr\<close>.\<close>

theorem ctree_node_read_safe:
  assumes "page_ok io" and "0 < unat (ptr_size ptr)" and "unat (ptr_size ptr) * page_size io < 2 ^ 64"
    and "\<And>d n off bs d'. op_read (ops io) d n off = (Inr bs, d') \<Longrightarrow> length bs \<le> n"
  shows "\<exists>rc d' m'. ctree_node_read io d ptr level m = Some (rc, d', m') \<and>
    (\<forall>node. rc = Inr node \<longrightarrow> crc64 (nd_buf node) = ptr_csum ptr \<and> nd_ptr node = ptr \<and>
      (\<forall>i < nd_entries node. \<exists>k v. ctree_node_key node i = Some k \<and> ctree_node_val node i = Some v))"
proof -
  let ?n = "unat (ptr_size ptr)"
  have bytes: "io_bytes io ?n = ?n * page_size io" using assms(3) by (rule io_bytes_eq)
  have big: "16 \<le> ?n * page_size io"
    using page_ok_ge [OF assms(1)] assms(2) mult_le_mono [of 1 ?n 512 "page_size io"] by simp
  obtain ok m1 where m: "mem_alloc m = (ok, m1)" by fastforce
  obtain r d1 where r: "io_read io d ?n (unat (ptr_offs ptr)) = (r, d1)" by fastforce
  show ?thesis
  proof (cases "\<not> ok \<or> (\<exists>e. r = Inl e)")
    case True
    then show ?thesis using m r by (auto simp: ctree_node_read_def Let_def split: bool.splits)
  next
    case False
    then obtain bs where bs: "r = Inr bs" and ok: "ok" by (cases r) auto
    have len: "length bs \<le> ?n * page_size io"
      using r bs assms(3,4) unfolding io_read_def by fastforce
    let ?buf = "bs @ replicate (?n * page_size io - length bs) 0"
    let ?node = "ctree_node_zero\<lparr>nd_buf := ?buf, nd_ptr := ptr, nd_level := level\<rparr>"
    have "length ?buf = ?n * page_size io" using len by simp
    then obtain rc cnt arr m' where p: "ctree_node_parse io ?node m1 =
          Some (rc, ?node\<lparr>nd_entries := cnt, nd_entry := arr\<rparr>, m')"
        and i: "entries_inside (length ?buf) cnt arr"
      using parse_safe [of ?node io m1] big bytes by (auto simp: ctree_node_zero_def)
    let ?node' = "?node\<lparr>nd_entries := cnt, nd_entry := arr\<rparr>"
    have acc: "\<forall>i < nd_entries ?node'. \<exists>k v. ctree_node_key ?node' i = Some k \<and> ctree_node_val ?node' i = Some v"
      using i entries_inside_access [of ?node'] by simp
    show ?thesis
    proof (cases "crc64 ?buf = ptr_csum ptr")
      case True
      then have "ctree_node_read io d ptr level m =
          Some (case rc of Inl e \<Rightarrow> Inl e | Inr _ \<Rightarrow> Inr ?node', d1, m')"
        using m r bs ok len bytes p by (simp add: ctree_node_read_def Let_def)
      then show ?thesis using True acc by (cases rc) auto
    next
      case False
      then show ?thesis using m r bs ok len bytes by (simp add: ctree_node_read_def Let_def)
    qed
  qed
qed

text \<open>A device that returns the same bytes whatever it is asked for.\<close>

definition junk_io :: "byte list \<Rightarrow> unit io" where
  "junk_io bs = \<lparr>ops = \<lparr>op_read = (\<lambda>d n off. (Inr (take n bs), d)), op_write = None, op_sync = None\<rparr>,
     page_size = 4096\<rparr>"

theorem ctree_node_read_safe_witness:
  "\<exists>rc d' m'. ctree_node_read (junk_io [1, 2, 3]) () \<lparr>ptr_offs = 5, ptr_size = 1, ptr_csum = 0\<rparr> 0 [True] = Some (rc, d', m')"
proof -
  have "page_ok (junk_io [1, 2, 3])"
    unfolding page_ok_def by (rule exI [of _ 12]) (simp add: junk_io_def)
  from ctree_node_read_safe [OF this, of "\<lparr>ptr_offs = 5, ptr_size = 1, ptr_csum = 0\<rparr>" "()" 0 "[True]"]
  show ?thesis by (auto simp: junk_io_def)
qed

text \<open>A pointer of zero pages, as an empty tree has, is not checked: the buffer is then
  empty, its checksum is that of no bytes, and the parser reads the header behind the end of
  the buffer.\<close>

theorem ctree_node_read_null_ptr:
  "page_size io < 2 ^ 64 \<Longrightarrow> op_read (ops io) d 0 0 = (Inr [], d') \<Longrightarrow> ctree_node_read io d ptr_null level [] = None"
  by (simp add: ctree_node_read_def Let_def ptr_null_def io_bytes_def io_read_def crc64_def
      crc64_run.simps CRC64_INIT_def ctree_node_parse_def header_size_def ctree_node_zero_def)

theorem ctree_node_read_null_ptr_witness:
  "ctree_node_read (junk_io [1, 2, 3]) () ptr_null 0 [] = None"
  using ctree_node_read_null_ptr [of "junk_io [1, 2, 3]" "()" "()" 0] by (simp add: junk_io_def)

section \<open>Large entries\<close>

text \<open>C40: growing a buffer takes the smaller of the doubled size and the needed one. A first
  entry that needs more than twice the initial 4096 bytes, well below the 65535 that its
  size fields allow, is copied past the end of the buffer.\<close>

theorem ctree_node_append_overruns:
  assumes "8192 < node_bytes [(k, v)]" and "node_bytes [(k, v)] \<le> 2 ^ 60"
    and "ctree_node_setup test_io [] = Some (Inr (), node, [])"
  shows "ctree_node_append test_io node k v [] = None"
proof -
  let ?P = "npages test_io (node_bytes [(k, v)]) * 4096"
  have n: "node_rep node []" "length (nd_buf node) = 4096" "1 \<le> length (nd_entry node)"
    using setup_node [OF page_ok_test, of "[]"] assms(3)
    by (auto simp: node_room_def start_len_def npages_def)
  then have b: "nd_bytes node = 16" "nd_entries node = 0" by (auto simp: node_rep_def node_bytes_def)
  have nb: "nd_bytes node + (length k + length v + nentry_size) = node_bytes [(k, v)]"
    using b by (simp add: node_bytes_def nentry_size_def)
  have P: "node_bytes [(k, v)] \<le> ?P" "?P < node_bytes [(k, v)] + 4096"
    using npages_ge [OF page_ok_test, of "node_bytes [(k, v)]"] npages_less [OF page_ok_test, of "node_bytes [(k, v)]"]
    by simp_all
  then have pg: "io_bytes test_io (io_pages test_io (node_bytes [(k, v)])) = ?P"
    using assms(2) page_ok_test by (simp add: io_pages_eq io_bytes_eq)
  have "ctree_ensure_entries test_io node 1 (length k + length v + nentry_size) [] =
      (Inr (), node\<lparr>nd_buf := nd_buf node @ replicate 4096 0\<rparr>, [])"
    using n b P(1) assms(1) unfolding ctree_ensure_entries_def nb pg by (auto simp: Let_def)
  then show ?thesis using n(2) nb assms(1) by (simp add: ctree_node_append_def Let_def)
qed

theorem ctree_node_append_overruns_witness:
  "\<exists>node. ctree_node_setup test_io [] = Some (Inr (), node, []) \<and>
     ctree_node_append test_io node [1] (replicate 9000 0) [] = None"
proof -
  obtain node where n: "ctree_node_setup test_io [] = Some (Inr (), node, [])"
    using setup_node [OF page_ok_test, of "[]"] by auto
  then show ?thesis
    using ctree_node_append_overruns [of "[1]" "replicate 9000 0" node] by (simp add: node_bytes_def)
qed

end
