(* ===== verification/CtreeBuilder.thy ===== *)
theory CtreeBuilder
  imports CtreeNodeProps
begin

text \<open>
  The builder of disk trees (\<open>ctree_builder\<close> in \<open>lib/ctree.c\<close>): entries are appended to the
  leaf that is being filled; a node that is full is written to newly reserved pages and an
  entry with its first key and its pointer is appended one level up, where the same may
  happen.
\<close>

section \<open>State\<close>

text \<open>What every operation threads: the device, the allocator and the decisions of \<open>malloc\<close>.\<close>

record ('d, 'a) env =
  dev :: 'd
  asp :: 'a
  hm :: mem

record range =
  r_begin :: nat
  r_end :: nat

text \<open>\<open>nodes\<close> and \<open>ranges\<close> are the lengths of the two lists.\<close>

record ctree_builder =
  cb_node :: "ctree_node list"
  cb_max_nodes :: nat
  cb_reserved :: "range list"
  cb_max_ranges :: nat
  cb_pages :: nat
  cb_ptr :: aulsmfs_ptr
  cb_height :: nat

definition ctree_builder_setup :: ctree_builder where
  "ctree_builder_setup = \<lparr>cb_node = [], cb_max_nodes = 0, cb_reserved = [], cb_max_ranges = 0,
     cb_pages = 0, cb_ptr = ptr_null, cb_height = 0\<rparr>"

definition ctree_builder_release :: "ctree_builder \<Rightarrow> ctree_builder" where
  "ctree_builder_release b = ctree_builder_setup"

section \<open>Reserving pages\<close>

definition ctree_builder_alloc ::
    "'a alloc_ops \<Rightarrow> ctree_builder \<Rightarrow> nat \<Rightarrow> ('d, 'a) env \<Rightarrow> (errno + nat) \<times> ctree_builder \<times> ('d, 'a) env" where
  "ctree_builder_alloc al b sz env =
     (let ranges = length (cb_reserved b);
          (ok, b, env) =
            (if ranges = cb_max_ranges b then
               (case mem_alloc (hm env) of (ok, m) \<Rightarrow>
                  (ok, (if ok then b\<lparr>cb_max_ranges := if ranges \<noteq> 0 then ranges * 2 else 16\<rparr> else b),
                   env\<lparr>hm := m\<rparr>))
             else (True, b, env))
      in if \<not> ok then (Inl ENOMEM, b, env)
         else
           (case alloc_reserve al (asp env) sz of
              (Inl e, a) \<Rightarrow> (Inl e, b, env\<lparr>asp := a\<rparr>)
            | (Inr offs, a) \<Rightarrow>
                (let b = b\<lparr>cb_pages := wrap64 (cb_pages b + sz)\<rparr>;
                     rs = cb_reserved b;
                     rs = (if rs \<noteq> [] \<and> r_end (last rs) = offs
                           then butlast rs @ [(last rs)\<lparr>r_end := wrap64 (offs + sz)\<rparr>]
                           else rs @ [\<lparr>r_begin = offs, r_end = wrap64 (offs + sz)\<rparr>])
                 in (Inr offs, b\<lparr>cb_reserved := rs\<rparr>, env\<lparr>asp := a\<rparr>))))"

definition ctree_builder_free ::
    "'a alloc_ops \<Rightarrow> nat \<Rightarrow> nat \<Rightarrow> ('d, 'a) env \<Rightarrow> ('d, 'a) env" where
  "ctree_builder_free al sz offs env = env\<lparr>asp := snd (alloc_cancel al (asp env) sz offs)\<rparr>"

fun ctree_builder_cancel_ranges :: "'a alloc_ops \<Rightarrow> range list \<Rightarrow> ('d, 'a) env \<Rightarrow> ('d, 'a) env" where
  "ctree_builder_cancel_ranges al [] env = env"
| "ctree_builder_cancel_ranges al (r # rs) env =
     ctree_builder_cancel_ranges al rs (ctree_builder_free al (r_end r - r_begin r) (r_begin r) env)"

definition ctree_builder_cancel :: "'a alloc_ops \<Rightarrow> ctree_builder \<Rightarrow> ('d, 'a) env \<Rightarrow> ('d, 'a) env" where
  "ctree_builder_cancel al b env = ctree_builder_cancel_ranges al (cb_reserved b) env"

section \<open>Levels\<close>

fun ctree_builder_add_levels ::
    "'d io \<Rightarrow> nat \<Rightarrow> ctree_builder \<Rightarrow> ('d, 'a) env \<Rightarrow> ((errno + unit) \<times> ctree_builder \<times> ('d, 'a) env) option" where
  "ctree_builder_add_levels io 0 b env = Some (Inr (), b, env)"
| "ctree_builder_add_levels io (Suc k) b env = do {
     (_, m) \<leftarrow> ctree_node_create (hm env);
     (rc, node, m) \<leftarrow> ctree_node_setup io m;
     (case rc of
        Inl e \<Rightarrow> Some (Inl e, b, env\<lparr>hm := m\<rparr>)
      | Inr _ \<Rightarrow> ctree_builder_add_levels io k (b\<lparr>cb_node := cb_node b @ [node]\<rparr>) (env\<lparr>hm := m\<rparr>)) }"

definition ctree_builder_ensure_level ::
    "'d io \<Rightarrow> ctree_builder \<Rightarrow> nat \<Rightarrow> ('d, 'a) env \<Rightarrow> ((errno + unit) \<times> ctree_builder \<times> ('d, 'a) env) option" where
  "ctree_builder_ensure_level io b level env =
     (if level < length (cb_node b) then Some (Inr (), b, env)
      else
        (let (ok, b, env) =
           (if cb_max_nodes b \<le> level then
              (case mem_alloc (hm env) of (ok, m) \<Rightarrow>
                 (ok, (if ok then b\<lparr>cb_max_nodes := if cb_max_nodes b * 2 < level + 1 then level + 1
                                     else cb_max_nodes b * 2\<rparr> else b),
                  env\<lparr>hm := m\<rparr>))
            else (True, b, env))
         in if \<not> ok then Some (Inl ENOMEM, b, env)
            else ctree_builder_add_levels io (level + 1 - length (cb_node b)) b env))"

definition ctree_builder_can_append :: "'d io \<Rightarrow> ctree_builder \<Rightarrow> nat \<Rightarrow> nat \<Rightarrow> nat \<Rightarrow> bool" where
  "ctree_builder_can_append io b level count sz = ctree_node_can_append io (cb_node b ! level) count sz"

definition builder_put :: "ctree_builder \<Rightarrow> nat \<Rightarrow> ctree_node \<Rightarrow> ctree_builder" where
  "builder_put b level node = b\<lparr>cb_node := (cb_node b)[level := node]\<rparr>"

section \<open>Flushing and appending\<close>

text \<open>
  The first part of \<open>ctree_builder_flush\<close>: nothing for an empty node; otherwise the node is
  written to reserved pages and the entry for the level above is returned.
\<close>

definition ctree_builder_flush_node ::
    "'d io \<Rightarrow> 'a alloc_ops \<Rightarrow> nat \<Rightarrow> ctree_builder \<Rightarrow> ('d, 'a) env \<Rightarrow>
     ((errno + kv option) \<times> ctree_builder \<times> ('d, 'a) env) option" where
  "ctree_builder_flush_node io al level b env =
     (if length (cb_node b) \<le> level then None
      else
        (let node = cb_node b ! level; sz = io_pages io (nd_bytes node) in
         if nd_entries node = 0 then Some (Inr None, b, env)
         else
           (case ctree_builder_alloc al b sz env of
              (Inl e, b, env) \<Rightarrow> Some (Inl e, b, env)
            | (Inr offs, b, env) \<Rightarrow> do {
                (rc, node, d) \<leftarrow> ctree_node_write io (dev env) node offs (int level);
                (let b = builder_put b level node; env = env\<lparr>dev := d\<rparr> in
                 case rc of
                   Inl e \<Rightarrow> Some (Inl e, b, env)
                 | Inr _ \<Rightarrow> do {
                     key \<leftarrow> ctree_node_key node 0;
                     Some (Inr (Some (key, ptr_enc (nd_ptr node))), b, env) }) })))"

text \<open>The last part: the node is empty again.\<close>

definition ctree_builder_reset_node :: "nat \<Rightarrow> ctree_builder \<Rightarrow> ctree_builder option" where
  "ctree_builder_reset_node level b = do {
     node \<leftarrow> ctree_node_reset (cb_node b ! level);
     Some (builder_put b level node) }"

definition ctree_builder_add ::
    "'d io \<Rightarrow> nat \<Rightarrow> lsm_key \<Rightarrow> lsm_val \<Rightarrow> ctree_builder \<Rightarrow> ('d, 'a) env \<Rightarrow>
     ((errno + unit) \<times> ctree_builder \<times> ('d, 'a) env) option" where
  "ctree_builder_add io level key val b env = do {
     (rc, node, m) \<leftarrow> ctree_node_append io (cb_node b ! level) key val (hm env);
     Some (rc, builder_put b level node, env\<lparr>hm := m\<rparr>) }"

text \<open>\<open>__ctree_builder_append\<close>, with the call of \<open>ctree_builder_flush\<close> written out: the two
  call each other.\<close>

partial_function (option) ctree_builder_append_at ::
    "'d io \<Rightarrow> 'a alloc_ops \<Rightarrow> nat \<Rightarrow> lsm_key \<Rightarrow> lsm_val \<Rightarrow> ctree_builder \<Rightarrow> ('d, 'a) env \<Rightarrow>
     ((errno + unit) \<times> ctree_builder \<times> ('d, 'a) env) option" where
  "ctree_builder_append_at io al level key val b env = do {
     (rc, b, env) \<leftarrow> ctree_builder_ensure_level io b level env;
     (case rc of
        Inl e \<Rightarrow> Some (Inl e, b, env)
      | Inr _ \<Rightarrow>
          if ctree_builder_can_append io b level 1 (length key + length val)
          then ctree_builder_add io level key val b env
          else do {
            (rc, b, env) \<leftarrow> ctree_builder_flush_node io al level b env;
            (case rc of
               Inl e \<Rightarrow> Some (Inl e, b, env)
             | Inr None \<Rightarrow> ctree_builder_add io level key val b env
             | Inr (Some e) \<Rightarrow> do {
                 (rc, b, env) \<leftarrow> ctree_builder_append_at io al (Suc level) (fst e) (snd e) b env;
                 (case rc of
                    Inl e \<Rightarrow> Some (Inl e, b, env)
                  | Inr _ \<Rightarrow> do {
                      b \<leftarrow> ctree_builder_reset_node level b;
                      ctree_builder_add io level key val b env }) }) }) }"

definition ctree_builder_flush ::
    "'d io \<Rightarrow> 'a alloc_ops \<Rightarrow> nat \<Rightarrow> ctree_builder \<Rightarrow> ('d, 'a) env \<Rightarrow>
     ((errno + unit) \<times> ctree_builder \<times> ('d, 'a) env) option" where
  "ctree_builder_flush io al level b env = do {
     (rc, b, env) \<leftarrow> ctree_builder_flush_node io al level b env;
     (case rc of
        Inl e \<Rightarrow> Some (Inl e, b, env)
      | Inr None \<Rightarrow> Some (Inr (), b, env)
      | Inr (Some e) \<Rightarrow> do {
          (rc, b, env) \<leftarrow> ctree_builder_append_at io al (Suc level) (fst e) (snd e) b env;
          (case rc of
             Inl e \<Rightarrow> Some (Inl e, b, env)
           | Inr _ \<Rightarrow> do {
               b \<leftarrow> ctree_builder_reset_node level b;
               Some (Inr (), b, env) }) }) }"

definition ctree_builder_append ::
    "'d io \<Rightarrow> 'a alloc_ops \<Rightarrow> lsm_key \<Rightarrow> lsm_val \<Rightarrow> ctree_builder \<Rightarrow> ('d, 'a) env \<Rightarrow>
     ((errno + unit) \<times> ctree_builder \<times> ('d, 'a) env) option" where
  "ctree_builder_append io al key val b env = ctree_builder_append_at io al 0 key val b env"

section \<open>Finishing\<close>

partial_function (option) ctree_builder_finish_loop ::
    "'d io \<Rightarrow> 'a alloc_ops \<Rightarrow> nat \<Rightarrow> ctree_builder \<Rightarrow> ('d, 'a) env \<Rightarrow>
     ((errno + nat) \<times> ctree_builder \<times> ('d, 'a) env) option" where
  "ctree_builder_finish_loop io al level b env =
     (if Suc level < length (cb_node b) then do {
        (rc, b, env) \<leftarrow> ctree_builder_flush io al level b env;
        (case rc of
           Inl e \<Rightarrow> Some (Inl e, b, env)
         | Inr _ \<Rightarrow> ctree_builder_finish_loop io al (Suc level) b env)
      } else Some (Inr level, b, env))"

definition ctree_builder_finish ::
    "'d io \<Rightarrow> 'a alloc_ops \<Rightarrow> ctree_builder \<Rightarrow> ('d, 'a) env \<Rightarrow>
     ((errno + unit) \<times> ctree_builder \<times> ('d, 'a) env) option" where
  "ctree_builder_finish io al b env = do {
     (rc, b, env) \<leftarrow> ctree_builder_finish_loop io al 0 b env;
     (case rc of
        Inl e \<Rightarrow> Some (Inl e, b, env)
      | Inr level \<Rightarrow>
          if level = 0 then Some (Inr (), b\<lparr>cb_ptr := ptr_null, cb_height := 0\<rparr>, env)
          else
            (let root = cb_node b ! level; sz = io_pages io (nd_bytes root) in
             case ctree_builder_alloc al b sz env of
               (Inl e, b, env) \<Rightarrow> Some (Inl e, b, env)
             | (Inr offs, b, env) \<Rightarrow> do {
                 (rc, root, d) \<leftarrow> ctree_node_write io (dev env) root offs (int level);
                 (let b = builder_put b level root; env = env\<lparr>dev := d\<rparr> in
                  case rc of
                    Inl e \<Rightarrow> Some (Inl e, b, env)
                  | Inr _ \<Rightarrow> do {
                      let b = b\<lparr>cb_ptr := nd_ptr root, cb_height := level + 1\<rparr>;
                      b \<leftarrow> ctree_builder_reset_node level b;
                      Some (Inr (), b, env) }) })) }"

end
