(* ===== verification/CtreeTree.thy ===== *)
theory CtreeTree
  imports CtreeBuilder
begin

text \<open>
  A disk tree as a datatype, and what it means that a device holds it. An entry of the
  program is a tree of rank 0; a node of level \<open>l\<close> is a tree of rank \<open>l + 1\<close> over trees of
  rank \<open>l\<close>.
\<close>

section \<open>Disk trees\<close>

datatype dtree = DEntry kv | DNode aulsmfs_ptr "dtree list"

fun dkey :: "dtree \<Rightarrow> lsm_key" where
  "dkey (DEntry e) = fst e"
| "dkey (DNode p []) = []"
| "dkey (DNode p (t # ts)) = dkey t"

text \<open>The entry that stands for a tree in the node above it.\<close>

fun dent :: "dtree \<Rightarrow> kv" where
  "dent (DEntry e) = e"
| "dent (DNode p ts) = (dkey (DNode p ts), ptr_enc p)"

fun dflat :: "dtree \<Rightarrow> kv list" where
  "dflat (DEntry e) = [e]"
| "dflat (DNode p ts) = concat (map dflat ts)"

lemma fst_dent [simp]: "fst (dent t) = dkey t"
  by (cases t) auto

text \<open>
  \<open>S off bs\<close>: the device holds \<open>bs\<close> at page \<open>off\<close>. Every node lies in the set \<open>U\<close> of
  pages in use and below the limit of the device. Keys are bounded so that a key and a
  pointer fit a node.
\<close>

definition dnode_at ::
    "'d io \<Rightarrow> (nat \<Rightarrow> byte list \<Rightarrow> bool) \<Rightarrow> nat set \<Rightarrow> nat \<Rightarrow> nat \<Rightarrow> aulsmfs_ptr \<Rightarrow> kv list \<Rightarrow> bool" where
  "dnode_at io S U lim level p es \<longleftrightarrow>
     (\<exists>off. p = node_ptr io off (int level) es \<and> S off (node_img io (int level) es) \<and>
        off + node_pages io es \<le> lim \<and> extent off (node_pages io es) \<subseteq> U)"

fun on_disk ::
    "'d io \<Rightarrow> (nat \<Rightarrow> byte list \<Rightarrow> bool) \<Rightarrow> nat set \<Rightarrow> nat \<Rightarrow> nat \<Rightarrow> dtree \<Rightarrow> bool" where
  "on_disk io S U lim r (DEntry e) \<longleftrightarrow> r = 0 \<and> entry_small e \<and> length (fst e) \<le> 4000"
| "on_disk io S U lim 0 (DNode p ts) \<longleftrightarrow> False"
| "on_disk io S U lim (Suc r) (DNode p ts) \<longleftrightarrow> ts \<noteq> [] \<and> dnode_at io S U lim r p (map dent ts) \<and>
     (\<forall>t \<in> set ts. on_disk io S U lim r t)"

text \<open>The tree that a pointer and a height describe; height 0 is the empty tree.\<close>

definition ctree_on ::
    "'d io \<Rightarrow> (nat \<Rightarrow> byte list \<Rightarrow> bool) \<Rightarrow> nat set \<Rightarrow> nat \<Rightarrow> aulsmfs_ptr \<Rightarrow> nat \<Rightarrow> kv list \<Rightarrow> bool" where
  "ctree_on io S U lim p height es \<longleftrightarrow>
     (if height = 0 then es = [] else \<exists>ts. on_disk io S U lim height (DNode p ts) \<and> dflat (DNode p ts) = es)"

lemma on_disk_dkey: "on_disk io S U lim r t \<Longrightarrow> length (dkey t) \<le> 4000"
proof (induction io S U lim r t rule: on_disk.induct)
  case (3 io S U lim r p ts)
  then show ?case by (cases ts) auto
qed auto

lemma on_disk_small: "on_disk io S U lim r t \<Longrightarrow> entry_small (dent t)"
  using on_disk_dkey [of io S U lim r t] by (cases t) (auto simp: entry_small_def)

lemma on_disk_0: "on_disk io S U lim 0 t \<Longrightarrow> \<exists>e. t = DEntry e"
  by (cases t) auto

lemma on_disk_Suc: "on_disk io S U lim (Suc r) t \<Longrightarrow> \<exists>p ts. t = DNode p ts"
  by (cases t) auto

lemma dflat_nonempty: "on_disk io S U lim r t \<Longrightarrow> dflat t \<noteq> []"
proof (induction io S U lim r t rule: on_disk.induct)
  case (3 io S U lim r p ts)
  then show ?case by (cases ts) auto
qed auto

lemma on_disk_hd: "on_disk io S U lim r t \<Longrightarrow> dkey t = fst (hd (dflat t))"
proof (induction io S U lim r t rule: on_disk.induct)
  case (3 io S U lim r p ts)
  then obtain t ts' where "ts = t # ts'" by (cases ts) auto
  with 3 dflat_nonempty [of io S U lim r t] show ?case by simp
qed auto

text \<open>What keeps the pages in use keeps the trees on them.\<close>

definition keeps :: "nat \<Rightarrow> nat set \<Rightarrow> (nat \<Rightarrow> byte list \<Rightarrow> bool) \<Rightarrow> (nat \<Rightarrow> byte list \<Rightarrow> bool) \<Rightarrow> bool" where
  "keeps ps U S S' \<longleftrightarrow> (\<forall>off n bs. S off bs \<and> length bs = n * ps \<and> extent off n \<subseteq> U \<longrightarrow> S' off bs)"

lemma keeps_refl [simp]: "keeps ps U S S"
  by (simp add: keeps_def)

lemma keeps_trans: "keeps ps U S S' \<Longrightarrow> keeps ps U' S' S'' \<Longrightarrow> U \<subseteq> U' \<Longrightarrow> keeps ps U S S''"
  unfolding keeps_def by blast

lemma dnode_at_keeps:
  assumes "page_ok io" and "dnode_at io S U lim l p es" and "keeps (page_size io) U S S'" and "U \<subseteq> U'"
  shows "dnode_at io S' U' lim l p es"
  using assms length_node_img [OF assms(1), of "int l" es] unfolding dnode_at_def keeps_def by blast

lemma on_disk_keeps:
  "on_disk io S U lim r t \<Longrightarrow> page_ok io \<Longrightarrow> keeps (page_size io) U S S' \<Longrightarrow> U \<subseteq> U' \<Longrightarrow> on_disk io S' U' lim r t"
  by (induction io S U lim r t rule: on_disk.induct) (auto intro: dnode_at_keeps)

section \<open>Device and allocator together\<close>

text \<open>A node holds at most 100 entries of at most 4096 bytes, or fills its pages.\<close>

definition lvl_pages :: "'d io \<Rightarrow> nat" where
  "lvl_pages io = npages io (16 + 100 * 4096)"

definition lvl_max :: "'d io \<Rightarrow> nat" where
  "lvl_max io = lvl_pages io * page_size io"

text \<open>\<open>failed d a\<close>: the device or the allocator has reported an error, the latter to a request
  for the pages of a node.\<close>

locale page_storage = page_device io good stored limit + page_allocator al used limit
  for io :: "'d io" and good stored limit and al :: "'a alloc_ops" and used +
  fixes failed :: "'d \<Rightarrow> 'a \<Rightarrow> bool"
  assumes write_reports: "good d \<Longrightarrow> 0 < sz \<Longrightarrow> off + sz \<le> limit \<Longrightarrow> sz * page_size io \<le> length buf \<Longrightarrow>
      io_write io d buf sz off = Some (Inl e, d') \<Longrightarrow> failed d' a"
    and reserve_reports: "alloc_reserve al a sz = (Inl e, a') \<Longrightarrow> sz * page_size io \<le> lvl_max io \<Longrightarrow> failed d a'"

text \<open>On the storage of the tests nothing fails before the volume is full.\<close>

definition test_failed :: "vfile \<Rightarrow> nat \<Rightarrow> bool" where
  "test_failed f a \<longleftrightarrow> test_limit < a + 101"

lemma lvl_max_test: "lvl_max test_io = 101 * 4096"
  by (simp add: lvl_max_def lvl_pages_def npages_def)

interpretation test_storage: page_storage test_io test_good test_stored test_limit volume_alloc test_used test_failed
proof (intro page_storage.intro page_storage_axioms.intro)
  show "page_device test_io test_good test_stored test_limit" by (rule test_device.page_device_axioms)
  show "page_allocator volume_alloc test_used test_limit" by (rule test_allocator.page_allocator_axioms)
next
  fix d sz off and buf :: "byte list" and e d' a
  assume "test_good d" "off + sz \<le> test_limit" "sz * page_size test_io \<le> length buf"
    and w: "io_write test_io d buf sz off = Some (Inl e, d')"
  then show "test_failed d' a" using test_write_stores [of d off sz buf] by auto
next
  fix a sz e a' d
  assume "alloc_reserve volume_alloc a sz = (Inl e, a')" and "sz * page_size test_io \<le> lvl_max test_io"
  then show "test_failed d a'"
    by (auto simp: alloc_reserve_def volume_alloc_def test_alloc_def volume_reserve_def test_reserve_def test_failed_def
        lvl_max_test split: if_splits)
qed

end
