(* ===== verification/CtreeBuild.thy ===== *)
theory CtreeBuild
  imports CtreeTree
begin

text \<open>
  The builder builds the tree it should: the entries appended so far are, in order, those of
  the trees that wait at each level, top level first; every node that has been written is on
  the device; and the ranges it has recorded are the pages it has reserved.
\<close>

section \<open>The invariant\<close>

definition lvl_ok :: "'d io \<Rightarrow> ctree_node \<Rightarrow> kv list \<Rightarrow> bool" where
  "lvl_ok io node es \<longleftrightarrow> node_rep node es \<and> node_room io node \<and>
     length (nd_buf node) \<le> lvl_max io \<and> node_bytes es \<le> lvl_max io \<and> (\<forall>e \<in> set es. entry_small e)"

definition levels_ok ::
    "'d io \<Rightarrow> (nat \<Rightarrow> byte list \<Rightarrow> bool) \<Rightarrow> nat set \<Rightarrow> nat \<Rightarrow> ctree_builder \<Rightarrow> dtree list list \<Rightarrow> bool" where
  "levels_ok io S U lim b ls \<longleftrightarrow> length (cb_node b) = length ls \<and>
     (\<forall>l < length ls. lvl_ok io (cb_node b ! l) (map dent (ls ! l)) \<and>
        (\<forall>t \<in> set (ls ! l). on_disk io S U lim l t))"

text \<open>The entries that wait at a list of levels, the lowest level last.\<close>

fun hflat :: "dtree list list \<Rightarrow> kv list" where
  "hflat [] = []"
| "hflat (ts # ls) = hflat ls @ concat (map dflat ts)"

definition ranges_cover :: "range list \<Rightarrow> nat set" where
  "ranges_cover rs = (\<Union>r \<in> set rs. {r_begin r..<r_end r})"

definition reserved_ok :: "nat set \<Rightarrow> nat \<Rightarrow> ctree_builder \<Rightarrow> nat set \<Rightarrow> bool" where
  "reserved_ok U0 lim b U \<longleftrightarrow> U = U0 \<union> ranges_cover (cb_reserved b) \<and>
     U0 \<inter> ranges_cover (cb_reserved b) = {} \<and>
     (\<forall>r \<in> set (cb_reserved b). r_begin r \<le> r_end r \<and> r_end r \<le> lim)"

lemma lvl_max_bounds:
  assumes "page_ok io"
  shows "start_len io \<le> lvl_max io" "16 + 100 * 4096 \<le> lvl_max io" "lvl_max io < 2 ^ 40"
proof -
  have "npages io 4096 \<le> npages io (16 + 100 * 4096)" by (rule npages_mono [OF assms]) simp
  then show "start_len io \<le> lvl_max io" by (simp add: start_len_def lvl_max_def lvl_pages_def)
  show "16 + 100 * 4096 \<le> lvl_max io" unfolding lvl_max_def lvl_pages_def by (rule npages_ge [OF assms])
  show "lvl_max io < 2 ^ 40"
    using npages_less [OF assms, of "16 + 100 * 4096"] page_ok_le [OF assms] by (simp add: lvl_max_def lvl_pages_def)
qed

lemma lvl_ok_fresh:
  "page_ok io \<Longrightarrow> node_rep node [] \<Longrightarrow> node_room io node \<Longrightarrow> length (nd_buf node) \<le> lvl_max io \<Longrightarrow> lvl_ok io node []"
  using lvl_max_bounds [of io] by (simp add: lvl_ok_def node_bytes_def)

lemma hflat_append: "hflat (ls @ ms) = hflat ms @ hflat ls"
  by (induction ls) auto

lemma hflat_drop: "l < length ls \<Longrightarrow> hflat (drop l ls) = hflat (drop (Suc l) ls) @ concat (map dflat (ls ! l))"
  by (simp flip: Cons_nth_drop_Suc)

text \<open>A measure of what is still to do when the builder finishes: every pending tree and every
  level counts.\<close>

definition pending :: "dtree list list \<Rightarrow> nat" where
  "pending ls = 2 * sum_list (map length ls) + length ls"

lemma pending_update:
  "l < length ls \<Longrightarrow> pending (ls[l := x]) + 2 * length (ls ! l) = pending ls + 2 * length x"
proof (induction ls arbitrary: l)
  case Nil
  then show ?case by simp
next
  case (Cons y ls)
  then show ?case by (cases l) (auto simp: pending_def)
qed

lemma pending_snoc: "pending (ls @ [[t]]) = pending ls + 3"
  by (simp add: pending_def)

lemma pending_length: "length ls \<le> pending ls"
  by (simp add: pending_def)

lemma last_update: "last ls \<noteq> [] \<Longrightarrow> x \<noteq> [] \<Longrightarrow> ls \<noteq> [] \<Longrightarrow> last (ls[l := x]) \<noteq> []"
  by (cases "l = length ls - 1") (auto simp: last_conv_nth)

lemma take_less: "take (Suc l) xs = take (Suc l) ys \<Longrightarrow> take l xs = take l ys"
  by (metis le_SucI min.absorb1 order_refl take_take)

lemma levels_ok_keeps:
  "levels_ok io S U lim b ls \<Longrightarrow> page_ok io \<Longrightarrow> keeps (page_size io) U S S' \<Longrightarrow> U \<subseteq> U' \<Longrightarrow> levels_ok io S' U' lim b ls"
  unfolding levels_ok_def using on_disk_keeps by blast

lemma levels_ok_node: "cb_node b' = cb_node b \<Longrightarrow> levels_ok io S U lim b' ls = levels_ok io S U lim b ls"
  by (simp add: levels_ok_def)

lemma levels_ok_put:
  assumes "levels_ok io S U lim b ls" and "l < length ls" and "lvl_ok io node (map dent ts)"
    and "\<forall>t \<in> set ts. on_disk io S U lim l t"
  shows "levels_ok io S U lim (builder_put b l node) (ls[l := ts])"
  using assms by (auto simp: levels_ok_def builder_put_def nth_list_update)

section \<open>Reserving\<close>

lemma ranges_cover_simps [simp]:
  "ranges_cover [] = {}" "ranges_cover (rs @ [r]) = ranges_cover rs \<union> {r_begin r..<r_end r}"
  by (auto simp: ranges_cover_def)

text \<open>Adding an extent to the recorded ranges.\<close>

lemma ranges_add:
  assumes "off + sz \<le> lim" and "\<forall>r \<in> set rs. r_begin r \<le> r_end r \<and> r_end r \<le> lim"
    and "rs' = (if rs \<noteq> [] \<and> r_end (last rs) = off then butlast rs @ [(last rs)\<lparr>r_end := off + sz\<rparr>]
                else rs @ [\<lparr>r_begin = off, r_end = off + sz\<rparr>])"
  shows "ranges_cover rs' = ranges_cover rs \<union> extent off sz \<and>
    (\<forall>r \<in> set rs'. r_begin r \<le> r_end r \<and> r_end r \<le> lim)"
proof (cases "rs \<noteq> [] \<and> r_end (last rs) = off")
  case True
  then obtain r rs0 where rs: "rs = rs0 @ [r]" "r_end r = off" by (cases rs rule: rev_cases) auto
  moreover have "r_begin r \<le> off" using assms(2) rs by auto
  then have "{r_begin r..<off + sz} = {r_begin r..<off} \<union> {off..<off + sz}" by auto
  ultimately show ?thesis using assms True by (auto simp: extent_def)
next
  case False
  then show ?thesis using assms by (auto simp: extent_def)
qed

text \<open>The pages a builder has recorded.\<close>

definition spent :: "ctree_builder \<Rightarrow> nat" where
  "spent b = sum_list (map (\<lambda>r. r_end r - r_begin r) (cb_reserved b))"

context page_storage
begin

lemma limit_64: "limit < 2 ^ 64"
  by (rule page_bound(2)) simp

lemma builder_alloc:
  assumes "hm env = []"
  shows "\<exists>rc b' env'. ctree_builder_alloc al b sz env = (rc, b', env') \<and> hm env' = [] \<and> dev env' = dev env \<and>
    cb_node b' = cb_node b \<and> spent b' \<le> spent b + sz \<and>
    (\<forall>U0. reserved_ok U0 limit b (used (asp env)) \<longrightarrow> reserved_ok U0 limit b' (used (asp env'))) \<and>
    (case rc of Inl e \<Rightarrow> used (asp env') = used (asp env) \<and>
         (sz * page_size io \<le> lvl_max io \<longrightarrow> failed (dev env') (asp env'))
     | Inr off \<Rightarrow> extent off sz \<inter> used (asp env) = {} \<and> used (asp env') = used (asp env) \<union> extent off sz \<and>
         off + sz \<le> limit)"
proof -
  define b1 where "b1 = (if length (cb_reserved b) = cb_max_ranges b
     then b\<lparr>cb_max_ranges := if cb_reserved b \<noteq> [] then length (cb_reserved b) * 2 else 16\<rparr> else b)"
  have b1: "cb_node b1 = cb_node b" "cb_reserved b1 = cb_reserved b" by (simp_all add: b1_def)
  have m: "env\<lparr>hm := []\<rparr> = env" using assms by (cases env) simp
  obtain r a where r: "alloc_reserve al (asp env) sz = (r, a)" by fastforce
  show ?thesis
  proof (cases r)
    case (Inl e)
    have "ctree_builder_alloc al b sz env = (Inl e, b1, env\<lparr>asp := a\<rparr>)"
      using assms r Inl m by (auto simp: ctree_builder_alloc_def b1_def Let_def)
    then show ?thesis
      using reserve_fails [of "asp env" sz e a] reserve_reports [of "asp env" sz e a] r Inl b1 assms
      by (simp add: reserved_ok_def spent_def)
  next
    case (Inr off)
    note f = reserve_fresh [of "asp env" sz off a]
    have lim: "off + sz \<le> limit" using f r Inr by simp
    then have w: "wrap64 (off + sz) = off + sz" using limit_64 by simp
    define rs where "rs = (if cb_reserved b \<noteq> [] \<and> r_end (last (cb_reserved b)) = off
       then butlast (cb_reserved b) @ [(last (cb_reserved b))\<lparr>r_end := off + sz\<rparr>]
       else cb_reserved b @ [\<lparr>r_begin = off, r_end = off + sz\<rparr>])"
    let ?b' = "b1\<lparr>cb_pages := wrap64 (cb_pages b1 + sz), cb_reserved := rs\<rparr>"
    have run: "ctree_builder_alloc al b sz env = (Inr off, ?b', env\<lparr>asp := a\<rparr>)"
      using assms r Inr m w by (auto simp: ctree_builder_alloc_def b1_def rs_def Let_def)
    have "reserved_ok U0 limit ?b' (used a)" if ok: "reserved_ok U0 limit b (used (asp env))" for U0
      using ranges_add [OF lim _ rs_def] ok f r Inr by (auto simp: reserved_ok_def)
    moreover have "spent ?b' \<le> spent b + sz"
    proof (cases "cb_reserved b" rule: rev_cases)
      case Nil
      then show ?thesis by (simp add: spent_def rs_def)
    next
      case (snoc ys y)
      then show ?thesis by (auto simp: spent_def rs_def)
    qed
    ultimately show ?thesis using run f r Inr b1 assms by simp
  qed
qed

section \<open>Levels\<close>

lemma ensure_level:
  assumes ok: "levels_ok io S U lim b ls" and m: "hm env = []" and l: "l \<le> length ls"
  shows "\<exists>b'. ctree_builder_ensure_level io b l env = Some (Inr (), b', env) \<and>
    cb_reserved b' = cb_reserved b \<and>
    levels_ok io S U lim b' (if l < length ls then ls else ls @ [[]]) \<and>
    (l < length ls \<longrightarrow> b' = b)"
proof (cases "l < length ls")
  case True
  then show ?thesis using ok by (simp add: ctree_builder_ensure_level_def levels_ok_def)
next
  case False
  then have l': "l = length ls" "length (cb_node b) = length ls" using l ok by (auto simp: levels_ok_def)
  have e: "env\<lparr>hm := []\<rparr> = env" using m by (cases env) simp
  obtain node where n: "ctree_node_setup io [] = Some (Inr (), node, [])" "node_rep node []"
      "node_room io node" "length (nd_buf node) = start_len io"
    using setup_node [OF page, of "[]"] by auto
  then have ok1: "lvl_ok io node []" using lvl_max_bounds [OF page] by (intro lvl_ok_fresh [OF page]) auto
  define b1 where "b1 = (if cb_max_nodes b \<le> l then b\<lparr>cb_max_nodes := if cb_max_nodes b * 2 < l + 1 then l + 1
      else cb_max_nodes b * 2\<rparr> else b)"
  have b1: "cb_node b1 = cb_node b" "cb_reserved b1 = cb_reserved b" by (simp_all add: b1_def)
  let ?b' = "b1\<lparr>cb_node := cb_node b1 @ [node]\<rparr>"
  have "ctree_builder_add_levels io (Suc 0) b1 env = Some (Inr (), ?b', env)"
    using n(1) m e by (simp add: ctree_node_create_def)
  moreover have "ctree_builder_ensure_level io b l env = ctree_builder_add_levels io (Suc 0) b1 env"
    using l' m by (cases env) (simp add: ctree_builder_ensure_level_def b1_def del: ctree_builder_add_levels.simps)
  ultimately have "ctree_builder_ensure_level io b l env = Some (Inr (), ?b', env)" by simp
  moreover have "levels_ok io S U lim ?b' (ls @ [[]])"
    using ok ok1 b1 l' by (auto simp: levels_ok_def nth_append less_Suc_eq)
  ultimately show ?thesis using False b1 by simp
qed

lemma add_entry:
  assumes ok: "levels_ok io S U lim b ls" and m: "hm env = []" and l: "l < length ls"
    and t: "on_disk io S U lim l t" "dent t = (k, v)"
    and can: "ctree_builder_can_append io b l 1 (length k + length v) \<or> length (ls ! l) < 100"
  shows "\<exists>b'. ctree_builder_add io l k v b env = Some (Inr (), b', env) \<and> cb_reserved b' = cb_reserved b \<and>
    levels_ok io S U lim b' (ls[l := ls ! l @ [t]])"
proof -
  let ?es = "map dent (ls ! l)" and ?node = "cb_node b ! l"
  have lv: "lvl_ok io ?node ?es" and ts: "\<forall>t \<in> set (ls ! l). on_disk io S U lim l t"
    using ok l by (auto simp: levels_ok_def)
  have rep: "node_rep ?node ?es" "node_room io ?node" and small: "\<forall>e \<in> set ?es. entry_small e"
    using lv by (auto simp: lvl_ok_def)
  have sm: "entry_small (k, v)" using on_disk_small [OF t(1)] t(2) by simp
  have len: "length (nd_buf ?node) \<le> 2 ^ 61" and nbm: "node_bytes ?es \<le> lvl_max io"
    using lv lvl_max_bounds(3) [OF page] by (auto simp: lvl_ok_def)
  have e: "env\<lparr>hm := []\<rparr> = env" using m by (cases env) simp
  obtain n' where a: "ctree_node_append io ?node k v [] = Some (Inr (), n', [])" "node_room io n'"
      "length (nd_buf n') \<le> max (length (nd_buf ?node)) (npages io (node_bytes (?es @ [(k, v)])) * page_size io)"
      "node_rep n' (?es @ [(k, v)])"
    using append_node [OF page rep sm len, of "[]"] by auto
  have nb: "node_bytes (?es @ [(k, v)]) \<le> lvl_max io"
  proof (cases "length (ls ! l) < 100")
    case True
    have "length (entries_enc es) \<le> length es * 4096" if "\<forall>e \<in> set es. entry_small e" for es
      using that by (induction es) (auto simp: entry_small_def)
    from this [of "?es @ [(k, v)]"] have "length (entries_enc (?es @ [(k, v)])) \<le> Suc (length (ls ! l)) * 4096"
      using small sm by simp
    also have "\<dots> \<le> 100 * 4096" using True by (intro mult_le_mono1) simp
    finally have "node_bytes (?es @ [(k, v)]) \<le> 16 + 100 * 4096" by (simp add: node_bytes_def)
    then show ?thesis using lvl_max_bounds(2) [OF page] by (rule le_trans)
  next
    case False
    have b: "nd_bytes ?node = node_bytes ?es" "nd_entries ?node = length (ls ! l)" using rep(1) by (auto simp: node_rep_def)
    have b1: "nd_bytes ?node + (1 * nentry_size + (length k + length v)) = node_bytes (?es @ [(k, v)])"
      using b(1) by (simp add: node_bytes_def nentry_size_def)
    have "io_pages io (node_bytes (?es @ [(k, v)])) = io_pages io (node_bytes ?es)"
      using can False b b1 by (simp add: ctree_builder_can_append_def ctree_node_can_append_def MIN_FANOUT_def Let_def)
    moreover have "node_bytes (?es @ [(k, v)]) \<le> lvl_max io + 4096"
      using nbm sm by (simp add: node_bytes_def entry_small_def)
    ultimately have "npages io (node_bytes (?es @ [(k, v)])) = npages io (node_bytes ?es)"
      using nbm lvl_max_bounds(3) [OF page] page_ok_le [OF page] by (simp add: io_pages_eq [OF page])
    also have "\<dots> \<le> npages io (16 + 100 * 4096)" using nbm npages_le_iff [OF page] by (simp add: lvl_max_def lvl_pages_def)
    finally show ?thesis using npages_le_iff [OF page] unfolding lvl_max_def lvl_pages_def by blast
  qed
  then have "npages io (node_bytes (?es @ [(k, v)])) \<le> npages io (16 + 100 * 4096)"
    using npages_le_iff [OF page] unfolding lvl_max_def lvl_pages_def by blast
  then have "npages io (node_bytes (?es @ [(k, v)])) * page_size io \<le> lvl_max io"
    unfolding lvl_max_def lvl_pages_def by (rule mult_le_mono1)
  moreover have "length (nd_buf ?node) \<le> lvl_max io" using lv by (simp add: lvl_ok_def)
  ultimately have "length (nd_buf n') \<le> lvl_max io" using a(3) by linarith
  then have "lvl_ok io n' (map dent (ls ! l @ [t]))"
    using a(2,4) nb small sm t(2) by (simp add: lvl_ok_def)
  then have "levels_ok io S U lim (builder_put b l n') (ls[l := ls ! l @ [t]])"
    using ok l ts t(1) by (intro levels_ok_put) auto
  then show ?thesis using a(1) m e by (simp add: ctree_builder_add_def builder_put_def)
qed

end

section \<open>Flushing and appending\<close>

text \<open>What every step of the builder does to the world: more pages are in use, nothing on the
  pages that were in use has changed, and the builder's ranges account for the difference.\<close>

text \<open>\<open>k\<close> bounds the number of nodes for which pages have been reserved.\<close>

definition advances ::
    "nat \<Rightarrow> 'd io \<Rightarrow> ('d \<Rightarrow> bool) \<Rightarrow> ('d \<Rightarrow> nat \<Rightarrow> byte list \<Rightarrow> bool) \<Rightarrow> nat \<Rightarrow> ('a \<Rightarrow> nat set) \<Rightarrow>
     ctree_builder \<Rightarrow> ('d, 'a) env \<Rightarrow> ctree_builder \<Rightarrow> ('d, 'a) env \<Rightarrow> bool" where
  "advances k io good stored lim used b env b' env' \<longleftrightarrow> good (dev env') \<and> hm env' = [] \<and>
     used (asp env) \<subseteq> used (asp env') \<and>
     keeps (page_size io) (used (asp env)) (stored (dev env)) (stored (dev env')) \<and>
     spent b' \<le> spent b + k * lvl_pages io \<and>
     (\<forall>U0. reserved_ok U0 lim b (used (asp env)) \<longrightarrow> reserved_ok U0 lim b' (used (asp env')))"

lemma advances_mono: "advances k io good stored lim used b env b' env' \<Longrightarrow> k \<le> k' \<Longrightarrow> advances k' io good stored lim used b env b' env'"
  unfolding advances_def by (meson add_left_mono le_trans mult_le_mono1)

lemma advances_trans:
  assumes "advances k io good stored lim used b env b1 env1" and "advances k' io good stored lim used b1 env1 b2 env2"
  shows "advances (k + k') io good stored lim used b env b2 env2"
proof -
  have "spent b2 \<le> spent b + (k + k') * lvl_pages io" using assms by (simp add: advances_def add_mult_distrib)
  then show ?thesis using assms unfolding advances_def by (meson keeps_trans subset_trans)
qed

lemma advances_refl:
  "good (dev env) \<Longrightarrow> hm env = [] \<Longrightarrow> cb_reserved b' = cb_reserved b \<Longrightarrow> advances k io good stored lim used b env b' env"
  by (simp add: advances_def reserved_ok_def spent_def)

lemma advances_reserved:
  "advances k io good stored lim used b env b' env' \<Longrightarrow> cb_reserved b'' = cb_reserved b' \<Longrightarrow>
   advances k io good stored lim used b env b'' env'"
proof -
  assume "cb_reserved b'' = cb_reserved b'"
  then have "reserved_ok U0 lim b'' U = reserved_ok U0 lim b' U" "spent b'' = spent b'" for U0 U
    by (simp_all add: reserved_ok_def spent_def)
  then show "advances k io good stored lim used b env b' env' \<Longrightarrow> ?thesis" by (simp add: advances_def)
qed

lemma advances_put [simp]:
  "advances k io good stored lim used b env (builder_put b' l node) env' = advances k io good stored lim used b env b' env'"
  by (simp add: advances_def reserved_ok_def builder_put_def spent_def)

lemma advances_put_from [simp]:
  "advances k io good stored lim used (builder_put b l node) env b' env' = advances k io good stored lim used b env b' env'"
  by (simp add: advances_def reserved_ok_def builder_put_def spent_def)

context page_storage
begin

lemma write_level:
  assumes ok: "levels_ok io (stored (dev env)) (used (asp env)) limit b ls" and g: "good (dev env)" "hm env = []"
    and l: "l < length ls" "ls ! l \<noteq> []"
  shows "\<exists>rc b1 env1. ctree_builder_alloc al b (io_pages io (nd_bytes (cb_node b ! l))) env = (rc, b1, env1) \<and>
    cb_node b1 = cb_node b \<and> dev env1 = dev env \<and> hm env1 = [] \<and> advances 1 io good stored limit used b env b1 env1 \<and>
    (\<forall>e. rc = Inl e \<longrightarrow> failed (dev env1) (asp env1)) \<and>
    (\<forall>off. rc = Inr off \<longrightarrow> (\<exists>wrc node d. ctree_node_write io (dev env1) (cb_node b ! l) off (int l) = Some (wrc, node, d) \<and>
       advances 1 io good stored limit used b env b1 (env1\<lparr>dev := d\<rparr>) \<and>
       (\<forall>e. wrc = Inl e \<longrightarrow> failed d (asp env1)) \<and>
       (wrc = Inr () \<longrightarrow>
          levels_ok io (stored d) (used (asp env1)) limit (builder_put b1 l node) ls \<and>
          on_disk io (stored d) (used (asp env1)) limit (Suc l) (DNode (nd_ptr node) (ls ! l)))))"
proof -
  let ?es = "map dent (ls ! l)" and ?node = "cb_node b ! l"
  have lv: "lvl_ok io ?node ?es" and ts: "\<forall>t \<in> set (ls ! l). on_disk io (stored (dev env)) (used (asp env)) limit l t"
    using ok l by (auto simp: levels_ok_def)
  have rep: "node_rep ?node ?es" "node_room io ?node" using lv by (auto simp: lvl_ok_def)
  have "node_bytes ?es + page_size io \<le> 2 ^ 64"
    using lv lvl_max_bounds(3) [OF page] page_ok_le [OF page] by (simp add: lvl_ok_def)
  then have pg: "io_pages io (nd_bytes ?node) = node_pages io ?es"
    using rep(1) by (simp add: io_pages_eq [OF page] node_rep_def node_pages_def)
  obtain rc b1 env1 where al: "ctree_builder_alloc al b (node_pages io ?es) env = (rc, b1, env1)" "hm env1 = []"
      "dev env1 = dev env" "cb_node b1 = cb_node b" "spent b1 \<le> spent b + node_pages io ?es"
      "\<forall>U0. reserved_ok U0 limit b (used (asp env)) \<longrightarrow> reserved_ok U0 limit b1 (used (asp env1))"
      "case rc of Inl e \<Rightarrow> used (asp env1) = used (asp env) \<and>
           (node_pages io ?es * page_size io \<le> lvl_max io \<longrightarrow> failed (dev env1) (asp env1))
       | Inr off \<Rightarrow> extent off (node_pages io ?es) \<inter> used (asp env) = {} \<and>
           used (asp env1) = used (asp env) \<union> extent off (node_pages io ?es) \<and> off + node_pages io ?es \<le> limit"
    using builder_alloc [OF g(2), of b "node_pages io ?es"] by blast
  have lp: "node_pages io ?es \<le> lvl_pages io"
    using lv npages_le_iff [OF page, of "node_bytes ?es" "npages io (16 + 100 * 4096)"]
    by (simp add: lvl_ok_def lvl_max_def lvl_pages_def node_pages_def)
  then have sp: "spent b1 \<le> spent b + 1 * lvl_pages io" using al(5) by simp
  have adv: "advances 1 io good stored limit used b env b1 env1"
    using al g sp by (auto simp: advances_def split: sum.splits)
  have "\<exists>wrc node d. ctree_node_write io (dev env1) ?node off (int l) = Some (wrc, node, d) \<and>
       advances 1 io good stored limit used b env b1 (env1\<lparr>dev := d\<rparr>) \<and>
       (\<forall>e. wrc = Inl e \<longrightarrow> failed d (asp env1)) \<and>
       (wrc = Inr () \<longrightarrow>
          levels_ok io (stored d) (used (asp env1)) limit (builder_put b1 l node) ls \<and>
          on_disk io (stored d) (used (asp env1)) limit (Suc l) (DNode (nd_ptr node) (ls ! l)))"
    if rc: "rc = Inr off" for off
  proof -
    have ext: "extent off (node_pages io ?es) \<inter> used (asp env) = {}"
        "used (asp env1) = used (asp env) \<union> extent off (node_pages io ?es)" "off + node_pages io ?es \<le> limit"
      using al(7) rc by auto
    from node_write [OF rep g(1) ext(3), of "int l"] obtain wrc node d where
      w: "ctree_node_write io (dev env) ?node off (int l) = Some (wrc, node, d)" "good d" "node_rep node ?es"
        "node_room io node" "length (nd_buf node) = length (nd_buf ?node)"
        "wrc = Inr () \<longrightarrow> stored d off (node_img io (int l) ?es) \<and> nd_ptr node = node_ptr io off (int l) ?es"
        "\<forall>o' n bs'. stored (dev env) o' bs' \<and> length bs' = n * page_size io \<and>
           extent o' n \<inter> extent off (node_pages io ?es) = {} \<longrightarrow> stored d o' bs'"
        "\<forall>e. wrc = Inl e \<longrightarrow> (\<exists>buf. 0 < node_pages io ?es \<and>
           node_pages io ?es * page_size io \<le> length buf \<and>
           io_write io (dev env) buf (node_pages io ?es) off = Some (Inl e, d))"
      by blast
    have k: "keeps (page_size io) (used (asp env)) (stored (dev env)) (stored d)"
      using w(7) ext(1) unfolding keeps_def by blast
    have U: "used (asp env) \<subseteq> used (asp env1)" using ext(2) by simp
    have "lvl_ok io node ?es" using lv w by (simp add: lvl_ok_def)
    moreover have ts': "\<forall>t \<in> set (ls ! l). on_disk io (stored d) (used (asp env1)) limit l t"
      using ts on_disk_keeps [OF _ page k U] by blast
    moreover have "levels_ok io (stored d) (used (asp env1)) limit b1 ls"
      using levels_ok_keeps [OF ok page k U] levels_ok_node [OF al(4)] by blast
    ultimately have "levels_ok io (stored d) (used (asp env1)) limit (builder_put b1 l node) (ls[l := ls ! l])"
      using l(1) by (intro levels_ok_put) auto
    moreover have "on_disk io (stored d) (used (asp env1)) limit (Suc l) (DNode (nd_ptr node) (ls ! l))" if "wrc = Inr ()"
    proof -
      have "dnode_at io (stored d) (used (asp env1)) limit l (nd_ptr node) ?es"
        unfolding dnode_at_def using w(6) that ext by blast
      then show ?thesis using l(2) ts' by simp
    qed
    moreover have "advances 1 io good stored limit used b env b1 (env1\<lparr>dev := d\<rparr>)"
      using adv k w(2) by (simp add: advances_def)
    moreover have "\<forall>e. wrc = Inl e \<longrightarrow> failed d (asp env1)" using w(8) write_reports [OF g(1) _ ext(3)] by blast
    ultimately show ?thesis using w(1) al(3) by auto
  qed
  moreover have "node_pages io ?es * page_size io \<le> lvl_max io"
    using lv npages_le_iff [OF page] by (simp add: lvl_ok_def lvl_max_def lvl_pages_def node_pages_def)
  then have "\<forall>e. rc = Inl e \<longrightarrow> failed (dev env1) (asp env1)" using al(7) by auto
  ultimately show ?thesis using al(1-4) adv pg by (intro exI [of _ rc] exI [of _ b1] exI [of _ env1]) auto
qed

lemma flush_node:
  assumes ok: "levels_ok io (stored (dev env)) (used (asp env)) limit b ls" and g: "good (dev env)" "hm env = []"
    and l: "l < length ls" "ls ! l \<noteq> []"
  shows "\<exists>rc b' env'. ctree_builder_flush_node io al l b env = Some (rc, b', env') \<and>
    advances 1 io good stored limit used b env b' env' \<and>
    ((\<exists>e. rc = Inl e \<and> failed (dev env') (asp env')) \<or> (\<exists>p. rc = Inr (Some (dent (DNode p (ls ! l)))) \<and>
       levels_ok io (stored (dev env')) (used (asp env')) limit b' ls \<and>
       on_disk io (stored (dev env')) (used (asp env')) limit (Suc l) (DNode p (ls ! l))))"
proof -
  from write_level [OF assms] obtain rc b1 env1 where
    a: "ctree_builder_alloc al b (io_pages io (nd_bytes (cb_node b ! l))) env = (rc, b1, env1)"
      "cb_node b1 = cb_node b" "dev env1 = dev env" "hm env1 = []" "advances 1 io good stored limit used b env b1 env1"
      "\<forall>e. rc = Inl e \<longrightarrow> failed (dev env1) (asp env1)" and
    w: "\<And>off. rc = Inr off \<Longrightarrow> \<exists>wrc node d. ctree_node_write io (dev env1) (cb_node b ! l) off (int l) = Some (wrc, node, d) \<and>
       advances 1 io good stored limit used b env b1 (env1\<lparr>dev := d\<rparr>) \<and>
       (\<forall>e. wrc = Inl e \<longrightarrow> failed d (asp env1)) \<and>
       (wrc = Inr () \<longrightarrow>
          levels_ok io (stored d) (used (asp env1)) limit (builder_put b1 l node) ls \<and>
          on_disk io (stored d) (used (asp env1)) limit (Suc l) (DNode (nd_ptr node) (ls ! l)))"
    by blast
  have len: "\<not> length (cb_node b) \<le> l" "nd_entries (cb_node b ! l) \<noteq> 0"
    using ok l by (auto simp: levels_ok_def lvl_ok_def node_rep_def)
  show ?thesis
  proof (cases rc)
    case (Inl e)
    then show ?thesis using a len by (simp add: ctree_builder_flush_node_def Let_def)
  next
    case (Inr off)
    from w [OF this] obtain wrc node d where
      w1: "ctree_node_write io (dev env1) (cb_node b ! l) off (int l) = Some (wrc, node, d)"
        "advances 1 io good stored limit used b env b1 (env1\<lparr>dev := d\<rparr>)" "\<forall>e. wrc = Inl e \<longrightarrow> failed d (asp env1)" and
      w2: "wrc = Inr () \<longrightarrow>
          levels_ok io (stored d) (used (asp env1)) limit (builder_put b1 l node) ls \<and>
          on_disk io (stored d) (used (asp env1)) limit (Suc l) (DNode (nd_ptr node) (ls ! l))" by blast
    show ?thesis
    proof (cases wrc)
      case (Inl e)
      then show ?thesis using a len Inr w1 by (simp add: ctree_builder_flush_node_def Let_def)
    next
      case wok: (Inr u)
      then have lo: "levels_ok io (stored d) (used (asp env1)) limit (builder_put b1 l node) ls"
        and od: "on_disk io (stored d) (used (asp env1)) limit (Suc l) (DNode (nd_ptr node) (ls ! l))" using w2 by auto
      obtain t ts where t: "ls ! l = t # ts" using l(2) by (cases "ls ! l") auto
      have "lvl_ok io (cb_node (builder_put b1 l node) ! l) (map dent (ls ! l))"
        using lo l(1) by (simp add: levels_ok_def)
      then have "node_rep node (map dent (ls ! l))"
        using a(2) len by (simp add: lvl_ok_def builder_put_def)
      then have "ctree_node_key node 0 = Some (dkey t)"
        using node_rep_view [of node "map dent (ls ! l)"] t by (auto simp: node_view_def)
      then have "ctree_builder_flush_node io al l b env =
          Some (Inr (Some (dent (DNode (nd_ptr node) (ls ! l)))), builder_put b1 l node, env1\<lparr>dev := d\<rparr>)"
        using a len Inr wok w1 t by (simp add: ctree_builder_flush_node_def Let_def)
      then show ?thesis using w1(2) lo od by auto
    qed
  qed
qed

lemma reset_level:
  assumes ok: "levels_ok io S U lim b ls" and l: "l < length ls"
  shows "\<exists>b'. ctree_builder_reset_node l b = Some b' \<and> cb_reserved b' = cb_reserved b \<and>
    cb_ptr b' = cb_ptr b \<and> cb_height b' = cb_height b \<and>
    levels_ok io S U lim b' (ls[l := []])"
proof -
  have lv: "lvl_ok io (cb_node b ! l) (map dent (ls ! l))" using ok l by (simp add: levels_ok_def)
  then have "16 \<le> length (nd_buf (cb_node b ! l))" by (simp add: lvl_ok_def node_room_def)
  from reset_node [OF this] obtain node where n: "ctree_node_reset (cb_node b ! l) = Some node" "node_rep node []"
      "length (nd_buf node) = length (nd_buf (cb_node b ! l))" "length (nd_entry node) = length (nd_entry (cb_node b ! l))"
    by blast
  then have "lvl_ok io node []" using lv by (intro lvl_ok_fresh [OF page]) (auto simp: lvl_ok_def node_room_def)
  then have "levels_ok io S U lim (builder_put b l node) (ls[l := []])"
    using ok l by (intro levels_ok_put) auto
  then show ?thesis using n(1) by (simp add: ctree_builder_reset_node_def builder_put_def)
qed

text \<open>The outcome of appending a tree at a level.\<close>

lemma advances_keeps:
  "advances k io good stored limit used b env b' env' \<Longrightarrow> on_disk io (stored (dev env)) (used (asp env)) limit r t \<Longrightarrow>
   on_disk io (stored (dev env')) (used (asp env')) limit r t"
  unfolding advances_def using on_disk_keeps [OF _ page] by blast

lemma advances_good:
  "advances k io good stored limit used b env b' env' \<Longrightarrow> good (dev env') \<and> hm env' = []"
  by (simp add: advances_def)

lemma append_fresh:
  assumes ok: "levels_ok io (stored (dev env)) (used (asp env)) limit b ls" and g: "good (dev env)" "hm env = []"
    and l: "l = length ls" and t: "on_disk io (stored (dev env)) (used (asp env)) limit l t"
  shows "\<exists>b'. ctree_builder_append_at io al l (fst (dent t)) (snd (dent t)) b env = Some (Inr (), b', env) \<and>
    advances 0 io good stored limit used b env b' env \<and>
    levels_ok io (stored (dev env)) (used (asp env)) limit b' (ls @ [[t]])"
proof -
  from ensure_level [OF ok g(2), of l] l obtain b1 where
    e: "ctree_builder_ensure_level io b l env = Some (Inr (), b1, env)" "cb_reserved b1 = cb_reserved b"
      "levels_ok io (stored (dev env)) (used (asp env)) limit b1 (ls @ [[]])" by auto
  have "node_rep (cb_node b1 ! l) []" using e(3) l by (auto simp: levels_ok_def lvl_ok_def)
  then have can: "ctree_builder_can_append io b1 l 1 (length (fst (dent t)) + length (snd (dent t)))"
    by (simp add: ctree_builder_can_append_def ctree_node_can_append_def node_rep_def MIN_FANOUT_def Let_def)
  from add_entry [OF e(3) g(2) _ t surjective_pairing] l can obtain b2 where
    a: "ctree_builder_add io l (fst (dent t)) (snd (dent t)) b1 env = Some (Inr (), b2, env)"
      "cb_reserved b2 = cb_reserved b1"
      "levels_ok io (stored (dev env)) (used (asp env)) limit b2 (ls @ [[t]])" by auto
  have "ctree_builder_append_at io al l (fst (dent t)) (snd (dent t)) b env = Some (Inr (), b2, env)"
    using e(1) can a(1) by (subst ctree_builder_append_at.simps) simp
  then show ?thesis using a e(2) advances_refl [of good env b2 b] g by auto
qed

lemma append_room:
  assumes ok: "levels_ok io (stored (dev env)) (used (asp env)) limit b ls" and g: "good (dev env)" "hm env = []"
    and l: "l < length ls" and t: "on_disk io (stored (dev env)) (used (asp env)) limit l t" and last: "last ls \<noteq> []"
    and room: "ctree_builder_can_append io b l 1 (length (fst (dent t)) + length (snd (dent t)))"
  shows "\<exists>b'. ctree_builder_append_at io al l (fst (dent t)) (snd (dent t)) b env = Some (Inr (), b', env) \<and>
    advances 0 io good stored limit used b env b' env \<and>
    levels_ok io (stored (dev env)) (used (asp env)) limit b' (ls[l := ls ! l @ [t]]) \<and>
    last (ls[l := ls ! l @ [t]]) \<noteq> [] \<and> pending (ls[l := ls ! l @ [t]]) \<le> pending ls + 2 \<and>
    hflat (drop l (ls[l := ls ! l @ [t]])) = hflat (drop l ls) @ dflat t"
proof -
  have e: "ctree_builder_ensure_level io b l env = Some (Inr (), b, env)"
    using ensure_level [OF ok g(2), of l] l by auto
  from add_entry [OF ok g(2) l t surjective_pairing] room obtain b' where
    a: "ctree_builder_add io l (fst (dent t)) (snd (dent t)) b env = Some (Inr (), b', env)" "cb_reserved b' = cb_reserved b"
      "levels_ok io (stored (dev env)) (used (asp env)) limit b' (ls[l := ls ! l @ [t]])" by auto
  have "ctree_builder_append_at io al l (fst (dent t)) (snd (dent t)) b env = Some (Inr (), b', env)"
    using e room a(1) by (subst ctree_builder_append_at.simps) simp
  moreover have "last (ls[l := ls ! l @ [t]]) \<noteq> []" using l last by (intro last_update) auto
  moreover have "hflat (drop l (ls[l := ls ! l @ [t]])) = hflat (drop l ls) @ dflat t" using l by (simp add: hflat_drop)
  moreover have "pending (ls[l := ls ! l @ [t]]) \<le> pending ls + 2"
    using pending_update [OF l, of "ls ! l @ [t]"] by simp
  ultimately show ?thesis using a advances_refl [of good env b' b] g by auto
qed

text \<open>A full node has been written and its pointer passed on to the next level, which gives the levels
  \<open>ls'\<close>; the entry now goes into the emptied node.\<close>

lemma append_carried:
  assumes ok: "levels_ok io (stored (dev env)) (used (asp env)) limit b ls'" and m: "hm env = []"
    and t: "on_disk io (stored (dev env)) (used (asp env)) limit l t" and l: "l < length ls" "Suc l < length ls'"
    and ls': "last ls' \<noteq> []" "take (Suc l) ls' = take (Suc l) ls" "pending ls' + k \<le> pending ls + 3"
      "hflat (drop (Suc l) ls') = hflat (drop (Suc l) ls) @ dflat (DNode p (ls ! l))"
    and big: "100 \<le> length (ls ! l)"
  shows "\<exists>b3 b4. ctree_builder_reset_node l b = Some b3 \<and>
    ctree_builder_add io l (fst (dent t)) (snd (dent t)) b3 env = Some (Inr (), b4, env) \<and> cb_reserved b4 = cb_reserved b \<and>
    levels_ok io (stored (dev env)) (used (asp env)) limit b4 (ls'[l := [t]]) \<and> last (ls'[l := [t]]) \<noteq> [] \<and>
    take l (ls'[l := [t]]) = take l ls \<and> hflat (drop l (ls'[l := [t]])) = hflat (drop l ls) @ dflat t \<and>
    pending (ls'[l := [t]]) + Suc k \<le> pending ls + 2"
proof -
  from reset_level [OF ok, of l] l obtain b3 where
    b3: "ctree_builder_reset_node l b = Some b3" "cb_reserved b3 = cb_reserved b"
      "levels_ok io (stored (dev env)) (used (asp env)) limit b3 (ls'[l := []])" by auto
  from add_entry [OF b3(3) m _ t surjective_pairing] l obtain b4 where
    b4: "ctree_builder_add io l (fst (dent t)) (snd (dent t)) b3 env = Some (Inr (), b4, env)" "cb_reserved b4 = cb_reserved b3"
      "levels_ok io (stored (dev env)) (used (asp env)) limit b4 (ls'[l := [t]])" by auto
  have "last (ls'[l := [t]]) \<noteq> []" using l ls'(1) by (intro last_update) auto
  moreover have "take l (ls'[l := [t]]) = take l ls" using take_less [OF ls'(2)] by simp
  moreover have "hflat (drop l (ls'[l := [t]])) = hflat (drop l ls) @ dflat t" using ls'(4) l by (simp add: hflat_drop)
  moreover have "ls' ! l = ls ! l" using ls'(2) by (metis lessI nth_take)
  then have "pending (ls'[l := [t]]) + Suc k \<le> pending ls + 2"
    using pending_update [of l ls' "[t]"] l ls'(3) big by simp
  ultimately show ?thesis using b3 b4 by auto
qed

lemma append_at:
  "levels_ok io (stored (dev env)) (used (asp env)) limit b ls \<Longrightarrow> good (dev env) \<Longrightarrow> hm env = [] \<Longrightarrow>
   l \<le> length ls \<Longrightarrow> on_disk io (stored (dev env)) (used (asp env)) limit l t \<Longrightarrow> ls = [] \<or> last ls \<noteq> [] \<Longrightarrow>
   \<exists>rc b' env' k. ctree_builder_append_at io al l (fst (dent t)) (snd (dent t)) b env = Some (rc, b', env') \<and>
     advances k io good stored limit used b env b' env' \<and> k \<le> length ls - l \<and>
     ((\<exists>e. rc = Inl e \<and> failed (dev env') (asp env')) \<or> rc = Inr () \<and>
        (\<exists>ls'. levels_ok io (stored (dev env')) (used (asp env')) limit b' ls' \<and> l < length ls' \<and>
           length ls \<le> length ls' \<and> last ls' \<noteq> [] \<and> take l ls' = take l ls \<and>
           pending ls' + k \<le> pending ls + (if l < length ls then 2 else 3) \<and>
           hflat (drop l ls') = hflat (drop l ls) @ dflat t))"
proof (induction "length ls - l" arbitrary: ls l t b env rule: less_induct)
  case less
  note ok = less.prems(1) and g = less.prems(2,3) and t = less.prems(5)
  let ?k = "fst (dent t)" and ?v = "snd (dent t)"
  show ?case
  proof (cases "l < length ls")
    case False
    then have l: "l = length ls" using less.prems(4) by simp
    from append_fresh [OF ok g l t] obtain b' where
      "ctree_builder_append_at io al l ?k ?v b env = Some (Inr (), b', env)"
      "advances 0 io good stored limit used b env b' env"
      "levels_ok io (stored (dev env)) (used (asp env)) limit b' (ls @ [[t]])" by blast
    then show ?thesis using l by (intro exI conjI disjI2 exI [of _ "ls @ [[t]]"]) (auto simp: pending_snoc)
  next
    case l: True
    have e: "ctree_builder_ensure_level io b l env = Some (Inr (), b, env)"
      using ensure_level [OF ok g(2), of l] l by auto
    show ?thesis
    proof (cases "ctree_builder_can_append io b l 1 (length ?k + length ?v)")
      case True
      from append_room [OF ok g l t _ True] less.prems(6) l obtain b' where
        "ctree_builder_append_at io al l ?k ?v b env = Some (Inr (), b', env)"
        "advances 0 io good stored limit used b env b' env"
        "levels_ok io (stored (dev env)) (used (asp env)) limit b' (ls[l := ls ! l @ [t]])"
        "last (ls[l := ls ! l @ [t]]) \<noteq> []" "pending (ls[l := ls ! l @ [t]]) \<le> pending ls + 2"
        "hflat (drop l (ls[l := ls ! l @ [t]])) = hflat (drop l ls) @ dflat t" by auto
      then show ?thesis using l by (intro exI conjI disjI2 exI [of _ "ls[l := ls ! l @ [t]]"]) auto
    next
      case False
      have "node_rep (cb_node b ! l) (map dent (ls ! l))" using ok l by (auto simp: levels_ok_def lvl_ok_def)
      then have big: "100 \<le> length (ls ! l)"
        using False by (auto simp: ctree_builder_can_append_def ctree_node_can_append_def node_rep_def MIN_FANOUT_def Let_def)
      then have ne: "ls ! l \<noteq> []" by auto
      from flush_node [OF ok g l ne] obtain rc b1 env1 where
        f: "ctree_builder_flush_node io al l b env = Some (rc, b1, env1)"
          "advances 1 io good stored limit used b env b1 env1"
          "(\<exists>e. rc = Inl e \<and> failed (dev env1) (asp env1)) \<or> (\<exists>p. rc = Inr (Some (dent (DNode p (ls ! l)))) \<and>
             levels_ok io (stored (dev env1)) (used (asp env1)) limit b1 ls \<and>
             on_disk io (stored (dev env1)) (used (asp env1)) limit (Suc l) (DNode p (ls ! l)))" by blast
      show ?thesis
      proof (cases "\<exists>e. rc = Inl e")
        case True
        then have "ctree_builder_append_at io al l ?k ?v b env = Some (Inl (projl rc), b1, env1)"
          using e False f(1) by (subst ctree_builder_append_at.simps) auto
        moreover have "failed (dev env1) (asp env1)" "1 \<le> length ls - l" using f(3) True l by auto
        ultimately show ?thesis using f(2) by blast
      next
        case False2: False
        then obtain p where p: "rc = Inr (Some (dent (DNode p (ls ! l))))"
            "levels_ok io (stored (dev env1)) (used (asp env1)) limit b1 ls"
            "on_disk io (stored (dev env1)) (used (asp env1)) limit (Suc l) (DNode p (ls ! l))" using f(3) by blast
        let ?T = "DNode p (ls ! l)"
        have g1: "good (dev env1)" "hm env1 = []" using advances_good [OF f(2)] by auto
        have dec: "length ls - Suc l < length ls - l" using l by simp
        from less.hyps [OF dec p(2) g1 _ p(3) less.prems(6)] l obtain rc2 b2 env2 k where
          r: "ctree_builder_append_at io al (Suc l) (fst (dent ?T)) (snd (dent ?T)) b1 env1 = Some (rc2, b2, env2)"
            "advances k io good stored limit used b1 env1 b2 env2"
            "(\<exists>e. rc2 = Inl e \<and> failed (dev env2) (asp env2)) \<or> rc2 = Inr () \<and>
              (\<exists>ls'. levels_ok io (stored (dev env2)) (used (asp env2)) limit b2 ls' \<and> Suc l < length ls' \<and>
                 length ls \<le> length ls' \<and> last ls' \<noteq> [] \<and> take (Suc l) ls' = take (Suc l) ls \<and>
                 pending ls' + k \<le> pending ls + (if Suc l < length ls then 2 else 3) \<and>
                 hflat (drop (Suc l) ls') = hflat (drop (Suc l) ls) @ dflat ?T)"
            "k \<le> length ls - Suc l"
          by (metis Suc_leI)
        have k: "Suc k \<le> length ls - l" using r(4) l by simp
        have adv: "advances (Suc k) io good stored limit used b env b2 env2"
          using advances_trans [OF f(2) r(2)] by simp
        have unf: "ctree_builder_append_at io al l ?k ?v b env =
            (case rc2 of Inl err \<Rightarrow> Some (Inl err, b2, env2)
             | Inr _ \<Rightarrow> do { b \<leftarrow> ctree_builder_reset_node l b2; ctree_builder_add io l ?k ?v b env2 })"
          using e \<open>\<not> ctree_builder_can_append io b l 1 (length ?k + length ?v)\<close> f(1) p(1) r(1)
          by (subst ctree_builder_append_at.simps) simp
        show ?thesis
        proof (cases rc2)
          case (Inl err)
          then show ?thesis using unf adv r(3) k by auto
        next
          case (Inr u)
          with r(3) obtain ls' where
            ls': "levels_ok io (stored (dev env2)) (used (asp env2)) limit b2 ls'" "Suc l < length ls'"
              "length ls \<le> length ls'" "last ls' \<noteq> []" "take (Suc l) ls' = take (Suc l) ls"
              "hflat (drop (Suc l) ls') = hflat (drop (Suc l) ls) @ dflat ?T"
              "pending ls' + k \<le> pending ls + 3" by (auto split: if_splits)
          have g2: "hm env2 = []" "good (dev env2)" using advances_good [OF adv] by auto
          have t2: "on_disk io (stored (dev env2)) (used (asp env2)) limit l t" by (rule advances_keeps [OF adv t])
          from append_carried [OF ls'(1) g2(1) t2 l ls'(2,4,5,7,6)] big obtain b3 b4 where
            b3: "ctree_builder_reset_node l b2 = Some b3" and
            b4: "ctree_builder_add io l ?k ?v b3 env2 = Some (Inr (), b4, env2)" "cb_reserved b4 = cb_reserved b2"
              "levels_ok io (stored (dev env2)) (used (asp env2)) limit b4 (ls'[l := [t]])" "last (ls'[l := [t]]) \<noteq> []"
              "take l (ls'[l := [t]]) = take l ls" "hflat (drop l (ls'[l := [t]])) = hflat (drop l ls) @ dflat t"
              "pending (ls'[l := [t]]) + Suc k \<le> pending ls + 2" by auto
          have "ctree_builder_append_at io al l ?k ?v b env = Some (Inr (), b4, env2)"
            using unf Inr b3 b4(1) by simp
          moreover have "advances (Suc k) io good stored limit used b env b4 env2"
            by (rule advances_reserved [OF adv]) (rule b4(2))
          ultimately show ?thesis
            using b4(3-7) ls'(2,3) l k by (intro exI conjI disjI2 exI [of _ "ls'[l := [t]]"]) auto
        qed
      qed
    qed
  qed
qed

text \<open>Flushing a level that is not the top one moves what it holds one level up.\<close>

lemma flush_level:
  assumes ok: "levels_ok io (stored (dev env)) (used (asp env)) limit b ls" and g: "good (dev env)" "hm env = []"
    and l: "Suc l < length ls" and last: "last ls \<noteq> []"
  shows "\<exists>rc b' env' k. ctree_builder_flush io al l b env = Some (rc, b', env') \<and>
    advances k io good stored limit used b env b' env' \<and> k \<le> length ls - l \<and>
    ((\<exists>e. rc = Inl e \<and> failed (dev env') (asp env')) \<or> rc = Inr () \<and>
       (\<exists>ls'. levels_ok io (stored (dev env')) (used (asp env')) limit b' ls' \<and> length ls \<le> length ls' \<and>
          last ls' \<noteq> [] \<and> take l ls' = take l ls \<and> ls' ! l = [] \<and> pending ls' \<le> pending ls \<and>
          pending ls' + k \<le> pending ls + 1 \<and> hflat (drop l ls') = hflat (drop l ls)))"
proof (cases "ls ! l = []")
  case True
  have l': "l < length ls" using l by simp
  have "nd_entries (cb_node b ! l) = 0" "\<not> length (cb_node b) \<le> l"
    using ok l' True by (auto simp: levels_ok_def lvl_ok_def node_rep_def)
  then have "ctree_builder_flush io al l b env = Some (Inr (), b, env)"
    by (simp add: ctree_builder_flush_def ctree_builder_flush_node_def Let_def)
  then show ?thesis
    using ok last True advances_refl [of good env b b] g by (intro exI conjI disjI2 exI [of _ ls]) auto
next
  case ne: False
  have l': "l < length ls" using l by simp
  from flush_node [OF ok g l' ne] obtain rc b1 env1 where
    f: "ctree_builder_flush_node io al l b env = Some (rc, b1, env1)"
      "advances 1 io good stored limit used b env b1 env1"
      "(\<exists>e. rc = Inl e \<and> failed (dev env1) (asp env1)) \<or> (\<exists>p. rc = Inr (Some (dent (DNode p (ls ! l)))) \<and>
         levels_ok io (stored (dev env1)) (used (asp env1)) limit b1 ls \<and>
         on_disk io (stored (dev env1)) (used (asp env1)) limit (Suc l) (DNode p (ls ! l)))" by blast
  show ?thesis
  proof (cases rc)
    case (Inl e)
    then have "ctree_builder_flush io al l b env = Some (Inl e, b1, env1)" using f(1) by (simp add: ctree_builder_flush_def)
    moreover have "1 \<le> length ls - l" using l by simp
    moreover have "failed (dev env1) (asp env1)" using f(3) Inl by simp
    ultimately show ?thesis using f(2) by blast
  next
    case (Inr u)
    then obtain p where p: "rc = Inr (Some (dent (DNode p (ls ! l))))"
        "levels_ok io (stored (dev env1)) (used (asp env1)) limit b1 ls"
        "on_disk io (stored (dev env1)) (used (asp env1)) limit (Suc l) (DNode p (ls ! l))" using f(3) by auto
    let ?T = "DNode p (ls ! l)"
    have g1: "good (dev env1)" "hm env1 = []" using advances_good [OF f(2)] by auto
    from append_at [OF p(2) g1 Suc_leI [OF l'] p(3) disjI2 [OF last], unfolded if_P [OF l]] obtain rc2 b2 env2 k where
      r: "ctree_builder_append_at io al (Suc l) (fst (dent ?T)) (snd (dent ?T)) b1 env1 = Some (rc2, b2, env2)"
        "advances k io good stored limit used b1 env1 b2 env2"
        "(\<exists>e. rc2 = Inl e \<and> failed (dev env2) (asp env2)) \<or> rc2 = Inr () \<and>
          (\<exists>ls'. levels_ok io (stored (dev env2)) (used (asp env2)) limit b2 ls' \<and> Suc l < length ls' \<and>
             length ls \<le> length ls' \<and> last ls' \<noteq> [] \<and> take (Suc l) ls' = take (Suc l) ls \<and>
             pending ls' + k \<le> pending ls + 2 \<and> hflat (drop (Suc l) ls') = hflat (drop (Suc l) ls) @ dflat ?T)"
        "k \<le> length ls - Suc l"
      by blast
    have k: "Suc k \<le> length ls - l" using r(4) l by simp
    have adv: "advances (Suc k) io good stored limit used b env b2 env2"
      using advances_trans [OF f(2) r(2)] by simp
    show ?thesis
    proof (cases rc2)
      case (Inl err)
      then have "ctree_builder_flush io al l b env = Some (Inl err, b2, env2)" "failed (dev env2) (asp env2)"
        using f(1) p(1) r(1,3) by (simp_all add: ctree_builder_flush_def)
      then show ?thesis using adv k by blast
    next
      case (Inr u)
      with r(3) obtain ls' where
        ls': "levels_ok io (stored (dev env2)) (used (asp env2)) limit b2 ls'" "Suc l < length ls'"
          "length ls \<le> length ls'" "last ls' \<noteq> []" "take (Suc l) ls' = take (Suc l) ls"
          "pending ls' + k \<le> pending ls + 2" "hflat (drop (Suc l) ls') = hflat (drop (Suc l) ls) @ dflat ?T" by auto
      from reset_level [OF ls'(1), of l] ls'(2) obtain b3 where
        b3: "ctree_builder_reset_node l b2 = Some b3" "cb_reserved b3 = cb_reserved b2"
          "levels_ok io (stored (dev env2)) (used (asp env2)) limit b3 (ls'[l := []])" by auto
      have "ctree_builder_flush io al l b env = Some (Inr (), b3, env2)"
        using f(1) p(1) r(1) Inr b3(1) by (simp add: ctree_builder_flush_def)
      moreover have "last (ls'[l := []]) \<noteq> []"
        using ls'(2,4) by (cases "ls' = []") (auto simp: last_conv_nth)
      moreover have "take l (ls'[l := []]) = take l ls" using take_less [OF ls'(5)] by simp
      moreover have same: "ls' ! l = ls ! l" using ls'(5) by (metis lessI nth_take)
      then have "pending (ls'[l := []]) + Suc k \<le> pending ls + 1"
        using pending_update [of l ls' "[]"] ls'(2,6) ne by (cases "ls ! l") auto
      moreover have "hflat (drop l (ls'[l := []])) = hflat (drop l ls)"
        using ls'(2,7) l' by (simp add: hflat_drop)
      ultimately show ?thesis
        using b3(3) ls'(2,3) k advances_reserved [OF adv b3(2)] by (intro exI conjI disjI2 exI [of _ "ls'[l := []]"]) auto
    qed
  qed
qed

text \<open>The loop ends, with everything in the top level.\<close>

lemma hflat_empty: "\<forall>i < length ls. ls ! i = [] \<Longrightarrow> hflat ls = []"
  by (induction ls) force+

lemma hflat_top:
  assumes "l < length ls" and "\<forall>i < l. ls ! i = []"
  shows "hflat ls = hflat (drop l ls)"
proof -
  have "hflat (take l ls) = []" using assms by (intro hflat_empty) simp
  moreover have "hflat ls = hflat (drop l ls) @ hflat (take l ls)"
    using hflat_append [of "take l ls" "drop l ls"] by simp
  ultimately show ?thesis by simp
qed

lemma finish_loop:
  "levels_ok io (stored (dev env)) (used (asp env)) limit b ls \<Longrightarrow> good (dev env) \<Longrightarrow> hm env = [] \<Longrightarrow>
   ls = [] \<or> last ls \<noteq> [] \<Longrightarrow> \<forall>i < l. ls ! i = [] \<Longrightarrow> l < length ls \<or> l = 0 \<Longrightarrow>
   \<exists>rc b' env'. ctree_builder_finish_loop io al l b env = Some (rc, b', env') \<and>
     advances (pending ls - l) io good stored limit used b env b' env' \<and>
     ((\<exists>e. rc = Inl e \<and> failed (dev env') (asp env')) \<or> (\<exists>top ls'. rc = Inr top \<and>
        levels_ok io (stored (dev env')) (used (asp env')) limit b' ls' \<and> length ls \<le> length ls' \<and> length ls' \<le> pending ls \<and>
        (ls' = [] \<longrightarrow> top = 0) \<and> (ls' \<noteq> [] \<longrightarrow> Suc top = length ls') \<and> (ls' = [] \<or> last ls' \<noteq> []) \<and>
        (\<forall>i < top. ls' ! i = []) \<and> hflat ls' = hflat ls \<and> (Suc l \<ge> length ls \<longrightarrow> ls' = ls)))"
proof (induction "pending ls - l" arbitrary: l ls b env rule: less_induct)
  case less
  note ok = less.prems(1) and g = less.prems(2,3)
  have len: "length (cb_node b) = length ls" using ok by (simp add: levels_ok_def)
  show ?case
  proof (cases "Suc l < length ls")
    case False
    then have "ctree_builder_finish_loop io al l b env = Some (Inr l, b, env)"
      using len by (subst ctree_builder_finish_loop.simps) simp
    moreover have "ls = [] \<longrightarrow> l = 0" "ls \<noteq> [] \<longrightarrow> Suc l = length ls" using False less.prems(6) by (cases ls; auto)+
    moreover have "advances (pending ls - l) io good stored limit used b env b env"
      using advances_refl [of good env b b] g by blast
    ultimately show ?thesis using ok less.prems(4,5) pending_length [of ls] by (metis order_refl)
  next
    case True
    have last: "last ls \<noteq> []" using less.prems(4) True by auto
    from flush_level [OF ok g True last] obtain rc b1 env1 k where
      f: "ctree_builder_flush io al l b env = Some (rc, b1, env1)" "advances k io good stored limit used b env b1 env1"
        "(\<exists>e. rc = Inl e \<and> failed (dev env1) (asp env1)) \<or> rc = Inr () \<and>
          (\<exists>ls'. levels_ok io (stored (dev env1)) (used (asp env1)) limit b1 ls' \<and> length ls \<le> length ls' \<and>
             last ls' \<noteq> [] \<and> take l ls' = take l ls \<and> ls' ! l = [] \<and> pending ls' \<le> pending ls \<and>
             pending ls' + k \<le> pending ls + 1 \<and> hflat (drop l ls') = hflat (drop l ls))" "k \<le> length ls - l" by blast
    have "l < pending ls" using True pending_length [of ls] by simp
    have cost: "k \<le> pending ls - l" using f(4) pending_length [of ls] by linarith
    show ?thesis
    proof (cases rc)
      case (Inl e)
      then have "ctree_builder_finish_loop io al l b env = Some (Inl e, b1, env1)"
        using True len f(1) by (subst ctree_builder_finish_loop.simps) simp
      moreover have "failed (dev env1) (asp env1)" using f(3) Inl by auto
      moreover have "advances (pending ls - l) io good stored limit used b env b1 env1"
        using cost by (intro advances_mono [OF f(2)]) simp
      ultimately show ?thesis by blast
    next
      case (Inr u)
      with f(3) obtain ls1 where
        ls1: "levels_ok io (stored (dev env1)) (used (asp env1)) limit b1 ls1" "length ls \<le> length ls1"
          "last ls1 \<noteq> []" "take l ls1 = take l ls" "ls1 ! l = []" "pending ls1 \<le> pending ls"
          "hflat (drop l ls1) = hflat (drop l ls)" "pending ls1 + k \<le> pending ls + 1" by auto
      have g1: "good (dev env1)" "hm env1 = []" using advances_good [OF f(2)] by auto
      have low: "\<forall>i < Suc l. ls1 ! i = []"
        using less.prems(5) ls1(4,5) by (metis less_Suc_eq nth_take)
      have dec: "pending ls1 - Suc l < pending ls - l" using ls1(6) \<open>l < pending ls\<close> by simp
      have "Suc l < length ls1 \<or> Suc l = 0" using True ls1(2) by simp
      from less.hyps [OF dec ls1(1) g1 disjI2 [OF ls1(3)] low this] obtain rc2 b2 env2 where
        r: "ctree_builder_finish_loop io al (Suc l) b1 env1 = Some (rc2, b2, env2)"
          "advances (pending ls1 - Suc l) io good stored limit used b1 env1 b2 env2"
          "(\<exists>e. rc2 = Inl e \<and> failed (dev env2) (asp env2)) \<or> (\<exists>top ls'. rc2 = Inr top \<and>
             levels_ok io (stored (dev env2)) (used (asp env2)) limit b2 ls' \<and> length ls1 \<le> length ls' \<and> length ls' \<le> pending ls1 \<and>
             (ls' = [] \<longrightarrow> top = 0) \<and> (ls' \<noteq> [] \<longrightarrow> Suc top = length ls') \<and> (ls' = [] \<or> last ls' \<noteq> []) \<and>
             (\<forall>i < top. ls' ! i = []) \<and> hflat ls' = hflat ls1)" by blast
      have run: "ctree_builder_finish_loop io al l b env = Some (rc2, b2, env2)"
        using True len f(1) Inr r(1) by (subst ctree_builder_finish_loop.simps) simp
      have "hflat ls1 = hflat ls"
        using hflat_top [of l ls1] hflat_top [of l ls] low less.prems(5) ls1(2,7) True by simp
      note hf = this
      have "k + (pending ls1 - Suc l) \<le> pending ls - l"
        using ls1(2,8) True pending_length [of ls1] by linarith
      then have adv: "advances (pending ls - l) io good stored limit used b env b2 env2"
        by (rule advances_mono [OF advances_trans [OF f(2) r(2)]])
      show ?thesis
      proof (cases rc2)
        case (Inl e)
        then have "failed (dev env2) (asp env2)" using r(3) by auto
        then show ?thesis using run adv Inl by blast
      next
        case (Inr top)
        with r(3) obtain ls' where ls': "levels_ok io (stored (dev env2)) (used (asp env2)) limit b2 ls'"
          "length ls1 \<le> length ls'" "ls' = [] \<longrightarrow> top = 0" "ls' \<noteq> [] \<longrightarrow> Suc top = length ls'"
          "ls' = [] \<or> last ls' \<noteq> []" "\<forall>i < top. ls' ! i = []" "hflat ls' = hflat ls1"
          "length ls' \<le> pending ls1" by auto
        have "length ls' \<le> pending ls" "length ls \<le> length ls'" "hflat ls' = hflat ls" "\<not> length ls \<le> Suc l"
          using ls1(2,6) ls'(2,7,8) hf True by simp_all
        then show ?thesis using run adv ls' Inr by blast
      qed
    qed
  qed
qed

lemma finish_root:
  assumes f: "ctree_builder_finish_loop io al 0 b env = Some (Inr hi, b1, env1)"
      "advances n io good stored limit used b env b1 env1"
    and ok: "levels_ok io (stored (dev env1)) (used (asp env1)) limit b1 ls'"
    and t: "Suc hi = length ls'" "hi < length ls'" "ls' ! hi \<noteq> []" and False: "hi \<noteq> 0"
    and low: "\<forall>i < hi. ls' ! i = []"
  shows "\<exists>rc b' env'. ctree_builder_finish io al b env = Some (rc, b', env') \<and>
    advances (n + 1) io good stored limit used b env b' env' \<and>
    ((\<exists>e. rc = Inl e \<and> failed (dev env') (asp env')) \<or> rc = Inr () \<and> cb_height b' = Suc hi \<and>
       ctree_on io (stored (dev env')) (used (asp env')) limit (cb_ptr b') (Suc hi) (hflat ls'))"
proof -
  have g1: "good (dev env1)" "hm env1 = []" using advances_good [OF f(2)] by auto
  from write_level [OF ok g1 t(2,3)] obtain rc2 b2 env2 where
    a: "ctree_builder_alloc al b1 (io_pages io (nd_bytes (cb_node b1 ! hi))) env1 = (rc2, b2, env2)"
      "cb_node b2 = cb_node b1" "dev env2 = dev env1" "advances 1 io good stored limit used b1 env1 b2 env2"
      "\<forall>e. rc2 = Inl e \<longrightarrow> failed (dev env2) (asp env2)" and
    w: "\<forall>off. rc2 = Inr off \<longrightarrow> (\<exists>wrc node d. ctree_node_write io (dev env2) (cb_node b1 ! hi) off (int hi) = Some (wrc, node, d) \<and>
       advances 1 io good stored limit used b1 env1 b2 (env2\<lparr>dev := d\<rparr>) \<and>
       (\<forall>e. wrc = Inl e \<longrightarrow> failed d (asp env2)) \<and>
       (wrc = Inr () \<longrightarrow>
          levels_ok io (stored d) (used (asp env2)) limit (builder_put b2 hi node) ls' \<and>
          on_disk io (stored d) (used (asp env2)) limit (Suc hi) (DNode (nd_ptr node) (ls' ! hi))))" by blast
  show ?thesis
  proof (cases rc2)
    case (Inl e)
    then have "ctree_builder_finish io al b env = Some (Inl e, b2, env2)"
      using f(1) False a(1) by (simp add: ctree_builder_finish_def Let_def)
    then show ?thesis using advances_trans [OF f(2) a(4)] a(5) Inl by blast
  next
    case off: (Inr off)
    with w obtain wrc node d where
      w1: "ctree_node_write io (dev env2) (cb_node b1 ! hi) off (int hi) = Some (wrc, node, d)"
        "advances 1 io good stored limit used b1 env1 b2 (env2\<lparr>dev := d\<rparr>)"
        "\<forall>e. wrc = Inl e \<longrightarrow> failed d (asp env2)" and
      w2: "wrc = Inr () \<longrightarrow> levels_ok io (stored d) (used (asp env2)) limit (builder_put b2 hi node) ls' \<and>
          on_disk io (stored d) (used (asp env2)) limit (Suc hi) (DNode (nd_ptr node) (ls' ! hi))" by blast
    have adv: "advances (n + 1) io good stored limit used b env b2 (env2\<lparr>dev := d\<rparr>)"
      by (rule advances_trans [OF f(2) w1(2)])
    show ?thesis
    proof (cases wrc)
      case (Inl e)
      then have "ctree_builder_finish io al b env = Some (Inl e, builder_put b2 hi node, env2\<lparr>dev := d\<rparr>)"
        using f(1) False a off w1(1) by (simp add: ctree_builder_finish_def Let_def)
      then show ?thesis using adv w1(3) Inl by auto
    next
      case wok: (Inr u)
      let ?b3 = "(builder_put b2 hi node)\<lparr>cb_ptr := nd_ptr node, cb_height := hi + 1\<rparr>"
      have "levels_ok io (stored d) (used (asp env2)) limit ?b3 ls'"
        using w2 wok by (simp add: levels_ok_def)
      from reset_level [OF this t(2)] obtain b4 where
        b4: "ctree_builder_reset_node hi ?b3 = Some b4" "cb_reserved b4 = cb_reserved ?b3"
          "cb_ptr b4 = nd_ptr node" "cb_height b4 = hi + 1" by auto
      have "ctree_builder_finish io al b env = Some (Inr (), b4, env2\<lparr>dev := d\<rparr>)"
        using f(1) False a off w1(1) wok b4(1) by (simp add: ctree_builder_finish_def Let_def)
      moreover have "advances (n + 1) io good stored limit used b env b4 (env2\<lparr>dev := d\<rparr>)"
        by (rule advances_reserved [OF adv]) (simp add: b4(2) builder_put_def)
      moreover have "dflat (DNode (nd_ptr node) (ls' ! hi)) = hflat ls'"
        using hflat_top [OF t(2) low] hflat_drop [OF t(2)] t(1) by simp
      ultimately show ?thesis using b4 w2 wok by (auto simp: ctree_on_def)
    qed
  qed
qed

lemma finish:
  assumes ok: "levels_ok io (stored (dev env)) (used (asp env)) limit b ls" and g: "good (dev env)" "hm env = []"
    and last: "ls = [] \<or> last ls \<noteq> []"
  shows "\<exists>rc b' env'. ctree_builder_finish io al b env = Some (rc, b', env') \<and>
    advances (pending ls + 1) io good stored limit used b env b' env' \<and>
    ((\<exists>e. rc = Inl e \<and> failed (dev env') (asp env')) \<or> rc = Inr () \<and>
       (if length ls \<le> 1 then cb_height b' = 0 \<and> cb_ptr b' = ptr_null
        else 2 \<le> cb_height b' \<and> cb_height b' \<le> pending ls \<and>
          ctree_on io (stored (dev env')) (used (asp env')) limit (cb_ptr b') (cb_height b') (hflat ls)))"
proof -
  from finish_loop [OF ok g last, of 0, simplified] obtain rc b1 env1 where
    f: "ctree_builder_finish_loop io al 0 b env = Some (rc, b1, env1)" "advances (pending ls) io good stored limit used b env b1 env1" and
    r: "(\<exists>e. rc = Inl e \<and> failed (dev env1) (asp env1)) \<or> (\<exists>top ls'. rc = Inr top \<and>
        levels_ok io (stored (dev env1)) (used (asp env1)) limit b1 ls' \<and> length ls \<le> length ls' \<and> length ls' \<le> pending ls \<and>
        (ls' = [] \<longrightarrow> top = 0) \<and> (ls' \<noteq> [] \<longrightarrow> Suc top = length ls') \<and> (ls' = [] \<or> last ls' \<noteq> []) \<and>
        (\<forall>i < top. ls' ! i = []) \<and> hflat ls' = hflat ls \<and> (length ls \<le> Suc 0 \<longrightarrow> ls' = ls))"
    by blast
  note f2 = advances_mono [OF f(2), of "pending ls + 1", simplified]
  show ?thesis
  proof (cases rc)
    case (Inl e)
    then show ?thesis using f(1) f2 r by (simp add: ctree_builder_finish_def)
  next
    case (Inr top)
    with r obtain ls' where
      ls': "levels_ok io (stored (dev env1)) (used (asp env1)) limit b1 ls'" "length ls \<le> length ls'"
        "ls' = [] \<longrightarrow> top = 0" "ls' \<noteq> [] \<longrightarrow> Suc top = length ls'" "ls' = [] \<or> last ls' \<noteq> []"
        "\<forall>i < top. ls' ! i = []" "hflat ls' = hflat ls" "length ls \<le> Suc 0 \<longrightarrow> ls' = ls"
        "length ls' \<le> pending ls" by auto
    have top: "top = 0 \<longleftrightarrow> length ls \<le> 1" using ls' by (cases "ls' = []") auto
    show ?thesis
    proof (cases "top = 0")
      case True
      let ?b = "b1\<lparr>cb_ptr := ptr_null, cb_height := 0\<rparr>"
      have "ctree_builder_finish io al b env = Some (Inr (), ?b, env1)"
        using f(1) Inr True by (simp add: ctree_builder_finish_def)
      moreover have "advances (pending ls + 1) io good stored limit used b env ?b env1"
        using advances_reserved [OF f2, of ?b] by simp
      ultimately show ?thesis using top True by simp
    next
      case False
      then have t: "Suc top = length ls'" "top < length ls'" "ls' ! top \<noteq> []"
      proof -
        have ne: "ls' \<noteq> []" using False ls'(3) by auto
        then show len: "Suc top = length ls'" using ls'(4) by blast
        then show "top < length ls'" by simp
        have "length ls' - 1 = top" using len by simp
        then show "ls' ! top \<noteq> []" using ne ls'(5) by (simp add: last_conv_nth)
      qed
      from finish_root [OF f(1) [unfolded Inr] f(2) ls'(1) t False ls'(6)] show ?thesis
        using ls'(7,9) t(1) top False by auto
    qed
  qed
qed

end

section \<open>Building a tree\<close>

text \<open>A whole build, as \<open>ctree_build\<close> of the tests and the merges of \<open>lsm.c\<close> run it.\<close>

fun ctree_builder_append_all ::
    "'d io \<Rightarrow> 'a alloc_ops \<Rightarrow> kv list \<Rightarrow> ctree_builder \<Rightarrow> ('d, 'a) env \<Rightarrow>
     ((errno + unit) \<times> ctree_builder \<times> ('d, 'a) env) option" where
  "ctree_builder_append_all io al [] b env = Some (Inr (), b, env)"
| "ctree_builder_append_all io al (e # es) b env = do {
     (rc, b, env) \<leftarrow> ctree_builder_append io al (fst e) (snd e) b env;
     (case rc of Inl err \<Rightarrow> Some (Inl err, b, env) | Inr _ \<Rightarrow> ctree_builder_append_all io al es b env) }"

definition ctree_build ::
    "'d io \<Rightarrow> 'a alloc_ops \<Rightarrow> kv list \<Rightarrow> ('d, 'a) env \<Rightarrow> ((errno + unit) \<times> ctree_builder \<times> ('d, 'a) env) option" where
  "ctree_build io al es env = do {
     (rc, b, env) \<leftarrow> ctree_builder_append_all io al es ctree_builder_setup env;
     (case rc of Inl err \<Rightarrow> Some (Inl err, b, env) | Inr _ \<Rightarrow> ctree_builder_finish io al b env) }"

text \<open>Entries that every level of a tree can take.\<close>

definition entry_ok :: "kv \<Rightarrow> bool" where
  "entry_ok e \<longleftrightarrow> entry_small e \<and> length (fst e) \<le> 4000"

context page_storage
begin

lemma append_all_levels:
  "levels_ok io (stored (dev env)) (used (asp env)) limit b ls \<Longrightarrow> good (dev env) \<Longrightarrow> hm env = [] \<Longrightarrow>
   ls = [] \<or> last ls \<noteq> [] \<Longrightarrow> \<forall>e \<in> set es. entry_ok e \<Longrightarrow>
   \<exists>rc b' env' k. ctree_builder_append_all io al es b env = Some (rc, b', env') \<and>
     advances k io good stored limit used b env b' env' \<and> k \<le> pending ls + 3 * length es \<and>
     ((\<exists>e. rc = Inl e \<and> failed (dev env') (asp env')) \<or> rc = Inr () \<and>
        (\<exists>ls'. levels_ok io (stored (dev env')) (used (asp env')) limit b' ls' \<and>
           (ls' = [] \<or> last ls' \<noteq> []) \<and> hflat ls' = hflat ls @ es \<and>
           pending ls' + k \<le> pending ls + 3 * length es))"
proof (induction es arbitrary: b ls env)
  case Nil
  then show ?case using advances_refl [of good env b b 0] by (intro exI [of _ "Inr ()"] exI [of _ b] exI [of _ env] exI [of _ 0]) auto
next
  case (Cons e es)
  have t: "on_disk io (stored (dev env)) (used (asp env)) limit 0 (DEntry e)"
    using Cons.prems(5) by (simp add: entry_ok_def)
  from append_at [OF Cons.prems(1-3) _ t Cons.prems(4)] obtain rc b1 env1 k where
    r: "ctree_builder_append io al (fst e) (snd e) b env = Some (rc, b1, env1)"
      "advances k io good stored limit used b env b1 env1" "k \<le> length ls"
      "(\<exists>e. rc = Inl e \<and> failed (dev env1) (asp env1)) \<or> rc = Inr () \<and>
        (\<exists>ls'. levels_ok io (stored (dev env1)) (used (asp env1)) limit b1 ls' \<and> last ls' \<noteq> [] \<and>
           hflat ls' = hflat ls @ [e] \<and> pending ls' + k \<le> pending ls + 3)"
    by (fastforce simp: ctree_builder_append_def split: if_splits)
  show ?case
  proof (cases rc)
    case (Inl err)
    moreover have "k \<le> pending ls + 3 * length (e # es)" using r(3) pending_length [of ls] by simp
    ultimately show ?thesis using r by auto
  next
    case (Inr u)
    with r(4) obtain ls' where ls': "levels_ok io (stored (dev env1)) (used (asp env1)) limit b1 ls'"
        "last ls' \<noteq> []" "hflat ls' = hflat ls @ [e]" "pending ls' + k \<le> pending ls + 3" by auto
    have g1: "good (dev env1)" "hm env1 = []" using advances_good [OF r(2)] by auto
    have "\<forall>e \<in> set es. entry_ok e" using Cons.prems(5) by simp
    from Cons.IH [OF ls'(1) g1 disjI2 [OF ls'(2)] this] obtain rc2 b2 env2 k2 where
      q: "ctree_builder_append_all io al es b1 env1 = Some (rc2, b2, env2)"
      "advances k2 io good stored limit used b1 env1 b2 env2" "k2 \<le> pending ls' + 3 * length es"
      "(\<exists>e. rc2 = Inl e \<and> failed (dev env2) (asp env2)) \<or> rc2 = Inr () \<and>
        (\<exists>ls''. levels_ok io (stored (dev env2)) (used (asp env2)) limit b2 ls'' \<and>
           (ls'' = [] \<or> last ls'' \<noteq> []) \<and> hflat ls'' = hflat ls' @ es \<and> pending ls'' + k2 \<le> pending ls' + 3 * length es)"
      by blast
    have "ctree_builder_append_all io al (e # es) b env = Some (rc2, b2, env2)" using r(1) Inr q(1) by simp
    moreover have "k + k2 \<le> pending ls + 3 * length (e # es)" using q(3) ls'(4) by simp
    moreover have "pending ls'' + (k + k2) \<le> pending ls + 3 * length (e # es)"
      if "pending ls'' + k2 \<le> pending ls' + 3 * length es" for ls'' using that ls'(4) by simp
    ultimately show ?thesis using advances_trans [OF r(2) q(2)] q(4) ls'(3) by fastforce
  qed
qed

lemma levels_ok_setup: "levels_ok io S U lim ctree_builder_setup []"
  by (simp add: levels_ok_def ctree_builder_setup_def)

lemma reserved_setup: "reserved_ok U0 limit ctree_builder_setup U0"
  by (simp add: reserved_ok_def ctree_builder_setup_def)

lemma single_level:
  assumes "levels_ok io S U lim b ls" and "length ls \<le> 1"
  shows "node_bytes (hflat ls) \<le> lvl_max io"
proof (cases ls)
  case Nil
  then show ?thesis using lvl_max_bounds(2) [OF page] by (simp add: node_bytes_def)
next
  case (Cons ts ls')
  then have ls: "ls = [ts]" using assms(2) by simp
  then have lv: "lvl_ok io (cb_node b ! 0) (map dent ts)" and "\<forall>t \<in> set ts. on_disk io S U lim 0 t"
    using assms(1) by (auto simp: levels_ok_def)
  then have "\<forall>t \<in> set ts. dflat t = [dent t]" using on_disk_0 by fastforce
  then have "concat (map dflat ts) = map dent ts" by (induction ts) auto
  then show ?thesis using lv ls by (simp add: lvl_ok_def)
qed

lemma create_levels:
  assumes "good (dev env)" and "hm env = []" and "\<forall>e \<in> set es. entry_ok e"
  shows "\<exists>rc b env'. ctree_build io al es env = Some (rc, b, env') \<and>
    advances (3 * length es + 1) io good stored limit used ctree_builder_setup env b env' \<and>
    ((\<exists>e. rc = Inl e \<and> failed (dev env') (asp env')) \<or> rc = Inr () \<and>
       (cb_height b = 0 \<and> cb_ptr b = ptr_null \<and> node_bytes es \<le> lvl_max io \<or>
          2 \<le> cb_height b \<and> cb_height b \<le> 3 * length es \<and>
          ctree_on io (stored (dev env')) (used (asp env')) limit (cb_ptr b) (cb_height b) es))"
proof -
  let ?n = "length es"
  from append_all_levels [OF levels_ok_setup assms(1,2) _ assms(3)] obtain rc b1 env1 k where
    a: "ctree_builder_append_all io al es ctree_builder_setup env = Some (rc, b1, env1)"
      "advances k io good stored limit used ctree_builder_setup env b1 env1" "k \<le> 3 * ?n"
      "(\<exists>e. rc = Inl e \<and> failed (dev env1) (asp env1)) \<or> rc = Inr () \<and>
        (\<exists>ls'. levels_ok io (stored (dev env1)) (used (asp env1)) limit b1 ls' \<and>
           (ls' = [] \<or> last ls' \<noteq> []) \<and> hflat ls' = es \<and> pending ls' + k \<le> 3 * ?n)"
    by (simp add: pending_def) blast
  show ?thesis
  proof (cases rc)
    case (Inl err)
    moreover have "advances (3 * ?n + 1) io good stored limit used ctree_builder_setup env b1 env1"
      by (rule advances_mono [OF a(2)]) (use a(3) in simp)
    ultimately show ?thesis using a(1,4) by (simp add: ctree_build_def)
  next
    case (Inr u)
    with a(4) obtain ls' where ls': "levels_ok io (stored (dev env1)) (used (asp env1)) limit b1 ls'"
        "ls' = [] \<or> last ls' \<noteq> []" "hflat ls' = es" "pending ls' + k \<le> 3 * ?n" by auto
    have g1: "good (dev env1)" "hm env1 = []" using advances_good [OF a(2)] by auto
    from finish [OF ls'(1) g1 ls'(2)] obtain rc2 b2 env2 where
      f: "ctree_builder_finish io al b1 env1 = Some (rc2, b2, env2)"
        "advances (pending ls' + 1) io good stored limit used b1 env1 b2 env2"
        "(\<exists>e. rc2 = Inl e \<and> failed (dev env2) (asp env2)) \<or> rc2 = Inr () \<and>
          (if length ls' \<le> 1 then cb_height b2 = 0 \<and> cb_ptr b2 = ptr_null
           else 2 \<le> cb_height b2 \<and> cb_height b2 \<le> pending ls' \<and>
             ctree_on io (stored (dev env2)) (used (asp env2)) limit (cb_ptr b2) (cb_height b2) (hflat ls'))" by blast
    have "ctree_build io al es env = Some (rc2, b2, env2)"
      using a(1) Inr f(1) by (simp add: ctree_build_def)
    moreover have "advances (3 * ?n + 1) io good stored limit used ctree_builder_setup env b2 env2"
      by (rule advances_mono [OF advances_trans [OF a(2) f(2)]]) (use ls'(4) in simp)
    ultimately show ?thesis
      using f(3) ls'(3,4) single_level [OF ls'(1)] by (auto split: if_splits)
  qed
qed

end

end
