(* ===== verification/CtreeVolume.thy ===== *)
theory CtreeVolume
  imports CtreeBuild
begin

text \<open>
  A build that succeeds has only used what the allocator handed out. With an allocator that agrees with the
  first one wherever that does not fail, it takes the same course. So what is proved of the volume of a bounded
  number of pages (\<open>volume_alloc\<close>) carries over to the allocator of the tests, which knows no bound.
\<close>

lemma builder_alloc_extends:
  "alloc_extends al al' \<Longrightarrow> ctree_builder_alloc al b sz env = (Inr off, b', env') \<Longrightarrow>
   ctree_builder_alloc al' b sz env = (Inr off, b', env')"
  by (cases "hm env"; cases "alloc_reserve al (asp env) sz")
     (auto simp: ctree_builder_alloc_def alloc_extends_def Let_def split: if_splits sum.splits prod.splits)

lemma flush_node_extends:
  assumes "alloc_extends al al'" and "ctree_builder_flush_node io al level b env = Some (Inr e, b', env')"
  shows "ctree_builder_flush_node io al' level b env = Some (Inr e, b', env')"
proof -
  let ?node = "cb_node b ! level"
  obtain r b1 env1 where a: "ctree_builder_alloc al b (io_pages io (nd_bytes ?node)) env = (r, b1, env1)"
    by (cases "ctree_builder_alloc al b (io_pages io (nd_bytes ?node)) env")
  show ?thesis
  proof (cases "nd_entries ?node = 0")
    case True
    then show ?thesis using assms(2) by (simp add: ctree_builder_flush_node_def Let_def split: if_splits)
  next
    case False
    then obtain off where "r = Inr off"
      using assms(2) a by (cases r) (auto simp: ctree_builder_flush_node_def Let_def split: if_splits)
    then have "ctree_builder_alloc al' b (io_pages io (nd_bytes ?node)) env = (Inr off, b1, env1)"
      using builder_alloc_extends [OF assms(1)] a by blast
    with \<open>r = Inr off\<close> a assms(2) False show ?thesis
      by (simp add: ctree_builder_flush_node_def Let_def split: if_splits)
  qed
qed

lemma append_at_extends:
  assumes "ctree_builder_append_at io al level key val b env = Some r" and "alloc_extends al al'" and "fst r = Inr ()"
  shows "ctree_builder_append_at io al' level key val b env = Some r"
  using assms
proof (induction rule: ctree_builder_append_at.raw_induct [rotated, consumes 1, case_names step])
  case (step rec io al level key val b env r)
  from "step.hyps" obtain rc1 b1 env1 where e: "ctree_builder_ensure_level io b level env = Some (rc1, b1, env1)"
    by (auto split: bind_splits)
  with "step.hyps" "step.prems" obtain u where rc1: "rc1 = Inr u" by (cases rc1) auto
  note unfold = ctree_builder_append_at.simps [of io _ level key val b env]
  show ?case
  proof (cases "ctree_builder_can_append io b1 level 1 (length key + length val)")
    case True
    then show ?thesis using "step.hyps" "step.prems" e rc1 by (simp add: unfold)
  next
    case False
    with "step.hyps" "step.prems" e rc1 obtain rc2 b2 env2 where
      f: "ctree_builder_flush_node io al level b1 env1 = Some (rc2, b2, env2)"
      by (auto split: bind_splits)
    with "step.hyps" "step.prems" e rc1 False obtain up where rc2: "rc2 = Inr up" by (cases rc2) auto
    note f' = flush_node_extends [OF "step.prems"(1) f [unfolded rc2]]
    show ?thesis
    proof (cases up)
      case None
      then show ?thesis using "step.hyps" "step.prems" e rc1 False f f' rc2 by (simp add: unfold)
    next
      case (Some kv)
      with "step.hyps" "step.prems" e rc1 False f rc2 obtain rc3 b3 env3 where
        r: "rec io al (Suc level) (fst kv) (snd kv) b2 env2 = Some (rc3, b3, env3)"
        by (auto split: bind_splits)
      with "step.hyps" "step.prems" e rc1 False f rc2 Some obtain w where rc3: "rc3 = Inr w" by (cases rc3) auto
      from "step.IH" [OF r "step.prems"(1)] rc3
      have "ctree_builder_append_at io al' (Suc level) (fst kv) (snd kv) b2 env2 = Some (rc3, b3, env3)" by simp
      then show ?thesis using "step.hyps" "step.prems" e rc1 False f f' rc2 Some r rc3 by (simp add: unfold)
    qed
  qed
qed

lemma append_extends:
  "alloc_extends al al' \<Longrightarrow> ctree_builder_append io al key val b env = Some (Inr (), b', env') \<Longrightarrow>
   ctree_builder_append io al' key val b env = Some (Inr (), b', env')"
  unfolding ctree_builder_append_def using append_at_extends by fastforce

lemma flush_extends:
  assumes "alloc_extends al al'" and "ctree_builder_flush io al level b env = Some (Inr (), b', env')"
  shows "ctree_builder_flush io al' level b env = Some (Inr (), b', env')"
proof -
  obtain rc1 b1 env1 where f: "ctree_builder_flush_node io al level b env = Some (rc1, b1, env1)"
    using assms(2) by (auto simp: ctree_builder_flush_def split: bind_splits)
  with assms(2) obtain up where rc1: "rc1 = Inr up" by (cases rc1) (auto simp: ctree_builder_flush_def)
  note f' = flush_node_extends [OF assms(1) f [unfolded rc1]]
  show ?thesis
  proof (cases up)
    case None
    then show ?thesis using assms(2) f f' rc1 by (simp add: ctree_builder_flush_def)
  next
    case (Some kv)
    with assms(2) f rc1 obtain rc2 b2 env2 where
      a: "ctree_builder_append_at io al (Suc level) (fst kv) (snd kv) b1 env1 = Some (rc2, b2, env2)"
      by (auto simp: ctree_builder_flush_def split: bind_splits)
    with assms(2) f rc1 Some have rc2: "rc2 = Inr ()" by (cases rc2) (auto simp: ctree_builder_flush_def)
    from append_at_extends [OF a assms(1)] rc2 show ?thesis
      using assms(2) f f' rc1 Some a by (simp add: ctree_builder_flush_def)
  qed
qed

lemma finish_loop_extends:
  assumes "ctree_builder_finish_loop io al level b env = Some r" and "alloc_extends al al'" and "fst r = Inr n"
  shows "ctree_builder_finish_loop io al' level b env = Some r"
  using assms
proof (induction rule: ctree_builder_finish_loop.raw_induct [rotated, consumes 1, case_names step])
  case (step rec io al level b env r)
  note unfold = ctree_builder_finish_loop.simps [of io _ level b env]
  show ?case
  proof (cases "Suc level < length (cb_node b)")
    case False
    then show ?thesis using step.hyps by (simp add: unfold)
  next
    case True
    with step.hyps obtain rc1 b1 env1 where f: "ctree_builder_flush io al level b env = Some (rc1, b1, env1)"
      by (auto split: bind_splits)
    with step.hyps step.prems True have rc1: "rc1 = Inr ()" by (cases rc1) auto
    with step.hyps f True have "rec io al (Suc level) b1 env1 = Some r" by simp
    from step.IH [OF this step.prems] flush_extends [OF step.prems(1) f [unfolded rc1]] True show ?thesis
      by (simp add: unfold)
  qed
qed

lemma finish_extends:
  assumes "alloc_extends al al'" and "ctree_builder_finish io al b env = Some (Inr (), b', env')"
  shows "ctree_builder_finish io al' b env = Some (Inr (), b', env')"
proof -
  obtain rc1 b1 env1 where f: "ctree_builder_finish_loop io al 0 b env = Some (rc1, b1, env1)"
    using assms(2) by (auto simp: ctree_builder_finish_def split: bind_splits)
  with assms(2) obtain level where rc1: "rc1 = Inr level" by (cases rc1) (auto simp: ctree_builder_finish_def)
  have f': "ctree_builder_finish_loop io al' 0 b env = Some (Inr level, b1, env1)"
    using finish_loop_extends [OF f assms(1)] rc1 by simp
  let ?sz = "io_pages io (nd_bytes (cb_node b1 ! level))"
  obtain r b2 env2 where a: "ctree_builder_alloc al b1 ?sz env1 = (r, b2, env2)" by (cases "ctree_builder_alloc al b1 ?sz env1")
  show ?thesis
  proof (cases "level = 0")
    case True
    then show ?thesis using assms(2) f f' rc1 by (simp add: ctree_builder_finish_def)
  next
    case False
    then obtain off where "r = Inr off" using assms(2) f rc1 a by (cases r) (auto simp: ctree_builder_finish_def Let_def)
    then have "ctree_builder_alloc al' b1 ?sz env1 = (Inr off, b2, env2)"
      using builder_alloc_extends [OF assms(1)] a by blast
    then show ?thesis using assms(2) f f' rc1 a \<open>r = Inr off\<close> False by (simp add: ctree_builder_finish_def Let_def)
  qed
qed

lemma append_all_extends:
  "alloc_extends al al' \<Longrightarrow> ctree_builder_append_all io al es b env = Some (Inr (), b', env') \<Longrightarrow>
   ctree_builder_append_all io al' es b env = Some (Inr (), b', env')"
proof (induction es arbitrary: b env)
  case (Cons e es)
  then obtain rc1 b1 env1 where a: "ctree_builder_append io al (fst e) (snd e) b env = Some (rc1, b1, env1)"
    by (auto split: bind_splits)
  with Cons.prems(2) have rc1: "rc1 = Inr ()" by (cases rc1) auto
  with append_extends [OF Cons.prems(1) a [unfolded rc1]] Cons a show ?case by simp
qed simp

theorem build_extends:
  assumes "alloc_extends al al'" and "ctree_build io al es env = Some (Inr (), b, env')"
  shows "ctree_build io al' es env = Some (Inr (), b, env')"
proof -
  obtain rc1 b1 env1 where a: "ctree_builder_append_all io al es ctree_builder_setup env = Some (rc1, b1, env1)"
    using assms(2) by (auto simp: ctree_build_def split: bind_splits)
  with assms(2) have rc1: "rc1 = Inr ()" by (cases rc1) (auto simp: ctree_build_def)
  with append_all_extends [OF assms(1) a [unfolded rc1]] assms(2) a finish_extends [OF assms(1)] show ?thesis
    by (simp add: ctree_build_def)
qed

end
