(* ===== verification/CtreeProps.thy ===== *)
theory CtreeProps
  imports CtreeVolume
begin

text \<open>
  What the builder of disk trees promises: it builds the tree of its entries, it accounts
  for every page it has reserved, and what it does with few entries.
\<close>

section \<open>Building a tree\<close>

text \<open>Entries for the witnesses: 200 keys with values of 4000 bytes, and three small ones.\<close>

definition demo_entries :: "nat \<Rightarrow> nat \<Rightarrow> kv list" where
  "demo_entries n sz = map (\<lambda>i. ([word_of_nat i], replicate sz 0)) [0..<n]"

definition demo_env :: "(vfile, nat) env" where
  "demo_env = \<lparr>dev = \<lparr>content = [], script = []\<rparr>, asp = 0, hm = []\<rparr>"

lemma demo_env [simp]: "dev demo_env = \<lparr>content = [], script = []\<rparr>" "asp demo_env = 0" "hm demo_env = []"
    "test_good \<lparr>content = [], script = []\<rparr>"
  by (simp_all add: demo_env_def test_good_def)

lemma demo_entries_ok: "sz \<le> 4000 \<Longrightarrow> \<forall>e \<in> set (demo_entries n sz). entry_ok e"
  by (auto simp: demo_entries_def entry_ok_def entry_small_def)

lemma demo_entries_bytes: "node_bytes (demo_entries n sz) = 16 + n * (5 + sz)"
  by (simp add: node_bytes_def entries_enc_def demo_entries_def length_concat comp_def sum_list_triv)

text \<open>C1: \<open>ctree_build\<close> refines writing down the list of its entries, of at most 4000 bytes of key and 4092
  bytes of key and value each, and more of them in bytes than one leaf can ever take (\<open>lvl_max\<close>). On any device and
  allocator that keep their contracts, and with \<open>malloc\<close> not failing, the build ends. It reports an error only after
  the device or the allocator has reported one. Otherwise the pointer and the height it leaves are those of a tree on
  the device whose leaves hold, in order, exactly the entries that were appended. What happens to at most 100
  entries is \<open>ctree_builder_drops_small\<close>.\<close>

theorem ctree_builder_correct:
  assumes "page_storage io good stored limit al used failed" and "good (dev env)" and "hm env = []"
    and "\<forall>e \<in> set es. entry_ok e" and "lvl_max io < node_bytes es"
  shows "\<exists>rc b env'. ctree_build io al es env = Some (rc, b, env') \<and>
    (case rc of Inl e \<Rightarrow> failed (dev env') (asp env')
     | Inr _ \<Rightarrow> 2 \<le> cb_height b \<and>
         ctree_on io (stored (dev env')) (used (asp env')) limit (cb_ptr b) (cb_height b) es)"
  using page_storage.create_levels [OF assms(1-4)] assms(5) by (fastforce split: sum.split)

theorem ctree_builder_correct_witness:
  "\<exists>rc b env'. ctree_build test_io volume_alloc (demo_entries 200 4000) demo_env = Some (rc, b, env') \<and>
    (case rc of Inl e \<Rightarrow> test_failed (dev env') (asp env')
     | Inr _ \<Rightarrow> 2 \<le> cb_height b \<and>
         ctree_on test_io (test_stored (dev env')) (test_used (asp env')) test_limit (cb_ptr b) (cb_height b)
           (demo_entries 200 4000))"
  using ctree_builder_correct [OF test_storage.page_storage_axioms, of demo_env "demo_entries 200 4000",
      OF _ _ demo_entries_ok]
  by (simp add: demo_entries_bytes lvl_max_test)



section \<open>Enough room\<close>

text \<open>The pages a build reserves, counted on a volume that hands them out in order.\<close>

lemma ranges_cover_card: "finite (ranges_cover rs) \<and> card (ranges_cover rs) \<le> sum_list (map (\<lambda>r. r_end r - r_begin r) rs)"
proof (induction rs)
  case (Cons r rs)
  have "ranges_cover (r # rs) = {r_begin r..<r_end r} \<union> ranges_cover rs" by (auto simp: ranges_cover_def)
  then show ?case using Cons card_Un_le [of "{r_begin r..<r_end r}" "ranges_cover rs"] by auto
qed (simp add: ranges_cover_def)

lemma test_build:
  fixes es :: "kv list"
  defines "n \<equiv> length es"
  assumes "test_good (dev env)" and "hm env = []" and "\<forall>e \<in> set es. entry_ok e"
    and room: "asp env + (3 * n + 2) * 101 \<le> test_limit"
  shows "\<exists>b env'. ctree_build test_io volume_alloc es env = Some (Inr (), b, env') \<and>
    asp env' \<le> asp env + (3 * n + 1) * 101"
proof -
  from test_storage.create_levels [OF assms(2-4)] obtain rc b env' where
    r: "ctree_build test_io volume_alloc es env = Some (rc, b, env')"
      "advances (3 * n + 1) test_io test_good test_stored test_limit test_used ctree_builder_setup env b env'"
      "(\<exists>e. rc = Inl e) \<longrightarrow> test_failed (dev env') (asp env')" unfolding n_def by blast
  have "{..<asp env'} = {..<asp env} \<union> ranges_cover (cb_reserved b)"
    using r(2) test_storage.reserved_setup by (simp add: advances_def reserved_ok_def test_used_def)
  then have "asp env' \<le> card ({..<asp env} \<union> ranges_cover (cb_reserved b))" by (metis card_lessThan order_refl)
  also have "\<dots> \<le> asp env + card (ranges_cover (cb_reserved b))" by (metis card_Un_le card_lessThan)
  also have "\<dots> \<le> asp env + spent b" using ranges_cover_card [of "cb_reserved b"] by (simp add: spent_def)
  also have "\<dots> \<le> asp env + (3 * n + 1) * 101"
    using r(2) by (simp add: advances_def spent_def ctree_builder_setup_def lvl_pages_def npages_def)
  finally have a: "asp env' \<le> asp env + (3 * n + 1) * 101" .
  then have "\<not> test_failed (dev env') (asp env')" using room by (simp add: test_failed_def)
  then obtain u where "rc = Inr u" using r(3) by (cases rc) auto
  then show ?thesis using r(1) a by auto
qed

text \<open>C11: on the storage of the tests a build succeeds if the offsets of \<open>pwrite\<close> reach as far as it needs:
  \<open>3 n + 2\<close> nodes of at most 101 pages for \<open>n\<close> entries, of at most 4000 bytes of key and 4096 in all, below page
  \<open>2\<^sup>5\<^sup>1\<close>. No other error can occur if \<open>malloc\<close> succeeds, and the allocator has moved by no more than that.\<close>

theorem ctree_builder_succeeds:
  assumes "test_good (dev env)" and "hm env = []" and "\<forall>e \<in> set es. entry_ok e"
    and "asp env + (3 * length es + 2) * 101 \<le> test_limit"
  shows "\<exists>b env'. ctree_build test_io test_alloc es env = Some (Inr (), b, env') \<and>
    asp env' \<le> asp env + (3 * length es + 1) * 101"
  using test_build [OF assms] build_extends [OF volume_extends] by blast

theorem ctree_builder_succeeds_witness:
  "\<exists>b env'. ctree_build test_io test_alloc (demo_entries 200 4000) demo_env = Some (Inr (), b, env')"
  using ctree_builder_succeeds [of demo_env "demo_entries 200 4000", OF _ _ demo_entries_ok]
  by (auto simp: test_limit_def demo_entries_def)

section \<open>Few entries\<close>

text \<open>Up to 100 entries always stay in the first leaf.\<close>

lemma append_few:
  assumes "page_storage io good stored limit al used failed"
  shows "\<lbrakk>levels_ok io S U limit b ls; hm env = []; length ls \<le> 1; length (concat ls) + length es \<le> 100;
    \<forall>e \<in> set es. entry_ok e\<rbrakk> \<Longrightarrow>
    \<exists>b' ls'. ctree_builder_append_all io al es b env = Some (Inr (), b', env) \<and>
      cb_reserved b' = cb_reserved b \<and> levels_ok io S U limit b' ls' \<and> length ls' \<le> 1"
proof (induction es arbitrary: b ls)
  case Nil
  then show ?case by auto
next
  case (Cons e es)
  obtain k v where kv: "e = (k, v)" by (cases e)
  from page_storage.ensure_level [OF assms Cons.prems(1,2), of 0] obtain b1 where
    b1: "ctree_builder_ensure_level io b 0 env = Some (Inr (), b1, env)" "cb_reserved b1 = cb_reserved b"
      "levels_ok io S U limit b1 (if 0 < length ls then ls else ls @ [[]])" by blast
  let ?ls = "if 0 < length ls then ls else ls @ [[]]"
  have ls: "length ?ls = 1" "length (?ls ! 0) = length (concat ls)"
    using Cons.prems(3) by (cases ls; auto)+
  then have room: "length (?ls ! 0) < 100" using Cons.prems(4) by simp
  have t: "on_disk io S U limit 0 (DEntry e)" using Cons.prems(5) by (simp add: entry_ok_def)
  have l0: "0 < length ?ls" using ls by simp
  from page_storage.add_entry [OF assms b1(3) Cons.prems(2) l0 t _ disjI2 [OF room], of k v] kv obtain b2 where
    b2: "ctree_builder_add io 0 k v b1 env = Some (Inr (), b2, env)" "cb_reserved b2 = cb_reserved b1"
      "levels_ok io S U limit b2 (?ls[0 := ?ls ! 0 @ [DEntry e]])" by auto
  have "node_rep (cb_node b1 ! 0) (map dent (?ls ! 0))" using b1(3) l0 by (auto simp: levels_ok_def lvl_ok_def)
  then have "ctree_builder_can_append io b1 0 1 (length k + length v)"
    using room by (simp add: ctree_builder_can_append_def ctree_node_can_append_def node_rep_def MIN_FANOUT_def Let_def)
  then have run: "ctree_builder_append io al k v b env = Some (Inr (), b2, env)"
    using b1(1) b2(1) unfolding ctree_builder_append_def by (subst ctree_builder_append_at.simps) simp
  obtain ts where ts: "?ls = [ts]" using ls(1) by (cases ?ls) auto
  then have ls2: "?ls[0 := ?ls ! 0 @ [DEntry e]] = [ts @ [DEntry e]]" by simp
  have "length (concat [ts @ [DEntry e]]) + length es \<le> 100" using ls(2) ts Cons.prems(4) by simp
  from Cons.IH [OF b2(3) [unfolded ls2] Cons.prems(2) _ this] Cons.prems(5) run b2(2) b1(2) kv
  show ?case by auto
qed

text \<open>C12: \<open>ctree_builder_finish\<close> takes a builder with a single leaf for one without any
  entries (it compares the level it has reached, not the number of entries, with 0). A tree
  of up to 100 entries is therefore reported as built, with height 0 and no root, and nothing
  has been written: every entry is lost.\<close>

theorem ctree_builder_drops_small:
  assumes "page_storage io good stored limit al used failed" and "good (dev env)" and "hm env = []"
    and "\<forall>e \<in> set es. entry_ok e" and "length es \<le> 100"
  shows "\<exists>b. ctree_build io al es env = Some (Inr (), b, env) \<and> cb_height b = 0 \<and> cb_ptr b = ptr_null \<and>
    cb_reserved b = []"
proof -
  have 1: "length [] \<le> (1::nat)" "length (concat []) + length es \<le> 100" using assms(5) by simp_all
  from append_few [OF assms(1) page_storage.levels_ok_setup [OF assms(1), of "stored (dev env)" "{}"] assms(3) 1 assms(4)] obtain b1 ls' where
    a: "ctree_builder_append_all io al es ctree_builder_setup env = Some (Inr (), b1, env)"
      "cb_reserved b1 = []" "length (cb_node b1) \<le> 1"
    by (auto simp: ctree_builder_setup_def levels_ok_def)
  then have "ctree_builder_finish_loop io al 0 b1 env = Some (Inr 0, b1, env)"
    by (subst ctree_builder_finish_loop.simps) simp
  then show ?thesis using a by (simp add: ctree_build_def ctree_builder_finish_def)
qed

theorem ctree_builder_drops_small_witness:
  "\<exists>b. ctree_build test_io volume_alloc (demo_entries 3 8) demo_env = Some (Inr (), b, demo_env) \<and>
    cb_height b = 0 \<and> cb_ptr b = ptr_null \<and> cb_reserved b = []"
  using ctree_builder_drops_small [OF test_storage.page_storage_axioms, of demo_env "demo_entries 3 8",
      OF _ _ demo_entries_ok]
  by (simp add: demo_entries_def)

end
