(* ===== verification/CtreeIter.thy ===== *)
theory CtreeIter
  imports CtreeTree
begin

text \<open>
  The descriptor of a disk tree and its iterator (last part of \<open>lib/ctree.c\<close>). An iterator
  keeps the nodes on the path from the root to the current leaf, one per level, and a
  position in each. Both arrays are allocated by the first operation; a NULL array, an index
  out of range and a NULL node that is used are \<open>None\<close>.
\<close>

section \<open>The descriptor (struct ctree)\<close>

record 'd ctree =
  tr_io :: "'d io"
  tr_cmp :: cmp
  tr_ptr :: aulsmfs_ptr
  tr_height :: nat
  tr_pages :: nat

definition ctree_setup :: "'d io \<Rightarrow> cmp \<Rightarrow> 'd ctree" where
  "ctree_setup io cmp = \<lparr>tr_io = io, tr_cmp = cmp, tr_ptr = ptr_null, tr_height = 0, tr_pages = 0\<rparr>"

text \<open>The pointers to the device and to the comparison function are cleared as well; nothing
  can use a descriptor before it is set up again.\<close>

definition ctree_release :: "'d ctree \<Rightarrow> 'd ctree" where
  "ctree_release t = t\<lparr>tr_ptr := ptr_null, tr_height := 0, tr_pages := 0\<rparr>"

definition ctree_reset :: "aulsmfs_ptr option \<Rightarrow> nat \<Rightarrow> nat \<Rightarrow> 'd ctree \<Rightarrow> 'd ctree" where
  "ctree_reset ptr height pages t =
     (case ptr of
        None \<Rightarrow> t\<lparr>tr_height := 0, tr_pages := pages, tr_ptr := ptr_null\<rparr>
      | Some p \<Rightarrow> t\<lparr>tr_ptr := p, tr_height := height, tr_pages := pages\<rparr>)"

definition ctree_is_empty :: "'d ctree \<Rightarrow> bool" where
  "ctree_is_empty t \<longleftrightarrow> tr_height t = 0"

definition ctree_swap :: "'d ctree \<Rightarrow> 'd ctree \<Rightarrow> 'd ctree \<times> 'd ctree" where
  "ctree_swap l r = (r, l)"

definition ctree_parse :: "aulsmfs_ctree \<Rightarrow> 'd ctree \<Rightarrow> 'd ctree" where
  "ctree_parse od t = t\<lparr>tr_ptr := ct_ptr od, tr_height := unat (ct_height od), tr_pages := unat (ct_pages od)\<rparr>"

text \<open>Height and pages are stored at 32 bits.\<close>

definition ctree_dump :: "'d ctree \<Rightarrow> aulsmfs_ctree" where
  "ctree_dump t = \<lparr>ct_ptr = tr_ptr t, ct_pages = word_of_nat (tr_pages t), ct_height = word_of_nat (tr_height t)\<rparr>"

section \<open>The iterator (struct ctree_iter)\<close>

record 'd ctree_iter =
  ci_io :: "'d io"
  ci_cmp :: cmp
  ci_ptr :: aulsmfs_ptr
  ci_height :: nat
  ci_node :: "ctree_node option list option"
  ci_pos :: "nat list option"

type_synonym ('d, 'r) step = "((errno + 'r) \<times> 'd ctree_iter \<times> 'd \<times> mem) option"

text \<open>The height becomes an \<open>int\<close>; a larger one does not keep its value.\<close>

definition ctree_iter_setup :: "'d ctree \<Rightarrow> 'd ctree_iter option" where
  "ctree_iter_setup t =
     (if tr_height t < 2 ^ 31
      then Some \<lparr>ci_io = tr_io t, ci_cmp = tr_cmp t, ci_ptr = tr_ptr t, ci_height = tr_height t,
             ci_node = None, ci_pos = None\<rparr>
      else None)"

definition ctree_iter_release :: "'d ctree_iter \<Rightarrow> 'd ctree_iter" where
  "ctree_iter_release it = it\<lparr>ci_ptr := ptr_null, ci_height := 0, ci_node := None, ci_pos := None\<rparr>"

definition ctree_iter_prepare :: "'d ctree_iter \<Rightarrow> mem \<Rightarrow> ((errno + unit) \<times> 'd ctree_iter \<times> mem) option" where
  "ctree_iter_prepare it m =
     (if ci_node it \<noteq> None \<and> ci_pos it \<noteq> None then Some (Inr (), it, m)
      else if ci_node it \<noteq> None \<or> ci_pos it \<noteq> None then None
      else Some (case mem_alloc m of
        (False, m) \<Rightarrow> (Inl ENOMEM, it, m)
      | (True, m) \<Rightarrow>
          (case mem_alloc m of
             (False, m) \<Rightarrow> (Inl ENOMEM, it, m)
           | (True, m) \<Rightarrow> (Inr (), it\<lparr>ci_node := Some (replicate (ci_height it) None),
                              ci_pos := Some (replicate (ci_height it) 0)\<rparr>, m))))"

text \<open>Access to the two arrays.\<close>

definition iter_node :: "'d ctree_iter \<Rightarrow> nat \<Rightarrow> ctree_node option" where
  "iter_node it l = do {
     ns \<leftarrow> ci_node it;
     (if l < length ns then ns ! l else None) }"

definition iter_pos :: "'d ctree_iter \<Rightarrow> nat \<Rightarrow> nat option" where
  "iter_pos it l = do {
     ps \<leftarrow> ci_pos it;
     (if l < length ps then Some (ps ! l) else None) }"

definition iter_put :: "'d ctree_iter \<Rightarrow> nat \<Rightarrow> ctree_node option \<Rightarrow> 'd ctree_iter option" where
  "iter_put it l n = do {
     ns \<leftarrow> ci_node it;
     (if l < length ns then Some (it\<lparr>ci_node := Some (ns[l := n])\<rparr>) else None) }"

definition iter_seek :: "'d ctree_iter \<Rightarrow> nat \<Rightarrow> nat \<Rightarrow> 'd ctree_iter option" where
  "iter_seek it l p = do {
     ps \<leftarrow> ci_pos it;
     (if l < length ps then Some (it\<lparr>ci_pos := Some (ps[l := p])\<rparr>) else None) }"

section \<open>Searching in a node\<close>

fun ctree_node_lower_from :: "cmp \<Rightarrow> ctree_node \<Rightarrow> lsm_key \<Rightarrow> nat \<Rightarrow> nat option" where
  "ctree_node_lower_from cmp node key 0 = Some (nd_entries node)"
| "ctree_node_lower_from cmp node key (Suc k) = do {
     let i = nd_entries node - Suc k;
     node_key \<leftarrow> ctree_node_key node i;
     (if 0 \<le> cmp node_key key then Some i else ctree_node_lower_from cmp node key k) }"

definition ctree_node_lower_bound :: "cmp \<Rightarrow> ctree_node \<Rightarrow> lsm_key \<Rightarrow> nat option" where
  "ctree_node_lower_bound cmp node key = ctree_node_lower_from cmp node key (nd_entries node)"

fun ctree_node_upper_from :: "cmp \<Rightarrow> ctree_node \<Rightarrow> lsm_key \<Rightarrow> nat \<Rightarrow> nat option" where
  "ctree_node_upper_from cmp node key 0 = Some (nd_entries node)"
| "ctree_node_upper_from cmp node key (Suc k) = do {
     let i = nd_entries node - Suc k;
     node_key \<leftarrow> ctree_node_key node i;
     (if 0 < cmp node_key key then Some i else ctree_node_upper_from cmp node key k) }"

definition ctree_node_upper_bound :: "cmp \<Rightarrow> ctree_node \<Rightarrow> lsm_key \<Rightarrow> nat option" where
  "ctree_node_upper_bound cmp node key = ctree_node_upper_from cmp node key (nd_entries node)"

definition ctree_node_ptr :: "ctree_node \<Rightarrow> nat \<Rightarrow> (errno + aulsmfs_ptr) option" where
  "ctree_node_ptr node pos = do {
     val \<leftarrow> ctree_node_val node pos;
     Some (if length val \<noteq> 24 then Inl ENOBUFS else Inr (ptr_dec val)) }"

section \<open>Descending\<close>

text \<open>\<open>ctree_node_create\<close> and \<open>ctree_node_read\<close>, as three functions do in a row; a node
  that could not be read is destroyed.\<close>

definition ctree_load ::
    "'d io \<Rightarrow> 'd \<Rightarrow> aulsmfs_ptr \<Rightarrow> nat \<Rightarrow> mem \<Rightarrow> ((errno + ctree_node) \<times> 'd \<times> mem) option" where
  "ctree_load io d ptr level m = do {
     (_, m) \<leftarrow> ctree_node_create m;
     ctree_node_read io d ptr (int level) m }"

definition ctree_get_node :: "'d ctree_iter \<Rightarrow> aulsmfs_ptr \<Rightarrow> nat \<Rightarrow> 'd \<Rightarrow> mem \<Rightarrow> ('d, unit) step" where
  "ctree_get_node it ptr level d m = do {
     ns \<leftarrow> ci_node it;
     (if length ns \<le> level then None
      else if map_option nd_ptr (ns ! level) = Some ptr then Some (Inr (), it, d, m)
      else do {
        (rc, d, m) \<leftarrow> ctree_load (ci_io it) d ptr level m;
        Some (case rc of
          Inl e \<Rightarrow> (Inl e, it, d, m)
        | Inr node \<Rightarrow> (Inr (), it\<lparr>ci_node := Some (ns[level := Some node])\<rparr>, d, m)) }) }"

text \<open>The descent of \<open>__ctree_lookup\<close>: its loop over the levels above the leaves, and the leaf.\<close>

fun ctree_lookup_down :: "lsm_key \<Rightarrow> nat \<Rightarrow> aulsmfs_ptr \<Rightarrow> 'd ctree_iter \<Rightarrow> 'd \<Rightarrow> mem \<Rightarrow> ('d, unit) step" where
  "ctree_lookup_down key 0 ptr it d m = do {
     (rc, it, d, m) \<leftarrow> ctree_get_node it ptr 0 d m;
     (case rc of
        Inl e \<Rightarrow> Some (Inl e, it, d, m)
      | Inr _ \<Rightarrow> do {
          node \<leftarrow> iter_node it 0;
          pos \<leftarrow> ctree_node_lower_bound (ci_cmp it) node key;
          it \<leftarrow> iter_seek it 0 pos;
          Some (Inr (), it, d, m) }) }"
| "ctree_lookup_down key (Suc l) ptr it d m = do {
     (rc, it, d, m) \<leftarrow> ctree_get_node it ptr (Suc l) d m;
     (case rc of
        Inl e \<Rightarrow> Some (Inl e, it, d, m)
      | Inr _ \<Rightarrow> do {
          node \<leftarrow> iter_node it (Suc l);
          pos \<leftarrow> ctree_node_upper_bound (ci_cmp it) node key;
          let pos = (if pos \<noteq> 0 then pos - 1 else pos);
          it \<leftarrow> iter_seek it (Suc l) pos;
          r \<leftarrow> ctree_node_ptr node pos;
          (case r of
             Inl _ \<Rightarrow> Some (Inl EIO, it, d, m)
           | Inr ptr \<Rightarrow> ctree_lookup_down key l ptr it d m) }) }"

definition ctree_lookup_pos :: "lsm_key \<Rightarrow> 'd ctree_iter \<Rightarrow> 'd \<Rightarrow> mem \<Rightarrow> ('d, unit) step" where
  "ctree_lookup_pos key it d m = do {
     (rc, it, m) \<leftarrow> ctree_iter_prepare it m;
     (case rc of
        Inl e \<Rightarrow> Some (Inl e, it, d, m)
      | Inr _ \<Rightarrow>
          if ci_height it = 0 then Some (Inr (), it, d, m)
          else ctree_lookup_down key (ci_height it - 1) (ci_ptr it) it d m) }"

section \<open>Stepping\<close>

text \<open>The first level on which the iterator can step: forward if the position is not the
  last one, backwards if it is not the first one.\<close>

fun ctree_find_level :: "bool \<Rightarrow> 'd ctree_iter \<Rightarrow> nat list \<Rightarrow> nat option option" where
  "ctree_find_level fwd it [] = Some None"
| "ctree_find_level fwd it (i # is) = do {
     node \<leftarrow> iter_node it i;
     pos \<leftarrow> iter_pos it i;
     (if (if fwd then wrap64 (pos + 1) < nd_entries node else pos \<noteq> 0) then Some (Some i)
      else ctree_find_level fwd it is) }"

fun ctree_drop_below :: "nat \<Rightarrow> 'd ctree_iter \<Rightarrow> 'd ctree_iter option" where
  "ctree_drop_below 0 it = Some it"
| "ctree_drop_below (Suc l) it = do {
     it \<leftarrow> ctree_drop_below l it;
     iter_put it l None }"

text \<open>The position on which a node that has just been read is entered: the first entry going
  forward, the last one (\<open>entries - 1\<close> at 64 bits) going back.\<close>

definition ctree_enter :: "bool \<Rightarrow> ctree_node \<Rightarrow> nat" where
  "ctree_enter fwd node = (if fwd then 0 else wrap64 (nd_entries node + (2 ^ 64 - 1)))"

fun ctree_refill :: "bool \<Rightarrow> nat \<Rightarrow> 'd ctree_iter \<Rightarrow> 'd \<Rightarrow> mem \<Rightarrow> ('d, unit) step" where
  "ctree_refill fwd 0 it d m = Some (Inr (), it, d, m)"
| "ctree_refill fwd (Suc i) it d m = do {
     parent \<leftarrow> iter_node it (Suc i);
     pos \<leftarrow> iter_pos it (Suc i);
     r \<leftarrow> ctree_node_ptr parent pos;
     (case r of
        Inl _ \<Rightarrow> Some (Inl EIO, it, d, m)
      | Inr ptr \<Rightarrow> do {
          (rc, d, m) \<leftarrow> ctree_load (ci_io it) d ptr i m;
          (case rc of
             Inl e \<Rightarrow> Some (Inl e, it, d, m)
           | Inr child \<Rightarrow> do {
               it \<leftarrow> iter_put it i (Some child);
               it \<leftarrow> iter_seek it i (ctree_enter fwd child);
               ctree_refill fwd i it d m }) }) }"

text \<open>The step at a level: the nodes below are dropped and read again along the new position.\<close>

definition ctree_step_at :: "bool \<Rightarrow> nat \<Rightarrow> 'd ctree_iter \<Rightarrow> 'd \<Rightarrow> mem \<Rightarrow> ('d, unit) step" where
  "ctree_step_at fwd level it d m = do {
     it \<leftarrow> ctree_drop_below level it;
     pos \<leftarrow> iter_pos it level;
     it \<leftarrow> iter_seek it level (if fwd then wrap64 (pos + 1) else pos - 1);
     ctree_refill fwd level it d m }"

definition ctree_next :: "'d ctree_iter \<Rightarrow> 'd \<Rightarrow> mem \<Rightarrow> ('d, unit) step" where
  "ctree_next it d m = do {
     level \<leftarrow> ctree_find_level True it [0..<ci_height it];
     (case level of
        None \<Rightarrow>
          if ci_height it = 0 then Some (Inl ENOENT, it, d, m)
          else do {
            pos \<leftarrow> iter_pos it 0;
            node \<leftarrow> iter_node it 0;
            it \<leftarrow> (if pos \<noteq> nd_entries node then iter_seek it 0 (wrap64 (pos + 1)) else Some it);
            Some (Inl ENOENT, it, d, m) }
      | Some level \<Rightarrow> ctree_step_at True level it d m) }"

definition ctree_prev :: "'d ctree_iter \<Rightarrow> 'd \<Rightarrow> mem \<Rightarrow> ('d, unit) step" where
  "ctree_prev it d m = do {
     level \<leftarrow> ctree_find_level False it [0..<ci_height it];
     (case level of
        None \<Rightarrow> Some (Inl ENOENT, it, d, m)
      | Some level \<Rightarrow> ctree_step_at False level it d m) }"

section \<open>Bounds and lookup\<close>

definition ctree_lower_bound :: "lsm_key \<Rightarrow> 'd ctree_iter \<Rightarrow> 'd \<Rightarrow> mem \<Rightarrow> ('d, unit) step" where
  "ctree_lower_bound key it d m =
     (if ci_height it = 0 then Some (Inr (), it, d, m)
      else do {
        (rc, it, d, m) \<leftarrow> ctree_lookup_pos key it d m;
        (case rc of
           Inl e \<Rightarrow> Some (Inl e, it, d, m)
         | Inr _ \<Rightarrow> do {
             node \<leftarrow> iter_node it 0;
             pos \<leftarrow> iter_pos it 0;
             (if pos = nd_entries node then do {
                (rc, it, d, m) \<leftarrow> ctree_next it d m;
                Some (if rc = Inl ENOENT then Inr () else rc, it, d, m)
              } else Some (Inr (), it, d, m)) }) })"

definition ctree_upper_bound :: "lsm_key \<Rightarrow> 'd ctree_iter \<Rightarrow> 'd \<Rightarrow> mem \<Rightarrow> ('d, unit) step" where
  "ctree_upper_bound key it d m =
     (if ci_height it = 0 then Some (Inr (), it, d, m)
      else do {
        (rc, it, d, m) \<leftarrow> ctree_lower_bound key it d m;
        (case rc of
           Inl e \<Rightarrow> Some (Inl e, it, d, m)
         | Inr _ \<Rightarrow> do {
             node \<leftarrow> iter_node it 0;
             pos \<leftarrow> iter_pos it 0;
             (if pos = nd_entries node then Some (Inr (), it, d, m)
              else do {
                node_key \<leftarrow> ctree_node_key node pos;
                (if 0 < ci_cmp it node_key key then Some (Inr (), it, d, m) else ctree_next it d m) }) }) })"

definition ctree_lookup :: "lsm_key \<Rightarrow> 'd ctree_iter \<Rightarrow> 'd \<Rightarrow> mem \<Rightarrow> ('d, bool) step" where
  "ctree_lookup key it d m =
     (if ci_height it = 0 then Some (Inr False, it, d, m)
      else do {
        (rc, it, d, m) \<leftarrow> ctree_lower_bound key it d m;
        (case rc of
           Inl e \<Rightarrow> Some (Inl e, it, d, m)
         | Inr _ \<Rightarrow> do {
             node \<leftarrow> iter_node it 0;
             pos \<leftarrow> iter_pos it 0;
             (if pos = nd_entries node then Some (Inr False, it, d, m)
              else do {
                node_key \<leftarrow> ctree_node_key node pos;
                Some (Inr (ci_cmp it node_key key = 0), it, d, m) }) }) })"

section \<open>Both ends\<close>

text \<open>The loops of \<open>ctree_begin\<close> and \<open>ctree_end\<close>. They replace the nodes without
  destroying the old ones.\<close>

fun ctree_descend :: "bool \<Rightarrow> nat \<Rightarrow> aulsmfs_ptr \<Rightarrow> 'd ctree_iter \<Rightarrow> 'd \<Rightarrow> mem \<Rightarrow> ('d, unit) step" where
  "ctree_descend fwd 0 ptr it d m = Some (Inr (), it, d, m)"
| "ctree_descend fwd (Suc level) ptr it d m = do {
     (rc, d, m) \<leftarrow> ctree_load (ci_io it) d ptr level m;
     (case rc of
        Inl e \<Rightarrow> Some (Inl e, it, d, m)
      | Inr node \<Rightarrow> do {
          it \<leftarrow> iter_put it level (Some node);
          it \<leftarrow> iter_seek it level (ctree_enter fwd node);
          (if level = 0 then Some (Inr (), it, d, m)
           else do {
             r \<leftarrow> ctree_node_ptr node (ctree_enter fwd node);
             (case r of
                Inl _ \<Rightarrow> Some (Inl EIO, it, d, m)
              | Inr ptr \<Rightarrow> ctree_descend fwd level ptr it d m) }) }) }"

definition ctree_begin :: "'d ctree_iter \<Rightarrow> 'd \<Rightarrow> mem \<Rightarrow> ('d, unit) step" where
  "ctree_begin it d m = do {
     (rc, it, m) \<leftarrow> ctree_iter_prepare it m;
     (case rc of
        Inl e \<Rightarrow> Some (Inl e, it, d, m)
      | Inr _ \<Rightarrow> ctree_descend True (ci_height it) (ci_ptr it) it d m) }"

definition ctree_end :: "'d ctree_iter \<Rightarrow> 'd \<Rightarrow> mem \<Rightarrow> ('d, unit) step" where
  "ctree_end it d m = do {
     (rc, it, m) \<leftarrow> ctree_iter_prepare it m;
     (case rc of
        Inl e \<Rightarrow> Some (Inl e, it, d, m)
      | Inr _ \<Rightarrow> do {
          (rc, it, d, m) \<leftarrow> ctree_descend False (ci_height it) (ci_ptr it) it d m;
          (case rc of
             Inl e \<Rightarrow> Some (Inl e, it, d, m)
           | Inr _ \<Rightarrow>
               if ci_height it = 0 then Some (Inr (), it, d, m)
               else do {
                 pos \<leftarrow> iter_pos it 0;
                 it \<leftarrow> iter_seek it 0 (wrap64 (pos + 1));
                 Some (Inr (), it, d, m) }) }) }"

section \<open>The entry at the iterator\<close>

definition ctree_key :: "'d ctree_iter \<Rightarrow> (errno + lsm_key) option" where
  "ctree_key it =
     (if ci_height it = 0 then Some (Inl ENOENT)
      else do {
        node \<leftarrow> iter_node it 0;
        pos \<leftarrow> iter_pos it 0;
        (if pos = nd_entries node then Some (Inl ENOENT) else map_option Inr (ctree_node_key node pos)) })"

definition ctree_val :: "'d ctree_iter \<Rightarrow> (errno + lsm_val) option" where
  "ctree_val it =
     (if ci_height it = 0 then Some (Inl ENOENT)
      else do {
        node \<leftarrow> iter_node it 0;
        pos \<leftarrow> iter_pos it 0;
        (if pos = nd_entries node then Some (Inl ENOENT) else map_option Inr (ctree_node_val node pos)) })"

end
