(* ===== verification/CtreeWalk.thy ===== *)
theory CtreeWalk
  imports CtreeIter Cursor
begin

text \<open>
  The iterator of disk trees walks over the entries of the tree. The nodes and positions of an
  iterator are a path in the tree, and a path stands for a position in the list of the
  entries; the operations move along this list.
\<close>

section \<open>Nodes\<close>

lemma node_lower_from:
  "node_view node es \<Longrightarrow> k \<le> length es \<Longrightarrow> ctree_node_lower_from cmp node key k =
     Some (length es - k + kv_lower cmp key (drop (length es - k) es))"
proof (induction k)
  case 0
  then show ?case by (simp add: node_view_def)
next
  case (Suc k)
  let ?i = "length es - Suc k"
  have n: "nd_entries node = length es" "ctree_node_key node ?i = Some (fst (es ! ?i))"
    using Suc.prems by (auto simp: node_view_def)
  have "drop ?i es = es ! ?i # drop (length es - k) es"
    using Suc.prems(2) by (metis Cons_nth_drop_Suc Suc_diff_Suc Suc_le_lessD diff_less zero_less_Suc
        length_greater_0_conv list.size(3) not_less0)
  then show ?case using Suc n by (simp add: Let_def not_le)
qed

lemma node_lower_bound: "node_view node es \<Longrightarrow> ctree_node_lower_bound cmp node key = Some (kv_lower cmp key es)"
  using node_lower_from [of node es "length es"] by (simp add: ctree_node_lower_bound_def node_view_def)

lemma node_upper_from:
  "node_view node es \<Longrightarrow> k \<le> length es \<Longrightarrow> ctree_node_upper_from cmp node key k =
     Some (length es - k + kv_upper cmp key (drop (length es - k) es))"
proof (induction k)
  case 0
  then show ?case by (simp add: node_view_def)
next
  case (Suc k)
  let ?i = "length es - Suc k"
  have n: "nd_entries node = length es" "ctree_node_key node ?i = Some (fst (es ! ?i))"
    using Suc.prems by (auto simp: node_view_def)
  have "drop ?i es = es ! ?i # drop (length es - k) es"
    using Suc.prems(2) by (metis Cons_nth_drop_Suc Suc_diff_Suc Suc_le_lessD diff_less zero_less_Suc
        length_greater_0_conv list.size(3) not_less0)
  then show ?case using Suc n by (simp add: Let_def not_less)
qed

lemma node_upper_bound: "node_view node es \<Longrightarrow> ctree_node_upper_bound cmp node key = Some (kv_upper cmp key es)"
  using node_upper_from [of node es "length es"] by (simp add: ctree_node_upper_bound_def node_view_def)

lemma node_view_unique: "node_view node es \<Longrightarrow> node_view node fs \<Longrightarrow> es = fs"
  unfolding node_view_def by (intro nth_equalityI prod_eqI) auto

text \<open>The pointer to a child.\<close>

lemma node_ptr_child:
  assumes "node_view node (map dent ts)" and "c < length ts" and "ts ! c = DNode p cs"
  shows "ctree_node_ptr node c = Some (Inr p)"
  using assms by (simp add: ctree_node_ptr_def node_view_def)

section \<open>Paths\<close>

text \<open>The device still holds what it held when the iterator was set up (\<open>S\<close>).\<close>

definition serves :: "('d \<Rightarrow> bool) \<Rightarrow> ('d \<Rightarrow> nat \<Rightarrow> byte list \<Rightarrow> bool) \<Rightarrow> (nat \<Rightarrow> byte list \<Rightarrow> bool) \<Rightarrow> 'd \<Rightarrow> bool" where
  "serves good stored S d \<longleftrightarrow> good d \<and> (\<forall>off bs. S off bs \<longrightarrow> stored d off bs)"

text \<open>A path to position \<open>i\<close> of a tree. In a leaf the position after the last entry is a
  position too.\<close>

fun path_at :: "ctree_node option list \<Rightarrow> nat list \<Rightarrow> nat \<Rightarrow> dtree \<Rightarrow> nat \<Rightarrow> bool" where
  "path_at ns ps r (DEntry e) i \<longleftrightarrow> False"
| "path_at ns ps 0 (DNode p ts) i \<longleftrightarrow> False"
| "path_at ns ps (Suc r) (DNode p ts) i \<longleftrightarrow>
     (\<exists>n. ns ! r = Some n \<and> nd_ptr n = p \<and> node_view n (map dent ts)) \<and>
     (if r = 0 then ps ! 0 \<le> length ts \<and> i = ps ! 0
      else ps ! r < length ts \<and>
        (\<exists>j. path_at ns ps r (ts ! (ps ! r)) j \<and> i = length (concat (map dflat (take (ps ! r) ts))) + j))"

definition leaf_in :: "ctree_node option list \<Rightarrow> nat list \<Rightarrow> bool" where
  "leaf_in ns ps \<longleftrightarrow> (\<exists>n. ns ! 0 = Some n \<and> ps ! 0 < nd_entries n)"

definition arrays :: "'d io \<Rightarrow> nat \<Rightarrow> 'd ctree_iter \<Rightarrow> ctree_node option list \<Rightarrow> nat list \<Rightarrow> bool" where
  "arrays io h it ns ps \<longleftrightarrow> ci_node it = Some ns \<and> ci_pos it = Some ps \<and> ci_height it = h \<and> ci_io it = io \<and>
     length ns = h \<and> length ps = h \<and> h < 2 ^ 31"

text \<open>The nodes an iterator keeps are nodes of the device.\<close>

definition cached ::
    "'d io \<Rightarrow> (nat \<Rightarrow> byte list \<Rightarrow> bool) \<Rightarrow> nat set \<Rightarrow> nat \<Rightarrow> ctree_node option list \<Rightarrow> bool" where
  "cached io S U lim ns \<longleftrightarrow> (\<forall>l < length ns. \<forall>n. ns ! l = Some n \<longrightarrow>
     (\<exists>ts. on_disk io S U lim (Suc l) (DNode (nd_ptr n) ts) \<and> node_view n (map dent ts)))"

lemma path_frame:
  "path_at ns ps r t i \<Longrightarrow> \<forall>k < r. ns' ! k = ns ! k \<and> ps' ! k = ps ! k \<Longrightarrow> path_at ns' ps' r t i"
  by (induction ns ps r t i rule: path_at.induct) (auto split: if_splits)

lemma path_up:
  "ns ! Suc r = Some n \<Longrightarrow> nd_ptr n = p \<Longrightarrow> node_view n (map dent ts) \<Longrightarrow> ps ! Suc r = c \<Longrightarrow> c < length ts \<Longrightarrow>
   path_at ns ps (Suc r) (ts ! c) j \<Longrightarrow>
   path_at ns ps (Suc (Suc r)) (DNode p ts) (length (concat (map dflat (take c ts))) + j)"
  by simp

lemma concat_split:
  "c < length ts \<Longrightarrow> concat (map f ts) = concat (map f (take c ts)) @ f (ts ! c) @ concat (map f (drop (Suc c) ts))"
  by (subst id_take_nth_drop [of c ts]) simp_all

lemma leaf_flat: "\<forall>t \<in> set ts. on_disk io S U lim 0 t \<Longrightarrow> concat (map dflat ts) = map dent ts"
  using on_disk_0 by (induction ts) force+

text \<open>What the iterator sees at the end of a path.\<close>

lemma path_leaf:
  "on_disk io S U lim r t \<Longrightarrow> path_at ns ps r t i \<Longrightarrow>
   \<exists>n. ns ! 0 = Some n \<and> ps ! 0 \<le> nd_entries n \<and> i \<le> length (dflat t) \<and>
     (ps ! 0 < nd_entries n \<longrightarrow> i < length (dflat t) \<and> ctree_node_key n (ps ! 0) = Some (fst (dflat t ! i)) \<and>
        ctree_node_val n (ps ! 0) = Some (snd (dflat t ! i)))"
proof (induction ns ps r t i rule: path_at.induct)
  case (3 ns ps r p ts i)
  show ?case
  proof (cases "r = 0")
    case True
    then have "concat (map dflat ts) = map dent ts" using 3(2) by (intro leaf_flat [of ts io S U lim]) simp
    then show ?thesis using 3(3) True by (auto simp: node_view_def)
  next
    case False
    let ?c = "ps ! r"
    from 3(3) False obtain j where j: "?c < length ts" "path_at ns ps r (ts ! ?c) j"
        "i = length (concat (map dflat (take ?c ts))) + j" by auto
    have "on_disk io S U lim r (ts ! ?c)" using 3(2) j(1) by simp
    from 3(1) [OF False this j(2)] obtain n where
      n: "ns ! 0 = Some n" "ps ! 0 \<le> nd_entries n" "j \<le> length (dflat (ts ! ?c))"
        "ps ! 0 < nd_entries n \<longrightarrow> j < length (dflat (ts ! ?c)) \<and>
           ctree_node_key n (ps ! 0) = Some (fst (dflat (ts ! ?c) ! j)) \<and>
           ctree_node_val n (ps ! 0) = Some (snd (dflat (ts ! ?c) ! j))" by blast
    have "dflat (DNode p ts) = concat (map dflat (take ?c ts)) @ dflat (ts ! ?c) @ concat (map dflat (drop (Suc ?c) ts))"
      using concat_split [OF j(1), of dflat] by simp
    then show ?thesis using n j(3) by (auto simp: nth_append)
  qed
qed auto

text \<open>The iterator on its arrays.\<close>

lemma arrays_access:
  assumes "arrays io h it ns ps" and "l < h"
  shows "iter_node it l = ns ! l" and "iter_pos it l = Some (ps ! l)"
    and "iter_put it l n = Some (it\<lparr>ci_node := Some (ns[l := n])\<rparr>)"
    and "iter_seek it l p = Some (it\<lparr>ci_pos := Some (ps[l := p])\<rparr>)"
  using assms by (simp_all add: arrays_def iter_node_def iter_pos_def iter_put_def iter_seek_def)

lemma arrays_update [simp]:
  assumes "arrays io h it ns ps"
  shows "length ns' = h \<Longrightarrow> arrays io h (it\<lparr>ci_node := Some ns'\<rparr>) ns' ps"
    and "length ps' = h \<Longrightarrow> arrays io h (it\<lparr>ci_pos := Some ps'\<rparr>) ns ps'"
    and "length ns' = h \<Longrightarrow> length ps' = h \<Longrightarrow> arrays io h (it\<lparr>ci_node := Some ns', ci_pos := Some ps'\<rparr>) ns' ps'"
  using assms by (simp_all add: arrays_def)

lemma arrays_length: "arrays io h it ns ps \<Longrightarrow> length ns = h \<and> length ps = h \<and> h < 2 ^ 31"
  by (simp add: arrays_def)

lemma arrays_self: "arrays io h it ns ps \<Longrightarrow> it\<lparr>ci_node := Some ns, ci_pos := Some ps\<rparr> = it"
  by (cases it) (simp add: arrays_def)

lemma cached_put:
  assumes "cached io S U lim ns"
    and "l < length ns \<longrightarrow> on_disk io S U lim (Suc l) (DNode (nd_ptr n) ts)" and "node_view n (map dent ts)"
  shows "cached io S U lim (ns[l := Some n])"
  unfolding cached_def
proof (intro allI impI)
  fix k n'
  assume k: "k < length (ns[l := Some n])" and n': "ns[l := Some n] ! k = Some n'"
  show "\<exists>ts. on_disk io S U lim (Suc k) (DNode (nd_ptr n') ts) \<and> node_view n' (map dent ts)"
  proof (cases "k = l")
    case True
    then show ?thesis using k n' assms(2,3) by (intro exI [of _ ts]) simp
  next
    case False
    then have "ns ! k = Some n'" using n' by simp
    then show ?thesis using k assms(1) unfolding cached_def by simp
  qed
qed

lemma cached_replicate [simp]: "cached io S U lim (replicate h None)"
  by (simp add: cached_def)

lemma drop_below:
  "arrays io h it ns ps \<Longrightarrow> l \<le> h \<Longrightarrow>
   ctree_drop_below l it = Some (it\<lparr>ci_node := Some (replicate l None @ drop l ns)\<rparr>)"
proof (induction l)
  case 0
  then show ?case by (cases it) (simp add: arrays_def)
next
  case (Suc l)
  let ?ns = "replicate l None @ drop l ns"
  have a: "arrays io h (it\<lparr>ci_node := Some ?ns\<rparr>) ?ns ps"
    using Suc.prems arrays_length [OF Suc.prems(1)] by simp
  have "?ns[l := None] = replicate (Suc l) None @ drop (Suc l) ns"
    using Suc.prems(2) arrays_length [OF Suc.prems(1)]
    by (simp add: list_update_append replicate_append_same flip: Cons_nth_drop_Suc)
  then show ?case using Suc arrays_access(3) [OF a, of l None] by simp
qed

lemma cached_drop: "cached io S U lim ns \<Longrightarrow> cached io S U lim (replicate l None @ drop l ns)"
  unfolding cached_def by (auto simp: nth_append)

section \<open>Reading along a path\<close>

context page_device
begin

lemma on_disk_entries:
  assumes "on_disk io S U limit (Suc r) (DNode p ts)"
  shows "0 < length ts" and "length ts < 2 ^ 62"
proof -
  obtain off where off: "off + node_pages io (map dent ts) \<le> limit" and ne: "ts \<noteq> []"
    using assms by (auto simp: dnode_at_def)
  show "0 < length ts" using ne by simp
  have "node_pages io (map dent ts) * page_size io \<le> limit * page_size io"
    using off by (intro mult_le_mono1) simp
  then have "node_bytes (map dent ts) \<le> 2 ^ 63"
    using limit_bound npages_ge [OF page, of "node_bytes (map dent ts)"] unfolding node_pages_def by linarith
  moreover have "4 * length es \<le> length (entries_enc es)" for es by (induction es) auto
  from this [of "map dent ts"] have "16 + 4 * length ts \<le> node_bytes (map dent ts)" by (simp add: node_bytes_def)
  ultimately show "length ts < 2 ^ 62" by simp
qed

lemma load_node:
  assumes d: "serves good stored S d" and t: "on_disk io S U limit (Suc l) (DNode p ts)" and l: "l < 2 ^ 31"
  shows "\<exists>n d'. ctree_load io d p l [] = Some (Inr n, d', []) \<and> serves good stored S d' \<and> nd_ptr n = p \<and>
    node_view n (map dent ts)"
proof -
  obtain off where off: "p = node_ptr io off (int l) (map dent ts)" "S off (node_img io (int l) (map dent ts))"
      "off + node_pages io (map dent ts) \<le> limit"
    using t by (auto simp: dnode_at_def)
  have g: "good d" and st: "stored d off (node_img io (int l) (map dent ts))"
    using d off(2) by (auto simp: serves_def)
  have lv: "0 \<le> int l" "int l < 2 ^ 31" using l by auto
  have "\<forall>t \<in> set ts. entry_small (dent t)" using t by (auto intro: on_disk_small [of io S U limit l])
  then have "\<forall>e \<in> set (map dent ts). entry_fits e" using entry_small_fits by auto
  from node_read [OF g st off(3) lv this, of "[]"] obtain rc d' m' where
    "ctree_node_read io d p (int l) [] = Some (rc, d', m')" "good d'" "\<forall>o' bs'. stored d o' bs' \<longrightarrow> stored d' o' bs'"
    "rc = Inl ENOMEM \<or> (\<exists>node. rc = Inr node \<and> node_view node (map dent ts) \<and> nd_ptr node = p)"
    "m' = [] \<and> (\<exists>node. rc = Inr node)" unfolding off(1) by blast
  then show ?thesis using d by (auto simp: ctree_load_def ctree_node_create_def serves_def)
qed

text \<open>A node is determined by its pointer.\<close>

lemma same_node:
  assumes "serves good stored S d" and "on_disk io S U limit (Suc l) (DNode p ts)"
    and "on_disk io S U limit (Suc l) (DNode p ts')" and "l < 2 ^ 31"
  shows "map dent ts' = map dent ts"
  using load_node [OF assms(1,2,4)] load_node [OF assms(1,3,4)] node_view_unique by fastforce

lemma get_node:
  assumes d: "serves good stored S d" and a: "arrays io h it ns ps" and c: "cached io S U limit ns"
    and t: "on_disk io S U limit (Suc l) (DNode p ts)" and l: "l < h"
  shows "\<exists>ns' d' n. ctree_get_node it p l d [] = Some (Inr (), it\<lparr>ci_node := Some ns'\<rparr>, d', []) \<and>
    serves good stored S d' \<and> length ns' = h \<and> cached io S U limit ns' \<and>
    ns' ! l = Some n \<and> nd_ptr n = p \<and> node_view n (map dent ts) \<and> (\<forall>k. k \<noteq> l \<longrightarrow> ns' ! k = ns ! k)"
proof (cases "map_option nd_ptr (ns ! l) = Some p")
  case True
  then obtain n where n: "ns ! l = Some n" "nd_ptr n = p" by auto
  then obtain ts' where "on_disk io S U limit (Suc l) (DNode p ts')" "node_view n (map dent ts')"
    using c l arrays_length [OF a] unfolding cached_def by blast
  then have "node_view n (map dent ts)" using same_node [OF d t] arrays_length [OF a] l by fastforce
  moreover have "it\<lparr>ci_node := Some ns\<rparr> = it" using a by (cases it) (simp add: arrays_def)
  moreover have "ctree_get_node it p l d [] = Some (Inr (), it, d, [])"
    using True a l by (simp add: ctree_get_node_def arrays_def)
  ultimately show ?thesis using n d c arrays_length [OF a] by (intro exI [of _ ns] exI [of _ d] exI [of _ n]) simp
next
  case False
  have "l < 2 ^ 31" using l arrays_length [OF a] by simp
  from load_node [OF d t this] obtain n d' where
    n: "ctree_load io d p l [] = Some (Inr n, d', [])" "serves good stored S d'" "nd_ptr n = p" "node_view n (map dent ts)"
    by blast
  have "ctree_get_node it p l d [] = Some (Inr (), it\<lparr>ci_node := Some (ns[l := Some n])\<rparr>, d', [])"
    using False a l n(1) by (auto simp: ctree_get_node_def arrays_def)
  moreover have "cached io S U limit (ns[l := Some n])" using cached_put [OF c] t n by blast
  ultimately show ?thesis using n arrays_length [OF a] l by (intro exI [of _ "ns[l := Some n]"]) auto
qed

end

end
