(* ===== verification/CtreeSteps.thy ===== *)
theory CtreeSteps
  imports CtreeWalk
begin

text \<open>
  The operations of the iterator of disk trees on paths: a step forward or back, both ends,
  the descent to a key.
\<close>

text \<open>\<open>moved\<close>: an operation has succeeded and the iterator has new arrays; the levels from
  \<open>k\<close> on are as before.\<close>

definition moved ::
    "'d io \<Rightarrow> ('d \<Rightarrow> bool) \<Rightarrow> ('d \<Rightarrow> nat \<Rightarrow> byte list \<Rightarrow> bool) \<Rightarrow> nat \<Rightarrow> (nat \<Rightarrow> byte list \<Rightarrow> bool) \<Rightarrow> nat set \<Rightarrow>
     nat \<Rightarrow> 'd ctree_iter \<Rightarrow> ctree_node option list \<Rightarrow> nat list \<Rightarrow> ('d, unit) step \<Rightarrow>
     ctree_node option list \<Rightarrow> nat list \<Rightarrow> bool" where
  "moved io good stored lim S U k it ns ps r ns' ps' \<longleftrightarrow>
     (\<exists>d'. r = Some (Inr (), it\<lparr>ci_node := Some ns', ci_pos := Some ps'\<rparr>, d', []) \<and> serves good stored S d') \<and>
     length ns' = length ns \<and> length ps' = length ps \<and> cached io S U lim ns' \<and>
     (\<forall>j \<ge> k. ns' ! j = ns ! j \<and> ps' ! j = ps ! j)"

text \<open>The end of a tree that is entered going forward is its first position, going back its
  last one.\<close>

definition edge :: "bool \<Rightarrow> dtree \<Rightarrow> nat" where
  "edge fwd t = (if fwd then 0 else length (dflat t) - 1)"

lemma enter_node:
  "node_view n es \<Longrightarrow> 0 < length es \<Longrightarrow> length es < 2 ^ 62 \<Longrightarrow>
   ctree_enter fwd n = (if fwd then 0 else length es - 1)"
proof -
  assume a: "node_view n es" "0 < length es" "length es < 2 ^ 62"
  then have "length es + (2 ^ 64 - 1) = (length es - 1) + 2 ^ 64" by simp
  then have "wrap64 (length es + (2 ^ 64 - 1)) = wrap64 (length es - 1)"
    unfolding wrap64_def by (metis mod_add_self2)
  then show ?thesis using a by (simp add: ctree_enter_def node_view_def wrap64_def)
qed

lemma concat_edge:
  assumes "ts \<noteq> []" and "\<forall>t \<in> set ts. dflat t \<noteq> []" and "c = (if fwd then 0 else length ts - 1)"
  shows "length (concat (map dflat (take c ts))) + edge fwd (ts ! c) = edge fwd (DNode p ts)"
proof (cases fwd)
  case False
  then obtain us u where ts: "ts = us @ [u]" "c = length us" using assms by (cases ts rule: rev_cases) auto
  then have "dflat u \<noteq> []" using assms(2) by simp
  then show ?thesis using ts False by (cases "dflat u") (simp_all add: edge_def)
qed (simp add: edge_def assms(3))

context page_device
begin

lemma flat_nonempty: "on_disk io S U limit (Suc r) (DNode p ts) \<Longrightarrow> ts \<noteq> [] \<and> (\<forall>t \<in> set ts. dflat t \<noteq> [])"
  by (auto dest: dflat_nonempty [of io S U limit r])

text \<open>Reading the levels below a position.\<close>

lemma refill:
  "\<lbrakk>serves good stored S d; arrays io h it ns ps; cached io S U limit ns; l < h; ns ! l = Some n;
    node_view n (map dent ts); ps ! l < length ts; \<forall>t \<in> set ts. on_disk io S U limit l t\<rbrakk> \<Longrightarrow>
   \<exists>ns' ps'. moved io good stored limit S U l it ns ps (ctree_refill fwd l it d []) ns' ps' \<and>
     (0 < l \<longrightarrow> path_at ns' ps' l (ts ! (ps ! l)) (edge fwd (ts ! (ps ! l))) \<and> leaf_in ns' ps')"
proof (induction l arbitrary: d it ns ps n ts)
  case 0
  then show ?case using arrays_self [OF 0(2)]
    by (intro exI [of _ ns] exI [of _ ps]) (simp add: moved_def)
next
  case (Suc l)
  let ?c = "ps ! Suc l"
  have od: "on_disk io S U limit (Suc l) (ts ! ?c)" using Suc.prems(7,8) by simp
  then obtain q cs where q: "ts ! ?c = DNode q cs" using on_disk_Suc by blast
  have lh: "l < h" "l < 2 ^ 31" "Suc l < h" using Suc.prems(4) arrays_length [OF Suc.prems(2)] by auto
  note len = arrays_length [OF Suc.prems(2)]
  from load_node [OF Suc.prems(1) od [unfolded q] lh(2)] obtain m d' where
    m: "ctree_load io d q l [] = Some (Inr m, d', [])" "serves good stored S d'" "nd_ptr m = q" "node_view m (map dent cs)"
    by blast
  note ne = on_disk_entries [OF od [unfolded q]]
  have en: "ctree_enter fwd m = (if fwd then 0 else length cs - 1)" using enter_node [OF m(4)] ne by simp
  let ?e = "ctree_enter fwd m" and ?ns = "ns[l := Some m]"
  let ?ps = "ps[l := ?e]" and ?it = "it\<lparr>ci_node := Some ?ns, ci_pos := Some (ps[l := ?e])\<rparr>"
  have a1: "arrays io h (it\<lparr>ci_node := Some ?ns\<rparr>) ?ns ps" using Suc.prems(2) len by simp
  have a2: "arrays io h ?it ?ns ?ps" using Suc.prems(2) len by simp
  have c2: "cached io S U limit ?ns" using m(3) od q by (intro cached_put [OF Suc.prems(3) _ m(4)]) simp
  have e2: "?ps ! l < length cs" using en ne(1) lh len by simp
  have run: "ctree_refill fwd (Suc l) it d [] = ctree_refill fwd l ?it d' []"
    using arrays_access(1,2) [OF Suc.prems(2) lh(3)] Suc.prems(2,5) node_ptr_child [OF Suc.prems(6,7) q] m(1)
      arrays_access(3) [OF Suc.prems(2) lh(1)] arrays_access(4) [OF a1 lh(1)]
    by (simp add: arrays_def)
  have n2: "?ns ! l = Some m" and cs: "\<forall>t \<in> set cs. on_disk io S U limit l t" using lh len od q by auto
  from Suc.IH [OF m(2) a2 c2 lh(1) n2 m(4) e2 cs] obtain ns' ps' where
    r: "moved io good stored limit S U l ?it ?ns ?ps (ctree_refill fwd l ?it d' []) ns' ps'"
      "0 < l \<longrightarrow> path_at ns' ps' l (cs ! (?ps ! l)) (edge fwd (cs ! (?ps ! l))) \<and> leaf_in ns' ps'" by blast
  have top: "ns' ! l = Some m" "ps' ! l = ?e" using r(1) lh len by (auto simp: moved_def)
  have "moved io good stored limit S U (Suc l) it ns ps (ctree_refill fwd (Suc l) it d []) ns' ps'"
    using r(1) unfolding run moved_def by auto
  moreover have "path_at ns' ps' (Suc l) (ts ! ?c) (edge fwd (ts ! ?c)) \<and> leaf_in ns' ps'"
  proof (cases "l = 0")
    case True
    then have "length (concat (map dflat cs)) = length cs" using leaf_flat [of cs io S U limit] cs by simp
    then show ?thesis using True top q m(3,4) en ne(1) by (auto simp: edge_def leaf_in_def node_view_def)
  next
    case False
    have "length (concat (map dflat (take ?e cs))) + edge fwd (cs ! ?e) = edge fwd (DNode q cs)"
      using flat_nonempty [OF od [unfolded q]] en by (intro concat_edge) auto
    then show ?thesis using False r(2) top q m(3,4) e2 lh len by fastforce
  qed
  ultimately show ?case by blast
qed

text \<open>Stepping at the level where the iterator can step.\<close>

lemma step_at:
  assumes d: "serves good stored S d" and a: "arrays io h it ns ps" and c: "cached io S U limit ns" and l: "l < h"
    and n: "ns ! l = Some n" "nd_ptr n = p" "node_view n (map dent ts)"
    and t: "on_disk io S U limit (Suc l) (DNode p ts)"
    and c': "(if fwd then wrap64 (ps ! l + 1) else ps ! l - 1) = c'" "c' < length ts"
  shows "\<exists>ns' ps'. moved io good stored limit S U (Suc l) it ns ps (ctree_step_at fwd l it d []) ns' ps' \<and>
    path_at ns' ps' (Suc l) (DNode p ts)
      (if l = 0 then c' else length (concat (map dflat (take c' ts))) + edge fwd (ts ! c')) \<and> leaf_in ns' ps'"
proof -
  note len = arrays_length [OF a]
  let ?ns = "replicate l None @ drop l ns" and ?ps = "ps[l := c']"
  let ?it = "it\<lparr>ci_node := Some ?ns, ci_pos := Some ?ps\<rparr>"
  have a1: "arrays io h (it\<lparr>ci_node := Some ?ns\<rparr>) ?ns ps" and a2: "arrays io h ?it ?ns ?ps"
    using a len l by simp_all
  have run: "ctree_step_at fwd l it d [] = ctree_refill fwd l ?it d []"
    using drop_below [OF a, of l] l arrays_access(2,4) [OF a1 l] c'(1) by (simp add: ctree_step_at_def)
  have top: "?ns ! l = Some n" "?ps ! l = c'" "?ps ! l < length ts"
    using n(1) l len c'(2) by (simp_all add: nth_append)
  have ts: "\<forall>t \<in> set ts. on_disk io S U limit l t" using t by simp
  from refill [OF d a2 cached_drop [OF c] l top(1) n(3) top(3) ts, of fwd] obtain ns' ps' where
    r: "moved io good stored limit S U l ?it ?ns ?ps (ctree_refill fwd l ?it d []) ns' ps'"
      "0 < l \<longrightarrow> path_at ns' ps' l (ts ! c') (edge fwd (ts ! c')) \<and> leaf_in ns' ps'" unfolding top(2) by blast
  have up: "ns' ! l = Some n" "ps' ! l = c'" using r(1) top by (auto simp: moved_def)
  have "moved io good stored limit S U (Suc l) it ns ps (ctree_step_at fwd l it d []) ns' ps'"
    using r(1) l len unfolding run moved_def by (auto simp: nth_append)
  moreover have "path_at ns' ps' (Suc l) (DNode p ts)
      (if l = 0 then c' else length (concat (map dflat (take c' ts))) + edge fwd (ts ! c')) \<and> leaf_in ns' ps'"
    using r(2) up n(2,3) c'(2) by (auto simp: leaf_in_def node_view_def)
  ultimately show ?thesis by blast
qed

lemma moved_mono: "moved io good stored lim S U k it ns ps r ns' ps' \<Longrightarrow> k \<le> k' \<Longrightarrow> moved io good stored lim S U k' it ns ps r ns' ps'"
  unfolding moved_def by auto

lemma find_level_append:
  "ctree_find_level fwd it (is @ js) =
     (case ctree_find_level fwd it is of Some None \<Rightarrow> ctree_find_level fwd it js | x \<Rightarrow> x)"
  by (induction "is") (auto split: option.splits bind_splits)

lemma concat_take_Suc:
  "c < length ts \<Longrightarrow> length (concat (map f (take (Suc c) ts))) = length (concat (map f (take c ts))) + length (f (ts ! c))"
  by (simp add: take_Suc_conv_app_nth)

lemma concat_take_le: "length (concat (map f (take c ts))) \<le> length (concat (map f ts))"
proof -
  have "concat (map f ts) = concat (map f (take c ts)) @ concat (map f (drop c ts))"
    by (metis append_take_drop_id concat_append map_append)
  then show ?thesis by simp
qed

lemma next_in:
  assumes d: "serves good stored S d" and a: "arrays io h it ns ps" and cn: "cached io S U limit ns"
  shows "\<lbrakk>on_disk io S U limit (Suc r) t; path_at ns ps (Suc r) t i; r < h; j = (if leaf_in ns ps then Suc i else i)\<rbrakk> \<Longrightarrow>
    if j < length (dflat t)
    then \<exists>l ns' ps'. ctree_find_level True it [0..<Suc r] = Some (Some l) \<and>
      moved io good stored limit S U (Suc r) it ns ps (ctree_step_at True l it d []) ns' ps' \<and>
      path_at ns' ps' (Suc r) t j \<and> leaf_in ns' ps'
    else j = length (dflat t) \<and> ctree_find_level True it [0..<Suc r] = Some None"
proof (induction r arbitrary: t i j)
  case 0
  obtain p ts where t: "t = DNode p ts" using on_disk_Suc [OF 0(1)] by blast
  then obtain n where n: "ns ! 0 = Some n" "nd_ptr n = p" "node_view n (map dent ts)" "ps ! 0 \<le> length ts" "i = ps ! 0"
    using 0(2) by auto
  have flat: "length (dflat t) = length ts" using leaf_flat [of ts io S U limit] 0(1) t by simp
  have ent: "nd_entries n = length ts" using n(3) by (simp add: node_view_def)
  have w: "wrap64 (ps ! 0 + 1) = Suc (ps ! 0)"
    using n(4) on_disk_entries(2) [OF 0(1) [unfolded t]] by (simp add: wrap64_def)
  have find: "ctree_find_level True it [0..<Suc 0] = Some (if Suc (ps ! 0) < length ts then Some 0 else None)"
    using arrays_access(1,2) [OF a 0(3)] n(1) w ent by simp
  have leaf: "leaf_in ns ps \<longleftrightarrow> ps ! 0 < length ts" using n(1) ent by (simp add: leaf_in_def)
  show ?case
  proof (cases "j < length (dflat t)")
    case True
    then have j: "j = Suc (ps ! 0)" "Suc (ps ! 0) < length ts" using 0(4) leaf n(5) flat by (auto split: if_splits)
    from step_at [OF d a cn 0(3) n(1-3) 0(1) [unfolded t], of True j] w j
    show ?thesis using True find t by auto
  next
    case False
    then have "j = length ts" "\<not> Suc (ps ! 0) < length ts" using 0(4) leaf n(4,5) flat by (auto split: if_splits)
    then show ?thesis using False find flat by simp
  qed
next
  case (Suc r)
  obtain p ts where t: "t = DNode p ts" using on_disk_Suc [OF Suc.prems(1)] by blast
  let ?c = "ps ! Suc r" and ?pre = "\<lambda>c. length (concat (map dflat (take c ts)))"
  from Suc.prems(2) obtain n i0 where n: "ns ! Suc r = Some n" "nd_ptr n = p" "node_view n (map dent ts)"
    and c: "?c < length ts" "path_at ns ps (Suc r) (ts ! ?c) i0" "i = ?pre ?c + i0"
    unfolding t by auto
  let ?C = "ts ! ?c"
  have od: "on_disk io S U limit (Suc r) ?C" using Suc.prems(1) c(1) t by simp
  define j0 where "j0 = (if leaf_in ns ps then Suc i0 else i0)"
  have j: "j = ?pre ?c + j0" using Suc.prems(4) c(3) by (simp add: j0_def)
  have rh: "r < h" using Suc.prems(3) by simp
  note IH = Suc.IH [OF od c(2) rh j0_def]
  have tot: "?pre (Suc ?c) \<le> length (dflat t)" using concat_take_le [of dflat "Suc ?c" ts] t by simp
  have upt: "[0..<Suc (Suc r)] = [0..<Suc r] @ [Suc r]" by simp
  show ?case
  proof (cases "j0 < length (dflat ?C)")
    case True
    with IH obtain l ns' ps' where
      f: "ctree_find_level True it [0..<Suc r] = Some (Some l)" and
      m: "moved io good stored limit S U (Suc r) it ns ps (ctree_step_at True l it d []) ns' ps'" and
      p: "path_at ns' ps' (Suc r) ?C j0" "leaf_in ns' ps'" by auto
    have "ctree_find_level True it [0..<Suc (Suc r)] = Some (Some l)" unfolding upt find_level_append using f by simp
    moreover have "path_at ns' ps' (Suc (Suc r)) t j"
      using m n c(1) p j t by (auto simp: moved_def)
    moreover have "j < length (dflat t)" using j True tot concat_take_Suc [OF c(1), of dflat] by simp
    ultimately show ?thesis using moved_mono [OF m, of "Suc (Suc r)"] p(2) by auto
  next
    case False
    with IH have f: "j0 = length (dflat ?C)" "ctree_find_level True it [0..<Suc r] = Some None" by auto
    have w: "wrap64 (?c + 1) = Suc ?c"
      using c(1) on_disk_entries(2) [OF Suc.prems(1) [unfolded t]] by (simp add: wrap64_def)
    have find: "ctree_find_level True it [0..<Suc (Suc r)] = Some (if Suc ?c < length ts then Some (Suc r) else None)"
      unfolding upt find_level_append
      using f(2) arrays_access(1,2) [OF a Suc.prems(3)] n(1,3) w by (simp add: node_view_def)
    have j': "j = ?pre (Suc ?c)" using j f(1) concat_take_Suc [OF c(1), of dflat] by simp
    show ?thesis
    proof (cases "Suc ?c < length ts")
      case True
      have "dflat (ts ! Suc ?c) \<noteq> []" using flat_nonempty [OF Suc.prems(1) [unfolded t]] True by simp
      then have "?pre (Suc ?c) < ?pre (Suc (Suc ?c))" using concat_take_Suc [OF True, of dflat] by simp
      then have "j < length (dflat t)" using j' concat_take_le [of dflat "Suc (Suc ?c)" ts] t by simp
      then show ?thesis
        using step_at [OF d a cn Suc.prems(3) n Suc.prems(1) [unfolded t], of True "Suc ?c"] w True find j' t
        by (auto simp: edge_def)
    next
      case False
      then have "take (Suc ?c) ts = ts" using c(1) by simp
      then show ?thesis using False find j' t by simp
    qed
  qed
qed

lemma prev_in:
  assumes d: "serves good stored S d" and a: "arrays io h it ns ps" and cn: "cached io S U limit ns"
  shows "\<lbrakk>on_disk io S U limit (Suc r) t; path_at ns ps (Suc r) t i; r < h\<rbrakk> \<Longrightarrow>
    if 0 < i
    then \<exists>l ns' ps'. ctree_find_level False it [0..<Suc r] = Some (Some l) \<and>
      moved io good stored limit S U (Suc r) it ns ps (ctree_step_at False l it d []) ns' ps' \<and>
      path_at ns' ps' (Suc r) t (i - 1) \<and> leaf_in ns' ps'
    else ctree_find_level False it [0..<Suc r] = Some None"
proof (induction r arbitrary: t i)
  case 0
  obtain p ts where t: "t = DNode p ts" using on_disk_Suc [OF 0(1)] by blast
  then obtain n where n: "ns ! 0 = Some n" "nd_ptr n = p" "node_view n (map dent ts)" "ps ! 0 \<le> length ts" "i = ps ! 0"
    using 0(2) by auto
  have find: "ctree_find_level False it [0..<Suc 0] = Some (if 0 < i then Some 0 else None)"
    using arrays_access(1,2) [OF a 0(3)] n(1,5) by simp
  show ?case
    using step_at [OF d a cn 0(3) n(1-3) 0(1) [unfolded t], of False "i - 1"] find n(4,5) t by auto
next
  case (Suc r)
  obtain p ts where t: "t = DNode p ts" using on_disk_Suc [OF Suc.prems(1)] by blast
  let ?c = "ps ! Suc r" and ?pre = "\<lambda>c. length (concat (map dflat (take c ts)))"
  from Suc.prems(2) obtain n i0 where n: "ns ! Suc r = Some n" "nd_ptr n = p" "node_view n (map dent ts)"
    and c: "?c < length ts" "path_at ns ps (Suc r) (ts ! ?c) i0" "i = ?pre ?c + i0"
    unfolding t by auto
  have od: "on_disk io S U limit (Suc r) (ts ! ?c)" using Suc.prems(1) c(1) t by simp
  have rh: "r < h" using Suc.prems(3) by simp
  note IH = Suc.IH [OF od c(2) rh]
  have upt: "[0..<Suc (Suc r)] = [0..<Suc r] @ [Suc r]" by simp
  show ?case
  proof (cases "0 < i0")
    case True
    with IH obtain l ns' ps' where
      f: "ctree_find_level False it [0..<Suc r] = Some (Some l)" and
      m: "moved io good stored limit S U (Suc r) it ns ps (ctree_step_at False l it d []) ns' ps'" and
      p: "path_at ns' ps' (Suc r) (ts ! ?c) (i0 - 1)" "leaf_in ns' ps'" by auto
    have "ctree_find_level False it [0..<Suc (Suc r)] = Some (Some l)" unfolding upt find_level_append using f by simp
    moreover have "path_at ns' ps' (Suc (Suc r)) t (i - 1)"
      using m n c p True t by (auto simp: moved_def intro!: exI [of _ "i0 - 1"])
    ultimately show ?thesis using moved_mono [OF m, of "Suc (Suc r)"] p(2) True c(3) by auto
  next
    case False
    with IH have f: "i0 = 0" "ctree_find_level False it [0..<Suc r] = Some None" by auto
    have find: "ctree_find_level False it [0..<Suc (Suc r)] = Some (if 0 < ?c then Some (Suc r) else None)"
      unfolding upt find_level_append using f(2) arrays_access(1,2) [OF a Suc.prems(3)] n(1) by simp
    show ?thesis
    proof (cases "0 < ?c")
      case True
      then obtain c where c': "?c = Suc c" "c < length ts" using c(1) by (cases ?c) auto
      have "dflat (ts ! c) \<noteq> []" using flat_nonempty [OF Suc.prems(1) [unfolded t]] c'(2) by simp
      then have i: "?pre c + edge False (ts ! c) = i - 1" "0 < i"
        using c(3) f(1) c'(1) concat_take_Suc [OF c'(2), of dflat] by (cases "dflat (ts ! c)"; simp add: edge_def)+
      then show ?thesis
        using step_at [OF d a cn Suc.prems(3) n Suc.prems(1) [unfolded t], of False c] c' find t by auto
    next
      case False
      then show ?thesis using find c(3) f(1) by simp
    qed
  qed
qed

text \<open>Going to the first or the last entry.\<close>

lemma descend:
  "\<lbrakk>serves good stored S d; arrays io h it ns ps; cached io S U limit ns; r < h;
    on_disk io S U limit (Suc r) (DNode p ts)\<rbrakk> \<Longrightarrow>
   \<exists>ns' ps'. moved io good stored limit S U (Suc r) it ns ps (ctree_descend fwd (Suc r) p it d []) ns' ps' \<and>
     path_at ns' ps' (Suc r) (DNode p ts) (edge fwd (DNode p ts)) \<and> leaf_in ns' ps'"
proof (induction r arbitrary: d it ns ps p ts)
  case (Suc r)
  note len = arrays_length [OF Suc.prems(2)]
  have r31: "Suc r < 2 ^ 31" using Suc.prems(4) len by simp
  from load_node [OF Suc.prems(1,5) r31] obtain m d' where
    m: "ctree_load io d p (Suc r) [] = Some (Inr m, d', [])" "serves good stored S d'" "nd_ptr m = p"
      "node_view m (map dent ts)" by blast
  note ne = on_disk_entries [OF Suc.prems(5)]
  let ?e = "ctree_enter fwd m" and ?ns = "ns[Suc r := Some m]"
  let ?ps = "ps[Suc r := ?e]"
  let ?it = "it\<lparr>ci_node := Some ?ns, ci_pos := Some ?ps\<rparr>"
  have en: "?e = (if fwd then 0 else length ts - 1)" using enter_node [OF m(4)] ne by simp
  then have e: "?e < length ts" using ne(1) by simp
  have od: "on_disk io S U limit (Suc r) (ts ! ?e)" using Suc.prems(5) e by simp
  then obtain q cs where q: "ts ! ?e = DNode q cs" using on_disk_Suc by blast
  have a1: "arrays io h (it\<lparr>ci_node := Some ?ns\<rparr>) ?ns ps" and a2: "arrays io h ?it ?ns ?ps"
    using Suc.prems(2) len by simp_all
  have c2: "cached io S U limit ?ns"
    using m(3) Suc.prems(5) by (intro cached_put [OF Suc.prems(3) _ m(4)]) simp
  have run: "ctree_descend fwd (Suc (Suc r)) p it d [] = ctree_descend fwd (Suc r) q ?it d' []"
    using Suc.prems(2) m(1) arrays_access(3) [OF Suc.prems(2,4)] arrays_access(4) [OF a1 Suc.prems(4)]
      node_ptr_child [OF m(4) e q]
    by (subst ctree_descend.simps) (simp add: arrays_def del: ctree_descend.simps)
  have rh: "r < h" using Suc.prems(4) by simp
  from Suc.IH [OF m(2) a2 c2 rh od [unfolded q]] obtain ns' ps' where
    r: "moved io good stored limit S U (Suc r) ?it ?ns ?ps (ctree_descend fwd (Suc r) q ?it d' []) ns' ps'"
      "path_at ns' ps' (Suc r) (DNode q cs) (edge fwd (DNode q cs))" "leaf_in ns' ps'" by blast
  have top: "ns' ! Suc r = Some m" "ps' ! Suc r = ?e" using r(1) Suc.prems(4) len by (auto simp: moved_def)
  have "moved io good stored limit S U (Suc (Suc r)) it ns ps (ctree_descend fwd (Suc (Suc r)) p it d []) ns' ps'"
    using r(1) unfolding run moved_def by auto
  moreover have "length (concat (map dflat (take ?e ts))) + edge fwd (ts ! ?e) = edge fwd (DNode p ts)"
    using flat_nonempty [OF Suc.prems(5)] en by (intro concat_edge) auto
  with path_up [OF top(1) m(3,4) top(2) e r(2) [folded q]] q
  have "path_at ns' ps' (Suc (Suc r)) (DNode p ts) (edge fwd (DNode p ts))" by metis
  ultimately show ?case using r(3) by blast
next
  case 0
  note len = arrays_length [OF 0(2)]
  have z31: "(0::nat) < 2 ^ 31" by simp
  from load_node [OF 0(1,5) z31] obtain m d' where
    m: "ctree_load io d p 0 [] = Some (Inr m, d', [])" "serves good stored S d'" "nd_ptr m = p"
      "node_view m (map dent ts)" by blast
  note ne = on_disk_entries [OF 0(5)]
  let ?e = "ctree_enter fwd m" and ?ns = "ns[0 := Some m]"
  have en: "?e = (if fwd then 0 else length ts - 1)" using enter_node [OF m(4)] ne by simp
  have a1: "arrays io h (it\<lparr>ci_node := Some ?ns\<rparr>) ?ns ps" using 0(2) len by simp
  have "ctree_descend fwd (Suc 0) p it d [] =
      Some (Inr (), it\<lparr>ci_node := Some ?ns, ci_pos := Some (ps[0 := ?e])\<rparr>, d', [])"
    using 0(2) m(1) arrays_access(3) [OF 0(2,4)] arrays_access(4) [OF a1 0(4)] by (simp add: arrays_def)
  moreover have "cached io S U limit ?ns" using m(3) 0(5) by (intro cached_put [OF 0(3) _ m(4)]) simp
  moreover have "length (concat (map dflat ts)) = length ts" using leaf_flat [of ts io S U limit] 0(5) by simp
  then have "path_at ?ns (ps[0 := ?e]) (Suc 0) (DNode p ts) (edge fwd (DNode p ts)) \<and> leaf_in ?ns (ps[0 := ?e])"
    using m(3,4) en ne(1) 0(4) len by (auto simp: edge_def leaf_in_def node_view_def)
  ultimately show ?case
    using m(2) by (intro exI [of _ ?ns] exI [of _ "ps[0 := ?e]"]) (auto simp: moved_def)
qed

end

text \<open>One position further in the leaf.\<close>

lemma path_bump:
  "path_at ns ps r t i \<Longrightarrow> leaf_in ns ps \<Longrightarrow> r \<le> length ps \<Longrightarrow> path_at ns (ps[0 := Suc (ps ! 0)]) r t (Suc i)"
proof (induction ns ps r t i rule: path_at.induct)
  case (3 ns ps r p ts i)
  then have "0 < length ps" by linarith
  with 3 show ?case by (cases r) (auto simp: leaf_in_def node_view_def)
qed auto

section \<open>Descending to a key\<close>

context key_order
begin

lemma sorted_dents:
  "kv_sorted cmp (concat (map dflat ts)) \<Longrightarrow> \<forall>t \<in> set ts. dflat t \<noteq> [] \<and> dkey t = fst (hd (dflat t)) \<Longrightarrow>
   kv_sorted cmp (map dent ts)"
proof (induction ts)
  case (Cons t ts)
  then have "kv_sorted cmp (map dent ts)" by (simp add: kv_sorted_append)
  moreover have "cmp (dkey t) (dkey u) < 0" if u: "u \<in> set ts" for u
  proof -
    have "hd (dflat t) \<in> set (dflat t)" "hd (dflat u) \<in> set (concat (map dflat ts))"
      using Cons.prems(2) u by (auto intro!: bexI [of _ u])
    then show ?thesis using Cons.prems u by (simp add: kv_sorted_append)
  qed
  ultimately show ?case by (simp add: kv_sorted_Cons)
qed simp

text \<open>The child whose leaves hold the lower bound of a key, or end just before it.\<close>

lemma lower_child:
  assumes s: "kv_sorted cmp (concat (map dflat ts))" and ts: "ts \<noteq> []"
    and ne: "\<forall>t \<in> set ts. dflat t \<noteq> [] \<and> dkey t = fst (hd (dflat t))"
    and c: "c = kv_upper cmp key (map dent ts) - 1"
  shows "c < length ts"
    and "kv_lower cmp key (concat (map dflat ts)) =
      length (concat (map dflat (take c ts))) + kv_lower cmp key (dflat (ts ! c))"
proof -
  let ?u = "kv_upper cmp key (map dent ts)"
  let ?A = "concat (map dflat (take c ts))" and ?B = "dflat (ts ! c)" and ?C = "concat (map dflat (drop (Suc c) ts))"
  have u: "?u \<le> length ts" using kv_upper_le [of cmp key "map dent ts"] by simp
  show c': "c < length ts" using u ts c by (cases ts) auto
  have flat: "concat (map dflat ts) = ?A @ ?B @ ?C" by (rule concat_split [OF c'])
  have B: "?B \<noteq> []" "dkey (ts ! c) = fst (hd ?B)" using ne c' by auto
  then have hdB: "hd ?B \<in> set ?B" by simp
  have A: "\<forall>e \<in> set ?A. cmp (fst e) key < 0"
  proof (cases "?u = 0")
    case False
    then have "c < ?u" using c by simp
    then have "cmp (fst (hd ?B)) key \<le> 0" using kv_upper_below [of c cmp key "map dent ts"] c' B(2) by simp
    moreover have "\<forall>e \<in> set ?A. cmp (fst e) (fst (hd ?B)) < 0"
      using s hdB unfolding flat by (simp add: kv_sorted_append)
    ultimately show ?thesis using cmp_less_trans by blast
  qed (simp add: c)
  have C: "kv_lower cmp key ?C = 0"
  proof (cases "Suc c < length ts")
    case True
    have "?u \<le> Suc c" using c by simp
    then have "0 < cmp (dkey (ts ! Suc c)) key"
      using kv_upper_above [OF sorted_dents [OF s ne], of key "Suc c"] True by simp
    moreover have "?C = dflat (ts ! Suc c) @ concat (map dflat (drop (Suc (Suc c)) ts))"
      using True by (simp flip: Cons_nth_drop_Suc)
    moreover have "dflat (ts ! Suc c) \<noteq> []" "dkey (ts ! Suc c) = fst (hd (dflat (ts ! Suc c)))" using ne True by auto
    ultimately show ?thesis by (cases "dflat (ts ! Suc c)") auto
  qed simp
  show "kv_lower cmp key (concat (map dflat ts)) = length ?A + kv_lower cmp key ?B"
  proof (cases "\<forall>e \<in> set ?B. cmp (fst e) key < 0")
    case True
    then have "kv_lower cmp key ?B = length ?B" using kv_lower_eq_length by blast
    then show ?thesis unfolding flat kv_lower_append [of cmp key ?A] kv_lower_append [of cmp key ?B] using A C True by simp
  next
    case False
    then show ?thesis unfolding flat kv_lower_append [of cmp key ?A] kv_lower_append [of cmp key ?B] using A by auto
  qed
qed

end

context page_device
begin

lemma lookup_in:
  assumes k: "key_order cmp"
  shows "\<lbrakk>serves good stored S d; arrays io h it ns ps; ci_cmp it = cmp; cached io S U limit ns; r < h;
    on_disk io S U limit (Suc r) (DNode p ts); kv_sorted cmp (dflat (DNode p ts))\<rbrakk> \<Longrightarrow>
   \<exists>ns' ps'. moved io good stored limit S U (Suc r) it ns ps (ctree_lookup_down key r p it d []) ns' ps' \<and>
     path_at ns' ps' (Suc r) (DNode p ts) (kv_lower cmp key (dflat (DNode p ts)))"
proof (induction r arbitrary: d it ns ps p ts)
  case 0
  note len = arrays_length [OF 0(2)]
  from get_node [OF 0(1,2,4,6,5)] obtain ns' d' n where
    g: "ctree_get_node it p 0 d [] = Some (Inr (), it\<lparr>ci_node := Some ns'\<rparr>, d', [])" "serves good stored S d'"
      "length ns' = h" "cached io S U limit ns'" "ns' ! 0 = Some n" "nd_ptr n = p" "node_view n (map dent ts)"
      "\<forall>k. k \<noteq> 0 \<longrightarrow> ns' ! k = ns ! k" by blast
  have a1: "arrays io h (it\<lparr>ci_node := Some ns'\<rparr>) ns' ps" using 0(2) g(3) by simp
  let ?pos = "kv_lower cmp key (map dent ts)"
  have run: "ctree_lookup_down key 0 p it d [] =
      Some (Inr (), it\<lparr>ci_node := Some ns', ci_pos := Some (ps[0 := ?pos])\<rparr>, d', [])"
    using g(1,5) arrays_access(1) [OF a1 0(5)] arrays_access(4) [OF a1 0(5)] node_lower_bound [OF g(7)] 0(3) by simp
  have "concat (map dflat ts) = map dent ts" using leaf_flat [of ts io S U limit] 0(6) by simp
  then have "path_at ns' (ps[0 := ?pos]) (Suc 0) (DNode p ts) (kv_lower cmp key (dflat (DNode p ts)))"
    using g(5-7) kv_lower_le [of cmp key "map dent ts"] 0(5) len by simp
  moreover have "moved io good stored limit S U (Suc 0) it ns ps (ctree_lookup_down key 0 p it d []) ns' (ps[0 := ?pos])"
    unfolding run moved_def using g len by auto
  ultimately show ?case by blast
next
  case (Suc r)
  note len = arrays_length [OF Suc.prems(2)]
  from get_node [OF Suc.prems(1,2,4,6,5)] obtain ns1 d1 n where
    g: "ctree_get_node it p (Suc r) d [] = Some (Inr (), it\<lparr>ci_node := Some ns1\<rparr>, d1, [])" "serves good stored S d1"
      "length ns1 = h" "cached io S U limit ns1" "ns1 ! Suc r = Some n" "nd_ptr n = p" "node_view n (map dent ts)"
      "\<forall>k. k \<noteq> Suc r \<longrightarrow> ns1 ! k = ns ! k" by blast
  have a1: "arrays io h (it\<lparr>ci_node := Some ns1\<rparr>) ns1 ps" using Suc.prems(2) g(3) by simp
  let ?c = "kv_upper cmp key (map dent ts) - 1"
  let ?it = "it\<lparr>ci_node := Some ns1, ci_pos := Some (ps[Suc r := ?c])\<rparr>"
  have ne: "\<forall>t \<in> set ts. dflat t \<noteq> [] \<and> dkey t = fst (hd (dflat t))"
    using Suc.prems(6) by (auto intro: on_disk_hd [of io S U limit "Suc r"] dest: dflat_nonempty [of io S U limit "Suc r"])
  have ts: "ts \<noteq> []" using Suc.prems(6) by simp
  note child = key_order.lower_child [OF k Suc.prems(7) [simplified] ts ne, of ?c key, OF refl]
  have od: "on_disk io S U limit (Suc r) (ts ! ?c)" using Suc.prems(6) child(1) by simp
  then obtain q cs where q: "ts ! ?c = DNode q cs" using on_disk_Suc by blast
  have run: "ctree_lookup_down key (Suc r) p it d [] = ctree_lookup_down key r q ?it d1 []"
    using g(1,5) arrays_access(1) [OF a1 Suc.prems(5)] arrays_access(4) [OF a1 Suc.prems(5)] node_upper_bound [OF g(7)]
      Suc.prems(3) node_ptr_child [OF g(7) child(1) q]
    by (cases "kv_upper cmp key (map dent ts)") (simp_all add: Let_def)
  have a2: "arrays io h ?it ns1 (ps[Suc r := ?c])" using Suc.prems(2) g(3) len by simp
  have "kv_sorted cmp (dflat (ts ! ?c))"
    using Suc.prems(7) concat_split [OF child(1), of dflat] by (simp add: kv_sorted_append)
  with Suc.IH [OF g(2) a2 _ g(4) _ od [unfolded q]] q Suc.prems(3,5) obtain ns' ps' where
    r: "moved io good stored limit S U (Suc r) ?it ns1 (ps[Suc r := ?c]) (ctree_lookup_down key r q ?it d1 []) ns' ps'"
      "path_at ns' ps' (Suc r) (ts ! ?c) (kv_lower cmp key (dflat (ts ! ?c)))" by auto
  have top: "ns' ! Suc r = Some n" "ps' ! Suc r = ?c" using r(1) g(5) Suc.prems(5) len by (auto simp: moved_def)
  have "moved io good stored limit S U (Suc (Suc r)) it ns ps (ctree_lookup_down key (Suc r) p it d []) ns' ps'"
    using r(1) g(3,8) len unfolding run moved_def by auto
  moreover have "path_at ns' ps' (Suc (Suc r)) (DNode p ts) (kv_lower cmp key (dflat (DNode p ts)))"
    using path_up [OF top(1) g(6,7) top(2) child(1) r(2)] child(2) by simp
  ultimately show ?case by blast
qed

end

end
