(* ===== verification/CtreeCursor.thy ===== *)
theory CtreeCursor
  imports CtreeSteps CtreeProps
begin

text \<open>
  The iterator of disk trees as a cursor: every operation of \<open>ctree_iter\<close> on a tree that the
  device holds, and the properties of the walk, of the bounds and of lookup.
\<close>

section \<open>Positions\<close>

text \<open>The tree of an iterator, and its arrays if they have been allocated.\<close>

definition citer_ready ::
    "(nat \<Rightarrow> byte list \<Rightarrow> bool) \<Rightarrow> nat set \<Rightarrow> nat \<Rightarrow> 'd ctree_iter \<Rightarrow> kv list \<Rightarrow> bool" where
  "citer_ready S U lim it xs \<longleftrightarrow> ci_height it < 2 ^ 31 \<and>
     ctree_on (ci_io it) S U lim (ci_ptr it) (ci_height it) xs \<and>
     (ci_node it = None \<and> ci_pos it = None \<or>
      (\<exists>ns ps. arrays (ci_io it) (ci_height it) it ns ps \<and> cached (ci_io it) S U lim ns))"

definition citer_at ::
    "(nat \<Rightarrow> byte list \<Rightarrow> bool) \<Rightarrow> nat set \<Rightarrow> nat \<Rightarrow> 'd ctree_iter \<Rightarrow> kv list \<Rightarrow> nat \<Rightarrow> bool" where
  "citer_at S U lim it xs i \<longleftrightarrow> ci_height it < 2 ^ 31 \<and>
     (\<exists>ns ps. arrays (ci_io it) (ci_height it) it ns ps \<and> cached (ci_io it) S U lim ns \<and>
       (if ci_height it = 0 then xs = [] \<and> i = 0
        else \<exists>ts. on_disk (ci_io it) S U lim (ci_height it) (DNode (ci_ptr it) ts) \<and> dflat (DNode (ci_ptr it) ts) = xs \<and>
          path_at ns ps (ci_height it) (DNode (ci_ptr it) ts) i \<and> (leaf_in ns ps \<or> i = length xs)))"

lemma citer_at_Suc:
  "ci_height it = Suc r \<Longrightarrow> citer_at S U lim it xs i \<longleftrightarrow> Suc r < 2 ^ 31 \<and>
     (\<exists>ns ps ts. arrays (ci_io it) (Suc r) it ns ps \<and> cached (ci_io it) S U lim ns \<and>
        on_disk (ci_io it) S U lim (Suc r) (DNode (ci_ptr it) ts) \<and> dflat (DNode (ci_ptr it) ts) = xs \<and>
        path_at ns ps (Suc r) (DNode (ci_ptr it) ts) i \<and> (leaf_in ns ps \<or> i = length xs))"
  unfolding citer_at_def by (simp del: on_disk.simps path_at.simps dflat.simps)

lemma citer_atI:
  assumes "ci_height it = Suc r" and "arrays io (Suc r) it ns ps" and "cached io S U lim ns" and "ci_ptr it = p"
    and "on_disk io S U lim (Suc r) (DNode p ts)" and "dflat (DNode p ts) = xs" and "path_at ns ps (Suc r) (DNode p ts) i"
    and "leaf_in ns ps \<or> i = length xs"
  shows "citer_at S U lim it xs i"
proof -
  have "ci_io it = io" "Suc r < 2 ^ 31" using assms(2) by (auto simp: arrays_def)
  then show ?thesis unfolding citer_at_Suc [OF assms(1)] using assms(2-8) by blast
qed

lemma citer_at_ready: "citer_at S U lim it xs i \<Longrightarrow> citer_ready S U lim it xs"
  unfolding citer_at_def citer_ready_def ctree_on_def by (cases "ci_height it = 0"; simp; blast)

lemma citer_at_le: "citer_at S U lim it xs i \<Longrightarrow> i \<le> length xs"
  unfolding citer_at_def using path_leaf by (fastforce split: if_splits)

text \<open>What no operation of an iterator changes.\<close>

definition same_tree :: "'d ctree_iter \<Rightarrow> 'd ctree_iter \<Rightarrow> bool" where
  "same_tree it it' \<longleftrightarrow> ci_io it' = ci_io it \<and> ci_cmp it' = ci_cmp it \<and> ci_ptr it' = ci_ptr it \<and> ci_height it' = ci_height it"

lemma same_tree_simps [simp]:
  "same_tree it it" "same_tree it (it\<lparr>ci_node := n\<rparr>)" "same_tree it (it\<lparr>ci_pos := p\<rparr>)"
  "same_tree it (it\<lparr>ci_node := n, ci_pos := p\<rparr>)"
  by (simp_all add: same_tree_def)

lemma same_tree_trans: "same_tree a b \<Longrightarrow> same_tree b c \<Longrightarrow> same_tree a c"
  by (simp add: same_tree_def)

context page_device
begin

lemma prepare:
  assumes "citer_ready S U lim it xs"
  shows "\<exists>ns ps. ctree_iter_prepare it [] = Some (Inr (), it\<lparr>ci_node := Some ns, ci_pos := Some ps\<rparr>, []) \<and>
    arrays (ci_io it) (ci_height it) (it\<lparr>ci_node := Some ns, ci_pos := Some ps\<rparr>) ns ps \<and> cached (ci_io it) S U lim ns"
proof (cases "ci_node it = None \<and> ci_pos it = None")
  case True
  let ?ns = "replicate (ci_height it) None" and ?ps = "replicate (ci_height it) 0"
  have "ctree_iter_prepare it [] = Some (Inr (), it\<lparr>ci_node := Some ?ns, ci_pos := Some ?ps\<rparr>, [])"
    using True by (simp add: ctree_iter_prepare_def)
  then show ?thesis using assms by (intro exI [of _ ?ns] exI [of _ ?ps]) (simp add: arrays_def citer_ready_def)
next
  case False
  then obtain ns ps where a: "arrays (ci_io it) (ci_height it) it ns ps" "cached (ci_io it) S U lim ns"
    using assms by (auto simp: citer_ready_def)
  then have "ctree_iter_prepare it [] = Some (Inr (), it, [])" by (simp add: ctree_iter_prepare_def arrays_def)
  then show ?thesis using a arrays_self [OF a(1)] by (intro exI [of _ ns] exI [of _ ps]) simp
qed

text \<open>What \<open>moved\<close> says about positions.\<close>

lemma moved_at:
  assumes "moved io good stored limit S U k it ns ps r ns' ps'" and "arrays io h it ns ps" and "ci_height it = h"
    and "0 < h" and "on_disk io S U limit h (DNode (ci_ptr it) ts)" and "path_at ns' ps' h (DNode (ci_ptr it) ts) j"
    and "leaf_in ns' ps' \<or> j = length (dflat (DNode (ci_ptr it) ts))"
  shows "\<exists>it' d'. r = Some (Inr (), it', d', []) \<and> serves good stored S d' \<and> same_tree it it' \<and>
    citer_at S U limit it' (dflat (DNode (ci_ptr it) ts)) j"
proof -
  let ?it = "it\<lparr>ci_node := Some ns', ci_pos := Some ps'\<rparr>"
  from assms(1) obtain d' where d': "r = Some (Inr (), ?it, d', [])" "serves good stored S d'" "cached io S U limit ns'"
      "length ns' = length ns" "length ps' = length ps"
    by (auto simp: moved_def)
  have "arrays io h ?it ns' ps'" using assms(2) d'(4,5) by (simp add: arrays_def)
  moreover have "ci_io it = io" "h < 2 ^ 31" using assms(2) by (auto simp: arrays_def)
  ultimately have "citer_at S U limit ?it (dflat (DNode (ci_ptr it) ts)) j"
    unfolding citer_at_def using assms(3-7) d'(3) by (intro conjI exI [of _ ns'] exI [of _ ps']) auto
  then show ?thesis using d'(1,2) by fastforce
qed

lemma next_at:
  assumes d: "serves good stored S d" and it: "citer_at S U limit it xs i" and io: "ci_io it = io"
  shows "\<exists>r it' d'. ctree_next it d [] = Some (r, it', d', []) \<and> serves good stored S d' \<and> same_tree it it' \<and>
    citer_at S U limit it' xs (min (Suc i) (length xs)) \<and> r = (if Suc i < length xs then Inr () else Inl ENOENT)"
proof (cases "ci_height it")
  case 0
  then have "xs = []" "i = 0" using it by (auto simp: citer_at_def)
  then show ?thesis using it d 0 by (simp add: ctree_next_def)
next
  case (Suc r)
  let ?t = "\<lambda>ts. DNode (ci_ptr it) ts"
  from it Suc io obtain ns ps ts where
    a: "arrays io (Suc r) it ns ps" and c: "cached io S U limit ns" and
    t: "on_disk io S U limit (Suc r) (?t ts)" "dflat (?t ts) = xs" "path_at ns ps (Suc r) (?t ts) i"
      "leaf_in ns ps \<or> i = length xs" by (auto simp: citer_at_def)
  obtain n where n: "ns ! 0 = Some n" "ps ! 0 \<le> nd_entries n" "i \<le> length xs"
      "ps ! 0 < nd_entries n \<longrightarrow> i < length xs" using path_leaf [OF t(1,3)] t(2) by auto
  define j where "j = (if leaf_in ns ps then Suc i else i)"
  have j: "j = min (Suc i) (length xs)" using n t(4) by (auto simp: j_def leaf_in_def)
  have "r < Suc r" by simp
  note N = next_in [OF d a c t(1,3) this j_def]
  show ?thesis
  proof (cases "Suc i < length xs")
    case True
    then have "j < length (dflat (?t ts))" using t(2) j by simp
    with N obtain l ns' ps' where f: "ctree_find_level True it [0..<Suc r] = Some (Some l)"
        "moved io good stored limit S U (Suc r) it ns ps (ctree_step_at True l it d []) ns' ps'"
        "path_at ns' ps' (Suc r) (?t ts) j" "leaf_in ns' ps'" by auto
    have "ctree_next it d [] = ctree_step_at True l it d []" using f(1) Suc by (simp add: ctree_next_def)
    then show ?thesis
      using moved_at [OF f(2) a Suc _ t(1) f(3) disjI1 [OF f(4)]] True j t(2) by auto
  next
    case False
    then have je: "j = length xs" "\<not> j < length (dflat (?t ts))" using j t(2) by auto
    with N have f: "ctree_find_level True it [0..<Suc r] = Some None" by simp
    let ?ps = "if leaf_in ns ps then ps[0 := Suc (ps ! 0)] else ps"
    let ?it = "it\<lparr>ci_node := Some ns, ci_pos := Some ?ps\<rparr>"
    have "ps ! 0 < 2 ^ 62" if "leaf_in ns ps"
    proof -
      obtain p cs where leaf: "on_disk io S U limit (Suc 0) (DNode p cs)" "node_view n (map dent cs)"
        using c n(1) arrays_length [OF a] unfolding cached_def by (metis zero_less_Suc)
      then show ?thesis using that n(1) on_disk_entries(2) [OF leaf(1)] by (auto simp: leaf_in_def node_view_def)
    qed
    then have "leaf_in ns ps \<Longrightarrow> wrap64 (ps ! 0 + 1) = Suc (ps ! 0)" by (simp add: wrap64_def)
    moreover have "leaf_in ns ps \<longleftrightarrow> ps ! 0 \<noteq> nd_entries n" using n(1,2) by (auto simp: leaf_in_def)
    moreover have "it\<lparr>ci_pos := Some (ps[0 := x])\<rparr> = it\<lparr>ci_node := Some ns, ci_pos := Some (ps[0 := x])\<rparr>" for x
      using a by (cases it) (simp add: arrays_def)
    ultimately have run: "ctree_next it d [] = Some (Inl ENOENT, ?it, d, [])"
      using f Suc n(1) arrays_access [OF a, of 0] arrays_self [OF a]
      by (auto simp: ctree_next_def simp del: upt_Suc)
    have "path_at ns ?ps (Suc r) (?t ts) j"
      using path_bump [OF t(3)] t(3) arrays_length [OF a] by (auto simp: j_def simp del: path_at.simps)
    then have "citer_at S U limit ?it xs j"
      unfolding citer_at_def using arrays_length [OF a] a Suc io c t je(1)
      by (intro conjI exI [of _ ns] exI [of _ ?ps]) (auto simp: arrays_def simp del: path_at.simps)
    then show ?thesis using run d False j by auto
  qed
qed

lemma prev_at:
  assumes d: "serves good stored S d" and it: "citer_at S U limit it xs i" and io: "ci_io it = io"
  shows "\<exists>r it' d'. ctree_prev it d [] = Some (r, it', d', []) \<and> serves good stored S d' \<and> same_tree it it' \<and>
    citer_at S U limit it' xs (i - 1) \<and> r = (if i = 0 then Inl ENOENT else Inr ()) \<and> (i = 0 \<longrightarrow> it' = it)"
proof (cases "ci_height it")
  case 0
  then have "xs = []" "i = 0" using it by (auto simp: citer_at_def)
  then show ?thesis using it d 0 by (simp add: ctree_prev_def)
next
  case (Suc r)
  let ?t = "\<lambda>ts. DNode (ci_ptr it) ts"
  from it Suc io obtain ns ps ts where
    a: "arrays io (Suc r) it ns ps" and c: "cached io S U limit ns" and
    t: "on_disk io S U limit (Suc r) (?t ts)" "dflat (?t ts) = xs" "path_at ns ps (Suc r) (?t ts) i"
    by (auto simp: citer_at_def)
  have "r < Suc r" by simp
  note P = prev_in [OF d a c t(1,3) this]
  show ?thesis
  proof (cases "0 < i")
    case True
    with P obtain l ns' ps' where f: "ctree_find_level False it [0..<Suc r] = Some (Some l)"
        "moved io good stored limit S U (Suc r) it ns ps (ctree_step_at False l it d []) ns' ps'"
        "path_at ns' ps' (Suc r) (?t ts) (i - 1)" "leaf_in ns' ps'" by auto
    have "ctree_prev it d [] = ctree_step_at False l it d []" using f(1) Suc by (simp add: ctree_prev_def)
    then show ?thesis using moved_at [OF f(2) a Suc _ t(1) f(3) disjI1 [OF f(4)]] True t(2) by auto
  next
    case False
    with P have "ctree_prev it d [] = Some (Inl ENOENT, it, d, [])" using Suc by (simp add: ctree_prev_def)
    then show ?thesis using False it d by auto
  qed
qed

text \<open>The iterator of an empty tree has arrays of no elements.\<close>

lemma empty_at:
  assumes "citer_ready S U lim it xs" and "ci_height it = 0"
  shows "\<exists>it'. ctree_iter_prepare it [] = Some (Inr (), it', []) \<and> same_tree it it' \<and> xs = [] \<and> citer_at S U lim it' xs 0"
proof -
  from prepare [OF assms(1)] obtain ns ps where p: "ctree_iter_prepare it [] = Some (Inr (), it\<lparr>ci_node := Some ns, ci_pos := Some ps\<rparr>, [])"
    "arrays (ci_io it) (ci_height it) (it\<lparr>ci_node := Some ns, ci_pos := Some ps\<rparr>) ns ps" "cached (ci_io it) S U lim ns" by blast
  have "xs = []" using assms by (simp add: citer_ready_def ctree_on_def)
  then show ?thesis using p assms(2) by (auto simp: citer_at_def)
qed

lemma ready_tree:
  assumes "citer_ready S U lim it xs" and "ci_height it = Suc r"
  shows "\<exists>ts. on_disk (ci_io it) S U lim (Suc r) (DNode (ci_ptr it) ts) \<and> dflat (DNode (ci_ptr it) ts) = xs"
  using assms by (auto simp: citer_ready_def ctree_on_def)

lemma descend_at:
  assumes d: "serves good stored S d" and it: "citer_ready S U limit it xs" and io: "ci_io it = io" and h: "0 < ci_height it"
  shows "\<exists>it1 it' d'. ctree_iter_prepare it [] = Some (Inr (), it1, []) \<and> same_tree it it1 \<and> xs \<noteq> [] \<and>
    ctree_descend fwd (ci_height it) (ci_ptr it) it1 d [] = Some (Inr (), it', d', []) \<and> serves good stored S d' \<and>
    same_tree it it' \<and> citer_at S U limit it' xs (if fwd then 0 else length xs - 1)"
proof -
  obtain r where Suc: "ci_height it = Suc r" using h by (cases "ci_height it") auto
  obtain ts where t: "on_disk io S U limit (Suc r) (DNode (ci_ptr it) ts)" "dflat (DNode (ci_ptr it) ts) = xs"
    using ready_tree [OF it Suc] io by auto
  from prepare [OF it] obtain ns ps where p: "ctree_iter_prepare it [] = Some (Inr (), it\<lparr>ci_node := Some ns, ci_pos := Some ps\<rparr>, [])"
    "arrays io (Suc r) (it\<lparr>ci_node := Some ns, ci_pos := Some ps\<rparr>) ns ps" "cached io S U limit ns" using io Suc by auto
  let ?it = "it\<lparr>ci_node := Some ns, ci_pos := Some ps\<rparr>"
  have "r < Suc r" by simp
  from descend [OF d p(2,3) this t(1), of fwd] obtain ns' ps' where
    m: "moved io good stored limit S U (Suc r) ?it ns ps (ctree_descend fwd (Suc r) (ci_ptr it) ?it d []) ns' ps'"
      "path_at ns' ps' (Suc r) (DNode (ci_ptr it) ts) (edge fwd (DNode (ci_ptr it) ts))" "leaf_in ns' ps'" by blast
  have 1: "ci_height ?it = Suc r" "on_disk io S U limit (Suc r) (DNode (ci_ptr ?it) ts)"
    "path_at ns' ps' (Suc r) (DNode (ci_ptr ?it) ts) (edge fwd (DNode (ci_ptr it) ts))"
    using Suc t(1) m(2) by simp_all
  from moved_at [OF m(1) p(2) 1(1) _ 1(2,3) disjI1 [OF m(3)]] t(2) obtain it' d' where
    r: "ctree_descend fwd (Suc r) (ci_ptr it) ?it d [] = Some (Inr (), it', d', [])" "serves good stored S d'"
      "same_tree ?it it'" "citer_at S U limit it' xs (edge fwd (DNode (ci_ptr it) ts))" by auto
  have "xs \<noteq> []" using dflat_nonempty [OF t(1)] t(2) by blast
  moreover have "same_tree it it'" using r(3) by (simp add: same_tree_def)
  moreover have "edge fwd (DNode (ci_ptr it) ts) = (if fwd then 0 else length xs - 1)" using t(2) by (simp add: edge_def)
  ultimately show ?thesis using p(1) r(1,2,4) Suc by (intro exI [of _ ?it] exI [of _ it'] exI [of _ d']) simp
qed

lemma begin_at:
  assumes d: "serves good stored S d" and it: "citer_ready S U limit it xs" and io: "ci_io it = io"
  shows "\<exists>it' d'. ctree_begin it d [] = Some (Inr (), it', d', []) \<and> serves good stored S d' \<and> same_tree it it' \<and>
    citer_at S U limit it' xs 0"
proof (cases "ci_height it = 0")
  case True
  then show ?thesis using empty_at [OF it] d by (auto simp: ctree_begin_def same_tree_def)
next
  case False
  then show ?thesis using descend_at [OF d it io, of True] by (auto simp: ctree_begin_def same_tree_def)
qed

text \<open>Past the last entry.\<close>

lemma bump_at:
  assumes it: "citer_at S U limit it xs (length xs - 1)" and xs: "xs \<noteq> []" and io: "ci_io it = io"
  shows "\<exists>p it'. iter_pos it 0 = Some p \<and> iter_seek it 0 (wrap64 (p + 1)) = Some it' \<and> same_tree it it' \<and>
    citer_at S U limit it' xs (length xs)"
proof -
  from it xs obtain r where r: "ci_height it = Suc r" by (cases "ci_height it") (auto simp: citer_at_def)
  let ?t = "\<lambda>ts. DNode (ci_ptr it) ts"
  obtain ns ps ts where
    a: "arrays io (Suc r) it ns ps" and c: "cached io S U limit ns" and
    t: "on_disk io S U limit (Suc r) (?t ts)" "dflat (?t ts) = xs" "path_at ns ps (Suc r) (?t ts) (length xs - 1)"
      "leaf_in ns ps \<or> length xs - 1 = length xs"
    using it [unfolded citer_at_Suc [OF r] io] by blast
  then have t4: "leaf_in ns ps" using xs by (cases xs) auto
  obtain n where n: "ns ! 0 = Some n" "ps ! 0 < nd_entries n" using t4 by (auto simp: leaf_in_def)
  obtain p cs where leaf: "on_disk io S U limit (Suc 0) (DNode p cs)" "node_view n (map dent cs)"
    using c n(1) arrays_length [OF a] unfolding cached_def by (metis zero_less_Suc)
  then have w: "wrap64 (ps ! 0 + 1) = Suc (ps ! 0)"
    using n(2) on_disk_entries(2) [OF leaf(1)] by (simp add: wrap64_def node_view_def)
  let ?ps = "ps[0 := Suc (ps ! 0)]" and ?it = "it\<lparr>ci_pos := Some (ps[0 := Suc (ps ! 0)])\<rparr>"
  have "path_at ns ?ps (Suc r) (?t ts) (length xs)"
    using path_bump [OF t(3) t4] arrays_length [OF a] xs by (simp del: path_at.simps)
  then have "citer_at S U limit ?it xs (length xs)"
    unfolding citer_at_def using arrays_length [OF a] a r io c t(1,2)
    by (intro conjI exI [of _ ns] exI [of _ ?ps]) (auto simp: arrays_def simp del: path_at.simps)
  then show ?thesis using arrays_access [OF a, of 0] w by simp
qed

lemma end_at:
  assumes d: "serves good stored S d" and it: "citer_ready S U limit it xs" and io: "ci_io it = io"
  shows "\<exists>it' d'. ctree_end it d [] = Some (Inr (), it', d', []) \<and> serves good stored S d' \<and> same_tree it it' \<and>
    citer_at S U limit it' xs (length xs)"
proof (cases "ci_height it = 0")
  case True
  then show ?thesis using empty_at [OF it] d by (auto simp: ctree_end_def same_tree_def)
next
  case False
  then obtain it1 it2 d' where
    r: "ctree_iter_prepare it [] = Some (Inr (), it1, [])" "same_tree it it1" "xs \<noteq> []"
      "ctree_descend False (ci_height it) (ci_ptr it) it1 d [] = Some (Inr (), it2, d', [])" "serves good stored S d'"
      "same_tree it it2" "citer_at S U limit it2 xs (length xs - 1)"
    using descend_at [OF d it io, of False] by auto
  have "ci_io it2 = io" using r(6) io by (simp add: same_tree_def)
  from bump_at [OF r(7,3) this] obtain p it' where
    b: "iter_pos it2 0 = Some p" "iter_seek it2 0 (wrap64 (p + 1)) = Some it'" "same_tree it2 it'"
      "citer_at S U limit it' xs (length xs)" by blast
  have "ctree_end it d [] = Some (Inr (), it', d', [])"
    using r(1,2,4,6) b(1,2) False by (simp add: ctree_end_def same_tree_def)
  then show ?thesis using r(5) b(4) same_tree_trans [OF r(6) b(3)] by blast
qed

section \<open>The entry at a position\<close>

lemma at_leaf:
  assumes it: "citer_at S U limit it xs i" and h: "0 < ci_height it"
  shows "\<exists>n p. iter_node it 0 = Some n \<and> iter_pos it 0 = Some p \<and> (p = nd_entries n \<longleftrightarrow> i = length xs) \<and>
    (i < length xs \<longrightarrow> ctree_node_key n p = Some (fst (xs ! i)) \<and> ctree_node_val n p = Some (snd (xs ! i)))"
proof -
  obtain r where r: "ci_height it = Suc r" using h by (cases "ci_height it") auto
  from it r obtain ns ps ts where
    a: "arrays (ci_io it) (Suc r) it ns ps" and
    t: "on_disk (ci_io it) S U limit (Suc r) (DNode (ci_ptr it) ts)" "dflat (DNode (ci_ptr it) ts) = xs"
      "path_at ns ps (Suc r) (DNode (ci_ptr it) ts) i" "leaf_in ns ps \<or> i = length xs" by (auto simp: citer_at_def)
  from path_leaf [OF t(1,3)] obtain n where n: "ns ! 0 = Some n" "ps ! 0 \<le> nd_entries n"
      "ps ! 0 < nd_entries n \<longrightarrow> i < length xs \<and> ctree_node_key n (ps ! 0) = Some (fst (xs ! i)) \<and>
        ctree_node_val n (ps ! 0) = Some (snd (xs ! i))" unfolding t(2) by blast
  then show ?thesis using arrays_access(1,2) [OF a, of 0] t(4) by (auto simp: leaf_in_def)
qed

lemma key_at: "citer_at S U limit it xs i \<Longrightarrow> ctree_key it = Some (if i < length xs then Inr (fst (xs ! i)) else Inl ENOENT)"
  using at_leaf [of S U it xs i] citer_at_le [of S U limit it xs i]
  by (cases "ci_height it = 0") (auto simp: ctree_key_def citer_at_def)

lemma val_at: "citer_at S U limit it xs i \<Longrightarrow> ctree_val it = Some (if i < length xs then Inr (snd (xs ! i)) else Inl ENOENT)"
  using at_leaf [of S U it xs i] citer_at_le [of S U limit it xs i]
  by (cases "ci_height it = 0") (auto simp: ctree_val_def citer_at_def)

section \<open>Bounds and lookup\<close>

text \<open>\<open>__ctree_lookup\<close> stops at the lower bound, or at the end of the leaf before it; a step
  forward goes on from there.\<close>

lemma lookup_pos_at:
  assumes d: "serves good stored S d" and it: "citer_ready S U limit it xs" and io: "ci_io it = io"
    and k: "key_order (ci_cmp it)" and s: "kv_sorted (ci_cmp it) xs" and h: "ci_height it = Suc r"
  shows "\<exists>it' d' ns ps ts. ctree_lookup_pos key it d [] = Some (Inr (), it', d', []) \<and> serves good stored S d' \<and>
    same_tree it it' \<and> arrays io (Suc r) it' ns ps \<and> cached io S U limit ns \<and>
    on_disk io S U limit (Suc r) (DNode (ci_ptr it) ts) \<and> dflat (DNode (ci_ptr it) ts) = xs \<and>
    path_at ns ps (Suc r) (DNode (ci_ptr it) ts) (kv_lower (ci_cmp it) key xs)"
proof -
  obtain ts where t: "on_disk io S U limit (Suc r) (DNode (ci_ptr it) ts)" "dflat (DNode (ci_ptr it) ts) = xs"
    using ready_tree [OF it h] io by auto
  from prepare [OF it] obtain ns ps where p: "ctree_iter_prepare it [] = Some (Inr (), it\<lparr>ci_node := Some ns, ci_pos := Some ps\<rparr>, [])"
    "arrays io (Suc r) (it\<lparr>ci_node := Some ns, ci_pos := Some ps\<rparr>) ns ps" "cached io S U limit ns" using io h by auto
  let ?it = "it\<lparr>ci_node := Some ns, ci_pos := Some ps\<rparr>"
  have c: "ci_cmp ?it = ci_cmp it" and lt: "r < Suc r" by simp_all
  from lookup_in [OF k d p(2) c p(3) lt t(1)] s t(2) obtain ns' ps' where
    m: "moved io good stored limit S U (Suc r) ?it ns ps (ctree_lookup_down key r (ci_ptr it) ?it d []) ns' ps'"
      "path_at ns' ps' (Suc r) (DNode (ci_ptr it) ts) (kv_lower (ci_cmp it) key xs)" by metis
  then obtain d' where d': "ctree_lookup_down key r (ci_ptr it) ?it d [] =
        Some (Inr (), it\<lparr>ci_node := Some ns', ci_pos := Some ps'\<rparr>, d', [])" "serves good stored S d'"
      "length ns' = length ns" "length ps' = length ps" "cached io S U limit ns'" by (auto simp: moved_def)
  have "ctree_lookup_pos key it d [] = Some (Inr (), it\<lparr>ci_node := Some ns', ci_pos := Some ps'\<rparr>, d', [])"
    using p(1) d'(1) h by (simp add: ctree_lookup_pos_def)
  moreover have "arrays io (Suc r) (it\<lparr>ci_node := Some ns', ci_pos := Some ps'\<rparr>) ns' ps'"
    using p(2) d'(3,4) by (simp add: arrays_def)
  ultimately show ?thesis using d'(2,5) t m(2) same_tree_simps(4) by blast
qed

lemma lower_at:
  assumes d: "serves good stored S d" and it: "citer_ready S U limit it xs" and io: "ci_io it = io"
    and k: "key_order (ci_cmp it)" and s: "kv_sorted (ci_cmp it) xs" and h: "0 < ci_height it"
  shows "\<exists>it' d'. ctree_lower_bound key it d [] = Some (Inr (), it', d', []) \<and> serves good stored S d' \<and>
    same_tree it it' \<and> citer_at S U limit it' xs (kv_lower (ci_cmp it) key xs)"
proof -
  let ?i = "kv_lower (ci_cmp it) key xs"
  obtain r where h: "ci_height it = Suc r" using h by (cases "ci_height it") auto
  from lookup_pos_at [OF assms(1-5) this] obtain it1 d1 ns ps ts where
    l: "ctree_lookup_pos key it d [] = Some (Inr (), it1, d1, [])" "serves good stored S d1" "same_tree it it1" and
    a: "arrays io (Suc r) it1 ns ps" and c: "cached io S U limit ns" and
    t: "on_disk io S U limit (Suc r) (DNode (ci_ptr it) ts)" "dflat (DNode (ci_ptr it) ts) = xs"
      "path_at ns ps (Suc r) (DNode (ci_ptr it) ts) ?i" by blast
  note st = l(3) [unfolded same_tree_def]
  have h1: "ci_height it1 = Suc r" using st h by simp
  obtain n where n: "ns ! 0 = Some n" "ps ! 0 \<le> nd_entries n" "?i \<le> length xs"
      "ps ! 0 < nd_entries n \<longrightarrow> ?i < length xs" using path_leaf [OF t(1,3)] t(2) by auto
  have acc: "iter_node it1 0 = Some n" "iter_pos it1 0 = Some (ps ! 0)" using arrays_access(1,2) [OF a, of 0] n(1) by simp_all
  show ?thesis
  proof (cases "leaf_in ns ps")
    case True
    then have "ps ! 0 \<noteq> nd_entries n" using n(1) by (auto simp: leaf_in_def)
    then have "ctree_lower_bound key it d [] = Some (Inr (), it1, d1, [])"
      using l(1) acc h by (simp add: ctree_lower_bound_def)
    moreover have "citer_at S U limit it1 xs ?i"
      using citer_atI [OF h1 a c _ t] True st by blast
    ultimately show ?thesis using l(2,3) by blast
  next
    case False
    then have e: "ps ! 0 = nd_entries n" using n(1,2) by (auto simp: leaf_in_def)
    define j where "j = (if leaf_in ns ps then Suc ?i else ?i)"
    then have j: "j = ?i" using False by simp
    have "r < Suc r" by simp
    note N = next_in [OF l(2) a c t(1,3) this j_def, unfolded t(2) j]
    show ?thesis
    proof (cases "?i < length xs")
      case True
      with N obtain l' ns' ps' where f: "ctree_find_level True it1 [0..<Suc r] = Some (Some l')"
          "moved io good stored limit S U (Suc r) it1 ns ps (ctree_step_at True l' it1 d1 []) ns' ps'"
          "path_at ns' ps' (Suc r) (DNode (ci_ptr it) ts) ?i" "leaf_in ns' ps'" by auto
      have nx: "ctree_next it1 d1 [] = ctree_step_at True l' it1 d1 []" using f(1) h1 by (simp add: ctree_next_def)
      have "on_disk io S U limit (Suc r) (DNode (ci_ptr it1) ts)" "path_at ns' ps' (Suc r) (DNode (ci_ptr it1) ts) ?i"
        using t(1) f(3) st by simp_all
      from moved_at [OF f(2) a h1 _ this disjI1 [OF f(4)]] t(2) st obtain it' d' where
        "ctree_next it1 d1 [] = Some (Inr (), it', d', [])" "serves good stored S d'" "same_tree it1 it'"
        "citer_at S U limit it' xs ?i" unfolding nx by auto
      moreover have "ctree_lower_bound key it d [] = Some (Inr (), it', d', [])"
        using l(1) acc h e calculation(1) by (simp add: ctree_lower_bound_def)
      ultimately show ?thesis using same_tree_trans [OF l(3)] by blast
    next
      case no: False
      then have i: "?i = length xs" using n(3) by simp
      have "ctree_next it1 d1 [] = Some (Inl ENOENT, it1, d1, [])"
        using N no h1 acc e by (simp add: ctree_next_def)
      then have "ctree_lower_bound key it d [] = Some (Inr (), it1, d1, [])"
        using l(1) acc h e by (simp add: ctree_lower_bound_def)
      moreover have "citer_at S U limit it1 xs ?i"
        using citer_atI [OF h1 a c _ t] i st by blast
      ultimately show ?thesis using l(2,3) by blast
    qed
  qed
qed

end

end
