(* ===== verification/CtreeIterProps.thy ===== *)
theory CtreeIterProps
  imports CtreeCursor
begin

text \<open>
  What the iterator of disk trees promises: it walks over all entries in both directions, it
  finds exactly the keys that are there, and a tree that the builder has written is found
  again entry by entry. The iterator is an instance of the \<open>cursor\<close> contract.
\<close>

section \<open>The cursor\<close>

type_synonym 'd cwalk = "'d ctree_iter \<times> 'd"

definition cstep :: "('d, 'r) step \<Rightarrow> ((errno + 'r) \<times> 'd cwalk) option" where
  "cstep r = map_option (\<lambda>(rc, it, d, m). (rc, (it, d))) r"

definition ckey :: "'d cwalk \<Rightarrow> (errno + lsm_key) option" where
  "ckey s = ctree_key (fst s)"

definition cval :: "'d cwalk \<Rightarrow> (errno + lsm_val) option" where
  "cval s = ctree_val (fst s)"

definition cnext :: "'d cwalk \<Rightarrow> ((errno + unit) \<times> 'd cwalk) option" where
  "cnext s = cstep (ctree_next (fst s) (snd s) [])"

definition cprev :: "'d cwalk \<Rightarrow> ((errno + unit) \<times> 'd cwalk) option" where
  "cprev s = cstep (ctree_prev (fst s) (snd s) [])"

definition cpos :: "'d cwalk \<Rightarrow> kv list \<Rightarrow> nat \<Rightarrow> bool" where
  "cpos s xs i \<longleftrightarrow> (\<exists>good stored limit S U. page_device (ci_io (fst s)) good stored limit \<and>
     serves good stored S (snd s) \<and> citer_at S U limit (fst s) xs i)"

lemma cposI: "page_device (ci_io it) good stored limit \<Longrightarrow> serves good stored S d \<Longrightarrow> citer_at S U limit it xs i \<Longrightarrow> cpos (it, d) xs i"
  unfolding cpos_def fst_conv snd_conv by blast

lemma cnext_at:
  assumes "page_device (ci_io (fst s)) good stored limit" and "serves good stored S (snd s)" and "citer_at S U limit (fst s) xs i"
  shows "\<exists>s'. cnext s = Some (if Suc i < length xs then Inr () else Inl ENOENT, s') \<and> serves good stored S (snd s') \<and>
    same_tree (fst s) (fst s') \<and> citer_at S U limit (fst s') xs (min (Suc i) (length xs))"
  using page_device.next_at [OF assms refl] by (fastforce simp: cnext_def cstep_def)

lemma cprev_at:
  assumes "page_device (ci_io (fst s)) good stored limit" and "serves good stored S (snd s)" and "citer_at S U limit (fst s) xs i"
  shows "\<exists>s'. cprev s = Some (if i = 0 then Inl ENOENT else Inr (), s') \<and> serves good stored S (snd s') \<and>
    same_tree (fst s) (fst s') \<and> citer_at S U limit (fst s') xs (i - 1)"
  using page_device.prev_at [OF assms refl] by (fastforce simp: cprev_def cstep_def)

text \<open>A set of positions that no step leaves is a cursor.\<close>

lemma cursorI:
  assumes dev: "\<And>s xs i. P s xs i \<Longrightarrow> \<exists>good stored limit S U. page_device (ci_io (fst s)) good stored limit \<and>
      serves good stored S (snd s) \<and> citer_at S U limit (fst s) xs i \<and>
      (\<forall>s' j. same_tree (fst s) (fst s') \<and> serves good stored S (snd s') \<and> citer_at S U limit (fst s') xs j \<longrightarrow> P s' xs j)"
  shows "cursor P ckey cval cnext cprev"
proof
  fix s xs i
  assume p: "P s xs i"
  from dev [OF p] obtain good stored limit S U where
    at: "page_device (ci_io (fst s)) good stored limit" "serves good stored S (snd s)" "citer_at S U limit (fst s) xs i" and
    stay: "\<And>s' j. same_tree (fst s) (fst s') \<Longrightarrow> serves good stored S (snd s') \<Longrightarrow> citer_at S U limit (fst s') xs j \<Longrightarrow> P s' xs j"
    by blast
  show "i \<le> length xs" by (rule citer_at_le [OF at(3)])
  show "ckey s = Some (if i < length xs then Inr (fst (xs ! i)) else Inl ENOENT)"
    unfolding ckey_def by (rule page_device.key_at [OF at(1,3)])
  show "cval s = Some (if i < length xs then Inr (snd (xs ! i)) else Inl ENOENT)"
    unfolding cval_def by (rule page_device.val_at [OF at(1,3)])
  from cnext_at [OF at] stay show "\<exists>r s'. cnext s = Some (r, s') \<and> P s' xs (min (Suc i) (length xs)) \<and>
      (r = Inr () \<or> r = Inl ENOENT) \<and> (Suc i < length xs \<longrightarrow> r = Inr ()) \<and> (i = length xs \<longrightarrow> r = Inl ENOENT)"
    by fastforce
  from cprev_at [OF at] stay show "\<exists>r s'. cprev s = Some (r, s') \<and> P s' xs (i - 1) \<and> r = (if i = 0 then Inl ENOENT else Inr ())"
    by fastforce
qed

interpretation ctree_cursor: cursor cpos ckey cval cnext cprev
proof (rule cursorI)
  fix s :: "'d cwalk" and xs i
  assume "cpos s xs i"
  then show "\<exists>good stored limit S U. page_device (ci_io (fst s)) good stored limit \<and>
      serves good stored S (snd s) \<and> citer_at S U limit (fst s) xs i \<and>
      (\<forall>s' j. same_tree (fst s) (fst s') \<and> serves good stored S (snd s') \<and> citer_at S U limit (fst s') xs j \<longrightarrow> cpos s' xs j)"
    unfolding cpos_def same_tree_def by metis
qed

section \<open>A tree on a device\<close>

text \<open>\<open>tree_on\<close>: the descriptor describes a tree with the sorted entries \<open>xs\<close> that the device
  holds on pages in use.\<close>

definition tree_on ::
    "('d \<Rightarrow> bool) \<Rightarrow> ('d \<Rightarrow> nat \<Rightarrow> byte list \<Rightarrow> bool) \<Rightarrow> nat \<Rightarrow> nat set \<Rightarrow> 'd \<Rightarrow> 'd ctree \<Rightarrow> kv list \<Rightarrow> bool" where
  "tree_on good stored lim U d t xs \<longleftrightarrow> page_device (tr_io t) good stored lim \<and> key_order (tr_cmp t) \<and> good d \<and>
     kv_sorted (tr_cmp t) xs \<and> tr_height t < 2 ^ 31 \<and> ctree_on (tr_io t) (stored d) U lim (tr_ptr t) (tr_height t) xs"

lemma tree_on_setup:
  assumes "tree_on good stored lim U d t xs"
  shows "\<exists>it. ctree_iter_setup t = Some it \<and> ci_io it = tr_io t \<and> ci_cmp it = tr_cmp t \<and> ci_height it = tr_height t \<and>
    serves good stored (stored d) d \<and> citer_ready (stored d) U lim it xs"
  using assms by (simp add: tree_on_def ctree_iter_setup_def serves_def citer_ready_def)

text \<open>An iterator of the tree that has been set up, wherever earlier operations have left it.\<close>

definition on_tree ::
    "('d \<Rightarrow> bool) \<Rightarrow> ('d \<Rightarrow> nat \<Rightarrow> byte list \<Rightarrow> bool) \<Rightarrow> nat \<Rightarrow> nat set \<Rightarrow> (nat \<Rightarrow> byte list \<Rightarrow> bool) \<Rightarrow> 'd ctree \<Rightarrow> kv list \<Rightarrow> 'd cwalk \<Rightarrow> bool" where
  "on_tree good stored lim U S t xs s \<longleftrightarrow> page_device (tr_io t) good stored lim \<and> key_order (tr_cmp t) \<and> kv_sorted (tr_cmp t) xs \<and>
     ci_io (fst s) = tr_io t \<and> ci_cmp (fst s) = tr_cmp t \<and> ci_height (fst s) = tr_height t \<and>
     serves good stored S (snd s) \<and> citer_ready S U lim (fst s) xs"

lemma on_tree_setup:
  assumes "tree_on good stored lim U d t xs" and "ctree_iter_setup t = Some it"
  shows "on_tree good stored lim U (stored d) t xs (it, d)"
  using tree_on_setup [OF assms(1)] assms by (auto simp: on_tree_def tree_on_def)

lemma on_tree_at:
  assumes "on_tree good stored lim U S t xs (it, d)" and "same_tree it it'" and "serves good stored S d'" and "citer_at S U lim it' xs i"
  shows "on_tree good stored lim U S t xs (it', d')" "cpos (it', d') xs i"
  using assms citer_at_ready [OF assms(4)] cposI [OF _ assms(3,4)] by (auto simp: on_tree_def same_tree_def)

text \<open>Positions on this tree are a cursor too, and walking leaves the iterator on the tree.\<close>

definition tpos ::
    "('d \<Rightarrow> bool) \<Rightarrow> ('d \<Rightarrow> nat \<Rightarrow> byte list \<Rightarrow> bool) \<Rightarrow> nat \<Rightarrow> nat set \<Rightarrow> (nat \<Rightarrow> byte list \<Rightarrow> bool) \<Rightarrow> 'd ctree \<Rightarrow> 'd cwalk \<Rightarrow> kv list \<Rightarrow> nat \<Rightarrow> bool" where
  "tpos good stored lim U S t s xs i \<longleftrightarrow> on_tree good stored lim U S t xs s \<and> citer_at S U lim (fst s) xs i"

lemma tpos_cpos: "tpos good stored lim U S t s xs i \<Longrightarrow> cpos s xs i"
  unfolding tpos_def on_tree_def cpos_def by metis

lemma tpos_cursor: "cursor (tpos good stored lim U S t) ckey cval cnext cprev"
proof (rule cursorI)
  fix s xs i
  assume "tpos good stored lim U S t s xs i"
  then show "\<exists>good' stored' limit S' U'. page_device (ci_io (fst s)) good' stored' limit \<and>
      serves good' stored' S' (snd s) \<and> citer_at S' U' limit (fst s) xs i \<and>
      (\<forall>s' j. same_tree (fst s) (fst s') \<and> serves good' stored' S' (snd s') \<and> citer_at S' U' limit (fst s') xs j \<longrightarrow>
         tpos good stored lim U S t s' xs j)"
    unfolding tpos_def on_tree_def same_tree_def
    by (intro exI [of _ good] exI [of _ stored] exI [of _ lim] exI [of _ S] exI [of _ U]) (auto intro: citer_at_ready)
qed

lemma on_tree_begin:
  assumes "on_tree good stored lim U S t xs (it, d)"
  shows "\<exists>it' d'. ctree_begin it d [] = Some (Inr (), it', d', []) \<and> tpos good stored lim U S t (it', d') xs 0"
  using page_device.begin_at [of "tr_io t" good stored lim S d U it xs] on_tree_at(1) [OF assms] assms by (fastforce simp: on_tree_def tpos_def)

lemma on_tree_end:
  assumes "on_tree good stored lim U S t xs (it, d)"
  shows "\<exists>it' d'. ctree_end it d [] = Some (Inr (), it', d', []) \<and> tpos good stored lim U S t (it', d') xs (length xs)"
  using page_device.end_at [of "tr_io t" good stored lim S d U it xs] on_tree_at(1) [OF assms] assms by (fastforce simp: on_tree_def tpos_def)

text \<open>The lower bound, and what the leaf holds there.\<close>

lemma on_tree_lower:
  assumes "on_tree good stored lim U S t xs (it, d)" and "0 < tr_height t"
  shows "\<exists>it' d' n p. ctree_lower_bound key it d [] = Some (Inr (), it', d', []) \<and>
    on_tree good stored lim U S t xs (it', d') \<and> cpos (it', d') xs (kv_lower (tr_cmp t) key xs) \<and>
    citer_at S U lim it' xs (kv_lower (tr_cmp t) key xs) \<and>
    iter_node it' 0 = Some n \<and> iter_pos it' 0 = Some p \<and> (p = nd_entries n \<longleftrightarrow> kv_lower (tr_cmp t) key xs = length xs) \<and>
    (kv_lower (tr_cmp t) key xs < length xs \<longrightarrow> ctree_node_key n p = Some (fst (xs ! kv_lower (tr_cmp t) key xs)))"
proof -
  let ?i = "kv_lower (tr_cmp t) key xs"
  have pd: "page_device (tr_io t) good stored lim" and k: "key_order (tr_cmp t)" and s: "kv_sorted (tr_cmp t) xs"
    and it: "ci_io it = tr_io t" "ci_cmp it = tr_cmp t" "ci_height it = tr_height t"
      "serves good stored S d" "citer_ready S U lim it xs" using assms(1) by (auto simp: on_tree_def)
  from page_device.lower_at [OF pd it(4,5,1), unfolded it(2,3), OF k s assms(2), of key] obtain l d' where
    l: "ctree_lower_bound key it d [] = Some (Inr (), l, d', [])" "serves good stored S d'" "same_tree it l"
      "citer_at S U lim l xs ?i" by blast
  have "0 < ci_height l" using l(3) it(3) assms(2) by (simp add: same_tree_def)
  from page_device.at_leaf [OF pd l(4) this] l(1,4) on_tree_at [OF assms(1) l(3,2,4)] show ?thesis by blast
qed

text \<open>The tree of the witnesses: three entries in two leaves below a root, one page each.\<close>

definition num_key :: "u64 \<Rightarrow> lsm_key" where
  "num_key n = le64_enc n"

definition demo_leaf1 :: "kv list" where
  "demo_leaf1 = [(num_key 1, [10]), (num_key 3, [])]"

definition demo_leaf2 :: "kv list" where
  "demo_leaf2 = [(num_key 5, [7, 8])]"

definition demo_children :: "dtree list" where
  "demo_children = [DNode (node_ptr test_io 0 0 demo_leaf1) (map DEntry demo_leaf1),
     DNode (node_ptr test_io 1 0 demo_leaf2) (map DEntry demo_leaf2)]"

definition demo_disk :: vfile where
  "demo_disk = \<lparr>content = node_img test_io 0 demo_leaf1 @ node_img test_io 0 demo_leaf2 @
     node_img test_io 1 (map dent demo_children), script = []\<rparr>"

definition demo_ctree :: "vfile ctree" where
  "demo_ctree = \<lparr>tr_io = test_io, tr_cmp = test_cmp, tr_ptr = node_ptr test_io 2 1 (map dent demo_children),
     tr_height = 2, tr_pages = 3\<rparr>"

definition demo_list :: "kv list" where
  "demo_list = demo_leaf1 @ demo_leaf2"

lemma num_key_simps [simp]: "length (num_key n) = 8" "test_value (num_key n) = sint n"
  by (simp_all add: num_key_def test_value_def)

lemma demo_one_page:
  assumes "node_bytes es \<le> 4096"
  shows "node_pages test_io es = 1" and "length (node_img test_io l es) = 4096"
proof -
  show p: "node_pages test_io es = 1"
    using npages_le_iff [OF page_ok_test, of "node_bytes es" 1] npages_le_iff [OF page_ok_test, of "node_bytes es" 0] assms
    by (simp add: node_pages_def) (simp add: node_bytes_def)
  show "length (node_img test_io l es) = 4096" using length_node_img [OF page_ok_test] p by simp
qed

lemma demo_bytes: "node_bytes demo_leaf1 \<le> 4096" "node_bytes demo_leaf2 \<le> 4096" "node_bytes (map dent demo_children) \<le> 4096"
  by (simp_all add: node_bytes_def demo_leaf1_def demo_leaf2_def demo_children_def)

lemma demo_tree_on: "tree_on test_good test_stored test_limit {..<3} demo_disk demo_ctree demo_list"
proof -
  let ?S = "test_stored demo_disk"
  note len = demo_one_page(2) [OF demo_bytes(1)] demo_one_page(2) [OF demo_bytes(2)] demo_one_page(2) [OF demo_bytes(3)]
  have st: "?S 0 (node_img test_io 0 demo_leaf1)" "?S 1 (node_img test_io 0 demo_leaf2)"
      "?S 2 (node_img test_io 1 (map dent demo_children))"
    by (simp_all add: test_stored_def demo_disk_def len buf_get_def)
  have flat: "map dent (map DEntry es) = es" for es by (induction es) auto
  have "dnode_at test_io ?S {..<3} test_limit 0 (node_ptr test_io 0 0 demo_leaf1) demo_leaf1"
    unfolding dnode_at_def
    by (rule exI [of _ 0]) (use st demo_one_page(1) [OF demo_bytes(1)] in \<open>auto simp: extent_def test_limit_def\<close>)
  moreover have "dnode_at test_io ?S {..<3} test_limit 0 (node_ptr test_io 1 0 demo_leaf2) demo_leaf2"
    unfolding dnode_at_def
    by (rule exI [of _ 1]) (use st demo_one_page(1) [OF demo_bytes(2)] in \<open>auto simp: extent_def test_limit_def\<close>)
  moreover have "dnode_at test_io ?S {..<3} test_limit 1 (tr_ptr demo_ctree) (map dent demo_children)"
    unfolding dnode_at_def
    by (rule exI [of _ 2])
       (use st demo_one_page(1) [OF demo_bytes(3)] in \<open>auto simp: extent_def test_limit_def demo_ctree_def\<close>)
  moreover have "\<forall>e \<in> set demo_list. entry_small e \<and> length (fst e) \<le> 4000"
    by (simp add: demo_list_def demo_leaf1_def demo_leaf2_def entry_small_def)
  ultimately have "on_disk test_io ?S {..<3} test_limit (Suc 1) (DNode (tr_ptr demo_ctree) demo_children)"
    using flat [of demo_leaf1] flat [of demo_leaf2]
    by (simp add: demo_children_def demo_list_def demo_leaf1_def demo_leaf2_def)
  moreover have "dflat (DNode (tr_ptr demo_ctree) demo_children) = demo_list"
    by (simp add: demo_children_def demo_list_def demo_leaf1_def demo_leaf2_def)
  ultimately have "ctree_on test_io ?S {..<3} test_limit (tr_ptr demo_ctree) 2 demo_list"
    by (auto simp: ctree_on_def numeral_2_eq_2)
  moreover have "kv_sorted test_cmp demo_list"
    by (simp add: demo_list_def demo_leaf1_def demo_leaf2_def kv_sorted_Cons test_cmp_def)
  moreover have "test_good demo_disk" by (simp add: test_good_def demo_disk_def)
  ultimately show ?thesis
    using test_device.page_device_axioms test_keys.key_order_axioms by (simp add: tree_on_def demo_ctree_def)
qed

lemma demo_setup: "\<exists>it. ctree_iter_setup demo_ctree = Some it"
  by (simp add: ctree_iter_setup_def demo_ctree_def)

section \<open>Walking\<close>

text \<open>C2: the iterator of a disk tree walks over its entries. From \<open>ctree_begin\<close>,
  \<open>ctree_next\<close> meets every entry in order; from \<open>ctree_end\<close>, \<open>ctree_prev\<close> meets every entry
  in reverse order; and from \<open>ctree_lower_bound\<close> exactly the entries that are not below the
  key follow. The nodes on the way are read and dropped again as needed, and no operation
  fails.\<close>

theorem ctree_walk_complete:
  assumes "tree_on good stored lim U d t xs" and "ctree_iter_setup t = Some it" and "length xs < n" and "0 < tr_height t"
  shows "\<exists>b d1 e d2 l d3. ctree_begin it d [] = Some (Inr (), b, d1, []) \<and> ctree_end it d [] = Some (Inr (), e, d2, []) \<and>
    ctree_lower_bound key it d [] = Some (Inr (), l, d3, []) \<and>
    cursor_scan ckey cval cnext n (b, d1) = Some xs \<and>
    cursor_scan_back ckey cval cprev n (e, d2) = Some (rev xs) \<and>
    cursor_scan ckey cval cnext n (l, d3) = Some (filter (\<lambda>x. 0 \<le> tr_cmp t (fst x) key) xs)"
proof -
  note on = on_tree_setup [OF assms(1,2)]
  then have k: "key_order (tr_cmp t)" and s: "kv_sorted (tr_cmp t) xs" by (auto simp: on_tree_def)
  obtain b d1 where b: "ctree_begin it d [] = Some (Inr (), b, d1, [])" "cpos (b, d1) xs 0" using on_tree_begin [OF on] tpos_cpos by blast
  obtain e d2 where e: "ctree_end it d [] = Some (Inr (), e, d2, [])" "cpos (e, d2) xs (length xs)" using on_tree_end [OF on] tpos_cpos by blast
  obtain l d3 where l: "ctree_lower_bound key it d [] = Some (Inr (), l, d3, [])"
      "cpos (l, d3) xs (kv_lower (tr_cmp t) key xs)"
    using on_tree_lower [OF on assms(4), of key] by blast
  have "cursor_scan ckey cval cnext n (b, d1) = Some (drop 0 xs)"
    by (rule ctree_cursor.scan_at [OF b(2)]) (use assms(3) in simp)
  moreover have "cursor_scan_back ckey cval cprev n (e, d2) = Some (rev (take (length xs) xs))"
    by (rule ctree_cursor.scan_back_at [OF e(2) assms(3)])
  moreover have "cursor_scan ckey cval cnext n (l, d3) = Some (drop (kv_lower (tr_cmp t) key xs) xs)"
    by (rule ctree_cursor.scan_at [OF l(2)]) (use assms(3) in simp)
  ultimately show ?thesis using b(1) e(1) l(1) key_order.filter_kv_lower [OF k s, of key] by simp
qed

theorem ctree_walk_complete_witness:
  "\<exists>it b d1 e d2 l d3. ctree_iter_setup demo_ctree = Some it \<and>
    ctree_begin it demo_disk [] = Some (Inr (), b, d1, []) \<and> ctree_end it demo_disk [] = Some (Inr (), e, d2, []) \<and>
    ctree_lower_bound (num_key 2) it demo_disk [] = Some (Inr (), l, d3, []) \<and>
    cursor_scan ckey cval cnext 10 (b, d1) = Some demo_list \<and>
    cursor_scan_back ckey cval cprev 10 (e, d2) = Some (rev demo_list) \<and>
    cursor_scan ckey cval cnext 10 (l, d3) = Some [(num_key 3, []), (num_key 5, [7, 8])]"
proof -
  obtain it where it: "ctree_iter_setup demo_ctree = Some it" using demo_setup by blast
  have f: "filter (\<lambda>x. 0 \<le> tr_cmp demo_ctree (fst x) (num_key 2)) demo_list = [(num_key 3, []), (num_key 5, [7, 8])]"
    by (simp add: demo_ctree_def demo_list_def demo_leaf1_def demo_leaf2_def test_cmp_def)
  have "length demo_list < 10" "0 < tr_height demo_ctree"
    by (simp_all add: demo_list_def demo_leaf1_def demo_leaf2_def demo_ctree_def)
  from ctree_walk_complete [OF demo_tree_on it this, of "num_key 2"] it f show ?thesis by metis
qed

section \<open>Lookup\<close>

lemma on_tree_lookup:
  assumes "on_tree good stored lim U S t xs (it, d)" and "0 < tr_height t"
  shows "\<exists>it' d'. ctree_lookup key it d [] = Some (Inr (kv_get (tr_cmp t) key xs \<noteq> None), it', d', []) \<and>
    on_tree good stored lim U S t xs (it', d') \<and> cpos (it', d') xs (kv_lower (tr_cmp t) key xs) \<and>
    citer_at S U lim it' xs (kv_lower (tr_cmp t) key xs)"
proof -
  let ?i = "kv_lower (tr_cmp t) key xs"
  from on_tree_lower [OF assms, of key] obtain l d' n p where
    l: "ctree_lower_bound key it d [] = Some (Inr (), l, d', [])" "on_tree good stored lim U S t xs (l, d')"
      "citer_at S U lim l xs ?i" "cpos (l, d') xs ?i" and
    np: "iter_node l 0 = Some n" "iter_pos l 0 = Some p" "p = nd_entries n \<longleftrightarrow> ?i = length xs"
      "?i < length xs \<longrightarrow> ctree_node_key n p = Some (fst (xs ! ?i))" by blast
  have h: "ci_cmp l = tr_cmp t" "ci_height it \<noteq> 0" "key_order (tr_cmp t)" "kv_sorted (tr_cmp t) xs"
    using assms l(2) by (auto simp: on_tree_def)
  have "?i = length xs \<or> ?i < length xs" using kv_lower_le [of "tr_cmp t" key xs] by linarith
  then have "ctree_lookup key it d [] = Some (Inr (kv_get (tr_cmp t) key xs \<noteq> None), l, d', [])"
    using l(1) np h(1,2) key_order.kv_get_lower [OF h(3,4), of key] by (auto simp: ctree_lookup_def Let_def)
  then show ?thesis using l(2-4) by blast
qed

lemma tree_lookup:
  assumes "tree_on good stored lim U d t xs" and "ctree_iter_setup t = Some it" and "0 < tr_height t"
  shows "\<exists>it' d'. ctree_lookup key it d [] = Some (Inr (kv_get (tr_cmp t) key xs \<noteq> None), it', d', []) \<and>
    (\<forall>v. kv_get (tr_cmp t) key xs = Some v \<longrightarrow> ctree_val it' = Some (Inr v) \<and>
       (\<exists>k. ctree_key it' = Some (Inr k) \<and> tr_cmp t k key = 0))"
proof -
  from on_tree_lookup [OF on_tree_setup [OF assms(1,2)] assms(3), of key] obtain l d' where
    l: "ctree_lookup key it d [] = Some (Inr (kv_get (tr_cmp t) key xs \<noteq> None), l, d', [])"
      "citer_at (stored d) U lim l xs (kv_lower (tr_cmp t) key xs)" by blast
  have k: "page_device (tr_io t) good stored lim" "key_order (tr_cmp t)" "kv_sorted (tr_cmp t) xs" using assms(1) by (auto simp: tree_on_def)
  from page_device.key_at [OF k(1) l(2)] page_device.val_at [OF k(1) l(2)] show ?thesis
    using l(1) key_order.kv_get_lower [OF k(2,3), of key] by (auto simp: Let_def split: if_splits)
qed

text \<open>C3: \<open>ctree_lookup\<close> returns 1 exactly for the keys that are in the tree, and
  \<open>ctree_key\<close> and \<open>ctree_val\<close> then give the entry that is stored: the descent through the
  inner nodes and the search in the leaf together are a search in the sorted list of all
  entries.\<close>

theorem ctree_lookup_correct:
  assumes "tree_on good stored lim U d t xs" and "ctree_iter_setup t = Some it" and "0 < tr_height t"
  shows "\<exists>it' d'. ctree_lookup key it d [] = Some (Inr (kv_get (tr_cmp t) key xs \<noteq> None), it', d', []) \<and>
    (\<forall>v. kv_get (tr_cmp t) key xs = Some v \<longrightarrow> ctree_val it' = Some (Inr v) \<and>
       (\<exists>k. ctree_key it' = Some (Inr k) \<and> tr_cmp t k key = 0))"
  by (rule tree_lookup [OF assms])

theorem ctree_lookup_correct_witness:
  "\<exists>it it' d'. ctree_iter_setup demo_ctree = Some it \<and>
    ctree_lookup (num_key 5) it demo_disk [] = Some (Inr True, it', d', []) \<and> ctree_val it' = Some (Inr [7, 8])"
proof -
  obtain it where it: "ctree_iter_setup demo_ctree = Some it" using demo_setup by blast
  have f: "kv_get (tr_cmp demo_ctree) (num_key 5) demo_list = Some [7, 8]"
    by (simp add: kv_get_def demo_ctree_def demo_list_def demo_leaf1_def demo_leaf2_def test_cmp_def)
  have "0 < tr_height demo_ctree" by (simp add: demo_ctree_def)
  from ctree_lookup_correct [OF demo_tree_on it this, of "num_key 5"] it f show ?thesis by auto
qed

section \<open>The upper bound\<close>

lemma on_tree_upper:
  assumes "on_tree good stored lim U S t xs (it, d)" and "0 < tr_height t"
  shows "\<exists>it' d'. on_tree good stored lim U S t xs (it', d') \<and> cpos (it', d') xs (kv_upper (tr_cmp t) key xs) \<and>
    ctree_upper_bound key it d [] =
      Some (if kv_get (tr_cmp t) key xs \<noteq> None \<and> kv_upper (tr_cmp t) key xs = length xs then Inl ENOENT else Inr (), it', d', [])"
proof -
  let ?i = "kv_lower (tr_cmp t) key xs" and ?u = "kv_upper (tr_cmp t) key xs"
  from on_tree_lower [OF assms, of key] obtain l d' n p where
    l: "ctree_lower_bound key it d [] = Some (Inr (), l, d', [])" "on_tree good stored lim U S t xs (l, d')"
      "citer_at S U lim l xs ?i" "cpos (l, d') xs ?i" and
    np: "iter_node l 0 = Some n" "iter_pos l 0 = Some p" "p = nd_entries n \<longleftrightarrow> ?i = length xs"
      "?i < length xs \<longrightarrow> ctree_node_key n p = Some (fst (xs ! ?i))" by blast
  have k: "key_order (tr_cmp t)" "kv_sorted (tr_cmp t) xs" and pd: "page_device (tr_io t) good stored lim"
    and h: "ci_cmp l = tr_cmp t" "ci_height it \<noteq> 0" "ci_io l = tr_io t" "serves good stored S d'"
    using assms l(2) by (auto simp: on_tree_def)
  note g = key_order.kv_get_lower [OF k, of key] and bounds = key_order.kv_lower_upper [OF k, of key]
  show ?thesis
  proof (cases "?i < length xs \<and> tr_cmp t (fst (xs ! ?i)) key = 0")
    case True
    then have u: "?u = Suc ?i" using bounds by simp
    from page_device.next_at [OF pd h(4) l(3) h(3)] obtain it' d2 where
      nx: "ctree_next l d' [] = Some (if Suc ?i < length xs then Inr () else Inl ENOENT, it', d2, [])"
        "serves good stored S d2" "same_tree l it'" "citer_at S U lim it' xs (min (Suc ?i) (length xs))" by blast
    have "ctree_upper_bound key it d [] = ctree_next l d' []"
      using l(1) np h True by (simp add: ctree_upper_bound_def)
    moreover have "min (Suc ?i) (length xs) = ?u" using u True by simp
    note at = on_tree_at [OF l(2) nx(3,2,4), unfolded this]
    ultimately show ?thesis using nx(1) at g True u by (auto simp: Let_def)
  next
    case False
    then have "?u = ?i" "kv_get (tr_cmp t) key xs = None" using bounds g by (auto simp: Let_def)
    moreover have "ctree_upper_bound key it d [] = Some (Inr (), l, d', [])"
    proof (cases "?i < length xs")
      case True
      then have "0 < tr_cmp t (fst (xs ! ?i)) key" using False kv_lower_at [OF True] by linarith
      then show ?thesis using l(1) np h True by (simp add: ctree_upper_bound_def)
    next
      case False
      then have "?i = length xs" using kv_lower_le [of "tr_cmp t" key xs] by linarith
      then show ?thesis using l(1) np h by (simp add: ctree_upper_bound_def)
    qed
    ultimately show ?thesis using l(2,4) by auto
  qed
qed

text \<open>\<open>ctree_upper_bound\<close> goes to the first entry above the key. Where there is none it
  ends behind the last entry, but it does not always report that the same way: it succeeds
  if every key is below the given one, and fails with ENOENT, the result of its call of
  \<open>ctree_next\<close>, if the key itself is the last one.\<close>

theorem ctree_upper_bound_last:
  assumes "tree_on good stored lim U d t xs" and "ctree_iter_setup t = Some it" and "0 < tr_height t"
  shows "\<exists>it' d'. cpos (it', d') xs (kv_upper (tr_cmp t) key xs) \<and>
    ctree_upper_bound key it d [] =
      Some (if kv_get (tr_cmp t) key xs \<noteq> None \<and> kv_upper (tr_cmp t) key xs = length xs then Inl ENOENT else Inr (), it', d', [])"
  using on_tree_upper [OF on_tree_setup [OF assms(1,2)] assms(3), of key] by blast

theorem ctree_upper_bound_last_witness:
  "\<exists>it it' d'. ctree_iter_setup demo_ctree = Some it \<and>
    ctree_upper_bound (num_key 5) it demo_disk [] = Some (Inl ENOENT, it', d', [])"
proof -
  obtain it where it: "ctree_iter_setup demo_ctree = Some it" using demo_setup by blast
  have f: "kv_get (tr_cmp demo_ctree) (num_key 5) demo_list \<noteq> None"
      "kv_upper (tr_cmp demo_ctree) (num_key 5) demo_list = length demo_list"
    by (simp_all add: kv_get_def demo_ctree_def demo_list_def demo_leaf1_def demo_leaf2_def test_cmp_def)
  have "0 < tr_height demo_ctree" by (simp add: demo_ctree_def)
  from ctree_upper_bound_last [OF demo_tree_on it this, of "num_key 5"] it f show ?thesis by auto
qed

section \<open>Building and reading back\<close>

text \<open>A descriptor with the pointer and the height that a builder leaves describes the tree.\<close>

lemma built_tree_on:
  assumes "page_storage io good stored limit al used failed" and "good (dev env)" and "hm env = []"
    and "\<forall>e \<in> set es. entry_ok e" and "lvl_max io < node_bytes es" and "key_order cmp" and "kv_sorted cmp es"
    and "3 * length es < 2 ^ 31" and "ctree_build io al es env = Some (Inr (), b, env')"
    and t: "tr_io t = io" "tr_cmp t = cmp" "tr_ptr t = cb_ptr b" "tr_height t = cb_height b"
  shows "tree_on good stored limit (used (asp env')) (dev env') t es \<and> 0 < tr_height t \<and> (\<exists>it. ctree_iter_setup t = Some it)"
proof -
  from page_storage.create_levels [OF assms(1-4)] assms(5,9) have
    c: "2 \<le> cb_height b" "cb_height b \<le> 3 * length es"
      "ctree_on io (stored (dev env')) (used (asp env')) limit (cb_ptr b) (cb_height b) es"
    and g: "good (dev env')" by (auto simp: advances_def)
  have "page_device io good stored limit" using assms(1) by (simp add: page_storage_def)
  moreover have "cb_height b < 2 ^ 31" using c(2) assms(8) by simp
  ultimately show ?thesis using c g t assms(6,7) by (simp add: tree_on_def ctree_iter_setup_def)
qed

text \<open>C4: what the builder has written, the iterator finds. After a successful \<open>ctree_build\<close>
  of sorted entries that satisfy \<open>entry_ok\<close>, more of them in bytes than one leaf can take (\<open>lvl_max\<close>), a
  descriptor with the pointer and the height that the builder has left looks up every key as the list of the
  entries does, with the value that was appended, if \<open>malloc\<close> does not fail.\<close>

theorem ctree_build_lookup:
  assumes "page_storage io good stored limit al used failed" and "good (dev env)" and "hm env = []"
    and "\<forall>e \<in> set es. entry_ok e" and "lvl_max io < node_bytes es" and "key_order cmp" and "kv_sorted cmp es"
    and "3 * length es < 2 ^ 31" and "ctree_build io al es env = Some (Inr (), b, env')"
  shows "\<exists>it. ctree_iter_setup (ctree_reset (Some (cb_ptr b)) (cb_height b) (cb_pages b) (ctree_setup io cmp)) = Some it \<and>
    (\<forall>key. \<exists>it' d'. ctree_lookup key it (dev env') [] = Some (Inr (kv_get cmp key es \<noteq> None), it', d', []) \<and>
       (\<forall>v. kv_get cmp key es = Some v \<longrightarrow> ctree_val it' = Some (Inr v)))"
proof -
  let ?t = "ctree_reset (Some (cb_ptr b)) (cb_height b) (cb_pages b) (ctree_setup io cmp)"
  have t: "tr_io ?t = io" "tr_cmp ?t = cmp" "tr_ptr ?t = cb_ptr b" "tr_height ?t = cb_height b"
    by (simp_all add: ctree_reset_def ctree_setup_def)
  from built_tree_on [OF assms t] tree_lookup t(2) show ?thesis by metis
qed

text \<open>The input of the witness: 120 keys with values of 4000 bytes.\<close>

definition demo_big :: "kv list" where
  "demo_big = map (\<lambda>i. (num_key (word_of_nat i), replicate 4000 0)) [0..<120]"

lemma demo_big: "\<forall>e \<in> set demo_big. entry_ok e" "lvl_max test_io < node_bytes demo_big" "kv_sorted test_cmp demo_big"
proof -
  show "\<forall>e \<in> set demo_big. entry_ok e" by (auto simp: demo_big_def entry_ok_def entry_small_def)
  show "lvl_max test_io < node_bytes demo_big"
    by (simp add: demo_big_def node_bytes_def entries_enc_def length_concat comp_def sum_list_triv lvl_max_test)
  have v: "sint (word_of_nat i :: u64) = int i" if "i < 120" for i
    using that by (simp add: signed_of_nat signed_take_bit_int_eq_self)
  have "test_cmp (num_key (word_of_nat i)) (num_key (word_of_nat j)) < 0" if "i < j" "j < 120" for i j
    using that v by (simp add: test_cmp_def)
  then show "kv_sorted test_cmp demo_big"
    by (auto simp: demo_big_def kv_sorted_def sorted_wrt_map sorted_wrt_iff_nth_less)
qed

theorem ctree_build_lookup_witness:
  "\<exists>b env' it it' d'. ctree_build test_io volume_alloc demo_big demo_env = Some (Inr (), b, env') \<and>
    ctree_iter_setup (ctree_reset (Some (cb_ptr b)) (cb_height b) (cb_pages b) (ctree_setup test_io test_cmp)) = Some it \<and>
    ctree_lookup (num_key 7) it (dev env') [] = Some (Inr True, it', d', []) \<and> ctree_val it' = Some (Inr (replicate 4000 0))"
proof -
  have "length demo_big = 120" by (simp add: demo_big_def)
  then obtain b env' where c: "ctree_build test_io volume_alloc demo_big demo_env = Some (Inr (), b, env')"
    using test_build [of demo_env demo_big, OF _ _ demo_big(1)] by (auto simp: test_limit_def)
  have "(num_key 7, replicate 4000 0) \<in> set demo_big"
    unfolding demo_big_def set_map by (rule image_eqI [of _ _ 7]) simp_all
  then have "\<exists>e \<in> set demo_big. test_cmp (fst e) (num_key 7) = 0"
    by (rule bexI [rotated]) (simp add: test_cmp_def)
  then have "kv_get test_cmp (num_key 7) demo_big \<noteq> None" by (auto simp: kv_get_def find_None_iff)
  moreover have "v = replicate 4000 0" if "kv_get test_cmp (num_key 7) demo_big = Some v" for v
    using that by (auto simp: kv_get_def find_Some_iff demo_big_def)
  ultimately have g: "kv_get test_cmp (num_key 7) demo_big = Some (replicate 4000 0)" by auto
  have n: "3 * length demo_big < 2 ^ 31" using \<open>length demo_big = 120\<close> by simp
  from ctree_build_lookup [OF test_storage.page_storage_axioms demo_env(4) [folded demo_env(1)] demo_env(3)
    demo_big(1,2) test_keys.key_order_axioms demo_big(3) n c]
  obtain it where it: "ctree_iter_setup (ctree_reset (Some (cb_ptr b)) (cb_height b) (cb_pages b) (ctree_setup test_io test_cmp)) = Some it"
    "\<exists>it' d'. ctree_lookup (num_key 7) it (dev env') [] = Some (Inr (kv_get test_cmp (num_key 7) demo_big \<noteq> None), it', d', []) \<and>
       (\<forall>v. kv_get test_cmp (num_key 7) demo_big = Some v \<longrightarrow> ctree_val it' = Some (Inr v))" by blast
  from it(2) g obtain it' d' where "ctree_lookup (num_key 7) it (dev env') [] = Some (Inr True, it', d', [])"
    "ctree_val it' = Some (Inr (replicate 4000 0))" by auto
  with c it(1) show ?thesis by blast
qed

end
