(* ===== verification/Overlay.thy ===== *)
theory Overlay
  imports KeyOrder
begin

text \<open>
  The abstract content of an LSM tree: the entries of several sorted lists laid over each
  other, where an entry of an earlier list hides the entries with an equal key in the later
  ones. An iterator of \<open>lib/lsm.c\<close> moves in one such list, without ever building it.
\<close>

section \<open>Merging\<close>

text \<open>If both lists start with an equal key the entry of the first list stays.\<close>

fun kv_merge :: "cmp \<Rightarrow> kv list \<Rightarrow> kv list \<Rightarrow> kv list" where
  "kv_merge cmp [] ys = ys"
| "kv_merge cmp (x # xs) [] = x # xs"
| "kv_merge cmp (x # xs) (y # ys) =
     (if cmp (fst x) (fst y) < 0 then x # kv_merge cmp xs (y # ys)
      else if cmp (fst x) (fst y) = 0 then x # kv_merge cmp xs ys
      else y # kv_merge cmp (x # xs) ys)"

definition overlay :: "cmp \<Rightarrow> kv list list \<Rightarrow> kv list" where
  "overlay cmp ls = foldl (kv_merge cmp) [] ls"

lemma kv_merge_Nil2 [simp]: "kv_merge cmp xs [] = xs"
  by (cases xs) simp_all

lemma set_kv_merge: "set (kv_merge cmp xs ys) \<subseteq> set xs \<union> set ys"
  by (induction cmp xs ys rule: kv_merge.induct) auto

lemma kv_merge_less: "\<forall>y \<in> set ys. cmp (fst x) (fst y) < 0 \<Longrightarrow> kv_merge cmp (x # xs) ys = x # kv_merge cmp xs ys"
  by (cases ys) auto

lemma kv_merge_greater: "\<forall>x \<in> set xs. 0 < cmp (fst x) (fst y) \<Longrightarrow> kv_merge cmp xs (y # ys) = y # kv_merge cmp xs ys"
  by (cases xs) auto

lemma kv_merge_empty [simp]: "kv_merge cmp xs ys = [] \<longleftrightarrow> xs = [] \<and> ys = []"
  by (induction cmp xs ys rule: kv_merge.induct) auto

lemma overlay_Nil [simp]: "overlay cmp [] = []"
  by (simp add: overlay_def)

lemma overlay_snoc [simp]: "overlay cmp (ls @ [xs]) = kv_merge cmp (overlay cmp ls) xs"
  by (simp add: overlay_def)

lemma overlay_single [simp]: "overlay cmp [xs] = xs"
  by (simp add: overlay_def)

lemma set_overlay: "set (overlay cmp ls) \<subseteq> \<Union> (set ` set ls)"
  by (induction ls rule: rev_induct) (use set_kv_merge in fastforce)+

lemma overlay_empty: "overlay cmp ls = [] \<longleftrightarrow> (\<forall>xs \<in> set ls. xs = [])"
  by (induction ls rule: rev_induct) auto

text \<open>The value of a key in the first list that has it.\<close>

fun kv_first :: "cmp \<Rightarrow> lsm_key \<Rightarrow> kv list list \<Rightarrow> lsm_val option" where
  "kv_first cmp k [] = None"
| "kv_first cmp k (xs # ls) = (case kv_get cmp k xs of None \<Rightarrow> kv_first cmp k ls | Some v \<Rightarrow> Some v)"

lemma kv_first_snoc: "kv_first cmp k (ls @ [xs]) = (case kv_first cmp k ls of None \<Rightarrow> kv_get cmp k xs | Some v \<Rightarrow> Some v)"
  by (induction ls) (auto split: option.split)

section \<open>Both ends of a list\<close>

text \<open>The entry at a position as two pointers that may be NULL, the way an iterator of an LSM
  tree keeps it.\<close>

type_synonym item = "bytes option \<times> bytes option"

definition item_at :: "kv list \<Rightarrow> nat \<Rightarrow> item" where
  "item_at xs i = (if i < length xs then (Some (fst (xs ! i)), Some (snd (xs ! i))) else (None, None))"

definition item_hd :: "kv list \<Rightarrow> item" where
  "item_hd xs = (case xs of [] \<Rightarrow> (None, None) | e # _ \<Rightarrow> (Some (fst e), Some (snd e)))"

definition item_last :: "kv list \<Rightarrow> item" where
  "item_last xs = (if xs = [] then (None, None) else (Some (fst (last xs)), Some (snd (last xs))))"

lemma item_hd_simps [simp]: "item_hd [] = (None, None)" "item_hd (e # xs) = (Some (fst e), Some (snd e))"
  by (simp_all add: item_hd_def)

lemma item_last_simps [simp]: "item_last [] = (None, None)" "item_last (xs @ [e]) = (Some (fst e), Some (snd e))"
  by (simp_all add: item_last_def)

lemma item_at_drop: "item_hd (drop i xs) = item_at xs i"
  by (cases "i < length xs") (auto simp: item_at_def simp flip: Cons_nth_drop_Suc)

lemma item_at_take: "item_last (take i xs) = (if 0 < i then item_at xs (min i (length xs) - 1) else (None, None))"
proof (cases "i = 0 \<or> xs = []")
  case False
  then have "min i (length xs) - 1 < length xs" by (cases xs) auto
  then show ?thesis using False by (auto simp: item_at_def item_last_def last_conv_nth min_def)
qed (auto simp: item_at_def)

lemma item_hd_merge:
  "item_hd (kv_merge cmp xs ys) =
     (case fst (item_hd ys) of None \<Rightarrow> item_hd xs
      | Some k \<Rightarrow> (case fst (item_hd xs) of None \<Rightarrow> item_hd ys
          | Some k0 \<Rightarrow> if 0 < cmp k0 k then item_hd ys else item_hd xs))"
  by (cases xs; cases ys) auto

text \<open>What depends on a key only up to the order.\<close>

definition key_cong :: "cmp \<Rightarrow> (kv \<Rightarrow> bool) \<Rightarrow> bool" where
  "key_cong cmp P \<longleftrightarrow> (\<forall>a b. cmp (fst a) (fst b) = 0 \<longrightarrow> P a = P b)"

lemma filter_prefix:
  "(\<And>i. i < n \<Longrightarrow> i < length xs \<Longrightarrow> P (xs ! i)) \<Longrightarrow> (\<And>i. n \<le> i \<Longrightarrow> i < length xs \<Longrightarrow> \<not> P (xs ! i)) \<Longrightarrow> filter P xs = take n xs"
proof (induction xs arbitrary: n)
  case (Cons x xs)
  show ?case
  proof (cases n)
    case 0
    then have "\<forall>e \<in> set (x # xs). \<not> P e" using Cons.prems(2) by (metis in_set_conv_nth le0)
    then show ?thesis using 0 by (simp add: filter_empty_conv)
  next
    case (Suc m)
    have "P x" using Cons.prems(1) [of 0] Suc by simp
    moreover have "filter P xs = take m xs"
      by (rule Cons.IH) (use Cons.prems(1) [of "Suc _"] Cons.prems(2) [of "Suc _"] Suc in auto)
    ultimately show ?thesis using Suc by simp
  qed
qed simp

lemma filter_suffix:
  assumes "\<And>i. i < n \<Longrightarrow> i < length xs \<Longrightarrow> \<not> P (xs ! i)" and "\<And>i. n \<le> i \<Longrightarrow> i < length xs \<Longrightarrow> P (xs ! i)"
  shows "filter P xs = drop n xs"
proof -
  have "\<forall>e \<in> set (take n xs). \<not> P e" "\<forall>e \<in> set (drop n xs). P e"
    using assms by (auto simp: in_set_conv_nth)
  then have "filter P (take n xs) = []" "filter P (drop n xs) = drop n xs"
    by (simp_all add: filter_empty_conv filter_id_conv)
  then show ?thesis by (metis append_Nil append_take_drop_id filter_append)
qed

context key_order
begin

lemma merge_induct [case_names Nil1 Nil2 less equal greater]:
  fixes xs ys :: "kv list"
  assumes "\<And>ys. P [] ys" and "\<And>x xs. P (x # xs) []"
    and "\<And>x xs y ys. cmp (fst x) (fst y) < 0 \<Longrightarrow> P xs (y # ys) \<Longrightarrow> P (x # xs) (y # ys)"
    and "\<And>x xs y ys. cmp (fst x) (fst y) = 0 \<Longrightarrow> P xs ys \<Longrightarrow> P (x # xs) (y # ys)"
    and "\<And>x xs y ys. cmp (fst y) (fst x) < 0 \<Longrightarrow> P (x # xs) ys \<Longrightarrow> P (x # xs) (y # ys)"
  shows "P xs ys"
proof -
  have "c = cmp \<longrightarrow> P xs ys" for c
  proof (induction c xs ys rule: kv_merge.induct)
    case (3 c x xs y ys)
    then show ?case using assms(3-5) [where x = x and y = y] cmp_flip [of "fst y" "fst x"]
      by (metis linorder_neqE_linordered_idom)
  qed (use assms(1,2) in auto)
  then show ?thesis by blast
qed

lemma merge_greater: "cmp (fst y) (fst x) < 0 \<Longrightarrow> kv_merge cmp (x # xs) (y # ys) = y # kv_merge cmp (x # xs) ys"
  using cmp_flip [of "fst y" "fst x"] by simp

lemma sorted_above:
  "kv_sorted cmp (y # ys) \<Longrightarrow> cmp k (fst y) < 0 \<Longrightarrow> \<forall>e \<in> set (y # ys). cmp k (fst e) < 0"
  using cmp_less_trans by (fastforce simp: kv_sorted_Cons)

lemma sorted_above_eq:
  "kv_sorted cmp (y # ys) \<Longrightarrow> cmp k (fst y) = 0 \<Longrightarrow> \<forall>e \<in> set ys. cmp k (fst e) < 0"
  using cmp_trans_less [of k "fst y"] by (simp add: kv_sorted_Cons)

lemma kv_sorted_merge: "kv_sorted cmp xs \<Longrightarrow> kv_sorted cmp ys \<Longrightarrow> kv_sorted cmp (kv_merge cmp xs ys)"
proof (induction xs ys rule: merge_induct)
  case (less x xs y ys)
  then show ?case using sorted_above [of y ys "fst x"] set_kv_merge [of cmp xs "y # ys"]
    by (fastforce simp: kv_sorted_Cons)
next
  case (equal x xs y ys)
  then show ?case using sorted_above_eq [of y ys "fst x"] set_kv_merge [of cmp xs ys]
    by (fastforce simp: kv_sorted_Cons)
next
  case (greater x xs y ys)
  then show ?case using sorted_above [of x xs "fst y"] set_kv_merge [of cmp "x # xs" ys]
    unfolding merge_greater [OF greater(1)] by (fastforce simp: kv_sorted_Cons)
qed auto

lemma filter_merge:
  assumes P: "key_cong cmp P"
  shows "kv_sorted cmp xs \<Longrightarrow> kv_sorted cmp ys \<Longrightarrow>
    filter P (kv_merge cmp xs ys) = kv_merge cmp (filter P xs) (filter P ys)"
proof (induction xs ys rule: merge_induct)
  case (less x xs y ys)
  then have "\<forall>e \<in> set (filter P (y # ys)). cmp (fst x) (fst e) < 0"
    using sorted_above [of y ys "fst x"] by (auto split: if_splits)
  from kv_merge_less [of "filter P (y # ys)" cmp x "filter P xs", OF this] less show ?case by (simp add: kv_sorted_Cons split del: if_split) auto
next
  case (equal x xs y ys)
  then have "P x = P y" using P unfolding key_cong_def by blast
  then show ?case using equal by (simp add: kv_sorted_Cons)
next
  case (greater x xs y ys)
  then have "\<forall>e \<in> set (filter P (x # xs)). 0 < cmp (fst e) (fst y)"
    using sorted_above [of x xs "fst y"] cmp_flip by (auto split: if_splits)
  from kv_merge_greater [of "filter P (x # xs)" cmp y "filter P ys", OF this] greater show ?case
    unfolding merge_greater [OF greater(1)] by (simp add: kv_sorted_Cons split del: if_split) auto
qed auto

lemma kv_get_Cons: "kv_get cmp k (e # xs) = (if cmp (fst e) k = 0 then Some (snd e) else kv_get cmp k xs)"
  by (simp add: kv_get_def)

lemma kv_get_above: "\<forall>e \<in> set xs. cmp k (fst e) < 0 \<Longrightarrow> kv_get cmp k xs = None"
  using cmp_eq_sym [of _ k] by (simp add: kv_get_def find_None_iff) (metis fst_conv less_irrefl)

lemma kv_get_merge:
  "kv_sorted cmp xs \<Longrightarrow> kv_sorted cmp ys \<Longrightarrow> kv_get cmp k (kv_merge cmp xs ys) =
     (case kv_get cmp k xs of None \<Rightarrow> kv_get cmp k ys | Some v \<Rightarrow> Some v)"
proof (induction xs ys rule: merge_induct)
  case (Nil1 ys)
  then show ?case by (simp add: kv_get_def)
next
  case (Nil2 x xs)
  then show ?case by (auto simp: kv_get_def split: option.split)
next
  case (less x xs y ys)
  then show ?case by (simp add: kv_get_Cons kv_sorted_Cons)
next
  case (equal x xs y ys)
  then show ?case using cmp_cong_eq [of "fst x" "fst y" k] by (simp add: kv_get_Cons kv_sorted_Cons split: option.split)
next
  case (greater x xs y ys)
  have "kv_get cmp k (x # xs) = None" if "cmp (fst y) k = 0"
    by (rule kv_get_above) (use sorted_above [of x xs k] greater that cmp_cong_left [of "fst y" k] in blast)
  then show ?case using greater unfolding merge_greater [OF greater(1)]
    by (simp add: kv_get_Cons [of k y] kv_sorted_Cons split: option.split)
qed

lemma kv_sorted_overlay: "\<forall>xs \<in> set ls. kv_sorted cmp xs \<Longrightarrow> kv_sorted cmp (overlay cmp ls)"
  by (induction ls rule: rev_induct) (auto intro: kv_sorted_merge)

lemma filter_overlay:
  "key_cong cmp P \<Longrightarrow> \<forall>xs \<in> set ls. kv_sorted cmp xs \<Longrightarrow> filter P (overlay cmp ls) = overlay cmp (map (filter P) ls)"
  by (induction ls rule: rev_induct) (auto simp: filter_merge kv_sorted_overlay)

section \<open>Cutting at a key\<close>

lemma cong_parts:
  "key_cong cmp (\<lambda>e. cmp (fst e) k < 0)" "key_cong cmp (\<lambda>e. 0 \<le> cmp (fst e) k)"
  "key_cong cmp (\<lambda>e. cmp (fst e) k \<le> 0)" "key_cong cmp (\<lambda>e. 0 < cmp (fst e) k)"
proof -
  have l: "cmp a k < 0 \<longleftrightarrow> cmp b k < 0" and e: "cmp a k = 0 \<longleftrightarrow> cmp b k = 0" if "cmp a b = 0" for a b
    using cmp_cong_left [OF that] cmp_cong_eq [OF that] by blast+
  show "key_cong cmp (\<lambda>e. cmp (fst e) k < 0)" "key_cong cmp (\<lambda>e. 0 \<le> cmp (fst e) k)"
    unfolding key_cong_def using l by (simp_all flip: not_less)
  have "cmp a k \<le> 0 \<longleftrightarrow> cmp b k \<le> 0" if "cmp a b = 0" for a b
    using l [OF that] e [OF that] by linarith
  then show "key_cong cmp (\<lambda>e. cmp (fst e) k \<le> 0)" "key_cong cmp (\<lambda>e. 0 < cmp (fst e) k)"
    unfolding key_cong_def by (simp_all flip: not_le)
qed

lemma filter_below: "kv_sorted cmp xs \<Longrightarrow> filter (\<lambda>e. cmp (fst e) k < 0) xs = take (kv_lower cmp k xs) xs"
  by (rule filter_prefix) (use kv_lower_below kv_lower_above in force)+

lemma filter_above: "kv_sorted cmp xs \<Longrightarrow> filter (\<lambda>e. 0 < cmp (fst e) k) xs = drop (kv_upper cmp k xs) xs"
  by (rule filter_suffix) (use kv_upper_below kv_upper_above in force)+

text \<open>Cutting every list at a key cuts the overlay there.\<close>

lemma overlay_cut:
  assumes s: "\<forall>xs \<in> set ls. kv_sorted cmp xs"
  shows "overlay cmp (map (\<lambda>xs. drop (kv_lower cmp k xs) xs) ls) = drop (kv_lower cmp k (overlay cmp ls)) (overlay cmp ls)"
    and "overlay cmp (map (\<lambda>xs. drop (kv_upper cmp k xs) xs) ls) = drop (kv_upper cmp k (overlay cmp ls)) (overlay cmp ls)"
    and "overlay cmp (map (\<lambda>xs. take (kv_lower cmp k xs) xs) ls) = take (kv_lower cmp k (overlay cmp ls)) (overlay cmp ls)"
proof -
  note o = kv_sorted_overlay [OF s]
  have m: "map (\<lambda>xs. drop (kv_lower cmp k xs) xs) ls = map (filter (\<lambda>e. 0 \<le> cmp (fst e) k)) ls"
    "map (\<lambda>xs. drop (kv_upper cmp k xs) xs) ls = map (filter (\<lambda>e. 0 < cmp (fst e) k)) ls"
    "map (\<lambda>xs. take (kv_lower cmp k xs) xs) ls = map (filter (\<lambda>e. cmp (fst e) k < 0)) ls"
    by (rule map_cong [OF refl], use s in \<open>simp add: filter_kv_lower filter_above filter_below\<close>)+
  show "overlay cmp (map (\<lambda>xs. drop (kv_lower cmp k xs) xs) ls) = drop (kv_lower cmp k (overlay cmp ls)) (overlay cmp ls)"
    unfolding m using filter_overlay [OF cong_parts(2) s, of k] filter_kv_lower [OF o, of k] by simp
  show "overlay cmp (map (\<lambda>xs. drop (kv_upper cmp k xs) xs) ls) = drop (kv_upper cmp k (overlay cmp ls)) (overlay cmp ls)"
    unfolding m using filter_overlay [OF cong_parts(4) s, of k] filter_above [OF o, of k] by simp
  show "overlay cmp (map (\<lambda>xs. take (kv_lower cmp k xs) xs) ls) = take (kv_lower cmp k (overlay cmp ls)) (overlay cmp ls)"
    unfolding m using filter_overlay [OF cong_parts(1) s, of k] filter_below [OF o, of k] by simp
qed

lemma item_last_merge:
  "kv_sorted cmp xs \<Longrightarrow> kv_sorted cmp ys \<Longrightarrow> item_last (kv_merge cmp xs ys) =
     (case fst (item_last ys) of None \<Rightarrow> item_last xs
      | Some k \<Rightarrow> (case fst (item_last xs) of None \<Rightarrow> item_last ys
          | Some k0 \<Rightarrow> if cmp k0 k < 0 then item_last ys else item_last xs))"
proof (induction xs ys rule: merge_induct)
  case (less x xs y ys)
  have "cmp (fst x) (fst (last (y # ys))) < 0" using sorted_above [of y ys "fst x"] less by simp
  then show ?case using less by (auto simp: item_last_def kv_sorted_Cons split: if_splits)
next
  case (equal x xs y ys)
  have "ys \<noteq> [] \<Longrightarrow> cmp (fst x) (fst (last ys)) < 0" using sorted_above_eq [of y ys "fst x"] equal by simp
  moreover have "xs \<noteq> [] \<Longrightarrow> cmp (fst y) (fst (last xs)) < 0"
    using sorted_above_eq [of x xs "fst y"] equal cmp_eq_sym [of "fst x"] by simp
  ultimately show ?case using equal cmp_flip [of "fst (last xs)" "fst y"] by (auto simp: item_last_def kv_sorted_Cons split: if_splits)
next
  case (greater x xs y ys)
  have "cmp (fst y) (fst (last (x # xs))) < 0" using sorted_above [of x xs "fst y"] greater by simp
  then show ?case using greater cmp_flip [of "fst (last (x # xs))" "fst y"] unfolding merge_greater [OF greater(1)]
    by (auto simp: item_last_def kv_sorted_Cons split: if_splits)
qed (auto simp: item_last_def)

text \<open>Positions around an entry of a sorted list.\<close>

lemma kv_bounds_at:
  assumes "kv_sorted cmp xs" and "i < length xs"
  shows "kv_lower cmp (fst (xs ! i)) xs = i" and "kv_upper cmp (fst (xs ! i)) xs = Suc i"
proof -
  let ?k = "fst (xs ! i)"
  have below: "cmp (fst (xs ! j)) ?k < 0" if "j < i" for j
    using assms that by (auto simp: kv_sorted_def intro: sorted_wrt_nth_less)
  have "\<not> kv_lower cmp ?k xs < i"
    using kv_lower_at [of cmp ?k xs] below [of "kv_lower cmp ?k xs"] assms(2) by force
  moreover have "\<not> i < kv_lower cmp ?k xs" using kv_lower_below [of i cmp ?k xs] by force
  ultimately show "kv_lower cmp ?k xs = i" by linarith
  then show "kv_upper cmp ?k xs = Suc i" using kv_lower_upper [OF assms(1), of ?k] assms(2) by (simp add: Let_def)
qed

lemma kv_lower_upper_le: "kv_lower cmp k xs \<le> kv_upper cmp k xs"
proof (rule ccontr)
  assume "\<not> ?thesis"
  then have u: "kv_upper cmp k xs < kv_lower cmp k xs" by simp
  then have "kv_upper cmp k xs < length xs" using kv_lower_le [of cmp k xs] by linarith
  from kv_upper_at [OF this] kv_lower_below [OF u] show False by simp
qed

text \<open>Every key of a list is in the overlay.\<close>

lemma merge_covers: "e \<in> set xs \<union> set ys \<Longrightarrow> \<exists>e' \<in> set (kv_merge cmp xs ys). cmp (fst e') (fst e) = 0"
proof (induction xs ys rule: merge_induct)
  case (Nil1 ys)
  then show ?case by (intro bexI [of _ e]) auto
next
  case (Nil2 x xs)
  then show ?case by (intro bexI [of _ e]) auto
next
  case (greater x xs y ys)
  then show ?case unfolding merge_greater [OF greater(1)] by auto
qed auto

lemma overlay_covers: "xs \<in> set ls \<Longrightarrow> e \<in> set xs \<Longrightarrow> \<exists>e' \<in> set (overlay cmp ls). cmp (fst e') (fst e) = 0"
proof (induction ls rule: rev_induct)
  case (snoc ys ls)
  show ?case
  proof (cases "xs = ys")
    case True
    then show ?thesis using merge_covers [of e "overlay cmp ls" ys] snoc.prems by simp
  next
    case False
    with snoc obtain e1 where e1: "e1 \<in> set (overlay cmp ls)" "cmp (fst e1) (fst e) = 0" by auto
    with merge_covers [of e1 "overlay cmp ls" ys] obtain e2 where
      "e2 \<in> set (kv_merge cmp (overlay cmp ls) ys)" "cmp (fst e2) (fst e1) = 0" by auto
    then show ?thesis using cmp_cong_eq [of "fst e2" "fst e1" "fst e"] e1(2) by auto
  qed
qed simp

section \<open>Lookup and insertion\<close>

text \<open>Looking up a key in an overlay asks one list after the other.\<close>

lemma kv_get_overlay: "\<forall>xs \<in> set ls. kv_sorted cmp xs \<Longrightarrow> kv_get cmp k (overlay cmp ls) = kv_first cmp k ls"
proof (induction ls rule: rev_induct)
  case Nil
  then show ?case by (simp add: kv_get_def)
next
  case (snoc xs ls)
  have "kv_get cmp k (overlay cmp (ls @ [xs])) = (case kv_get cmp k (overlay cmp ls) of None \<Rightarrow> kv_get cmp k xs | Some v \<Rightarrow> Some v)"
    using snoc.prems kv_sorted_overlay [of ls] by (simp add: kv_get_merge)
  then show ?case using snoc by (simp add: kv_first_snoc split: option.split)
qed

text \<open>An insertion into the first list is one into the overlay.\<close>

lemma merge_put: "kv_sorted cmp xs \<Longrightarrow> kv_sorted cmp ys \<Longrightarrow> kv_merge cmp (kv_put cmp k v xs) ys = kv_put cmp k v (kv_merge cmp xs ys)"
proof (induction xs ys rule: merge_induct)
  case (Nil1 ys)
  then show ?case
  proof (induction ys)
    case (Cons y ys)
    then show ?case using cmp_flip [of k "fst y"] cmp_flip [of "fst y" k] cmp_eq_sym [of k "fst y"]
      by (auto simp: kv_sorted_Cons)
  qed simp
next
  case (less x xs y ys)
  consider "cmp (fst x) k < 0" | "cmp (fst x) k = 0" | "0 < cmp (fst x) k" by linarith
  then show ?case
  proof cases
    case 1
    then show ?thesis using less by (simp add: kv_sorted_Cons)
  next
    case 2
    then have "cmp k (fst y) < 0" using less cmp_cong_left by blast
    then show ?thesis using 2 less by simp
  next
    case 3
    then have "cmp k (fst x) < 0" using cmp_flip by blast
    then have "cmp k (fst y) < 0" using less(1) cmp_less_trans [of k "fst x" "fst y"] by simp
    then show ?thesis using 3 less by simp
  qed
next
  case (equal x xs y ys)
  consider "cmp (fst x) k < 0" | "cmp (fst x) k = 0" | "0 < cmp (fst x) k" by linarith
  then show ?case
  proof cases
    case 2
    then have "cmp k (fst y) = 0" using equal(1) cmp_cong_eq cmp_eq_sym by metis
    then show ?thesis using 2 equal by simp
  next
    case 3
    then have "cmp k (fst x) < 0" using cmp_flip by blast
    then have "cmp k (fst y) < 0" using equal(1) cmp_less_trans [of k "fst x" "fst y"] by simp
    then show ?thesis using 3 equal by simp
  qed (use equal in \<open>simp add: kv_sorted_Cons\<close>)
next
  case (greater x xs y ys)
  have IH: "kv_merge cmp (kv_put cmp k v (x # xs)) ys = kv_put cmp k v (kv_merge cmp (x # xs) ys)"
    using greater by (simp add: kv_sorted_Cons)
  consider "cmp (fst y) k < 0" | "cmp (fst y) k = 0" | "0 < cmp (fst y) k" by linarith
  then show ?case
  proof cases
    case 1
    have "\<forall>e \<in> set (kv_put cmp k v (x # xs)). cmp (fst y) (fst e) < 0"
      using kv_put_keys [of cmp k v "x # xs"] sorted_above [OF greater(3,1)] 1 by fastforce
    then have "\<forall>e \<in> set (kv_put cmp k v (x # xs)). 0 < cmp (fst e) (fst y)" using cmp_flip by blast
    from kv_merge_greater [of "kv_put cmp k v (x # xs)" cmp y ys, OF this] show ?thesis unfolding merge_greater [OF greater(1)] using 1 IH by simp
  next
    case 2
    then have "cmp k (fst x) < 0" using greater(1) cmp_cong_left by blast
    moreover from this have "0 < cmp (fst x) k" using cmp_flip by blast
    moreover have "cmp k (fst y) = 0" using 2 cmp_eq_sym by blast
    ultimately show ?thesis unfolding merge_greater [OF greater(1)] using 2 by simp
  next
    case 3
    then have ky: "cmp k (fst y) < 0" using cmp_flip by blast
    then have "cmp k (fst x) < 0" using greater(1) cmp_less_trans [of k "fst y" "fst x"] by simp
    moreover from this have "0 < cmp (fst x) k" using cmp_flip by blast
    ultimately show ?thesis unfolding merge_greater [OF greater(1)] using 3 ky merge_greater [OF greater(1)] by simp
  qed
qed simp

lemma overlay_put:
  "\<forall>xs \<in> set (xs # ls). kv_sorted cmp xs \<Longrightarrow> overlay cmp (kv_put cmp k v xs # ls) = kv_put cmp k v (overlay cmp (xs # ls))"
proof (induction ls rule: rev_induct)
  case Nil
  then show ?case by (simp add: overlay_def)
next
  case (snoc ys ls)
  have "overlay cmp (zs # ls @ [ys]) = kv_merge cmp (overlay cmp (zs # ls)) ys" for zs
    using overlay_snoc [of cmp "zs # ls" ys] by simp
  then show ?case using snoc merge_put [of "overlay cmp (xs # ls)" ys k v] kv_sorted_overlay [of "xs # ls"] by simp
qed

end

end
