(* ===== verification/Lsm.thy ===== *)
theory Lsm
  imports CtreeIter Mtree Superblock Overlay
begin

text \<open>
  LSM trees (\<open>lib/lsm.c\<close>, \<open>inc/lsm.h\<close>): two in-memory trees and three disk trees. The five
  trees are numbered as the code does it: 0 and 1 are \<open>c0\<close> and \<open>c1\<close>, \<open>i + 2\<close> is \<open>ci[i]\<close>; a
  tree hides what the trees with a larger number hold for the same key. An iterator
  keeps one iterator per tree and merges them.

  The nodes of both in-memory trees live in one heap. An iterator's pointer to its tree is
  the \<open>lsm\<close> argument of the operations. A key or a value whose pointer is NULL is \<open>None\<close>.
\<close>

section \<open>The tree (struct lsm)\<close>

definition MAX_DISK_TREES :: nat where
  "MAX_DISK_TREES = 3"

record ('d, 'a) lsm =
  ls_io :: "'d io"
  ls_alloc :: "'a alloc_ops"
  ls_cmp :: cmp
  ls_c0 :: mtree
  ls_c1 :: mtree
  ls_ci :: "'d ctree list"

definition lsm_reserve :: "('d, 'a) lsm \<Rightarrow> 'a \<Rightarrow> nat \<Rightarrow> (errno + nat) \<times> 'a" where
  "lsm_reserve lsm a sz = alloc_reserve (ls_alloc lsm) a sz"

definition lsm_persist :: "('d, 'a) lsm \<Rightarrow> 'a \<Rightarrow> nat \<Rightarrow> nat \<Rightarrow> (errno + unit) \<times> 'a" where
  "lsm_persist lsm a sz offs = alloc_commit (ls_alloc lsm) a sz offs"

definition lsm_cancel :: "('d, 'a) lsm \<Rightarrow> 'a \<Rightarrow> nat \<Rightarrow> nat \<Rightarrow> (errno + unit) \<times> 'a" where
  "lsm_cancel lsm a sz offs = alloc_cancel (ls_alloc lsm) a sz offs"

definition lsm_free :: "('d, 'a) lsm \<Rightarrow> 'a \<Rightarrow> nat \<Rightarrow> nat \<Rightarrow> (errno + unit) \<times> 'a" where
  "lsm_free lsm a sz offs = alloc_free (ls_alloc lsm) a sz offs"

definition lsm_setup :: "'d io \<Rightarrow> 'a alloc_ops \<Rightarrow> cmp \<Rightarrow> ('d, 'a) lsm" where
  "lsm_setup io al cmp = \<lparr>ls_io = io, ls_alloc = al, ls_cmp = cmp, ls_c0 = mtree_setup cmp, ls_c1 = mtree_setup cmp,
     ls_ci = replicate MAX_DISK_TREES (ctree_setup io cmp)\<rparr>"

text \<open>The pointers to the device, the allocator and the comparison function are cleared too.\<close>

definition lsm_release :: "('d, 'a) lsm \<Rightarrow> mheap \<Rightarrow> (('d, 'a) lsm \<times> mheap) option" where
  "lsm_release lsm h = do {
     (c1, h) \<leftarrow> mtree_release (ls_c1 lsm) h;
     (c0, h) \<leftarrow> mtree_release (ls_c0 lsm) h;
     Some (lsm\<lparr>ls_ci := map ctree_release (ls_ci lsm), ls_c1 := c1, ls_c0 := c0\<rparr>, h) }"

definition lsm_parse :: "aulsmfs_tree \<Rightarrow> ('d, 'a) lsm \<Rightarrow> ('d, 'a) lsm" where
  "lsm_parse ondisk lsm = (case ondisk of (o0, o1, o2) \<Rightarrow>
     lsm\<lparr>ls_ci := map2 ctree_parse [o0, o1, o2] (ls_ci lsm)\<rparr>)"

definition lsm_dump :: "('d, 'a) lsm \<Rightarrow> aulsmfs_tree" where
  "lsm_dump lsm = (ctree_dump (ls_ci lsm ! 0), ctree_dump (ls_ci lsm ! 1), ctree_dump (ls_ci lsm ! 2))"

definition lsm_add ::
    "lsm_key \<Rightarrow> lsm_val \<Rightarrow> block \<Rightarrow> ('d, 'a) lsm \<Rightarrow> mheap \<Rightarrow> ((errno + unit) \<times> ('d, 'a) lsm \<times> mheap) option" where
  "lsm_add key val blk lsm h = do {
     (rc, c0, h) \<leftarrow> mtree_add (ls_c0 lsm) key val blk h;
     Some (rc, lsm\<lparr>ls_c0 := c0\<rparr>, h) }"

section \<open>The iterator (struct lsm_iter)\<close>

text \<open>\<open>li_buf_size\<close> is the size of the buffer that holds the current key and value; the
  buffer is NULL as long as it is 0.\<close>

record 'd lsm_iter =
  li_from :: nat
  li_to :: nat
  li_it0 :: mtree_iter
  li_it1 :: mtree_iter
  li_iti :: "'d ctree_iter list"
  li_keyi :: "lsm_key option list"
  li_vali :: "lsm_val option list"
  li_key :: "lsm_key option"
  li_val :: "lsm_val option"
  li_buf_size :: nat

type_synonym ('d, 'r) lsm_step = "((errno + 'r) \<times> 'd lsm_iter \<times> 'd \<times> mem) option"

definition lsm_iter_setup :: "('d, 'a) lsm \<Rightarrow> 'd lsm_iter option" where
  "lsm_iter_setup lsm = do {
     iti \<leftarrow> those (map ctree_iter_setup (ls_ci lsm));
     Some \<lparr>li_from = 0, li_to = MAX_DISK_TREES + 1,
       li_it0 = mtree_iter_setup (ls_c0 lsm), li_it1 = mtree_iter_setup (ls_c1 lsm), li_iti = iti,
       li_keyi = replicate (MAX_DISK_TREES + 2) None, li_vali = replicate (MAX_DISK_TREES + 2) None,
       li_key = None, li_val = None, li_buf_size = 0\<rparr> }"

definition lsm_iter_release :: "'d lsm_iter \<Rightarrow> 'd lsm_iter" where
  "lsm_iter_release it = it\<lparr>li_iti := map ctree_iter_release (li_iti it),
     li_it1 := mtree_iter_release (li_it1 it), li_it0 := mtree_iter_release (li_it0 it),
     li_from := 0, li_to := 0, li_keyi := replicate (MAX_DISK_TREES + 2) None,
     li_vali := replicate (MAX_DISK_TREES + 2) None, li_key := None, li_val := None, li_buf_size := 0\<rparr>"

text \<open>
  The trees that an operation visits, in order: the condition on \<open>from\<close> for \<open>c0\<close>, the one on
  \<open>from\<close> and \<open>to\<close> for \<open>c1\<close>, and the bounds of the loop over the disk trees.
\<close>

definition lsm_sources :: "'d lsm_iter \<Rightarrow> nat list" where
  "lsm_sources it =
     (if li_from it = 0 then [0] else []) @ (if li_from it \<le> 1 \<and> 1 \<le> li_to it then [1] else []) @
     map (\<lambda>i. i + 2) [if li_from it < 2 then 0 else li_from it - 2..<if li_to it < 2 then 0 else li_to it - 1]"

text \<open>Access to the parts of an iterator, with the bounds of the arrays.\<close>

definition lsm_mem_tree :: "('d, 'a) lsm \<Rightarrow> nat \<Rightarrow> mtree" where
  "lsm_mem_tree lsm i = (if i = 0 then ls_c0 lsm else ls_c1 lsm)"

definition lsm_mem_iter :: "'d lsm_iter \<Rightarrow> nat \<Rightarrow> mtree_iter" where
  "lsm_mem_iter it i = (if i = 0 then li_it0 it else li_it1 it)"

definition lsm_set_mem :: "nat \<Rightarrow> mtree_iter \<Rightarrow> 'd lsm_iter \<Rightarrow> 'd lsm_iter" where
  "lsm_set_mem i mi it = (if i = 0 then it\<lparr>li_it0 := mi\<rparr> else it\<lparr>li_it1 := mi\<rparr>)"

definition lsm_disk_iter :: "'d lsm_iter \<Rightarrow> nat \<Rightarrow> 'd ctree_iter option" where
  "lsm_disk_iter it i = (if i - 2 < length (li_iti it) then Some (li_iti it ! (i - 2)) else None)"

definition lsm_set_disk :: "nat \<Rightarrow> 'd ctree_iter \<Rightarrow> 'd lsm_iter \<Rightarrow> 'd lsm_iter" where
  "lsm_set_disk i ci it = it\<lparr>li_iti := (li_iti it)[i - 2 := ci]\<rparr>"

definition lsm_item :: "'d lsm_iter \<Rightarrow> nat \<Rightarrow> item option" where
  "lsm_item it i = (if i < length (li_keyi it) then Some (li_keyi it ! i, li_vali it ! i) else None)"

text \<open>\<open>mtree_key\<close> or \<open>ctree_key\<close>, and the value, stored in \<open>keyi[i]\<close> and \<open>vali[i]\<close>.\<close>

definition lsm_ptr :: "errno + bytes \<Rightarrow> bytes option" where
  "lsm_ptr r = (case r of Inl _ \<Rightarrow> None | Inr b \<Rightarrow> Some b)"

definition lsm_fetch :: "mheap \<Rightarrow> nat \<Rightarrow> 'd lsm_iter \<Rightarrow> 'd lsm_iter option" where
  "lsm_fetch h i it = do {
     (k, v) \<leftarrow> (if i < 2 then do {
                  k \<leftarrow> mtree_key h (lsm_mem_iter it i);
                  v \<leftarrow> mtree_val h (lsm_mem_iter it i);
                  Some (k, v)
                } else do {
                  ci \<leftarrow> lsm_disk_iter it i;
                  k \<leftarrow> ctree_key ci;
                  v \<leftarrow> ctree_val ci;
                  Some (k, v) });
     Some (it\<lparr>li_keyi := (li_keyi it)[i := lsm_ptr k], li_vali := (li_vali it)[i := lsm_ptr v]\<rparr>) }"

fun lsm_fetch_all :: "mheap \<Rightarrow> nat list \<Rightarrow> 'd lsm_iter \<Rightarrow> 'd lsm_iter option" where
  "lsm_fetch_all h [] it = Some it"
| "lsm_fetch_all h (i # is) it = do {
     it \<leftarrow> lsm_fetch h i it;
     lsm_fetch_all h is it }"

definition lsm_set_items :: "mheap \<Rightarrow> 'd lsm_iter \<Rightarrow> 'd lsm_iter option" where
  "lsm_set_items h it = lsm_fetch_all h (lsm_sources it) it"

section \<open>Choosing the next entry\<close>

text \<open>\<open>keyi\<close> and \<open>vali\<close> from \<open>from\<close> to \<open>to\<close>.\<close>

definition lsm_items :: "'d lsm_iter \<Rightarrow> item list option" where
  "lsm_items it = those (map (lsm_item it) [li_from it..<Suc (li_to it)])"

fun lsm_smallest :: "cmp \<Rightarrow> item list \<Rightarrow> item \<Rightarrow> item" where
  "lsm_smallest cmp [] best = best"
| "lsm_smallest cmp (e # es) best =
     (case fst e of None \<Rightarrow> lsm_smallest cmp es best
      | Some k \<Rightarrow>
          (case fst best of None \<Rightarrow> lsm_smallest cmp es e
           | Some key \<Rightarrow> lsm_smallest cmp es (if 0 < cmp key k then e else best)))"

fun lsm_largest :: "cmp \<Rightarrow> lsm_key option \<Rightarrow> item list \<Rightarrow> item \<Rightarrow> item" where
  "lsm_largest cmp prev [] best = best"
| "lsm_largest cmp prev (e # es) best =
     (case fst e of None \<Rightarrow> lsm_largest cmp prev es best
      | Some k \<Rightarrow>
          if (case prev of None \<Rightarrow> False | Some l \<Rightarrow> cmp l k \<le> 0) then lsm_largest cmp prev es best
          else (case fst best of None \<Rightarrow> lsm_largest cmp prev es e
           | Some key \<Rightarrow> lsm_largest cmp prev es (if cmp key k < 0 then e else best)))"

text \<open>
  The copy of the chosen key and value into the iterator's buffer. Both lie in one block of
  memory, so their sizes do not add up to more than a \<open>size_t\<close> holds. If nothing has ever
  been put into the buffer it is NULL, and so are the pointers to an empty key and value.
\<close>

definition lsm_copy :: "item \<Rightarrow> 'd lsm_iter \<Rightarrow> mem \<Rightarrow> (errno + unit) \<times> 'd lsm_iter \<times> mem" where
  "lsm_copy best it m =
     (case fst best of None \<Rightarrow> (Inr (), it, m)
      | Some key \<Rightarrow>
          (let val = (case snd best of None \<Rightarrow> [] | Some v \<Rightarrow> v);
               sz = length key + length val;
               (ok, it, m) =
                 (if li_buf_size it < sz
                  then (case mem_alloc m of (ok, m) \<Rightarrow> (ok, (if ok then it\<lparr>li_buf_size := sz\<rparr> else it), m))
                  else (True, it, m))
           in if \<not> ok then (Inl ENOMEM, it, m)
              else if li_buf_size it = 0 then (Inr (), it, m)
              else (Inr (), it\<lparr>li_key := Some key, li_val := Some val\<rparr>, m)))"

definition lsm_set_the_smallest ::
    "('d, 'a) lsm \<Rightarrow> 'd lsm_iter \<Rightarrow> mem \<Rightarrow> ((errno + unit) \<times> 'd lsm_iter \<times> mem) option" where
  "lsm_set_the_smallest lsm it m = do {
     let it = it\<lparr>li_val := None, li_key := None\<rparr>;
     es \<leftarrow> lsm_items it;
     Some (lsm_copy (lsm_smallest (ls_cmp lsm) es (None, None)) it m) }"

definition lsm_set_prev ::
    "('d, 'a) lsm \<Rightarrow> 'd lsm_iter \<Rightarrow> mem \<Rightarrow> ((errno + unit) \<times> 'd lsm_iter \<times> mem) option" where
  "lsm_set_prev lsm it m = do {
     let prev = li_key it;
     let it = it\<lparr>li_val := None, li_key := None\<rparr>;
     es \<leftarrow> lsm_items it;
     Some (lsm_copy (lsm_largest (ls_cmp lsm) prev es (None, None)) it m) }"

section \<open>Moving all iterators\<close>

text \<open>An operation on the iterator of one tree, and on those of several trees in a row.\<close>

definition lsm_on ::
    "(mtree \<Rightarrow> mtree_iter \<Rightarrow> mtree_iter option) \<Rightarrow> ('d ctree_iter \<Rightarrow> 'd \<Rightarrow> mem \<Rightarrow> ('d, unit) step) \<Rightarrow>
     ('d, 'a) lsm \<Rightarrow> nat \<Rightarrow> 'd lsm_iter \<Rightarrow> 'd \<Rightarrow> mem \<Rightarrow> ('d, unit) lsm_step" where
  "lsm_on fm fd lsm i it d m =
     (if i < 2 then do {
        mi \<leftarrow> fm (lsm_mem_tree lsm i) (lsm_mem_iter it i);
        Some (Inr (), lsm_set_mem i mi it, d, m)
      } else do {
        ci \<leftarrow> lsm_disk_iter it i;
        (rc, ci, d, m) \<leftarrow> fd ci d m;
        Some (rc, lsm_set_disk i ci it, d, m) })"

fun lsm_each ::
    "(nat \<Rightarrow> 'd lsm_iter \<Rightarrow> 'd \<Rightarrow> mem \<Rightarrow> ('d, unit) lsm_step) \<Rightarrow> nat list \<Rightarrow>
     'd lsm_iter \<Rightarrow> 'd \<Rightarrow> mem \<Rightarrow> ('d, unit) lsm_step" where
  "lsm_each f [] it d m = Some (Inr (), it, d, m)"
| "lsm_each f (i # is) it d m = do {
     (rc, it, d, m) \<leftarrow> f i it d m;
     (case rc of Inl e \<Rightarrow> Some (Inl e, it, d, m) | Inr _ \<Rightarrow> lsm_each f is it d m) }"

definition lsm_begin :: "mheap \<Rightarrow> ('d, 'a) lsm \<Rightarrow> 'd lsm_iter \<Rightarrow> 'd \<Rightarrow> mem \<Rightarrow> ('d, unit) lsm_step" where
  "lsm_begin h lsm it d m = do {
     (rc, it, d, m) \<leftarrow> lsm_each (lsm_on (mtree_begin h) ctree_begin lsm) (lsm_sources it) it d m;
     (case rc of
        Inl e \<Rightarrow> Some (Inl e, it, d, m)
      | Inr _ \<Rightarrow> do {
          it \<leftarrow> lsm_set_items h it;
          (rc, it, m) \<leftarrow> lsm_set_the_smallest lsm it m;
          Some (rc, it, d, m) }) }"

definition lsm_end :: "mheap \<Rightarrow> ('d, 'a) lsm \<Rightarrow> 'd lsm_iter \<Rightarrow> 'd \<Rightarrow> mem \<Rightarrow> ('d, unit) lsm_step" where
  "lsm_end h lsm it d m = do {
     (rc, it, d, m) \<leftarrow> lsm_each (lsm_on (\<lambda>_ mi. Some (mtree_end mi)) ctree_end lsm) (lsm_sources it) it d m;
     (case rc of
        Inl e \<Rightarrow> Some (Inl e, it, d, m)
      | Inr _ \<Rightarrow> do {
          it \<leftarrow> lsm_set_items h it;
          Some (Inr (), it, d, m) }) }"

text \<open>The loops of \<open>lsm_next\<close>: a tree's iterator moves while it is not above the current key.
  Like those of \<open>lsm_prev\<close> they are written for one tree.\<close>

partial_function (option) lsm_next_mem ::
    "mheap \<Rightarrow> cmp \<Rightarrow> lsm_key \<Rightarrow> nat \<Rightarrow> 'd lsm_iter \<Rightarrow> 'd lsm_iter option" where
  "lsm_next_mem h cmp key i it = do {
     e \<leftarrow> lsm_item it i;
     (case fst e of
        None \<Rightarrow> Some it
      | Some ki \<Rightarrow>
          if 0 < cmp ki key then Some it
          else do {
            (_, mi) \<leftarrow> mtree_next h (lsm_mem_iter it i);
            it \<leftarrow> lsm_fetch h i (lsm_set_mem i mi it);
            lsm_next_mem h cmp key i it }) }"

partial_function (option) lsm_next_disk ::
    "mheap \<Rightarrow> cmp \<Rightarrow> lsm_key \<Rightarrow> nat \<Rightarrow> 'd lsm_iter \<Rightarrow> 'd \<Rightarrow> mem \<Rightarrow> ('d, unit) lsm_step" where
  "lsm_next_disk h cmp key i it d m = do {
     e \<leftarrow> lsm_item it i;
     (case fst e of
        None \<Rightarrow> Some (Inr (), it, d, m)
      | Some ki \<Rightarrow>
          if 0 < cmp ki key then Some (Inr (), it, d, m)
          else do {
            ci \<leftarrow> lsm_disk_iter it i;
            (rc, ci, d, m) \<leftarrow> ctree_next ci d m;
            let it = lsm_set_disk i ci it;
            (if rc = Inr () \<or> rc = Inl ENOENT then do {
               it \<leftarrow> lsm_fetch h i it;
               lsm_next_disk h cmp key i it d m
             } else Some (rc, it, d, m)) }) }"

definition lsm_next_at ::
    "mheap \<Rightarrow> cmp \<Rightarrow> lsm_key \<Rightarrow> nat \<Rightarrow> 'd lsm_iter \<Rightarrow> 'd \<Rightarrow> mem \<Rightarrow> ('d, unit) lsm_step" where
  "lsm_next_at h cmp key i it d m =
     (if i < 2 then do {
        it \<leftarrow> lsm_next_mem h cmp key i it;
        Some (Inr (), it, d, m)
      } else lsm_next_disk h cmp key i it d m)"

definition lsm_next :: "mheap \<Rightarrow> ('d, 'a) lsm \<Rightarrow> 'd lsm_iter \<Rightarrow> 'd \<Rightarrow> mem \<Rightarrow> ('d, unit) lsm_step" where
  "lsm_next h lsm it d m =
     (case li_key it of
        None \<Rightarrow> Some (Inl ENOENT, it, d, m)
      | Some key \<Rightarrow> do {
          (rc, it, d, m) \<leftarrow> lsm_each (lsm_next_at h (ls_cmp lsm) key) (lsm_sources it) it d m;
          (case rc of
             Inl e \<Rightarrow> Some (Inl e, it, d, m)
           | Inr _ \<Rightarrow> do {
               es \<leftarrow> lsm_items it;
               (if \<exists>e \<in> set es. fst e \<noteq> None then do {
                  (rc, it, m) \<leftarrow> lsm_set_the_smallest lsm it m;
                  Some (rc, it, d, m)
                } else Some (Inl ENOENT, it\<lparr>li_key := None, li_val := None\<rparr>, d, m)) }) })"

text \<open>Both conditions under which a tree's iterator has moved far enough back.\<close>

definition lsm_before :: "cmp \<Rightarrow> lsm_key option \<Rightarrow> lsm_key option \<Rightarrow> bool" where
  "lsm_before cmp ki key =
     (case ki of None \<Rightarrow> False | Some ki \<Rightarrow> (case key of None \<Rightarrow> True | Some key \<Rightarrow> cmp ki key < 0))"

partial_function (option) lsm_prev_mem ::
    "mheap \<Rightarrow> ('d, 'a) lsm \<Rightarrow> nat \<Rightarrow> 'd lsm_iter \<Rightarrow> (bool \<times> 'd lsm_iter) option" where
  "lsm_prev_mem h lsm i it = do {
     e \<leftarrow> lsm_item it i;
     (if lsm_before (ls_cmp lsm) (fst e) (li_key it) then Some (True, it)
      else do {
        (rc, mi) \<leftarrow> mtree_prev h (lsm_mem_tree lsm i) (lsm_mem_iter it i);
        it \<leftarrow> lsm_fetch h i (lsm_set_mem i mi it);
        (case rc of Inl _ \<Rightarrow> Some (False, it) | Inr _ \<Rightarrow> lsm_prev_mem h lsm i it) }) }"

partial_function (option) lsm_prev_disk ::
    "mheap \<Rightarrow> ('d, 'a) lsm \<Rightarrow> nat \<Rightarrow> 'd lsm_iter \<Rightarrow> 'd \<Rightarrow> mem \<Rightarrow> ('d, bool) lsm_step" where
  "lsm_prev_disk h lsm i it d m = do {
     e \<leftarrow> lsm_item it i;
     (if lsm_before (ls_cmp lsm) (fst e) (li_key it) then Some (Inr True, it, d, m)
      else do {
        ci \<leftarrow> lsm_disk_iter it i;
        (rc, ci, d, m) \<leftarrow> ctree_prev ci d m;
        let it = lsm_set_disk i ci it;
        (case rc of
           Inl e \<Rightarrow> Some (if e = ENOENT then Inr False else Inl e, it, d, m)
         | Inr _ \<Rightarrow> do {
             it \<leftarrow> lsm_fetch h i it;
             lsm_prev_disk h lsm i it d m }) }) }"

text \<open>\<open>moved\<close> is set as soon as one tree has an entry before the current key.\<close>

fun lsm_prev_each ::
    "mheap \<Rightarrow> ('d, 'a) lsm \<Rightarrow> nat list \<Rightarrow> bool \<Rightarrow> 'd lsm_iter \<Rightarrow> 'd \<Rightarrow> mem \<Rightarrow> ('d, bool) lsm_step" where
  "lsm_prev_each h lsm [] moved it d m = Some (Inr moved, it, d, m)"
| "lsm_prev_each h lsm (i # is) moved it d m = do {
     (rc, it, d, m) \<leftarrow>
       (if i < 2 then do {
          (b, it) \<leftarrow> lsm_prev_mem h lsm i it;
          Some (Inr b, it, d, m)
        } else lsm_prev_disk h lsm i it d m);
     (case rc of
        Inl e \<Rightarrow> Some (Inl e, it, d, m)
      | Inr b \<Rightarrow> lsm_prev_each h lsm is (moved \<or> b) it d m) }"

definition lsm_prev :: "mheap \<Rightarrow> ('d, 'a) lsm \<Rightarrow> 'd lsm_iter \<Rightarrow> 'd \<Rightarrow> mem \<Rightarrow> ('d, unit) lsm_step" where
  "lsm_prev h lsm it d m = do {
     (rc, it, d, m) \<leftarrow> lsm_prev_each h lsm (lsm_sources it) False it d m;
     (case rc of
        Inl e \<Rightarrow> Some (Inl e, it, d, m)
      | Inr moved \<Rightarrow>
          if \<not> moved then Some (Inl ENOENT, it, d, m)
          else do {
            (rc, it, m) \<leftarrow> lsm_set_prev lsm it m;
            Some (rc, it, d, m) }) }"

definition lsm_has_item :: "'d lsm_iter \<Rightarrow> bool" where
  "lsm_has_item it \<longleftrightarrow> li_key it \<noteq> None"

section \<open>Bounds and lookup\<close>

definition lsm_seek_at ::
    "(mtree \<Rightarrow> mtree_iter \<Rightarrow> mtree_iter option) \<Rightarrow> ('d ctree_iter \<Rightarrow> 'd \<Rightarrow> mem \<Rightarrow> ('d, unit) step) \<Rightarrow>
     mheap \<Rightarrow> ('d, 'a) lsm \<Rightarrow> nat \<Rightarrow> 'd lsm_iter \<Rightarrow> 'd \<Rightarrow> mem \<Rightarrow> ('d, unit) lsm_step" where
  "lsm_seek_at fm fd h lsm i it d m = do {
     (rc, it, d, m) \<leftarrow> lsm_on fm fd lsm i it d m;
     (case rc of
        Inl e \<Rightarrow> Some (Inl e, it, d, m)
      | Inr _ \<Rightarrow> do {
          it \<leftarrow> lsm_fetch h i it;
          Some (Inr (), it, d, m) }) }"

definition lsm_lower_bound ::
    "mheap \<Rightarrow> ('d, 'a) lsm \<Rightarrow> lsm_key \<Rightarrow> 'd lsm_iter \<Rightarrow> 'd \<Rightarrow> mem \<Rightarrow> ('d, unit) lsm_step" where
  "lsm_lower_bound h lsm key it d m = do {
     (rc, it, d, m) \<leftarrow> lsm_each
       (lsm_seek_at (\<lambda>t. mtree_lower_bound h t key) (ctree_lower_bound key) h lsm) (lsm_sources it) it d m;
     (case rc of
        Inl e \<Rightarrow> Some (Inl e, it, d, m)
      | Inr _ \<Rightarrow> do {
          (rc, it, m) \<leftarrow> lsm_set_the_smallest lsm it m;
          Some (rc, it, d, m) }) }"

definition lsm_upper_bound ::
    "mheap \<Rightarrow> ('d, 'a) lsm \<Rightarrow> lsm_key \<Rightarrow> 'd lsm_iter \<Rightarrow> 'd \<Rightarrow> mem \<Rightarrow> ('d, unit) lsm_step" where
  "lsm_upper_bound h lsm key it d m = do {
     (rc, it, d, m) \<leftarrow> lsm_each
       (lsm_seek_at (\<lambda>t. mtree_upper_bound h t key) (ctree_upper_bound key) h lsm) (lsm_sources it) it d m;
     (case rc of
        Inl e \<Rightarrow> Some (Inl e, it, d, m)
      | Inr _ \<Rightarrow> do {
          (rc, it, m) \<leftarrow> lsm_set_the_smallest lsm it m;
          Some (rc, it, d, m) }) }"

definition lsm_lookup ::
    "mheap \<Rightarrow> ('d, 'a) lsm \<Rightarrow> lsm_key \<Rightarrow> 'd lsm_iter \<Rightarrow> 'd \<Rightarrow> mem \<Rightarrow> ('d, bool) lsm_step" where
  "lsm_lookup h lsm key it d m = do {
     (rc, it, d, m) \<leftarrow> lsm_lower_bound h lsm key it d m;
     Some (case rc of
       Inl e \<Rightarrow> (Inl e, it, d, m)
     | Inr _ \<Rightarrow>
         (Inr (case li_key it of None \<Rightarrow> False | Some k \<Rightarrow> ls_cmp lsm k key = 0), it, d, m)) }"

end
