(* ===== verification/LsmWalk.thy ===== *)
theory LsmWalk
  imports Lsm CtreeIterProps
begin

text \<open>
  How the iterator of an LSM tree moves the iterators of the single trees: where each of them
  stands, what an operation on one of them leaves alone, and what each loop does to it.
\<close>

section \<open>Disk trees, also the empty one\<close>

text \<open>An operation on the iterator of an empty tree may return before it allocates the arrays.\<close>

definition disk_at ::
    "(nat \<Rightarrow> byte list \<Rightarrow> bool) \<Rightarrow> nat set \<Rightarrow> nat \<Rightarrow> 'd ctree_iter \<Rightarrow> kv list \<Rightarrow> nat \<Rightarrow> bool" where
  "disk_at S U lim it xs i \<longleftrightarrow> citer_ready S U lim it xs \<and>
     (if ci_height it = 0 then xs = [] \<and> i = 0 else citer_at S U lim it xs i)"

lemma citer_at_empty: "citer_at S U lim it xs i \<Longrightarrow> ci_height it = 0 \<Longrightarrow> xs = [] \<and> i = 0"
  by (auto simp: citer_at_def)

lemma disk_atI: "citer_at S U lim it xs i \<Longrightarrow> disk_at S U lim it xs i"
  using citer_at_ready [of S U lim it xs i] citer_at_empty [of S U lim it xs i] by (simp add: disk_at_def)

lemma disk_at_le: "disk_at S U lim it xs i \<Longrightarrow> i \<le> length xs"
  using citer_at_le [of S U lim it xs i] by (auto simp: disk_at_def split: if_splits)

context page_device
begin

lemma disk_next:
  assumes "serves good stored S d" and "disk_at S U limit it xs i" and "ci_io it = io"
  shows "\<exists>it' d'. ctree_next it d [] = Some (if Suc i < length xs then Inr () else Inl ENOENT, it', d', []) \<and>
    serves good stored S d' \<and> same_tree it it' \<and> disk_at S U limit it' xs (min (Suc i) (length xs))"
proof (cases "ci_height it = 0")
  case True
  then show ?thesis using assms by (auto simp: disk_at_def ctree_next_def)
next
  case False
  then have "citer_at S U limit it xs i" using assms(2) by (simp add: disk_at_def)
  from next_at [OF assms(1) this assms(3)] show ?thesis using disk_atI by blast
qed

lemma disk_prev:
  assumes "serves good stored S d" and "disk_at S U limit it xs i" and "ci_io it = io"
  shows "\<exists>it' d'. ctree_prev it d [] = Some (if i = 0 then Inl ENOENT else Inr (), it', d', []) \<and>
    serves good stored S d' \<and> same_tree it it' \<and> disk_at S U limit it' xs (i - 1)"
proof (cases "ci_height it = 0")
  case True
  then show ?thesis using assms by (auto simp: disk_at_def ctree_prev_def)
next
  case False
  then have "citer_at S U limit it xs i" using assms(2) by (simp add: disk_at_def)
  from prev_at [OF assms(1) this assms(3)] show ?thesis using disk_atI by blast
qed

lemma disk_key_val:
  assumes "disk_at S U limit it xs i"
  shows "ctree_key it = Some (if i < length xs then Inr (fst (xs ! i)) else Inl ENOENT)"
    and "ctree_val it = Some (if i < length xs then Inr (snd (xs ! i)) else Inl ENOENT)"
  using assms key_at [of S U it xs i] val_at [of S U it xs i]
  by (auto simp: disk_at_def ctree_key_def ctree_val_def split: if_splits)

lemma disk_lower:
  assumes "serves good stored S d" and "citer_ready S U limit it xs" and "ci_io it = io"
    and "key_order (ci_cmp it)" and "kv_sorted (ci_cmp it) xs"
  shows "\<exists>it' d'. ctree_lower_bound key it d [] = Some (Inr (), it', d', []) \<and> serves good stored S d' \<and>
    same_tree it it' \<and> disk_at S U limit it' xs (kv_lower (ci_cmp it) key xs)"
proof (cases "ci_height it = 0")
  case True
  then have "xs = []" using assms(2) by (simp add: citer_ready_def ctree_on_def)
  then show ?thesis using assms True by (simp add: ctree_lower_bound_def disk_at_def)
next
  case False
  then show ?thesis using lower_at [OF assms, of key] disk_atI by blast
qed

end

section \<open>The iterator of one tree\<close>

text \<open>\<open>lsm_src_ready\<close>: tree \<open>i\<close> has the entries \<open>xs\<close> and its iterator can be moved.
  \<open>lsm_src_at\<close>: it stands at position \<open>p\<close>.\<close>

definition lsm_src_ready ::
    "(nat \<Rightarrow> byte list \<Rightarrow> bool) \<Rightarrow> nat set \<Rightarrow> nat \<Rightarrow> mheap \<Rightarrow> ('d, 'a) lsm \<Rightarrow> 'd lsm_iter \<Rightarrow> nat \<Rightarrow> kv list \<Rightarrow> bool" where
  "lsm_src_ready S U lim h lsm it i xs \<longleftrightarrow>
     (if i < 2 then mt_cmp (lsm_mem_tree lsm i) = ls_cmp lsm \<and> it_cmp (lsm_mem_iter it i) = ls_cmp lsm \<and>
        (\<exists>t. mtree_inv h (lsm_mem_tree lsm i) t \<and> entries t = xs)
      else \<exists>ci. lsm_disk_iter it i = Some ci \<and> ci_io ci = ls_io lsm \<and> ci_cmp ci = ls_cmp lsm \<and> citer_ready S U lim ci xs)"

definition lsm_src_at ::
    "(nat \<Rightarrow> byte list \<Rightarrow> bool) \<Rightarrow> nat set \<Rightarrow> nat \<Rightarrow> mheap \<Rightarrow> ('d, 'a) lsm \<Rightarrow> 'd lsm_iter \<Rightarrow> nat \<Rightarrow> kv list \<Rightarrow> nat \<Rightarrow> bool" where
  "lsm_src_at S U lim h lsm it i xs p \<longleftrightarrow>
     (if i < 2 then mt_cmp (lsm_mem_tree lsm i) = ls_cmp lsm \<and> it_cmp (lsm_mem_iter it i) = ls_cmp lsm \<and>
        (\<exists>t. iter_at h (lsm_mem_tree lsm i) t (lsm_mem_iter it i) p \<and> entries t = xs)
      else \<exists>ci. lsm_disk_iter it i = Some ci \<and> ci_io ci = ls_io lsm \<and> ci_cmp ci = ls_cmp lsm \<and> disk_at S U lim ci xs p)"

lemma lsm_src_at_ready: "lsm_src_at S U lim h lsm it i xs p \<Longrightarrow> lsm_src_ready S U lim h lsm it i xs"
  by (auto simp: lsm_src_at_def lsm_src_ready_def iter_at_def disk_at_def split: if_splits)

lemma lsm_src_at_le: "lsm_src_at S U lim h lsm it i xs p \<Longrightarrow> p \<le> length xs"
  using disk_at_le by (auto simp: lsm_src_at_def iter_at_def split: if_splits)

text \<open>What an operation on the trees in \<open>I\<close> leaves alone.\<close>

definition lsm_frame :: "nat set \<Rightarrow> 'd lsm_iter \<Rightarrow> 'd lsm_iter \<Rightarrow> bool" where
  "lsm_frame I it it' \<longleftrightarrow> li_from it' = li_from it \<and> li_to it' = li_to it \<and> li_key it' = li_key it \<and>
     li_val it' = li_val it \<and> li_buf_size it' = li_buf_size it \<and>
     length (li_keyi it') = length (li_keyi it) \<and> length (li_vali it') = length (li_vali it) \<and>
     (\<forall>j. j \<notin> I \<longrightarrow> lsm_item it' j = lsm_item it j \<and> (j < 2 \<longrightarrow> lsm_mem_iter it' j = lsm_mem_iter it j) \<and>
        (2 \<le> j \<longrightarrow> lsm_disk_iter it' j = lsm_disk_iter it j))"

lemma lsm_frame_refl [simp]: "lsm_frame I it it"
  by (simp add: lsm_frame_def)

lemma lsm_frame_trans: "lsm_frame I a b \<Longrightarrow> lsm_frame J b c \<Longrightarrow> I \<subseteq> K \<Longrightarrow> J \<subseteq> K \<Longrightarrow> lsm_frame K a c"
  unfolding lsm_frame_def by (metis subsetD)

lemma lsm_frame_step: "lsm_frame {i} a b \<Longrightarrow> lsm_frame {i} b c \<Longrightarrow> lsm_frame {i} a c"
  by (rule lsm_frame_trans [of "{i}" a b "{i}"]) auto

lemma lsm_frame_mem: "i < 2 \<Longrightarrow> lsm_frame {i} it (lsm_set_mem i mi it)"
  by (auto simp: lsm_frame_def lsm_set_mem_def lsm_item_def lsm_mem_iter_def lsm_disk_iter_def)

lemma lsm_frame_disk: "2 \<le> i \<Longrightarrow> lsm_frame {i} it (lsm_set_disk i ci it)"
  by (auto simp: lsm_frame_def lsm_set_disk_def lsm_item_def lsm_mem_iter_def lsm_disk_iter_def nth_list_update)

lemma lsm_set_mem_same [simp]: "lsm_mem_iter (lsm_set_mem i mi it) i = mi"
  by (simp add: lsm_mem_iter_def lsm_set_mem_def)

lemma lsm_set_disk_same [simp]: "lsm_disk_iter it i = Some c \<Longrightarrow> lsm_disk_iter (lsm_set_disk i ci it) i = Some ci"
  by (auto simp: lsm_disk_iter_def lsm_set_disk_def split: if_splits)

lemma lsm_item_set [simp]: "lsm_item (lsm_set_mem i mi it) = lsm_item it" "lsm_item (lsm_set_disk i ci it) = lsm_item it"
  by (auto simp: lsm_item_def lsm_set_mem_def lsm_set_disk_def fun_eq_iff)

lemma lsm_frame_src:
  assumes "lsm_frame I it it'" and "i \<notin> I"
  shows "lsm_src_at S U lim h lsm it' i xs p = lsm_src_at S U lim h lsm it i xs p"
    and "lsm_src_ready S U lim h lsm it' i xs = lsm_src_ready S U lim h lsm it i xs"
    and "lsm_item it' i = lsm_item it i"
  using assms by (auto simp: lsm_frame_def lsm_src_at_def lsm_src_ready_def)

text \<open>An operation on one tree keeps what is known of another.\<close>

lemma frame_ready: "lsm_frame {j} it it' \<Longrightarrow> i \<noteq> j \<Longrightarrow> lsm_src_ready S U lim h lsm it i xs \<Longrightarrow> lsm_src_ready S U lim h lsm it' i xs"
  using lsm_frame_src(2) [of "{j}" it it' i S U lim h lsm xs] by simp

lemma frame_at: "lsm_frame {j} it it' \<Longrightarrow> i \<noteq> j \<Longrightarrow> lsm_src_at S U lim h lsm it i xs p \<Longrightarrow> lsm_src_at S U lim h lsm it' i xs p"
  using lsm_frame_src(1) [of "{j}" it it' i S U lim h lsm xs p] by simp

lemma lsm_sources_eq: "lsm_sources it = [li_from it..<Suc (li_to it)]"
proof -
  have shift: "map (\<lambda>i. Suc (Suc i)) [a..<b] = [Suc (Suc a)..<Suc (Suc b)]" for a b by (induction b) auto
  consider "li_from it = 0" "li_to it = 0" | n where "li_from it = 0" "li_to it = Suc n"
    | n where "li_from it = 1" "li_to it = Suc n" | "li_from it = 1" "li_to it = 0"
    | n where "li_from it = n + 2"
    by (metis One_nat_def Suc_1 add_2_eq_Suc' nat.exhaust)
  then show ?thesis
  proof cases
    case 5
    then show ?thesis by (cases "li_to it < 2") (auto simp: lsm_sources_def shift simp del: upt_Suc)
  next
    case 1
    then show ?thesis by (simp add: lsm_sources_def)
  next
    case 2
    then show ?thesis by (simp add: lsm_sources_def shift numeral_2_eq_2 upt_conv_Cons del: upt_Suc)
  next
    case 3
    then show ?thesis by (simp add: lsm_sources_def shift numeral_2_eq_2 upt_conv_Cons del: upt_Suc)
  next
    case 4
    then show ?thesis by (simp add: lsm_sources_def)
  qed
qed

definition lsm_shape :: "'d lsm_iter \<Rightarrow> bool" where
  "lsm_shape it \<longleftrightarrow> li_to it \<le> 4 \<and> length (li_keyi it) = 5 \<and> length (li_vali it) = 5"

lemma lsm_frame_shape: "lsm_frame I it it' \<Longrightarrow> lsm_shape it' = lsm_shape it"
  by (simp add: lsm_frame_def lsm_shape_def)

text \<open>A tree's iterator with the entry that has been fetched from it.\<close>

definition lsm_src_item ::
    "(nat \<Rightarrow> byte list \<Rightarrow> bool) \<Rightarrow> nat set \<Rightarrow> nat \<Rightarrow> mheap \<Rightarrow> ('d, 'a) lsm \<Rightarrow> 'd lsm_iter \<Rightarrow> nat \<Rightarrow> kv list \<Rightarrow> nat \<Rightarrow> bool" where
  "lsm_src_item S U lim h lsm it i xs p \<longleftrightarrow> lsm_src_at S U lim h lsm it i xs p \<and> lsm_item it i = Some (item_at xs p)"

text \<open>A loop of \<open>lsm_prev\<close> goes back to the last entry before the current key, or to the first
  entry. \<open>lsm_cut\<close>: how many entries are before it; without a current key all are.\<close>

definition lsm_cut :: "cmp \<Rightarrow> lsm_key option \<Rightarrow> kv list \<Rightarrow> nat" where
  "lsm_cut cmp key xs = (case key of None \<Rightarrow> length xs | Some k \<Rightarrow> kv_lower cmp k xs)"

lemma frame_item: "lsm_frame {j} it it' \<Longrightarrow> i \<noteq> j \<Longrightarrow> lsm_src_item S U lim h lsm it i xs p \<Longrightarrow> lsm_src_item S U lim h lsm it' i xs p"
  using lsm_frame_src(1) [of "{j}" it it' i S U lim h lsm xs p] lsm_frame_src(3) [of "{j}" it it' i] by (simp add: lsm_src_item_def)

section \<open>Fetching\<close>

context page_device
begin

lemma fetch_at:
  assumes s: "lsm_src_at S U limit h lsm it i xs p" and i: "i < length (li_keyi it)" "length (li_vali it) = length (li_keyi it)"
  shows "\<exists>it'. lsm_fetch h i it = Some it' \<and> lsm_frame {i} it it' \<and> lsm_src_at S U limit h lsm it' i xs p \<and>
    lsm_item it' i = Some (item_at xs p)"
proof -
  define it' where "it' = it\<lparr>li_keyi := (li_keyi it)[i := fst (item_at xs p)], li_vali := (li_vali it)[i := snd (item_at xs p)]\<rparr>"
  have acc: "lsm_mem_iter it' = lsm_mem_iter it" "lsm_disk_iter it' = lsm_disk_iter it"
    by (auto simp: it'_def lsm_mem_iter_def lsm_disk_iter_def fun_eq_iff)
  have "lsm_fetch h i it = Some it'"
  proof (cases "i < 2")
    case True
    then obtain t where "iter_at h (lsm_mem_tree lsm i) t (lsm_mem_iter it i) p" "entries t = xs"
      using s by (auto simp: lsm_src_at_def)
    then show ?thesis using True mtree_key_at [of h _ t _ p] mtree_val_at [of h _ t _ p]
      by (auto simp: lsm_fetch_def it'_def item_at_def lsm_ptr_def)
  next
    case False
    then obtain ci where ci: "lsm_disk_iter it i = Some ci" "disk_at S U limit ci xs p" using s by (auto simp: lsm_src_at_def)
    then show ?thesis using False disk_key_val [OF ci(2)] by (auto simp: lsm_fetch_def it'_def item_at_def lsm_ptr_def)
  qed
  moreover have "lsm_frame {i} it it'" using acc by (auto simp: lsm_frame_def it'_def lsm_item_def)
  moreover have "lsm_item it' i = Some (item_at xs p)" using i by (simp add: it'_def lsm_item_def)
  ultimately show ?thesis using s acc by (auto simp: lsm_src_at_def)
qed

section \<open>The loops over one tree\<close>

lemma fetch_item:
  assumes "lsm_src_at S U limit h lsm it i xs p" and "lsm_shape it" and "i \<le> 4"
  shows "\<exists>it'. lsm_fetch h i it = Some it' \<and> lsm_frame {i} it it' \<and> lsm_src_item S U limit h lsm it' i xs p"
  using fetch_at [OF assms(1)] assms(2,3) by (auto simp: lsm_shape_def lsm_src_item_def)

lemma mem_moved:
  assumes "lsm_src_at S U limit h lsm it i xs p" and "i < 2"
  shows "\<exists>mi. mtree_next h (lsm_mem_iter it i) = Some (if p < length xs then Inr () else Inl ENOENT, mi) \<and>
      lsm_src_at S U limit h lsm (lsm_set_mem i mi it) i xs (min (Suc p) (length xs))"
    and "\<exists>mi. mtree_prev h (lsm_mem_tree lsm i) (lsm_mem_iter it i) = Some (if p = 0 then Inl ENOENT else Inr (), mi) \<and>
      lsm_src_at S U limit h lsm (lsm_set_mem i mi it) i xs (p - 1)"
proof -
  obtain t where t: "iter_at h (lsm_mem_tree lsm i) t (lsm_mem_iter it i) p" "entries t = xs"
      "mt_cmp (lsm_mem_tree lsm i) = ls_cmp lsm" "it_cmp (lsm_mem_iter it i) = ls_cmp lsm"
    using assms by (auto simp: lsm_src_at_def)
  then have len: "length (inord t) = length xs" "p \<le> length xs" by (auto simp: iter_at_def)
  let ?n = "(lsm_mem_iter it i)\<lparr>it_node := node_at t (min (Suc p) (length xs))\<rparr>"
  have "lsm_src_at S U limit h lsm (lsm_set_mem i ?n it) i xs (min (Suc p) (length xs))"
    using iter_at_move [OF t(1), of "min (Suc p) (length xs)"] t len assms(2) unfolding lsm_src_at_def by auto
  then show "\<exists>mi. mtree_next h (lsm_mem_iter it i) = Some (if p < length xs then Inr () else Inl ENOENT, mi) \<and>
      lsm_src_at S U limit h lsm (lsm_set_mem i mi it) i xs (min (Suc p) (length xs))"
    using mtree_next_at [OF t(1)] len by (intro exI [of _ ?n] conjI) simp_all
  let ?p = "if p = 0 then lsm_mem_iter it i else (lsm_mem_iter it i)\<lparr>it_node := node_at t (p - 1)\<rparr>"
  have "iter_at h (lsm_mem_tree lsm i) t ?p (p - 1)"
    using iter_at_move [OF t(1), of "p - 1"] t(1) len by (cases "p = 0") simp_all
  moreover have "it_cmp ?p = ls_cmp lsm" using t(4) by simp
  ultimately have "lsm_src_at S U limit h lsm (lsm_set_mem i ?p it) i xs (p - 1)"
    using t(2,3) assms(2) unfolding lsm_src_at_def lsm_set_mem_same by (simp only: if_True simp_thms) blast
  then show "\<exists>mi. mtree_prev h (lsm_mem_tree lsm i) (lsm_mem_iter it i) = Some (if p = 0 then Inl ENOENT else Inr (), mi) \<and>
      lsm_src_at S U limit h lsm (lsm_set_mem i mi it) i xs (p - 1)"
    using mtree_prev_at [OF t(1)] by (intro exI [of _ ?p] conjI) simp_all
qed

lemma disk_moved:
  assumes "lsm_src_at S U limit h lsm it i xs p" and "\<not> i < 2" and "serves good stored S d" and "ls_io lsm = io"
  shows "\<exists>ci ci' d'. lsm_disk_iter it i = Some ci \<and>
      ctree_next ci d [] = Some (if Suc p < length xs then Inr () else Inl ENOENT, ci', d', []) \<and> serves good stored S d' \<and>
      lsm_src_at S U limit h lsm (lsm_set_disk i ci' it) i xs (min (Suc p) (length xs))"
    and "\<exists>ci ci' d'. lsm_disk_iter it i = Some ci \<and>
      ctree_prev ci d [] = Some (if p = 0 then Inl ENOENT else Inr (), ci', d', []) \<and> serves good stored S d' \<and>
      lsm_src_at S U limit h lsm (lsm_set_disk i ci' it) i xs (p - 1)"
proof -
  obtain ci where ci: "lsm_disk_iter it i = Some ci" "ci_io ci = ls_io lsm" "ci_cmp ci = ls_cmp lsm" "disk_at S U limit ci xs p"
    using assms(1,2) by (auto simp: lsm_src_at_def)
  from disk_next [OF assms(3) ci(4)] ci(2) assms(4) obtain c' d' where
    "ctree_next ci d [] = Some (if Suc p < length xs then Inr () else Inl ENOENT, c', d', [])" "serves good stored S d'"
    "same_tree ci c'" "disk_at S U limit c' xs (min (Suc p) (length xs))" by auto
  then show "\<exists>ci ci' d'. lsm_disk_iter it i = Some ci \<and>
      ctree_next ci d [] = Some (if Suc p < length xs then Inr () else Inl ENOENT, ci', d', []) \<and> serves good stored S d' \<and>
      lsm_src_at S U limit h lsm (lsm_set_disk i ci' it) i xs (min (Suc p) (length xs))"
    using ci assms(2) by (auto simp: lsm_src_at_def same_tree_def)
  from disk_prev [OF assms(3) ci(4)] ci(2) assms(4) obtain c' d' where
    "ctree_prev ci d [] = Some (if p = 0 then Inl ENOENT else Inr (), c', d', [])" "serves good stored S d'"
    "same_tree ci c'" "disk_at S U limit c' xs (p - 1)" by auto
  then show "\<exists>ci ci' d'. lsm_disk_iter it i = Some ci \<and>
      ctree_prev ci d [] = Some (if p = 0 then Inl ENOENT else Inr (), ci', d', []) \<and> serves good stored S d' \<and>
      lsm_src_at S U limit h lsm (lsm_set_disk i ci' it) i xs (p - 1)"
    using ci assms(2) by (auto simp: lsm_src_at_def same_tree_def)
qed

text \<open>A loop of \<open>lsm_next\<close> stops on the first entry above the key.\<close>

lemma next_stop:
  assumes "p \<le> kv_upper cmp key xs" and "kv_sorted cmp xs" and "key_order cmp"
  shows "(case fst (item_at xs p) of None \<Rightarrow> True | Some ki \<Rightarrow> 0 < cmp ki key) \<longleftrightarrow> p = kv_upper cmp key xs"
proof (cases "p = kv_upper cmp key xs")
  case True
  then show ?thesis using kv_upper_at [of cmp key xs] by (auto simp: item_at_def)
next
  case False
  then have "p < kv_upper cmp key xs" using assms(1) by simp
  moreover from this have "p < length xs" using kv_upper_le [of cmp key xs] by linarith
  ultimately show ?thesis using kv_upper_below [of p cmp key xs] by (simp add: item_at_def)
qed

lemma next_mem_at:
  assumes "lsm_src_item S U limit h lsm it i xs p" and "i < 2" and "lsm_shape it"
    and "p \<le> kv_upper (ls_cmp lsm) key xs" and "kv_sorted (ls_cmp lsm) xs" and "key_order (ls_cmp lsm)"
  shows "\<exists>it'. lsm_next_mem h (ls_cmp lsm) key i it = Some it' \<and> lsm_frame {i} it it' \<and>
    lsm_src_item S U limit h lsm it' i xs (kv_upper (ls_cmp lsm) key xs)"
  using assms(1,3,4)
proof (induction "kv_upper (ls_cmp lsm) key xs - p" arbitrary: it p)
  case 0
  then have "p = kv_upper (ls_cmp lsm) key xs" by simp
  then show ?case using 0 next_stop [OF 0(4) assms(5,6)]
    by (subst lsm_next_mem.simps) (auto simp: lsm_src_item_def split: option.split)
next
  case (Suc n)
  then have lt: "p < kv_upper (ls_cmp lsm) key xs" by simp
  then have len: "p < length xs" using kv_upper_le [of "ls_cmp lsm" key xs] by linarith
  from mem_moved(1) [of S U h lsm it i xs p] Suc.prems(1) assms(2) obtain mi where
    m: "mtree_next h (lsm_mem_iter it i) = Some (Inr (), mi)" "lsm_src_at S U limit h lsm (lsm_set_mem i mi it) i xs (Suc p)"
    using len by (auto simp: lsm_src_item_def)
  have sh: "lsm_shape (lsm_set_mem i mi it)" using Suc.prems(2) lsm_frame_shape [OF lsm_frame_mem [OF assms(2)]] by blast
  from fetch_item [OF m(2) sh] assms(2) obtain it1 where
    f: "lsm_fetch h i (lsm_set_mem i mi it) = Some it1" "lsm_frame {i} (lsm_set_mem i mi it) it1"
      "lsm_src_item S U limit h lsm it1 i xs (Suc p)" by auto
  have "n = kv_upper (ls_cmp lsm) key xs - Suc p" "Suc p \<le> kv_upper (ls_cmp lsm) key xs" using Suc.hyps(2) lt by simp_all
  from Suc.hyps(1) [OF this(1) f(3) _ this(2)] sh lsm_frame_shape [OF f(2)] obtain it' where
    r: "lsm_next_mem h (ls_cmp lsm) key i it1 = Some it'" "lsm_frame {i} it1 it'"
      "lsm_src_item S U limit h lsm it' i xs (kv_upper (ls_cmp lsm) key xs)" by blast
  have "lsm_next_mem h (ls_cmp lsm) key i it = Some it'"
    using Suc.prems(1) next_stop [OF Suc.prems(3) assms(5,6)] lt m(1) f(1) r(1)
    by (subst lsm_next_mem.simps) (auto simp: lsm_src_item_def split: option.split)
  moreover have "lsm_frame {i} it it'"
    by (rule lsm_frame_step [OF lsm_frame_step [OF lsm_frame_mem [OF assms(2)] f(2)] r(2)])
  ultimately show ?case using r(3) by blast
qed

lemma next_disk_at:
  assumes "lsm_src_item S U limit h lsm it i xs p" and "\<not> i < 2" and "i \<le> 4" and "lsm_shape it" and "serves good stored S d"
    and "p \<le> kv_upper (ls_cmp lsm) key xs" and "kv_sorted (ls_cmp lsm) xs" and "key_order (ls_cmp lsm)" and "ls_io lsm = io"
  shows "\<exists>it' d'. lsm_next_disk h (ls_cmp lsm) key i it d [] = Some (Inr (), it', d', []) \<and> serves good stored S d' \<and>
    lsm_frame {i} it it' \<and> lsm_src_item S U limit h lsm it' i xs (kv_upper (ls_cmp lsm) key xs)"
  using assms(1,4,5,6)
proof (induction "kv_upper (ls_cmp lsm) key xs - p" arbitrary: it p d)
  case 0
  then have "p = kv_upper (ls_cmp lsm) key xs" by simp
  then show ?case using 0 next_stop [OF 0(5) assms(7,8)]
    by (subst lsm_next_disk.simps) (auto simp: lsm_src_item_def split: option.split)
next
  case (Suc n)
  then have lt: "p < kv_upper (ls_cmp lsm) key xs" by simp
  then have len: "p < length xs" using kv_upper_le [of "ls_cmp lsm" key xs] by linarith
  from disk_moved(1) [of S U h lsm it i xs p, OF _ assms(2) Suc.prems(3) assms(9)] Suc.prems(1) obtain ci c d1 where
    m: "lsm_disk_iter it i = Some ci" "ctree_next ci d [] = Some (if Suc p < length xs then Inr () else Inl ENOENT, c, d1, [])"
      "serves good stored S d1" "lsm_src_at S U limit h lsm (lsm_set_disk i c it) i xs (Suc p)"
    using len by (auto simp: lsm_src_item_def min_def split: if_splits)
  have i: "2 \<le> i" using assms(2) by simp
  have sh: "lsm_shape (lsm_set_disk i c it)" using Suc.prems(2) lsm_frame_shape [OF lsm_frame_disk [OF i]] by blast
  from fetch_item [OF m(4) sh assms(3)] obtain it1 where
    f: "lsm_fetch h i (lsm_set_disk i c it) = Some it1" "lsm_frame {i} (lsm_set_disk i c it) it1"
      "lsm_src_item S U limit h lsm it1 i xs (Suc p)" by auto
  have "n = kv_upper (ls_cmp lsm) key xs - Suc p" "Suc p \<le> kv_upper (ls_cmp lsm) key xs" using Suc.hyps(2) lt by simp_all
  from Suc.hyps(1) [OF this(1) f(3) _ m(3) this(2)] sh lsm_frame_shape [OF f(2)] obtain it' d' where
    r: "lsm_next_disk h (ls_cmp lsm) key i it1 d1 [] = Some (Inr (), it', d', [])" "serves good stored S d'" "lsm_frame {i} it1 it'"
      "lsm_src_item S U limit h lsm it' i xs (kv_upper (ls_cmp lsm) key xs)" by blast
  have "lsm_next_disk h (ls_cmp lsm) key i it d [] = Some (Inr (), it', d', [])"
    using Suc.prems(1) next_stop [OF Suc.prems(4) assms(7,8)] lt m(1,2) f(1) r(1)
    by (subst lsm_next_disk.simps) (auto simp: lsm_src_item_def split: option.split)
  moreover have "lsm_frame {i} it it'"
    by (rule lsm_frame_step [OF lsm_frame_step [OF lsm_frame_disk [OF i] f(2)] r(3)])
  ultimately show ?case using r(2,4) by blast
qed

lemma prev_stop:
  assumes "p \<le> length xs" and "kv_sorted cmp xs" and "key_order cmp"
  shows "lsm_before cmp (fst (item_at xs p)) key \<longleftrightarrow> p < lsm_cut cmp key xs"
proof (cases key)
  case None
  then show ?thesis by (simp add: lsm_before_def lsm_cut_def item_at_def)
next
  case (Some k)
  show ?thesis
  proof (cases "p < kv_lower cmp k xs")
    case True
    then have "p < length xs" using kv_lower_le [of cmp k xs] by linarith
    then show ?thesis using True Some kv_lower_below [OF True] by (simp add: lsm_before_def lsm_cut_def item_at_def)
  next
    case False
    then have "p < length xs \<longrightarrow> 0 \<le> cmp (fst (xs ! p)) k" using key_order.kv_lower_above [OF assms(3,2), of k p] by simp
    then show ?thesis using False Some by (auto simp: lsm_before_def lsm_cut_def item_at_def)
  qed
qed

lemma prev_mem_at:
  assumes "lsm_src_item S U limit h lsm it i xs p" and "i < 2" and "lsm_shape it"
    and "lsm_cut (ls_cmp lsm) (li_key it) xs - 1 \<le> p" and "kv_sorted (ls_cmp lsm) xs" and "key_order (ls_cmp lsm)"
  shows "\<exists>it'. lsm_prev_mem h lsm i it = Some (0 < lsm_cut (ls_cmp lsm) (li_key it) xs, it') \<and> lsm_frame {i} it it' \<and>
    lsm_src_item S U limit h lsm it' i xs (lsm_cut (ls_cmp lsm) (li_key it) xs - 1)"
  using assms(1,3,4)
proof (induction p arbitrary: it rule: less_induct)
  case (less p)
  let ?c = "lsm_cut (ls_cmp lsm) (li_key it) xs"
  have at: "lsm_src_at S U limit h lsm it i xs p" "lsm_item it i = Some (item_at xs p)" using less.prems(1) by (auto simp: lsm_src_item_def)
  note stop = prev_stop [OF lsm_src_at_le [OF at(1)] assms(5,6), of "li_key it"]
  show ?case
  proof (cases "p < ?c")
    case True
    then have "p = ?c - 1" "0 < ?c" using less.prems(3) by auto
    then show ?thesis using less.prems(1) at(2) stop True by (subst lsm_prev_mem.simps) auto
  next
    case False
    from mem_moved(2) [OF at(1) assms(2)] obtain mi where
      m: "mtree_prev h (lsm_mem_tree lsm i) (lsm_mem_iter it i) = Some (if p = 0 then Inl ENOENT else Inr (), mi)"
        "lsm_src_at S U limit h lsm (lsm_set_mem i mi it) i xs (p - 1)" by blast
    note f0 = lsm_frame_mem [OF assms(2), of it mi]
    have sh: "lsm_shape (lsm_set_mem i mi it)" using less.prems(2) lsm_frame_shape [OF f0] by blast
    from fetch_item [OF m(2) sh] assms(2) obtain it1 where
      f: "lsm_fetch h i (lsm_set_mem i mi it) = Some it1" "lsm_frame {i} (lsm_set_mem i mi it) it1"
        "lsm_src_item S U limit h lsm it1 i xs (p - 1)" by auto
    note fr = lsm_frame_step [OF f0 f(2)]
    have k: "li_key it1 = li_key it" using fr by (simp add: lsm_frame_def)
    show ?thesis
    proof (cases "p = 0")
      case True
      then show ?thesis using at(2) stop False m(1) f fr by (subst lsm_prev_mem.simps) auto
    next
      case p: False
      have "p - 1 < p" "lsm_cut (ls_cmp lsm) (li_key it1) xs - 1 \<le> p - 1" using p False k by auto
      from less.IH [OF this(1) f(3) _ this(2)] sh lsm_frame_shape [OF f(2)] k obtain it' where
        r: "lsm_prev_mem h lsm i it1 = Some (0 < ?c, it')" "lsm_frame {i} it1 it'" "lsm_src_item S U limit h lsm it' i xs (?c - 1)" by auto
      have "lsm_prev_mem h lsm i it = Some (0 < ?c, it')"
        using at(2) stop False m(1) f(1) r(1) p by (subst lsm_prev_mem.simps) auto
      then show ?thesis using r(3) lsm_frame_step [OF fr r(2)] by blast
    qed
  qed
qed

lemma prev_disk_at:
  assumes "lsm_src_item S U limit h lsm it i xs p" and "\<not> i < 2" and "i \<le> 4" and "lsm_shape it" and "serves good stored S d"
    and "lsm_cut (ls_cmp lsm) (li_key it) xs - 1 \<le> p" and "kv_sorted (ls_cmp lsm) xs" and "key_order (ls_cmp lsm)" and "ls_io lsm = io"
  shows "\<exists>it' d'. lsm_prev_disk h lsm i it d [] = Some (Inr (0 < lsm_cut (ls_cmp lsm) (li_key it) xs), it', d', []) \<and>
    serves good stored S d' \<and> lsm_frame {i} it it' \<and>
    lsm_src_item S U limit h lsm it' i xs (lsm_cut (ls_cmp lsm) (li_key it) xs - 1)"
  using assms(1,4,5,6)
proof (induction p arbitrary: it d rule: less_induct)
  case (less p)
  let ?c = "lsm_cut (ls_cmp lsm) (li_key it) xs"
  have at: "lsm_src_at S U limit h lsm it i xs p" "lsm_item it i = Some (item_at xs p)" using less.prems(1) by (auto simp: lsm_src_item_def)
  note stop = prev_stop [OF lsm_src_at_le [OF at(1)] assms(7,8), of "li_key it"]
  show ?case
  proof (cases "p < ?c")
    case True
    then have "p = ?c - 1" "0 < ?c" using less.prems(4) by auto
    then show ?thesis using less.prems(1,3) at(2) stop True by (subst lsm_prev_disk.simps) auto
  next
    case False
    from disk_moved(2) [OF at(1) assms(2) less.prems(3) assms(9)] obtain ci c d1 where
      m: "lsm_disk_iter it i = Some ci" "ctree_prev ci d [] = Some (if p = 0 then Inl ENOENT else Inr (), c, d1, [])"
        "serves good stored S d1" "lsm_src_at S U limit h lsm (lsm_set_disk i c it) i xs (p - 1)" by blast
    have "2 \<le> i" using assms(2) by simp
    note f0 = lsm_frame_disk [OF this, of it c]
    have sh: "lsm_shape (lsm_set_disk i c it)" using less.prems(2) lsm_frame_shape [OF f0] by blast
    show ?thesis
    proof (cases "p = 0")
      case True
      then have "lsm_src_item S U limit h lsm (lsm_set_disk i c it) i xs 0" using m(4) at(2) by (simp add: lsm_src_item_def)
      then show ?thesis using at(2) stop True False m(1-3) f0 by (subst lsm_prev_disk.simps) auto
    next
      case p: False
      from fetch_item [OF m(4) sh assms(3)] obtain it1 where
        f: "lsm_fetch h i (lsm_set_disk i c it) = Some it1" "lsm_frame {i} (lsm_set_disk i c it) it1"
          "lsm_src_item S U limit h lsm it1 i xs (p - 1)" by auto
      note fr = lsm_frame_step [OF f0 f(2)]
      have k: "li_key it1 = li_key it" using fr by (simp add: lsm_frame_def)
      have "p - 1 < p" "lsm_cut (ls_cmp lsm) (li_key it1) xs - 1 \<le> p - 1" using p False k by auto
      from less.IH [OF this(1) f(3) _ m(3) this(2)] sh lsm_frame_shape [OF f(2)] k obtain it' d' where
        r: "lsm_prev_disk h lsm i it1 d1 [] = Some (Inr (0 < ?c), it', d', [])" "serves good stored S d'" "lsm_frame {i} it1 it'"
          "lsm_src_item S U limit h lsm it' i xs (?c - 1)" by auto
      have "lsm_prev_disk h lsm i it d [] = Some (Inr (0 < ?c), it', d', [])"
        using at(2) stop False m(1,2) f(1) r(1) p by (subst lsm_prev_disk.simps) auto
      then show ?thesis using r(2,4) lsm_frame_step [OF fr r(3)] by blast
    qed
  qed
qed

section \<open>The first moves\<close>

lemma on_begin:
  assumes "lsm_src_ready S U limit h lsm it i xs" and "serves good stored S d" and "key_order (ls_cmp lsm)" and "ls_io lsm = io"
  shows "\<exists>it' d'. lsm_on (mtree_begin h) ctree_begin lsm i it d [] = Some (Inr (), it', d', []) \<and> serves good stored S d' \<and>
    lsm_frame {i} it it' \<and> lsm_src_at S U limit h lsm it' i xs 0"
proof (cases "i < 2")
  case True
  then obtain t where t: "mtree_inv h (lsm_mem_tree lsm i) t" "entries t = xs" "mt_cmp (lsm_mem_tree lsm i) = ls_cmp lsm"
      "it_cmp (lsm_mem_iter it i) = ls_cmp lsm" using assms(1) by (auto simp: lsm_src_ready_def)
  from iter_at_begin [OF _ t(1)] t(3,4) assms(3) obtain mi where
    "mtree_begin h (lsm_mem_tree lsm i) (lsm_mem_iter it i) = Some mi" "iter_at h (lsm_mem_tree lsm i) t mi 0" by metis
  then show ?thesis using True t assms(2) lsm_frame_mem [OF True] by (auto simp: lsm_on_def lsm_src_at_def iter_at_def)
next
  case False
  then obtain ci where ci: "lsm_disk_iter it i = Some ci" "ci_io ci = ls_io lsm" "ci_cmp ci = ls_cmp lsm" "citer_ready S U limit ci xs"
    using assms(1) by (auto simp: lsm_src_ready_def)
  from begin_at [OF assms(2) ci(4)] ci(2) assms(4) obtain c d' where
    "ctree_begin ci d [] = Some (Inr (), c, d', [])" "serves good stored S d'" "same_tree ci c" "citer_at S U limit c xs 0" by auto
  then show ?thesis using False ci lsm_frame_disk [of i it c] disk_atI by (fastforce simp: lsm_on_def lsm_src_at_def same_tree_def)
qed

lemma on_end:
  assumes "lsm_src_ready S U limit h lsm it i xs" and "serves good stored S d" and "key_order (ls_cmp lsm)" and "ls_io lsm = io"
  shows "\<exists>it' d'. lsm_on (\<lambda>_ mi. Some (mtree_end mi)) ctree_end lsm i it d [] = Some (Inr (), it', d', []) \<and>
    serves good stored S d' \<and> lsm_frame {i} it it' \<and> lsm_src_at S U limit h lsm it' i xs (length xs)"
proof (cases "i < 2")
  case True
  then obtain t where t: "mtree_inv h (lsm_mem_tree lsm i) t" "entries t = xs" "mt_cmp (lsm_mem_tree lsm i) = ls_cmp lsm"
      "it_cmp (lsm_mem_iter it i) = ls_cmp lsm" using assms(1) by (auto simp: lsm_src_ready_def)
  from iter_at_end [OF _ t(1), of "lsm_mem_iter it i"] t(3,4) assms(3) have
    "iter_at h (lsm_mem_tree lsm i) t (mtree_end (lsm_mem_iter it i)) (length xs)" using t(2) by auto
  then show ?thesis using True t assms(2) lsm_frame_mem [OF True] by (auto simp: lsm_on_def lsm_src_at_def iter_at_def)
next
  case False
  then obtain ci where ci: "lsm_disk_iter it i = Some ci" "ci_io ci = ls_io lsm" "ci_cmp ci = ls_cmp lsm" "citer_ready S U limit ci xs"
    using assms(1) by (auto simp: lsm_src_ready_def)
  from end_at [OF assms(2) ci(4)] ci(2) assms(4) obtain c d' where
    "ctree_end ci d [] = Some (Inr (), c, d', [])" "serves good stored S d'" "same_tree ci c" "citer_at S U limit c xs (length xs)" by auto
  then show ?thesis using False ci lsm_frame_disk [of i it c] disk_atI by (fastforce simp: lsm_on_def lsm_src_at_def same_tree_def)
qed

lemma on_lower:
  assumes "lsm_src_ready S U limit h lsm it i xs" and "serves good stored S d" and "key_order (ls_cmp lsm)" and "ls_io lsm = io"
    and "kv_sorted (ls_cmp lsm) xs"
  shows "\<exists>it' d'. lsm_on (\<lambda>t. mtree_lower_bound h t key) (ctree_lower_bound key) lsm i it d [] = Some (Inr (), it', d', []) \<and>
    serves good stored S d' \<and> lsm_frame {i} it it' \<and> lsm_src_at S U limit h lsm it' i xs (kv_lower (ls_cmp lsm) key xs)"
proof (cases "i < 2")
  case True
  then obtain t where t: "mtree_inv h (lsm_mem_tree lsm i) t" "entries t = xs" "mt_cmp (lsm_mem_tree lsm i) = ls_cmp lsm"
      "it_cmp (lsm_mem_iter it i) = ls_cmp lsm" using assms(1) by (auto simp: lsm_src_ready_def)
  from iter_at_lower [OF _ t(1)] t(2-4) assms(3) obtain mi where
    "mtree_lower_bound h (lsm_mem_tree lsm i) key (lsm_mem_iter it i) = Some mi"
    "iter_at h (lsm_mem_tree lsm i) t mi (kv_lower (ls_cmp lsm) key xs)" by metis
  then show ?thesis using True t assms(2) lsm_frame_mem [OF True] by (auto simp: lsm_on_def lsm_src_at_def iter_at_def)
next
  case False
  then obtain ci where ci: "lsm_disk_iter it i = Some ci" "ci_io ci = ls_io lsm" "ci_cmp ci = ls_cmp lsm" "citer_ready S U limit ci xs"
    using assms(1) by (auto simp: lsm_src_ready_def)
  from disk_lower [OF assms(2) ci(4)] ci(2,3) assms(3-5) obtain c d' where
    "ctree_lower_bound key ci d [] = Some (Inr (), c, d', [])" "serves good stored S d'" "same_tree ci c"
    "disk_at S U limit c xs (kv_lower (ls_cmp lsm) key xs)" by metis
  then show ?thesis using False ci lsm_frame_disk [of i it c] by (fastforce simp: lsm_on_def lsm_src_at_def same_tree_def)
qed

end

end
