(* ===== verification/LsmCursor.thy ===== *)
theory LsmCursor
  imports LsmWalk
begin

text \<open>
  The iterator of an LSM tree as a cursor over the overlay of its trees: every operation, in
  terms of positions in a list of entries that is stored nowhere.
\<close>

section \<open>All trees in a row\<close>

lemma each_run:
  assumes step: "\<And>i it d. i \<in> set is \<Longrightarrow> sv d \<Longrightarrow> P i it \<Longrightarrow>
      \<exists>it' d'. f i it d [] = Some (Inr (), it', d', []) \<and> sv d' \<and> lsm_frame {i} it it' \<and> Q i it'"
    and P: "\<And>i j it it'. lsm_frame {j} it it' \<Longrightarrow> i \<noteq> j \<Longrightarrow> P i it \<Longrightarrow> P i it'"
    and Q: "\<And>i j it it'. lsm_frame {j} it it' \<Longrightarrow> i \<noteq> j \<Longrightarrow> Q i it \<Longrightarrow> Q i it'"
  shows "distinct is \<Longrightarrow> \<forall>i \<in> set is. P i it \<Longrightarrow> sv d \<Longrightarrow>
    \<exists>it' d'. lsm_each f is it d [] = Some (Inr (), it', d', []) \<and> sv d' \<and> lsm_frame (set is) it it' \<and> (\<forall>i \<in> set is. Q i it')"
proof -
  have "\<lbrakk>set js \<subseteq> set is; distinct js; \<forall>i \<in> set js. P i it; sv d\<rbrakk> \<Longrightarrow>
    \<exists>it' d'. lsm_each f js it d [] = Some (Inr (), it', d', []) \<and> sv d' \<and> lsm_frame (set js) it it' \<and>
      (\<forall>i \<in> set js. Q i it') \<and> (\<forall>i. i \<notin> set js \<longrightarrow> Q i it \<longrightarrow> Q i it')" for js
  proof (induction js arbitrary: it d)
    case Nil
    then show ?case by simp
  next
    case (Cons j js)
    have "j \<in> set is" "P j it" using Cons.prems by auto
    from step [OF this(1) Cons.prems(4) this(2)] obtain it1 d1 where
      s: "f j it d [] = Some (Inr (), it1, d1, [])" "sv d1" "lsm_frame {j} it it1" "Q j it1" by blast
    have "set js \<subseteq> set is" "distinct js" "\<forall>i \<in> set js. P i it1" using Cons.prems P [OF s(3)] by (simp_all, metis)
    from Cons.IH [OF this s(2)] obtain it' d' where
      r: "lsm_each f js it1 d1 [] = Some (Inr (), it', d', [])" "sv d'" "lsm_frame (set js) it1 it'"
        "\<forall>i \<in> set js. Q i it'" "\<forall>i. i \<notin> set js \<longrightarrow> Q i it1 \<longrightarrow> Q i it'" by blast
    have "lsm_frame (set (j # js)) it it'" by (rule lsm_frame_trans [OF s(3) r(3)]) auto
    then show ?case using s r Cons.prems(2) Q [OF s(3)] by auto
  qed
  from this [of "is"] show "distinct is \<Longrightarrow> \<forall>i \<in> set is. P i it \<Longrightarrow> sv d \<Longrightarrow> ?thesis" by blast
qed

section \<open>Positions\<close>

text \<open>The trees an iterator covers, with their entries (\<open>src i\<close> for tree \<open>i\<close>), newest first.\<close>

definition lsm_span :: "'d lsm_iter \<Rightarrow> nat set" where
  "lsm_span it = {li_from it..li_to it}"

definition lsm_lists :: "(nat \<Rightarrow> kv list) \<Rightarrow> 'd lsm_iter \<Rightarrow> kv list list" where
  "lsm_lists src it = map src [li_from it..<Suc (li_to it)]"

definition lsm_content :: "('d, 'a) lsm \<Rightarrow> (nat \<Rightarrow> kv list) \<Rightarrow> 'd lsm_iter \<Rightarrow> kv list" where
  "lsm_content lsm src it = overlay (ls_cmp lsm) (lsm_lists src it)"

text \<open>No entry is a pair of two empty blocks.\<close>

definition lsm_ready ::
    "(nat \<Rightarrow> byte list \<Rightarrow> bool) \<Rightarrow> nat set \<Rightarrow> nat \<Rightarrow> mheap \<Rightarrow> ('d, 'a) lsm \<Rightarrow> (nat \<Rightarrow> kv list) \<Rightarrow> 'd lsm_iter \<Rightarrow> bool" where
  "lsm_ready S U lim h lsm src it \<longleftrightarrow> lsm_shape it \<and> key_order (ls_cmp lsm) \<and>
     (\<forall>i \<in> lsm_span it. kv_sorted (ls_cmp lsm) (src i) \<and> lsm_src_ready S U lim h lsm it i (src i) \<and>
        (\<forall>e \<in> set (src i). e \<noteq> ([], [])))"

text \<open>
  The iterator at position \<open>j\<close> of the overlay. Its key is the key there, and each tree's
  iterator stands at the first entry that is not below this key, where a step forward leaves
  it, or one entry before that, where a step back leaves it.
\<close>

definition lsm_pos ::
    "(nat \<Rightarrow> byte list \<Rightarrow> bool) \<Rightarrow> nat set \<Rightarrow> nat \<Rightarrow> mheap \<Rightarrow> ('d, 'a) lsm \<Rightarrow> (nat \<Rightarrow> kv list) \<Rightarrow> 'd lsm_iter \<Rightarrow> nat \<Rightarrow> bool" where
  "lsm_pos S U lim h lsm src it j \<longleftrightarrow> lsm_ready S U lim h lsm src it \<and> j \<le> length (lsm_content lsm src it) \<and>
     (li_key it, li_val it) = item_at (lsm_content lsm src it) j \<and>
     (\<forall>i \<in> lsm_span it. \<exists>p. lsm_src_item S U lim h lsm it i (src i) p \<and>
        lsm_cut (ls_cmp lsm) (li_key it) (src i) - 1 \<le> p \<and> p \<le> lsm_cut (ls_cmp lsm) (li_key it) (src i) \<and>
        (li_key it = None \<longrightarrow> p = length (src i)))"

lemma lsm_span_set: "set (lsm_sources it) = lsm_span it" "distinct (lsm_sources it)"
  by (auto simp: lsm_sources_eq lsm_span_def)

lemma span_upt: "i \<in> set [li_from it..<Suc (li_to it)] \<longleftrightarrow> i \<in> lsm_span it"
  by (auto simp: lsm_span_def)

lemma lsm_span_le: "lsm_shape it \<Longrightarrow> i \<in> lsm_span it \<Longrightarrow> i \<le> 4"
  by (auto simp: lsm_span_def lsm_shape_def)

lemma lsm_frame_span: "lsm_frame I it it' \<Longrightarrow> lsm_span it' = lsm_span it"
  by (simp add: lsm_frame_def lsm_span_def)

lemma lists_sorted: "lsm_ready S U lim h lsm src it \<Longrightarrow> \<forall>xs \<in> set (lsm_lists src it). kv_sorted (ls_cmp lsm) xs"
  by (auto simp: lsm_ready_def lsm_lists_def lsm_span_def)

lemma content_sorted: "lsm_ready S U lim h lsm src it \<Longrightarrow> kv_sorted (ls_cmp lsm) (lsm_content lsm src it)"
  unfolding lsm_content_def using lists_sorted key_order.kv_sorted_overlay by (metis lsm_ready_def)

lemma content_nonempty:
  assumes "lsm_ready S U lim h lsm src it" and "e \<in> set (lsm_content lsm src it)"
  shows "e \<noteq> ([], [])"
proof -
  obtain xs where "xs \<in> set (lsm_lists src it)" "e \<in> set xs"
    using assms(2) set_overlay [of "ls_cmp lsm" "lsm_lists src it"] by (auto simp: lsm_content_def)
  then show ?thesis using assms(1) by (auto simp: lsm_ready_def lsm_lists_def lsm_span_def)
qed

lemma lsm_ready_moved:
  assumes "lsm_ready S U lim h lsm src it" and "lsm_frame (lsm_span it) it it'"
    and "\<forall>i \<in> lsm_span it. lsm_src_ready S U lim h lsm it' i (src i)"
  shows "lsm_ready S U lim h lsm src it'"
proof -
  note sp = lsm_frame_span [OF assms(2)]
  show ?thesis using assms(1,3) lsm_frame_shape [OF assms(2)] sp by (simp add: lsm_ready_def)
qed

section \<open>The current entry\<close>

text \<open>A new key, value and buffer change nothing else.\<close>

definition lsm_set_current :: "item \<Rightarrow> nat \<Rightarrow> 'd lsm_iter \<Rightarrow> 'd lsm_iter" where
  "lsm_set_current e n it = it\<lparr>li_key := fst e, li_val := snd e, li_buf_size := n\<rparr>"

lemma lsm_set_current_simps [simp]:
  "lsm_shape (lsm_set_current e n it) = lsm_shape it" "lsm_span (lsm_set_current e n it) = lsm_span it"
  "lsm_content lsm src (lsm_set_current e n it) = lsm_content lsm src it"
  "lsm_lists src (lsm_set_current e n it) = lsm_lists src it"
  "lsm_src_at S U lim h lsm (lsm_set_current e n it) i xs p = lsm_src_at S U lim h lsm it i xs p"
  "lsm_src_item S U lim h lsm (lsm_set_current e n it) i xs p = lsm_src_item S U lim h lsm it i xs p"
  "lsm_src_ready S U lim h lsm (lsm_set_current e n it) i xs = lsm_src_ready S U lim h lsm it i xs"
  "lsm_ready S U lim h lsm src (lsm_set_current e n it) = lsm_ready S U lim h lsm src it"
  "li_key (lsm_set_current e n it) = fst e" "li_val (lsm_set_current e n it) = snd e"
  by (simp_all add: lsm_set_current_def lsm_shape_def lsm_span_def lsm_content_def lsm_lists_def lsm_src_at_def
      lsm_src_item_def lsm_src_ready_def lsm_ready_def lsm_item_def lsm_mem_iter_def lsm_disk_iter_def)

lemma lsm_items_current [simp]: "lsm_items (lsm_set_current e n it) = lsm_items it"
proof -
  have "lsm_item (lsm_set_current e n it) = lsm_item it" "li_from (lsm_set_current e n it) = li_from it"
    "li_to (lsm_set_current e n it) = li_to it"
    by (simp_all add: lsm_set_current_def lsm_item_def fun_eq_iff)
  then show ?thesis by (simp only: lsm_items_def)
qed

lemma lsm_copy_at:
  assumes "e = item_at xs j" and "\<forall>e \<in> set xs. e \<noteq> ([], [])"
  shows "\<exists>n. lsm_copy e (it\<lparr>li_val := None, li_key := None\<rparr>) [] = (Inr (), lsm_set_current e n it, [])"
proof (cases "j < length xs")
  case True
  then have "xs ! j \<noteq> ([], [])" using assms(2) nth_mem by blast
  then have "0 < length (fst (xs ! j)) + length (snd (xs ! j))" by (cases "xs ! j") auto
  then show ?thesis using assms(1) True
    by (cases it) (auto simp: item_at_def lsm_copy_def lsm_set_current_def Let_def)
next
  case False
  then show ?thesis using assms(1) by (cases it) (auto simp: item_at_def lsm_copy_def lsm_set_current_def)
qed

lemma those_map: "\<forall>x \<in> set xs. f x = Some (g x) \<Longrightarrow> those (map f xs) = Some (map g xs)"
  by (induction xs) auto

lemma items_at:
  assumes "\<forall>i \<in> lsm_span it. lsm_src_item S U lim h lsm it i (src i) (p i)"
  shows "lsm_items it = Some (map (\<lambda>i. item_at (src i) (p i)) [li_from it..<Suc (li_to it)])"
  unfolding lsm_items_def by (rule those_map) (use assms in \<open>auto simp: lsm_src_item_def lsm_span_def\<close>)

text \<open>The two choices are the ends of the overlay of what is left.\<close>

lemma smallest_overlay:
  "lsm_smallest cmp (map item_hd ls) (item_hd M) = item_hd (foldl (kv_merge cmp) M ls)"
proof (induction ls arbitrary: M)
  case Nil
  then show ?case by simp
next
  case (Cons xs ls)
  from Cons.IH [of "kv_merge cmp M xs"] show ?case
    by (cases xs; cases M) (auto simp: item_hd_merge split: if_splits)
qed

lemma smallest_at:
  "lsm_smallest cmp (map (\<lambda>i. item_at (src i) (p i)) is) (None, None) = item_hd (overlay cmp (map (\<lambda>i. drop (p i) (src i)) is))"
  using smallest_overlay [of cmp "map (\<lambda>i. drop (p i) (src i)) is" "[]"]
  by (simp add: overlay_def comp_def item_at_drop)

lemma items_any:
  "(\<exists>x \<in> set (map (\<lambda>i. item_at (src i) (p i)) is). fst x \<noteq> None) \<longleftrightarrow>
   overlay cmp (map (\<lambda>i. drop (p i) (src i)) is) \<noteq> []"
  unfolding overlay_empty by (induction "is") (auto simp: item_at_def)

lemma item_last_None: "fst (item_last xs) = None \<longleftrightarrow> xs = []"
  by (simp add: item_last_def)

lemma largest_overlay:
  assumes ko: "key_order cmp"
  shows "kv_sorted cmp M \<Longrightarrow> \<forall>(e, xs) \<in> set es. kv_sorted cmp xs \<and> 
      (if xs = [] then fst e = None \<or> (\<exists>l k. lst = Some l \<and> fst e = Some k \<and> cmp l k \<le> 0)
       else e = item_last xs \<and> (\<forall>l. lst = Some l \<longrightarrow> 0 < cmp l (fst (last xs)))) \<Longrightarrow>
    lsm_largest cmp lst (map fst es) (item_last M) = item_last (foldl (kv_merge cmp) M (map snd es))"
proof (induction es arbitrary: M)
  case Nil
  then show ?case by simp
next
  case (Cons e es)
  obtain it xs where e: "e = (it, xs)" by (cases e)
  have s: "kv_sorted cmp xs" "kv_sorted cmp (kv_merge cmp M xs)"
    using Cons.prems e key_order.kv_sorted_merge [OF ko] by auto
  from Cons.IH [OF s(2)] Cons.prems(2)
  have IH: "lsm_largest cmp lst (map fst es) (item_last (kv_merge cmp M xs)) =
      item_last (foldl (kv_merge cmp) (kv_merge cmp M xs) (map snd es))" by auto
  show ?case
  proof (cases "xs = []")
    case True
    then show ?thesis using IH Cons.prems(2) e by (auto split: option.split)
  next
    case False
    then have it: "it = item_last xs" "\<forall>l. lst = Some l \<longrightarrow> 0 < cmp l (fst (last xs))" using Cons.prems(2) e by auto
    have "lsm_largest cmp lst (map fst (e # es)) (item_last M) = lsm_largest cmp lst (map fst es) (item_last (kv_merge cmp M xs))"
      unfolding key_order.item_last_merge [OF ko Cons.prems(1) s(1)]
      using e it False by (auto simp: item_last_def split: option.split)
    then show ?thesis using IH e by simp
  qed
qed

section \<open>Moving forward\<close>

text \<open>The positions that cut every list where the overlay is cut.\<close>

lemma cut_positions:
  assumes r: "lsm_ready S U lim h lsm src it" and le: "\<forall>i \<in> lsm_span it. p i \<le> length (src i)"
    and ov: "overlay (ls_cmp lsm) (map (\<lambda>i. drop (p i) (src i)) [li_from it..<Suc (li_to it)]) = drop j (lsm_content lsm src it)"
    and below: "\<forall>i \<in> lsm_span it. \<forall>e \<in> set (take (p i) (src i)). j < length (lsm_content lsm src it) \<longrightarrow>
      ls_cmp lsm (fst e) (fst (lsm_content lsm src it ! j)) < 0"
    and i: "i \<in> lsm_span it" and j: "j \<le> length (lsm_content lsm src it)"
  shows "p i = lsm_cut (ls_cmp lsm) (fst (item_at (lsm_content lsm src it) j)) (src i)"
proof -
  let ?M = "lsm_content lsm src it" and ?cmp = "ls_cmp lsm"
  let ?ds = "map (\<lambda>i. drop (p i) (src i)) [li_from it..<Suc (li_to it)]"
  have ko: "key_order ?cmp" using r by (simp add: lsm_ready_def)
  have mem: "drop (p i) (src i) \<in> set ?ds" using i by (simp add: lsm_span_def del: upt_Suc)
  show ?thesis
  proof (cases "j < length ?M")
    case True
    let ?k = "fst (?M ! j)"
    have "0 \<le> ?cmp (fst e) ?k" if e: "e \<in> set (drop (p i) (src i))" for e
    proof -
      obtain e' where e': "e' \<in> set (drop j ?M)" "?cmp (fst e') (fst e) = 0"
        using key_order.overlay_covers [OF ko mem e] ov by auto
      then obtain n where n: "n < length ?M - j" "e' = ?M ! (j + n)" by (auto simp: in_set_conv_nth)
      then have "j \<le> j + n" "j + n < length ?M" by simp_all
      then have "0 \<le> ?cmp (fst e') ?k"
        using key_order.kv_lower_above [OF ko content_sorted [OF r], of ?k "j + n"]
          key_order.kv_bounds_at(1) [OF ko content_sorted [OF r] True] n by simp
      then show ?thesis using key_order.cmp_cong_left [OF ko e'(2), of ?k] by simp
    qed
    then have "kv_lower ?cmp ?k (drop (p i) (src i)) = 0" by (cases "drop (p i) (src i)") fastforce+
    moreover have "\<forall>e \<in> set (take (p i) (src i)). ?cmp (fst e) ?k < 0" using below i True by blast
    ultimately have "kv_lower ?cmp ?k (take (p i) (src i) @ drop (p i) (src i)) = length (take (p i) (src i))"
      by (simp only: kv_lower_append if_True) simp
    then show ?thesis using True le i by (simp add: lsm_cut_def item_at_def)
  next
    case False
    then have "overlay (ls_cmp lsm) ?ds = []" using ov by (simp del: upt_Suc)
    then have "\<forall>xs \<in> set ?ds. xs = []" by (simp only: overlay_empty)
    then have "drop (p i) (src i) = []" using mem by blast
    then have "p i = length (src i)" using le i by (simp add: order_antisym)
    then show ?thesis using False by (simp add: lsm_cut_def item_at_def)
  qed
qed

lemma smallest_pos:
  assumes r: "lsm_ready S U lim h lsm src it" and at: "\<forall>i \<in> lsm_span it. lsm_src_item S U lim h lsm it i (src i) (p i)"
    and ov: "overlay (ls_cmp lsm) (map (\<lambda>i. drop (p i) (src i)) [li_from it..<Suc (li_to it)]) = drop j (lsm_content lsm src it)"
    and below: "\<forall>i \<in> lsm_span it. \<forall>e \<in> set (take (p i) (src i)). j < length (lsm_content lsm src it) \<longrightarrow>
      ls_cmp lsm (fst e) (fst (lsm_content lsm src it ! j)) < 0"
    and j: "j \<le> length (lsm_content lsm src it)"
  shows "\<exists>n. lsm_set_the_smallest lsm it [] = Some (Inr (), lsm_set_current (item_at (lsm_content lsm src it) j) n it, []) \<and>
    lsm_pos S U lim h lsm src (lsm_set_current (item_at (lsm_content lsm src it) j) n it) j"
proof -
  let ?M = "lsm_content lsm src it" and ?e = "item_at (lsm_content lsm src it) j"
  have le: "\<forall>i \<in> lsm_span it. p i \<le> length (src i)" using at lsm_src_at_le by (metis lsm_src_item_def)
  have "lsm_smallest (ls_cmp lsm) (map (\<lambda>i. item_at (src i) (p i)) [li_from it..<Suc (li_to it)]) (None, None) = ?e"
    unfolding smallest_at ov by (rule item_at_drop)
  moreover have "lsm_items (it\<lparr>li_val := None, li_key := None\<rparr>) = lsm_items it"
    using lsm_items_current [of "(None, None)" "li_buf_size it" it] by (cases it) (simp add: lsm_set_current_def)
  moreover obtain n where n: "lsm_copy ?e (it\<lparr>li_val := None, li_key := None\<rparr>) [] = (Inr (), lsm_set_current ?e n it, [])"
    using lsm_copy_at [of ?e ?M j it] content_nonempty [OF r] by auto
  ultimately have "lsm_set_the_smallest lsm it [] = Some (Inr (), lsm_set_current ?e n it, [])"
    using items_at [OF at] by (simp add: lsm_set_the_smallest_def Let_def del: upt_Suc)
  moreover have "lsm_pos S U lim h lsm src (lsm_set_current ?e n it) j"
    unfolding lsm_pos_def using r at j cut_positions [OF r le ov below _ j]
    by (auto simp: lsm_cut_def item_at_def)
  ultimately show ?thesis by blast
qed

definition same_range :: "'d lsm_iter \<Rightarrow> 'd lsm_iter \<Rightarrow> bool" where
  "same_range it it' \<longleftrightarrow> li_from it' = li_from it \<and> li_to it' = li_to it"

lemma same_range_trans: "same_range a b \<Longrightarrow> same_range b c \<Longrightarrow> same_range a c"
  by (simp add: same_range_def)

lemma same_range_frame: "lsm_frame I it it' \<Longrightarrow> same_range it it'"
  by (simp add: lsm_frame_def same_range_def)

lemma same_range_current [simp]: "same_range it (lsm_set_current e n it)"
  by (simp add: lsm_set_current_def same_range_def)

lemma same_range_content:
  "same_range it it' \<Longrightarrow> lsm_span it' = lsm_span it \<and> lsm_content lsm src it' = lsm_content lsm src it \<and>
    [li_from it'..<Suc (li_to it')] = [li_from it..<Suc (li_to it)] \<and> lsm_sources it' = lsm_sources it"
  by (simp add: same_range_def lsm_span_def lsm_content_def lsm_lists_def lsm_sources_def)

lemma content_all: "overlay (ls_cmp lsm) (map (\<lambda>i. drop 0 (src i)) [li_from it..<Suc (li_to it)]) = drop 0 (lsm_content lsm src it)"
  by (simp add: lsm_content_def lsm_lists_def del: upt_Suc)

lemma content_lower:
  "lsm_ready S U lim h lsm src it \<Longrightarrow>
   overlay (ls_cmp lsm) (map (\<lambda>i. drop (kv_lower (ls_cmp lsm) key (src i)) (src i)) [li_from it..<Suc (li_to it)]) =
     drop (kv_lower (ls_cmp lsm) key (lsm_content lsm src it)) (lsm_content lsm src it)"
  using key_order.overlay_cut(1) [of "ls_cmp lsm" "lsm_lists src it" key] lists_sorted [of S U lim h lsm src it]
  by (simp add: lsm_content_def lsm_ready_def lsm_lists_def comp_def del: upt_Suc)

lemma content_upper:
  "lsm_ready S U lim h lsm src it \<Longrightarrow>
   overlay (ls_cmp lsm) (map (\<lambda>i. drop (kv_upper (ls_cmp lsm) key (src i)) (src i)) [li_from it..<Suc (li_to it)]) =
     drop (kv_upper (ls_cmp lsm) key (lsm_content lsm src it)) (lsm_content lsm src it)"
  using key_order.overlay_cut(2) [of "ls_cmp lsm" "lsm_lists src it" key] lists_sorted [of S U lim h lsm src it]
  by (simp add: lsm_content_def lsm_ready_def lsm_lists_def comp_def del: upt_Suc)

context page_device
begin

lemma fetch_all_at:
  "\<lbrakk>distinct is; \<forall>i \<in> set is. lsm_src_at S U limit h lsm it i (src i) (p i); lsm_shape it; \<forall>i \<in> set is. i \<le> 4\<rbrakk> \<Longrightarrow>
   \<exists>it'. lsm_fetch_all h is it = Some it' \<and> lsm_frame (set is) it it' \<and>
     (\<forall>i \<in> set is. lsm_src_item S U limit h lsm it' i (src i) (p i)) \<and>
     (\<forall>i xs q. i \<notin> set is \<longrightarrow> lsm_src_item S U limit h lsm it i xs q \<longrightarrow> lsm_src_item S U limit h lsm it' i xs q)"
proof (induction "is" arbitrary: it)
  case Nil
  then show ?case by simp
next
  case (Cons i "is")
  from fetch_item [of S U h lsm it i "src i" "p i"] Cons.prems obtain it1 where
    f: "lsm_fetch h i it = Some it1" "lsm_frame {i} it it1" "lsm_src_item S U limit h lsm it1 i (src i) (p i)" by auto
  have "\<forall>j \<in> set is. lsm_src_at S U limit h lsm it1 j (src j) (p j)"
  proof
    fix j assume "j \<in> set is"
    then have "j \<noteq> i" "lsm_src_at S U limit h lsm it j (src j) (p j)" using Cons.prems(1,2) by (auto simp: Ball_def)
    then show "lsm_src_at S U limit h lsm it1 j (src j) (p j)" by (rule frame_at [OF f(2)])
  qed
  with Cons.IH [of it1] Cons.prems lsm_frame_shape [OF f(2)] obtain it' where
    r: "lsm_fetch_all h is it1 = Some it'" "lsm_frame (set is) it1 it'"
      "\<forall>j \<in> set is. lsm_src_item S U limit h lsm it' j (src j) (p j)"
      "\<forall>j xs q. j \<notin> set is \<longrightarrow> lsm_src_item S U limit h lsm it1 j xs q \<longrightarrow> lsm_src_item S U limit h lsm it' j xs q" by auto
  have "lsm_frame (set (i # is)) it it'" by (rule lsm_frame_trans [OF f(2) r(2)]) auto
  moreover have "lsm_src_item S U limit h lsm it1 j xs q" if "j \<notin> set (i # is)" "lsm_src_item S U limit h lsm it j xs q" for j xs q
    using frame_item [OF f(2) _ that(2)] that(1) by simp
  ultimately show ?case using f(1,3) r Cons.prems(1) by auto
qed

lemma set_items_at:
  assumes "\<forall>i \<in> lsm_span it. lsm_src_at S U limit h lsm it i (src i) (p i)" and "lsm_shape it"
  shows "\<exists>it'. lsm_set_items h it = Some it' \<and> lsm_frame (lsm_span it) it it' \<and>
    (\<forall>i \<in> lsm_span it. lsm_src_item S U limit h lsm it' i (src i) (p i))"
  using fetch_all_at [of "lsm_sources it" S U h lsm it src p] assms lsm_span_set [of it] lsm_span_le [OF assms(2)]
  unfolding lsm_set_items_def by auto

text \<open>The state after all iterators have been moved by an operation on each.\<close>

lemma ready_after:
  assumes "lsm_ready S U limit h lsm src it" and "lsm_frame (lsm_span it) it it'"
    and "\<forall>i \<in> lsm_span it. lsm_src_at S U limit h lsm it' i (src i) (p i)"
  shows "lsm_ready S U limit h lsm src it'"
  using lsm_ready_moved [OF assms(1,2)] lsm_src_at_ready assms(3) by blast

lemma run_each:
  assumes "lsm_ready S U limit h lsm src it" and "serves good stored S d"
    and step: "\<And>i it d. i \<in> lsm_span it \<Longrightarrow> i \<le> 4 \<Longrightarrow> lsm_shape it \<Longrightarrow> serves good stored S d \<Longrightarrow> kv_sorted (ls_cmp lsm) (src i) \<Longrightarrow> P i it \<Longrightarrow>
      \<exists>it' d'. f i it d [] = Some (Inr (), it', d', []) \<and> serves good stored S d' \<and> lsm_frame {i} it it' \<and> Q i it'"
    and PQ: "\<And>i j it it'. lsm_frame {j} it it' \<Longrightarrow> i \<noteq> j \<Longrightarrow> P i it \<Longrightarrow> P i it'"
      "\<And>i j it it'. lsm_frame {j} it it' \<Longrightarrow> i \<noteq> j \<Longrightarrow> Q i it \<Longrightarrow> Q i it'"
    and P: "\<forall>i \<in> lsm_span it. P i it"
  shows "\<exists>it' d'. lsm_each f (lsm_sources it) it d [] = Some (Inr (), it', d', []) \<and> serves good stored S d' \<and>
    lsm_frame (lsm_span it) it it' \<and> (\<forall>i \<in> lsm_span it. Q i it')"
proof -
  let ?P = "\<lambda>i it'. P i it' \<and> lsm_shape it' \<and> lsm_span it' = lsm_span it"
  note r = assms(1) [unfolded lsm_ready_def]
  have "\<exists>it' d'. lsm_each f (lsm_sources it) it d [] = Some (Inr (), it', d', []) \<and> serves good stored S d' \<and>
    lsm_frame (set (lsm_sources it)) it it' \<and> (\<forall>i \<in> set (lsm_sources it). Q i it')"
  proof (rule each_run [where P = ?P])
    fix i it1 d1 assume "i \<in> set (lsm_sources it)" "serves good stored S d1" "?P i it1"
    then show "\<exists>it' d'. f i it1 d1 [] = Some (Inr (), it', d', []) \<and> serves good stored S d' \<and> lsm_frame {i} it1 it' \<and> Q i it'"
      using step [of i it1 d1] lsm_span_le [of it1 i] r lsm_span_set(1) [of it] by auto
  next
    fix i j it1 it2 assume "lsm_frame {j} it1 it2" "i \<noteq> j" "?P i it1"
    then show "?P i it2" using PQ(1) lsm_frame_shape lsm_frame_span by metis
  next
    show "\<forall>i \<in> set (lsm_sources it). ?P i it" using P r lsm_span_set(1) [of it] by auto
  qed (use PQ(2) lsm_span_set(2) assms(2) in auto)
  then show ?thesis using lsm_span_set(1) [of it] by simp
qed

lemma run_begin:
  assumes r: "lsm_ready S U limit h lsm src it" and d: "serves good stored S d" and io: "ls_io lsm = io"
  shows "\<exists>it' d'. lsm_begin h lsm it d [] = Some (Inr (), it', d', []) \<and> serves good stored S d' \<and>
    same_range it it' \<and> lsm_pos S U limit h lsm src it' 0"
proof -
  note rr = r [unfolded lsm_ready_def]
  have "\<exists>it1 d1. lsm_each (lsm_on (mtree_begin h) ctree_begin lsm) (lsm_sources it) it d [] = Some (Inr (), it1, d1, []) \<and>
    serves good stored S d1 \<and> lsm_frame (lsm_span it) it it1 \<and> (\<forall>i \<in> lsm_span it. lsm_src_at S U limit h lsm it1 i (src i) 0)"
  proof (rule run_each [OF r d, where P = "\<lambda>i it. lsm_src_ready S U limit h lsm it i (src i)"])
    show "\<exists>it' d'. lsm_on (mtree_begin h) ctree_begin lsm i it d [] = Some (Inr (), it', d', []) \<and> serves good stored S d' \<and>
        lsm_frame {i} it it' \<and> lsm_src_at S U limit h lsm it' i (src i) 0"
      if "lsm_src_ready S U limit h lsm it i (src i)" "serves good stored S d" for i it d
      using on_begin [OF that] rr io by blast
  qed (erule (2) frame_ready | erule (2) frame_at | use rr in blast)+
  then obtain it1 d1 where
    e: "lsm_each (lsm_on (mtree_begin h) ctree_begin lsm) (lsm_sources it) it d [] = Some (Inr (), it1, d1, [])"
      "serves good stored S d1" "lsm_frame (lsm_span it) it it1" "\<forall>i \<in> lsm_span it. lsm_src_at S U limit h lsm it1 i (src i) 0" by blast
  note r1 = ready_after [OF r e(3,4)]
  note sp = lsm_frame_span [OF e(3)]
  from set_items_at [of it1 S U h lsm src "\<lambda>_. 0"] e(4) sp r1 obtain it2 where
    s: "lsm_set_items h it1 = Some it2" "lsm_frame (lsm_span it1) it1 it2"
      "\<forall>i \<in> lsm_span it1. lsm_src_item S U limit h lsm it2 i (src i) 0" by (auto simp: lsm_ready_def)
  have "\<forall>i \<in> lsm_span it1. lsm_src_at S U limit h lsm it2 i (src i) 0" using s(3) by (simp add: lsm_src_item_def)
  note r2 = ready_after [OF r1 s(2) this]
  note sp2 = lsm_frame_span [OF s(2)]
  from smallest_pos [OF r2 _ content_all] s(3) sp2 obtain n where
    "lsm_set_the_smallest lsm it2 [] = Some (Inr (), lsm_set_current (item_at (lsm_content lsm src it2) 0) n it2, [])"
    "lsm_pos S U limit h lsm src (lsm_set_current (item_at (lsm_content lsm src it2) 0) n it2) 0" by auto
  moreover have "same_range it it2" using same_range_frame [OF e(3)] same_range_frame [OF s(2)] same_range_trans by blast
  ultimately show ?thesis using e(1,2) s(1) same_range_trans [OF _ same_range_current] by (simp add: lsm_begin_def) blast
qed

lemma run_lower:
  assumes r: "lsm_ready S U limit h lsm src it" and d: "serves good stored S d" and io: "ls_io lsm = io"
  shows "\<exists>it' d'. lsm_lower_bound h lsm key it d [] = Some (Inr (), it', d', []) \<and> serves good stored S d' \<and>
    same_range it it' \<and> lsm_pos S U limit h lsm src it' (kv_lower (ls_cmp lsm) key (lsm_content lsm src it))"
proof -
  note rr = r [unfolded lsm_ready_def]
  have order: "key_order (ls_cmp lsm)" using rr by blast
  let ?f = "lsm_seek_at (\<lambda>t. mtree_lower_bound h t key) (ctree_lower_bound key) h lsm"
  let ?j = "kv_lower (ls_cmp lsm) key (lsm_content lsm src it)"
  have "\<exists>it1 d1. lsm_each ?f (lsm_sources it) it d [] = Some (Inr (), it1, d1, []) \<and> serves good stored S d1 \<and>
    lsm_frame (lsm_span it) it it1 \<and>
    (\<forall>i \<in> lsm_span it. lsm_src_item S U limit h lsm it1 i (src i) (kv_lower (ls_cmp lsm) key (src i)))"
  proof (rule run_each [OF r d, where P = "\<lambda>i it. lsm_src_ready S U limit h lsm it i (src i)"])
    fix i it d assume i: "i \<le> (4 :: nat)" "lsm_shape it" "serves good stored S d" "kv_sorted (ls_cmp lsm) (src i)"
      "lsm_src_ready S U limit h lsm it i (src i)"
    from on_lower [OF i(5,3) order io i(4), of key] obtain it1 d1 where
      o: "lsm_on (\<lambda>t. mtree_lower_bound h t key) (ctree_lower_bound key) lsm i it d [] = Some (Inr (), it1, d1, [])"
        "serves good stored S d1" "lsm_frame {i} it it1"
        "lsm_src_at S U limit h lsm it1 i (src i) (kv_lower (ls_cmp lsm) key (src i))" by blast
    from fetch_item [OF o(4) _ i(1)] lsm_frame_shape [OF o(3)] i(2) obtain it2 where f:
      "lsm_fetch h i it1 = Some it2" "lsm_frame {i} it1 it2"
      "lsm_src_item S U limit h lsm it2 i (src i) (kv_lower (ls_cmp lsm) key (src i))" by blast
    have "?f i it d [] = Some (Inr (), it2, d1, [])" using o(1) f(1) by (simp add: lsm_seek_at_def)
    then show "\<exists>it' d'. ?f i it d [] = Some (Inr (), it', d', []) \<and> serves good stored S d' \<and> lsm_frame {i} it it' \<and>
        lsm_src_item S U limit h lsm it' i (src i) (kv_lower (ls_cmp lsm) key (src i))"
      using o(2) lsm_frame_step [OF o(3) f(2)] f(3) by blast
  qed (erule (2) frame_ready | erule (2) frame_item | use rr in blast)+
  then obtain it1 d1 where
    e: "lsm_each ?f (lsm_sources it) it d [] = Some (Inr (), it1, d1, [])" "serves good stored S d1"
      "lsm_frame (lsm_span it) it it1"
      "\<forall>i \<in> lsm_span it. lsm_src_item S U limit h lsm it1 i (src i) (kv_lower (ls_cmp lsm) key (src i))" by blast
  then have "\<forall>i \<in> lsm_span it. lsm_src_at S U limit h lsm it1 i (src i) (kv_lower (ls_cmp lsm) key (src i))"
    by (simp add: lsm_src_item_def)
  note r1 = ready_after [OF r e(3) this] and sr = same_range_frame [OF e(3)]
  note sc = same_range_content [OF sr]
  have below: "ls_cmp lsm (fst e) (fst (lsm_content lsm src it1 ! ?j)) < 0"
    if "e \<in> set (take (kv_lower (ls_cmp lsm) key (src i)) (src i))" "?j < length (lsm_content lsm src it1)" for i e
  proof -
    have "ls_cmp lsm (fst e) key < 0" using that(1) kv_lower_below [of _ "ls_cmp lsm" key "src i"] by (auto simp: in_set_conv_nth)
    moreover have "ls_cmp lsm key (fst (lsm_content lsm src it1 ! ?j)) \<le> 0"
      using kv_lower_at [of "ls_cmp lsm" key "lsm_content lsm src it1"] that(2) sc rr key_order.cmp_ge by metis
    ultimately show ?thesis using rr key_order.cmp_less_trans by blast
  qed
  have ko: "?j = kv_lower (ls_cmp lsm) key (lsm_content lsm src it1)" "?j \<le> length (lsm_content lsm src it1)"
    using kv_lower_le [of "ls_cmp lsm" key "lsm_content lsm src it"] sc [of lsm src] by simp_all
  from smallest_pos [OF r1 _ content_lower [OF r1, of key, folded ko(1)]] e(4) lsm_frame_span [OF e(3)] below ko(2) obtain n where
    "lsm_set_the_smallest lsm it1 [] = Some (Inr (), lsm_set_current (item_at (lsm_content lsm src it1) ?j) n it1, [])"
    "lsm_pos S U limit h lsm src (lsm_set_current (item_at (lsm_content lsm src it1) ?j) n it1) ?j" by auto
  then show ?thesis using e(1,2) same_range_trans [OF sr same_range_current] by (simp add: lsm_lower_bound_def)
qed

lemma run_next:
  assumes p: "lsm_pos S U limit h lsm src it j" and d: "serves good stored S d" and io: "ls_io lsm = io"
  shows "\<exists>it' d'. lsm_next h lsm it d [] =
      Some (if Suc j < length (lsm_content lsm src it) then Inr () else Inl ENOENT, it', d', []) \<and>
    serves good stored S d' \<and> same_range it it' \<and>
    lsm_pos S U limit h lsm src it' (min (Suc j) (length (lsm_content lsm src it)))"
proof (cases "j < length (lsm_content lsm src it)")
  case False
  then have "li_key it = None" "j = length (lsm_content lsm src it)" using p by (auto simp: lsm_pos_def item_at_def)
  then show ?thesis using p d by (simp add: lsm_next_def same_range_def)
next
  case True
  let ?M = "lsm_content lsm src it" and ?cmp = "ls_cmp lsm"
  let ?k = "fst (?M ! j)"
  have r: "lsm_ready S U limit h lsm src it" and k: "li_key it = Some ?k" using p True by (auto simp: lsm_pos_def item_at_def)
  note rr = r [unfolded lsm_ready_def]
  have ko: "key_order ?cmp" using rr by simp
  let ?u = "\<lambda>i. kv_upper ?cmp ?k (src i)"
  let ?P = "\<lambda>i it. \<exists>q. lsm_src_item S U limit h lsm it i (src i) q \<and> q \<le> ?u i"
  have "\<exists>it1 d1. lsm_each (lsm_next_at h ?cmp ?k) (lsm_sources it) it d [] = Some (Inr (), it1, d1, []) \<and>
    serves good stored S d1 \<and> lsm_frame (lsm_span it) it it1 \<and> (\<forall>i \<in> lsm_span it. lsm_src_item S U limit h lsm it1 i (src i) (?u i))"
  proof (rule run_each [OF r d, where P = ?P])
    fix i it d assume i: "i \<le> (4 :: nat)" "lsm_shape it" "serves good stored S d" "kv_sorted ?cmp (src i)" "?P i it"
    then obtain q where q: "lsm_src_item S U limit h lsm it i (src i) q" "q \<le> ?u i" by blast
    show "\<exists>it' d'. lsm_next_at h ?cmp ?k i it d [] = Some (Inr (), it', d', []) \<and> serves good stored S d' \<and>
        lsm_frame {i} it it' \<and> lsm_src_item S U limit h lsm it' i (src i) (?u i)"
    proof (cases "i < 2")
      case True
      from next_mem_at [OF q(1) True i(2) q(2) i(4) ko] show ?thesis using True i(3) by (auto simp: lsm_next_at_def)
    next
      case False
      from next_disk_at [OF q(1) False i(1,2,3) q(2) i(4) ko io] show ?thesis using False by (auto simp: lsm_next_at_def)
    qed
  next
    fix i j it it' assume "lsm_frame {j} it it'" "i \<noteq> j" "?P i it"
    then show "?P i it'" using frame_item by blast
  next
    show "\<forall>i \<in> lsm_span it. ?P i it"
    proof
      fix i assume "i \<in> lsm_span it"
      then obtain q where "lsm_src_item S U limit h lsm it i (src i) q" "q \<le> kv_lower ?cmp ?k (src i)"
        using p k by (auto simp: lsm_pos_def lsm_cut_def)
      then show "?P i it" using key_order.kv_lower_upper_le [OF ko, of ?k "src i"] le_trans by blast
    qed
  qed (erule (2) frame_item)
  then obtain it1 d1 where
    e: "lsm_each (lsm_next_at h ?cmp ?k) (lsm_sources it) it d [] = Some (Inr (), it1, d1, [])" "serves good stored S d1"
      "lsm_frame (lsm_span it) it it1" "\<forall>i \<in> lsm_span it. lsm_src_item S U limit h lsm it1 i (src i) (?u i)" by blast
  then have "\<forall>i \<in> lsm_span it. lsm_src_at S U limit h lsm it1 i (src i) (?u i)" by (simp add: lsm_src_item_def)
  note r1 = ready_after [OF r e(3) this] and sr = same_range_frame [OF e(3)] and sp = lsm_frame_span [OF e(3)]
  have M: "lsm_content lsm src it1 = ?M" using same_range_content [OF sr] by blast
  have u: "kv_upper ?cmp ?k ?M = Suc j" by (rule key_order.kv_bounds_at(2) [OF ko content_sorted [OF r] True])
  have ov: "overlay ?cmp (map (\<lambda>i. drop (?u i) (src i)) [li_from it1..<Suc (li_to it1)]) = drop (Suc j) (lsm_content lsm src it1)"
    using content_upper [OF r1, of ?k] u unfolding M by simp
  have below: "?cmp (fst e) (fst (?M ! Suc j)) < 0" if "e \<in> set (take (?u i) (src i))" "Suc j < length ?M" for i e
  proof -
    have "?cmp (fst e) ?k \<le> 0" using that(1) kv_upper_below [of _ ?cmp ?k "src i"] by (auto simp: in_set_conv_nth)
    moreover have "?cmp ?k (fst (?M ! Suc j)) < 0"
      using content_sorted [OF r] that(2) by (auto simp: kv_sorted_def intro: sorted_wrt_nth_less)
    ultimately show ?thesis using key_order.cmp_trans_less [OF ko] by blast
  qed
  from smallest_pos [OF r1 _ ov] e(4) sp below True obtain n where
    s: "lsm_set_the_smallest lsm it1 [] = Some (Inr (), lsm_set_current (item_at ?M (Suc j)) n it1, [])"
      "lsm_pos S U limit h lsm src (lsm_set_current (item_at ?M (Suc j)) n it1) (Suc j)" unfolding M by auto
  have its: "lsm_items it1 = Some (map (\<lambda>i. item_at (src i) (?u i)) [li_from it1..<Suc (li_to it1)])"
    by (rule items_at) (use e(4) sp in simp)
  have any: "(\<exists>x \<in> set (map (\<lambda>i. item_at (src i) (?u i)) [li_from it1..<Suc (li_to it1)]). fst x \<noteq> None) \<longleftrightarrow> Suc j < length ?M"
    unfolding items_any [of src ?u _ ?cmp] ov M by auto
  show ?thesis
  proof (cases "Suc j < length ?M")
    case True
    then have "lsm_next h lsm it d [] = Some (Inr (), lsm_set_current (item_at ?M (Suc j)) n it1, d1, [])"
      using k e(1) its any s(1) by (simp add: lsm_next_def del: upt_Suc)
    then show ?thesis using s(2) e(2) True same_range_trans [OF sr same_range_current] by (simp add: min_def)
  next
    case no: False
    then have j: "Suc j = length ?M" using True by simp
    have n: "it1\<lparr>li_key := None, li_val := None\<rparr> = lsm_set_current (None, None) (li_buf_size it1) it1"
      by (cases it1) (simp add: lsm_set_current_def)
    have "lsm_next h lsm it d [] = Some (Inl ENOENT, lsm_set_current (None, None) (li_buf_size it1) it1, d1, [])"
      using k e(1) its any no n by (simp add: lsm_next_def del: upt_Suc)
    moreover have "lsm_pos S U limit h lsm src (lsm_set_current (None, None) (li_buf_size it1) it1) (Suc j)"
      using s(2) j M by (simp add: lsm_pos_def item_at_def)
    ultimately show ?thesis using e(2) no j same_range_trans [OF sr same_range_current] by auto
  qed
qed

section \<open>Moving back\<close>

lemma prev_each_at:
  assumes ko: "key_order (ls_cmp lsm)" and io: "ls_io lsm = io"
  shows "\<lbrakk>distinct is; \<forall>i \<in> set is. i \<le> 4 \<and> kv_sorted (ls_cmp lsm) (src i) \<and>
       (\<exists>p. lsm_src_item S U limit h lsm it i (src i) p \<and> lsm_cut (ls_cmp lsm) (li_key it) (src i) - 1 \<le> p);
     lsm_shape it; serves good stored S d\<rbrakk> \<Longrightarrow>
   \<exists>it' d'. lsm_prev_each h lsm is mv it d [] =
       Some (Inr (mv \<or> (\<exists>i \<in> set is. 0 < lsm_cut (ls_cmp lsm) (li_key it) (src i))), it', d', []) \<and>
     serves good stored S d' \<and> lsm_frame (set is) it it' \<and>
     (\<forall>i \<in> set is. lsm_src_item S U limit h lsm it' i (src i) (lsm_cut (ls_cmp lsm) (li_key it) (src i) - 1)) \<and>
     (\<forall>i xs q. i \<notin> set is \<longrightarrow> lsm_src_item S U limit h lsm it i xs q \<longrightarrow> lsm_src_item S U limit h lsm it' i xs q)"
proof (induction "is" arbitrary: it d mv)
  case Nil
  then show ?case by simp
next
  case (Cons i "is")
  let ?c = "\<lambda>i. lsm_cut (ls_cmp lsm) (li_key it) (src i)"
  from Cons.prems(2) obtain p where p: "lsm_src_item S U limit h lsm it i (src i) p" "?c i - 1 \<le> p" and
    i: "i \<le> 4" "kv_sorted (ls_cmp lsm) (src i)" by auto
  obtain it1 d1 where s: "(if i < 2 then do { (b, it) \<leftarrow> lsm_prev_mem h lsm i it; Some (Inr b, it, d, []) }
       else lsm_prev_disk h lsm i it d []) = Some (Inr (0 < ?c i), it1, d1, [])"
      "serves good stored S d1" "lsm_frame {i} it it1" "lsm_src_item S U limit h lsm it1 i (src i) (?c i - 1)"
  proof (cases "i < 2")
    case True
    from prev_mem_at [OF p(1) True Cons.prems(3) p(2) i(2) ko] obtain it1 where
      "lsm_prev_mem h lsm i it = Some (0 < ?c i, it1)" "lsm_frame {i} it it1"
      "lsm_src_item S U limit h lsm it1 i (src i) (?c i - 1)" by blast
    then show thesis using that [of it1 d] True Cons.prems(4) by simp
  next
    case False
    from prev_disk_at [OF p(1) False i(1) Cons.prems(3,4) p(2) i(2) ko io] obtain it1 d1 where
      "lsm_prev_disk h lsm i it d [] = Some (Inr (0 < ?c i), it1, d1, [])" "serves good stored S d1" "lsm_frame {i} it it1"
      "lsm_src_item S U limit h lsm it1 i (src i) (?c i - 1)" by blast
    then show thesis using that [of it1 d1] False by simp
  qed
  have k: "li_key it1 = li_key it" using s(3) by (simp add: lsm_frame_def)
  have "\<forall>j \<in> set is. j \<le> 4 \<and> kv_sorted (ls_cmp lsm) (src j) \<and>
      (\<exists>p. lsm_src_item S U limit h lsm it1 j (src j) p \<and> lsm_cut (ls_cmp lsm) (li_key it1) (src j) - 1 \<le> p)"
  proof
    fix j assume j: "j \<in> set is"
    with Cons.prems(2) obtain q where q: "lsm_src_item S U limit h lsm it j (src j) q" "?c j - 1 \<le> q" "j \<le> 4" "kv_sorted (ls_cmp lsm) (src j)"
      by auto
    have "j \<noteq> i" using j Cons.prems(1) by auto
    from frame_item [OF s(3) this q(1)] q k show "j \<le> 4 \<and> kv_sorted (ls_cmp lsm) (src j) \<and>
        (\<exists>p. lsm_src_item S U limit h lsm it1 j (src j) p \<and> lsm_cut (ls_cmp lsm) (li_key it1) (src j) - 1 \<le> p)" by auto
  qed
  from Cons.IH [OF _ this _ s(2), of "mv \<or> 0 < ?c i"] Cons.prems(1,3) lsm_frame_shape [OF s(3)] k obtain it' d' where
    r: "lsm_prev_each h lsm is (mv \<or> 0 < ?c i) it1 d1 [] = Some (Inr ((mv \<or> 0 < ?c i) \<or> (\<exists>i \<in> set is. 0 < ?c i)), it', d', [])"
      "serves good stored S d'" "lsm_frame (set is) it1 it'" "\<forall>i \<in> set is. lsm_src_item S U limit h lsm it' i (src i) (?c i - 1)"
      "\<forall>j xs q. j \<notin> set is \<longrightarrow> lsm_src_item S U limit h lsm it1 j xs q \<longrightarrow> lsm_src_item S U limit h lsm it' j xs q" by auto
  have "lsm_prev_each h lsm (i # is) mv it d [] =
      Some (Inr (mv \<or> (\<exists>i \<in> set (i # is). 0 < ?c i)), it', d', [])"
    using s(1) r(1) by (simp add: disj_assoc split del: if_split)
  moreover have "lsm_frame (set (i # is)) it it'" by (rule lsm_frame_trans [OF s(3) r(3)]) auto
  moreover have "\<forall>j \<in> set (i # is). lsm_src_item S U limit h lsm it' j (src j) (?c j - 1)"
    using r(4,5) s(4) Cons.prems(1) by auto
  moreover have "lsm_src_item S U limit h lsm it' j xs q" if "j \<notin> set (i # is)" "lsm_src_item S U limit h lsm it j xs q" for j xs q
    using frame_item [OF s(3) _ that(2)] that(1) r(5) by simp
  ultimately show ?case using r(2) by blast
qed

end

text \<open>The entries before a position of the overlay, and what the trees have there.\<close>

lemma content_before:
  assumes r: "lsm_ready S U lim h lsm src it" and j: "j \<le> length (lsm_content lsm src it)"
    and k: "key = fst (item_at (lsm_content lsm src it) j)"
  shows "overlay (ls_cmp lsm) (map (\<lambda>i. take (lsm_cut (ls_cmp lsm) key (src i)) (src i)) [li_from it..<Suc (li_to it)]) =
    take j (lsm_content lsm src it)"
proof (cases "j < length (lsm_content lsm src it)")
  case True
  have ko: "key_order (ls_cmp lsm)" using r by (simp add: lsm_ready_def)
  have "kv_lower (ls_cmp lsm) (fst (lsm_content lsm src it ! j)) (lsm_content lsm src it) = j"
    by (rule key_order.kv_bounds_at(1) [OF ko content_sorted [OF r] True])
  then show ?thesis
    using key_order.overlay_cut(3) [OF ko lists_sorted [OF r], of "fst (lsm_content lsm src it ! j)"] k True
    by (simp add: lsm_cut_def item_at_def lsm_content_def lsm_lists_def comp_def del: upt_Suc)
next
  case False
  then show ?thesis using k by (simp add: lsm_cut_def item_at_def lsm_content_def lsm_lists_def del: upt_Suc)
qed

text \<open>A tree has at most one entry between the entry before a position and that position.\<close>

lemma cut_step:
  assumes r: "lsm_ready S U lim h lsm src it" and j: "0 < j" "j \<le> length (lsm_content lsm src it)" and i: "i \<in> lsm_span it"
  defines "c \<equiv> lsm_cut (ls_cmp lsm) (fst (item_at (lsm_content lsm src it) j)) (src i)"
    and "c' \<equiv> lsm_cut (ls_cmp lsm) (fst (item_at (lsm_content lsm src it) (j - 1))) (src i)"
  shows "c' \<le> c \<and> c \<le> Suc c'"
proof -
  let ?M = "lsm_content lsm src it" and ?cmp = "ls_cmp lsm"
  let ?k = "fst (?M ! (j - 1))"
  have ko: "key_order ?cmp" and s: "kv_sorted ?cmp (src i)" using r i by (auto simp: lsm_ready_def)
  have "j - 1 < length ?M" using j by linarith
  then have c': "c' = kv_lower ?cmp ?k (src i)" by (simp add: c'_def lsm_cut_def item_at_def)
  have cl: "c \<le> length (src i)" by (simp add: c_def lsm_cut_def split: option.split)
  have mem: "take c (src i) \<in> set (map (\<lambda>i. take (lsm_cut ?cmp (fst (item_at ?M j)) (src i)) (src i)) [li_from it..<Suc (li_to it)])"
    using i by (simp add: lsm_span_def c_def del: upt_Suc)
  have le: "?cmp (fst e) ?k \<le> 0" if e: "e \<in> set (take c (src i))" for e
  proof -
    obtain e' where e': "e' \<in> set (take j ?M)" "?cmp (fst e') (fst e) = 0"
      using key_order.overlay_covers [OF ko mem e] unfolding content_before [OF r j(2) refl] by blast
    then obtain n where n: "n < j" "n < length ?M" "e' = ?M ! n" by (auto simp: in_set_conv_nth)
    have "?cmp (fst (?M ! n)) ?k \<le> 0"
      using kv_upper_below [of n ?cmp ?k ?M] key_order.kv_bounds_at(2) [OF ko content_sorted [OF r], of "j - 1"] j n by simp
    then show ?thesis using key_order.cmp_trans [OF ko, of "fst e" "fst e'" ?k] key_order.cmp_eq_sym [OF ko, of "fst e'" "fst e"] e'(2) n(3)
      by simp
  qed
  have "\<not> kv_upper ?cmp ?k (src i) < c"
  proof
    assume a: "kv_upper ?cmp ?k (src i) < c"
    then have "src i ! kv_upper ?cmp ?k (src i) \<in> set (take c (src i))" using cl by (auto simp: in_set_conv_nth)
    moreover have "0 < ?cmp (fst (src i ! kv_upper ?cmp ?k (src i))) ?k" using kv_upper_at [of ?cmp ?k "src i"] a cl by simp
    ultimately show False using le by fastforce
  qed
  then have 1: "c \<le> Suc c'" using key_order.kv_lower_upper [OF ko s, of ?k] c' by (auto simp: Let_def split: if_splits)
  have "c' \<le> c"
  proof (cases "j < length ?M")
    case True
    have lt: "?cmp ?k (fst (?M ! j)) < 0"
      using content_sorted [OF r] True j by (auto simp: kv_sorted_def intro: sorted_wrt_nth_less)
    have "\<not> kv_lower ?cmp (fst (?M ! j)) (src i) < kv_lower ?cmp ?k (src i)"
    proof
      let ?l = "kv_lower ?cmp (fst (?M ! j)) (src i)"
      assume a: "?l < kv_lower ?cmp ?k (src i)"
      then have "?cmp (fst (src i ! ?l)) ?k < 0" by (rule kv_lower_below)
      then have "?cmp (fst (src i ! ?l)) (fst (?M ! j)) < 0" using key_order.cmp_less_trans [OF ko] lt by fastforce
      moreover have "?l < length (src i)" using a kv_lower_le [of ?cmp ?k "src i"] by linarith
      ultimately show False using kv_lower_at [of ?cmp "fst (?M ! j)" "src i"] by simp
    qed
    then show ?thesis using True c' by (simp add: c_def lsm_cut_def item_at_def)
  next
    case False
    then show ?thesis using c' kv_lower_le [of ?cmp ?k "src i"] by (simp add: c_def lsm_cut_def item_at_def)
  qed
  then show ?thesis using 1 by simp
qed

lemma largest_pos:
  assumes r: "lsm_ready S U lim h lsm src it" and j: "0 < j" "j \<le> length (lsm_content lsm src it)"
    and k: "key = fst (item_at (lsm_content lsm src it) j)"
    and at: "\<forall>i \<in> lsm_span it. lsm_src_item S U lim h lsm it i (src i) (lsm_cut (ls_cmp lsm) key (src i) - 1)"
    and it: "li_key it = key"
  shows "\<exists>n. lsm_set_prev lsm it [] = Some (Inr (), lsm_set_current (item_at (lsm_content lsm src it) (j - 1)) n it, []) \<and>
    lsm_pos S U lim h lsm src (lsm_set_current (item_at (lsm_content lsm src it) (j - 1)) n it) (j - 1)"
proof -
  let ?M = "lsm_content lsm src it" and ?e = "item_at (lsm_content lsm src it) (j - 1)" and ?cmp = "ls_cmp lsm"
  let ?c = "\<lambda>i. lsm_cut ?cmp key (src i)" and ?is = "[li_from it..<Suc (li_to it)]"
  let ?es = "map (\<lambda>i. (item_at (src i) (?c i - 1), take (?c i) (src i))) ?is"
  have ko: "key_order ?cmp" using r by (simp add: lsm_ready_def)
  have cond: "\<forall>(e, xs) \<in> set ?es. kv_sorted ?cmp xs \<and>
      (if xs = [] then fst e = None \<or> (\<exists>l k. key = Some l \<and> fst e = Some k \<and> ?cmp l k \<le> 0)
       else e = item_last xs \<and> (\<forall>l. key = Some l \<longrightarrow> 0 < ?cmp l (fst (last xs))))"
  proof -
    have each: "kv_sorted ?cmp (take (?c i) (src i)) \<and>
      (if take (?c i) (src i) = [] then fst (item_at (src i) (?c i - 1)) = None \<or>
          (\<exists>l k. key = Some l \<and> fst (item_at (src i) (?c i - 1)) = Some k \<and> ?cmp l k \<le> 0)
       else item_at (src i) (?c i - 1) = item_last (take (?c i) (src i)) \<and>
          (\<forall>l. key = Some l \<longrightarrow> 0 < ?cmp l (fst (last (take (?c i) (src i))))))" if i: "i \<in> lsm_span it" for i
    proof -
      have s: "kv_sorted ?cmp (src i)" using r i by (simp add: lsm_ready_def)
      have cl: "?c i \<le> length (src i)" by (simp add: lsm_cut_def split: option.split)
      have "kv_sorted ?cmp (take (?c i) (src i))" using s by (simp add: kv_sorted_def sorted_wrt_take)
      moreover have "fst (item_at (src i) (?c i - 1)) = None \<or>
          (\<exists>l k. key = Some l \<and> fst (item_at (src i) (?c i - 1)) = Some k \<and> ?cmp l k \<le> 0)" if "take (?c i) (src i) = []"
      proof (cases "src i = []")
        case False
        then have "?c i = 0" using that by simp
        then obtain l where "key = Some l" "kv_lower ?cmp l (src i) = 0" using False by (auto simp: lsm_cut_def split: option.splits)
        then show ?thesis using False kv_lower_at [of ?cmp l "src i"] key_order.cmp_ge [OF ko] \<open>?c i = 0\<close> by (simp add: item_at_def)
      qed (simp add: item_at_def)
      moreover have "item_at (src i) (?c i - 1) = item_last (take (?c i) (src i)) \<and>
          (\<forall>l. key = Some l \<longrightarrow> 0 < ?cmp l (fst (last (take (?c i) (src i)))))" if "take (?c i) (src i) \<noteq> []"
      proof
        have c: "0 < ?c i" "?c i - 1 < ?c i" using that by auto
        then show "item_at (src i) (?c i - 1) = item_last (take (?c i) (src i))" using cl by (simp add: item_at_take min_def)
        have "last (take (?c i) (src i)) = src i ! (?c i - 1)" using that c cl by (simp add: last_conv_nth min_def)
        then show "\<forall>l. key = Some l \<longrightarrow> 0 < ?cmp l (fst (last (take (?c i) (src i))))"
          using c(2) kv_lower_below [of "?c i - 1" ?cmp _ "src i"] key_order.cmp_flip [OF ko] by (auto simp: lsm_cut_def)
      qed
      ultimately show ?thesis by (cases "take (?c i) (src i) = []"; simp only: if_True if_False simp_thms)
    qed
    show ?thesis
    proof
      fix x assume "x \<in> set ?es"
      then obtain i where "i \<in> set ?is" "x = (item_at (src i) (?c i - 1), take (?c i) (src i))"
        unfolding set_map by blast
      then have i: "i \<in> lsm_span it" by (simp only: span_upt)
      show "case x of (e, xs) \<Rightarrow> kv_sorted ?cmp xs \<and>
        (if xs = [] then fst e = None \<or> (\<exists>l k. key = Some l \<and> fst e = Some k \<and> ?cmp l k \<le> 0)
         else e = item_last xs \<and> (\<forall>l. key = Some l \<longrightarrow> 0 < ?cmp l (fst (last xs))))" unfolding \<open>x = _\<close> case_prod_conv by (rule each [OF i])
    qed
  qed
  have "lsm_largest ?cmp key (map (\<lambda>i. item_at (src i) (?c i - 1)) ?is) (None, None) =
      item_last (overlay ?cmp (map (\<lambda>i. take (?c i) (src i)) ?is))"
    using largest_overlay [OF ko kv_sorted_Nil cond] by (simp add: overlay_def comp_def del: upt_Suc)
  also have "\<dots> = item_last (take j ?M)" using content_before [OF r j(2) k] by simp
  also have "\<dots> = ?e" using j by (simp add: item_at_take min_def)
  finally have big: "lsm_largest ?cmp key (map (\<lambda>i. item_at (src i) (?c i - 1)) ?is) (None, None) = ?e" .
  have "lsm_items (it\<lparr>li_val := None, li_key := None\<rparr>) = lsm_items it"
    using lsm_items_current [of "(None, None)" "li_buf_size it" it] by (cases it) (simp add: lsm_set_current_def)
  moreover obtain n where n: "lsm_copy ?e (it\<lparr>li_val := None, li_key := None\<rparr>) [] = (Inr (), lsm_set_current ?e n it, [])"
    using lsm_copy_at [of ?e ?M "j - 1" it] content_nonempty [OF r] by auto
  ultimately have "lsm_set_prev lsm it [] = Some (Inr (), lsm_set_current ?e n it, [])"
    using items_at [OF at] big it by (simp add: lsm_set_prev_def Let_def del: upt_Suc)
  moreover have "fst ?e \<noteq> None" using j by (auto simp: item_at_def)
  then have "\<forall>i \<in> lsm_span it. \<exists>p. lsm_src_item S U lim h lsm it i (src i) p \<and> lsm_cut ?cmp (fst ?e) (src i) - 1 \<le> p \<and>
      p \<le> lsm_cut ?cmp (fst ?e) (src i) \<and> (fst ?e = None \<longrightarrow> p = length (src i))"
    using at cut_step [OF r j] k by (intro ballI exI [of _ "?c _ - 1"]) fastforce
  then have "lsm_pos S U lim h lsm src (lsm_set_current ?e n it) (j - 1)"
    using r j by (simp add: lsm_pos_def)
  ultimately show ?thesis by blast
qed

context page_device
begin

text \<open>Going back needs less than a position: the trees may stand anywhere behind the current
  key, as they do after \<open>lsm_end\<close>.\<close>

lemma run_prev_from:
  assumes r: "lsm_ready S U limit h lsm src it" and d: "serves good stored S d" and io: "ls_io lsm = io"
    and j: "j \<le> length (lsm_content lsm src it)" and cur: "(li_key it, li_val it) = item_at (lsm_content lsm src it) j"
    and at: "\<forall>i \<in> lsm_span it. \<exists>p. lsm_src_item S U limit h lsm it i (src i) p \<and> lsm_cut (ls_cmp lsm) (li_key it) (src i) - 1 \<le> p"
  shows "\<exists>it' d'. lsm_prev h lsm it d [] = Some (if j = 0 then Inl ENOENT else Inr (), it', d', []) \<and> serves good stored S d' \<and>
    same_range it it' \<and> lsm_pos S U limit h lsm src it' (j - 1)"
proof -
  let ?M = "lsm_content lsm src it" and ?c = "\<lambda>i. lsm_cut (ls_cmp lsm) (li_key it) (src i)"
  note rr = r [unfolded lsm_ready_def]
  have ko: "key_order (ls_cmp lsm)" using rr by simp
  have k: "li_key it = fst (item_at ?M j)" using cur by (metis fst_conv)
  have "\<forall>i \<in> set (lsm_sources it). i \<le> 4 \<and> kv_sorted (ls_cmp lsm) (src i) \<and>
      (\<exists>p. lsm_src_item S U limit h lsm it i (src i) p \<and> ?c i - 1 \<le> p)"
    using at rr lsm_span_le lsm_span_set(1) by metis
  from prev_each_at [OF ko io lsm_span_set(2) this _ d, of False] rr obtain it1 d1 where
    e: "lsm_prev_each h lsm (lsm_sources it) False it d [] = Some (Inr (\<exists>i \<in> lsm_span it. 0 < ?c i), it1, d1, [])"
      "serves good stored S d1" "lsm_frame (lsm_span it) it it1" "\<forall>i \<in> lsm_span it. lsm_src_item S U limit h lsm it1 i (src i) (?c i - 1)"
    unfolding lsm_span_set(1) by auto
  then have "\<forall>i \<in> lsm_span it. lsm_src_at S U limit h lsm it1 i (src i) (?c i - 1)" by (simp add: lsm_src_item_def)
  note r1 = ready_after [OF r e(3) this] and sr = same_range_frame [OF e(3)] and sp = lsm_frame_span [OF e(3)]
  have M: "lsm_content lsm src it1 = ?M" using same_range_content [OF sr] by blast
  have k1: "li_key it1 = li_key it" "li_val it1 = li_val it" using e(3) by (simp_all add: lsm_frame_def)
  have "take j ?M = [] \<longleftrightarrow> (\<forall>i \<in> lsm_span it. take (?c i) (src i) = [])"
    unfolding content_before [OF r j k, symmetric] overlay_empty by (auto simp: lsm_span_def)
  moreover have "take (?c i) (src i) = [] \<longleftrightarrow> ?c i = 0" for i
    using kv_lower_le [of "ls_cmp lsm" _ "src i"] by (auto simp: lsm_cut_def split: option.splits)
  ultimately have moved: "(\<exists>i \<in> lsm_span it. 0 < ?c i) \<longleftrightarrow> 0 < j" using j by auto
  show ?thesis
  proof (cases "j = 0")
    case True
    then have "lsm_prev h lsm it d [] = Some (Inl ENOENT, it1, d1, [])" using e(1) moved by (simp add: lsm_prev_def)
    moreover have "lsm_pos S U limit h lsm src it1 0"
    proof -
      have c0: "\<forall>i \<in> lsm_span it. ?c i = 0" using moved True by simp
      then have "li_key it = None \<Longrightarrow> \<forall>i \<in> lsm_span it. src i = []" by (simp add: lsm_cut_def)
      moreover have "\<forall>i \<in> lsm_span it. lsm_src_item S U limit h lsm it1 i (src i) 0" using e(4) c0 by simp
      ultimately have "\<forall>i \<in> lsm_span it1. \<exists>p. lsm_src_item S U limit h lsm it1 i (src i) p \<and> ?c i - 1 \<le> p \<and> p \<le> ?c i \<and>
          (li_key it = None \<longrightarrow> p = length (src i))" using c0 unfolding sp by (intro ballI exI [of _ 0]) auto
      then show ?thesis using r1 k1 cur True M by (simp add: lsm_pos_def)
    qed
    ultimately show ?thesis using e(2) sr True by auto
  next
    case False
    have "0 < j" "j \<le> length (lsm_content lsm src it1)" using False j M by simp_all
    from largest_pos [OF r1 this] e(4) sp k k1 obtain n where
      "lsm_set_prev lsm it1 [] = Some (Inr (), lsm_set_current (item_at ?M (j - 1)) n it1, [])"
      "lsm_pos S U limit h lsm src (lsm_set_current (item_at ?M (j - 1)) n it1) (j - 1)" unfolding M by auto
    moreover have "lsm_prev h lsm it d [] = Some (Inr (), lsm_set_current (item_at ?M (j - 1)) n it1, d1, [])"
      using e(1) moved False calculation(1) by (simp add: lsm_prev_def)
    ultimately show ?thesis using e(2) False same_range_trans [OF sr same_range_current] by auto
  qed
qed

lemma run_prev:
  assumes p: "lsm_pos S U limit h lsm src it j" and d: "serves good stored S d" and io: "ls_io lsm = io"
  shows "\<exists>it' d'. lsm_prev h lsm it d [] = Some (if j = 0 then Inl ENOENT else Inr (), it', d', []) \<and> serves good stored S d' \<and>
    same_range it it' \<and> lsm_pos S U limit h lsm src it' (j - 1)"
  by (rule run_prev_from [OF _ d io]) (use p in \<open>auto simp: lsm_pos_def\<close>)

lemma run_end:
  assumes r: "lsm_ready S U limit h lsm src it" and d: "serves good stored S d" and io: "ls_io lsm = io"
  shows "\<exists>it' d'. lsm_end h lsm it d [] = Some (Inr (), it', d', []) \<and> serves good stored S d' \<and> same_range it it' \<and>
    li_key it' = li_key it \<and> li_val it' = li_val it \<and> lsm_ready S U limit h lsm src it' \<and>
    (\<forall>i \<in> lsm_span it. lsm_src_item S U limit h lsm it' i (src i) (length (src i)))"
proof -
  note rr = r [unfolded lsm_ready_def]
  let ?f = "lsm_on (\<lambda>_ mi. Some (mtree_end mi)) ctree_end lsm"
  have "\<exists>it1 d1. lsm_each ?f (lsm_sources it) it d [] = Some (Inr (), it1, d1, []) \<and>
    serves good stored S d1 \<and> lsm_frame (lsm_span it) it it1 \<and> (\<forall>i \<in> lsm_span it. lsm_src_at S U limit h lsm it1 i (src i) (length (src i)))"
  proof (rule run_each [OF r d, where P = "\<lambda>i it. lsm_src_ready S U limit h lsm it i (src i)"])
    show "\<exists>it' d'. ?f i it d [] = Some (Inr (), it', d', []) \<and> serves good stored S d' \<and>
        lsm_frame {i} it it' \<and> lsm_src_at S U limit h lsm it' i (src i) (length (src i))"
      if "lsm_src_ready S U limit h lsm it i (src i)" "serves good stored S d" for i it d
      using on_end [OF that] rr io by blast
  qed (erule (2) frame_ready | erule (2) frame_at | use rr in blast)+
  then obtain it1 d1 where
    e: "lsm_each ?f (lsm_sources it) it d [] = Some (Inr (), it1, d1, [])" "serves good stored S d1"
      "lsm_frame (lsm_span it) it it1" "\<forall>i \<in> lsm_span it. lsm_src_at S U limit h lsm it1 i (src i) (length (src i))" by blast
  note r1 = ready_after [OF r e(3,4)] and sp = lsm_frame_span [OF e(3)]
  from set_items_at [of it1 S U h lsm src "\<lambda>i. length (src i)"] e(4) sp r1 obtain it2 where
    s: "lsm_set_items h it1 = Some it2" "lsm_frame (lsm_span it1) it1 it2"
      "\<forall>i \<in> lsm_span it1. lsm_src_item S U limit h lsm it2 i (src i) (length (src i))" by (auto simp: lsm_ready_def)
  have "\<forall>i \<in> lsm_span it1. lsm_src_at S U limit h lsm it2 i (src i) (length (src i))" using s(3) by (simp add: lsm_src_item_def)
  note r2 = ready_after [OF r1 s(2) this]
  have "lsm_end h lsm it d [] = Some (Inr (), it2, d1, [])" using e(1) s(1) by (simp add: lsm_end_def)
  moreover have "same_range it it2" using same_range_frame [OF e(3)] same_range_frame [OF s(2)] same_range_trans by blast
  ultimately show ?thesis using e(2,3) s r2 sp by (auto simp: lsm_frame_def)
qed

end

end
