(* ===== verification/LsmProps.thy ===== *)
theory LsmProps
  imports LsmCursor
begin

text \<open>
  What an LSM tree promises: its iterator is a cursor over the overlay of the five trees,
  lookup finds what the newest tree has for a key, and an insertion into the in-memory tree
  is an insertion into the overlay.
\<close>

section \<open>The cursor\<close>

type_synonym ('d, 'a) lwalk = "mheap \<times> ('d, 'a) lsm \<times> 'd lsm_iter \<times> 'd"

text \<open>The current entry is read off the iterator.\<close>

definition li_get :: "bytes option \<Rightarrow> errno + bytes" where
  "li_get b = (case b of None \<Rightarrow> Inl ENOENT | Some x \<Rightarrow> Inr x)"

fun lkey :: "('d, 'a) lwalk \<Rightarrow> (errno + lsm_key) option" where
  "lkey (h, lsm, it, d) = Some (li_get (li_key it))"

fun lval :: "('d, 'a) lwalk \<Rightarrow> (errno + lsm_val) option" where
  "lval (h, lsm, it, d) = Some (li_get (li_val it))"

fun lnext :: "('d, 'a) lwalk \<Rightarrow> ((errno + unit) \<times> ('d, 'a) lwalk) option" where
  "lnext (h, lsm, it, d) = map_option (\<lambda>(rc, it, d, m). (rc, h, lsm, it, d)) (lsm_next h lsm it d [])"

fun lprev :: "('d, 'a) lwalk \<Rightarrow> ((errno + unit) \<times> ('d, 'a) lwalk) option" where
  "lprev (h, lsm, it, d) = map_option (\<lambda>(rc, it, d, m). (rc, h, lsm, it, d)) (lsm_prev h lsm it d [])"

fun lpos :: "('d, 'a) lwalk \<Rightarrow> kv list \<Rightarrow> nat \<Rightarrow> bool" where
  "lpos (h, lsm, it, d) xs j \<longleftrightarrow> (\<exists>good stored limit S U src. page_device (ls_io lsm) good stored limit \<and>
     serves good stored S d \<and> lsm_pos S U limit h lsm src it j \<and> xs = lsm_content lsm src it)"

lemma lposI:
  assumes "page_device (ls_io lsm) good stored limit" and "serves good stored S d" and "lsm_pos S U limit h lsm src it' j"
    and "same_range it it'"
  shows "lpos (h, lsm, it', d) (lsm_content lsm src it) j"
  unfolding lpos.simps using same_range_content [OF assms(4), of lsm src] assms(1-3) by metis

interpretation lsm_cursor: cursor lpos lkey lval lnext lprev
proof
  fix s and xs :: "kv list" and j
  assume p: "lpos s xs j"
  obtain h lsm it d where s: "s = (h, lsm, it, d)" by (cases s) auto
  from p obtain good stored limit S U src where
    pd: "page_device (ls_io lsm) good stored limit" and d: "serves good stored S d" and
    at: "lsm_pos S U limit h lsm src it j" and xs: "xs = lsm_content lsm src it" unfolding s by auto
  have cur: "(li_key it, li_val it) = item_at xs j" and le: "j \<le> length xs" using at xs by (auto simp: lsm_pos_def)
  show "j \<le> length xs" by (rule le)
  show "lkey s = Some (if j < length xs then Inr (fst (xs ! j)) else Inl ENOENT)"
    using cur s by (auto simp: li_get_def item_at_def split: if_splits)
  show "lval s = Some (if j < length xs then Inr (snd (xs ! j)) else Inl ENOENT)"
    using cur s by (auto simp: li_get_def item_at_def split: if_splits)
  from page_device.run_next [OF pd at d refl] obtain it' d' where
    n: "lsm_next h lsm it d [] = Some (if Suc j < length xs then Inr () else Inl ENOENT, it', d', [])"
      "serves good stored S d'" "same_range it it'" "lsm_pos S U limit h lsm src it' (min (Suc j) (length xs))"
    unfolding xs by blast
  from lposI [OF pd n(2,4,3)] n(1) show "\<exists>r s'. lnext s = Some (r, s') \<and> lpos s' xs (min (Suc j) (length xs)) \<and>
      (r = Inr () \<or> r = Inl ENOENT) \<and> (Suc j < length xs \<longrightarrow> r = Inr ()) \<and> (j = length xs \<longrightarrow> r = Inl ENOENT)"
    unfolding s xs by (auto simp del: lpos.simps)
  from page_device.run_prev [OF pd at d refl] obtain it' d' where
    n: "lsm_prev h lsm it d [] = Some (if j = 0 then Inl ENOENT else Inr (), it', d', [])"
      "serves good stored S d'" "same_range it it'" "lsm_pos S U limit h lsm src it' (j - 1)" by blast
  from lposI [OF pd n(2,4,3)] n(1) show "\<exists>r s'. lprev s = Some (r, s') \<and> lpos s' xs (j - 1) \<and> r = (if j = 0 then Inl ENOENT else Inr ())"
    unfolding s xs by (auto simp del: lpos.simps)
qed

section \<open>A tree and its content\<close>

text \<open>\<open>lsm_rep\<close>: the in-memory trees are well formed, on different nodes of the heap, the device
  holds the disk trees, and tree \<open>i\<close> has the entries \<open>src i\<close>.\<close>

definition lsm_rep ::
    "('d \<Rightarrow> bool) \<Rightarrow> ('d \<Rightarrow> nat \<Rightarrow> byte list \<Rightarrow> bool) \<Rightarrow> nat \<Rightarrow> nat set \<Rightarrow> mheap \<Rightarrow> 'd \<Rightarrow> ('d, 'a) lsm \<Rightarrow> (nat \<Rightarrow> kv list) \<Rightarrow> bool" where
  "lsm_rep good stored lim U h d lsm src \<longleftrightarrow> page_device (ls_io lsm) good stored lim \<and> key_order (ls_cmp lsm) \<and> good d \<and>
     mt_cmp (ls_c0 lsm) = ls_cmp lsm \<and> mt_cmp (ls_c1 lsm) = ls_cmp lsm \<and>
     (\<exists>t0 t1. mtree_inv h (ls_c0 lsm) t0 \<and> mtree_inv h (ls_c1 lsm) t1 \<and> entries t0 = src 0 \<and> entries t1 = src 1 \<and>
        set (addrs t0) \<inter> set (addrs t1) = {}) \<and>
     length (ls_ci lsm) = MAX_DISK_TREES \<and>
     (\<forall>j < MAX_DISK_TREES. tr_io (ls_ci lsm ! j) = ls_io lsm \<and> tr_cmp (ls_ci lsm ! j) = ls_cmp lsm \<and>
        tree_on good stored lim U d (ls_ci lsm ! j) (src (j + 2))) \<and>
     (\<forall>i < MAX_DISK_TREES + 2. \<forall>e \<in> set (src i). e \<noteq> ([], []))"

text \<open>The content of the whole tree: newer trees hide older ones.\<close>

definition lsm_all :: "cmp \<Rightarrow> (nat \<Rightarrow> kv list) \<Rightarrow> kv list" where
  "lsm_all cmp src = overlay cmp (map src [0..<MAX_DISK_TREES + 2])"

lemma lsm_rep_sorted:
  assumes "lsm_rep good stored lim U h d lsm src" and "i \<le> 4"
  shows "kv_sorted (ls_cmp lsm) (src i)"
proof (cases "i < 2")
  case True
  then have "i = 0 \<or> i = 1" by auto
  then show ?thesis using assms(1) by (auto simp: lsm_rep_def mtree_inv_def)
next
  case False
  then obtain j where "i = j + 2" by (metis add.commute le_add_diff_inverse not_less)
  then have "tree_on good stored lim U d (ls_ci lsm ! j) (src i)" "tr_cmp (ls_ci lsm ! j) = ls_cmp lsm"
    using assms by (simp_all add: lsm_rep_def MAX_DISK_TREES_def)
  then show ?thesis by (simp add: tree_on_def)
qed

lemma lsm_rep_nonempty:
  assumes "lsm_rep good stored lim U h d lsm src" and "i \<le> 4"
  shows "\<forall>e \<in> set (src i). e \<noteq> ([], [])"
proof -
  have "\<forall>i < MAX_DISK_TREES + 2. \<forall>e \<in> set (src i). e \<noteq> ([], [])" using assms(1) unfolding lsm_rep_def by blast
  moreover have "i < MAX_DISK_TREES + 2" using assms(2) by (simp add: MAX_DISK_TREES_def)
  ultimately show ?thesis by blast
qed

lemma lsm_lists_sorted: "lsm_rep good stored lim U h d lsm src \<Longrightarrow> \<forall>xs \<in> set (map src [0..<MAX_DISK_TREES + 2]). kv_sorted (ls_cmp lsm) xs"
  using lsm_rep_sorted by (fastforce simp: MAX_DISK_TREES_def)

text \<open>A fresh iterator, also one on a part of the trees.\<close>

lemma lsm_rep_setup:
  assumes r: "lsm_rep good stored lim U h d lsm src" and b: "b \<le> 4"
  shows "\<exists>it. lsm_iter_setup lsm = Some it \<and> li_from it = 0 \<and> li_to it = 4 \<and> li_key it = None \<and> li_val it = None \<and>
    serves good stored (stored d) d \<and> lsm_ready (stored d) U lim h lsm src (it\<lparr>li_from := a, li_to := b\<rparr>)"
proof -
  have "\<exists>ci. ctree_iter_setup (ls_ci lsm ! j) = Some ci \<and> ci_io ci = ls_io lsm \<and> ci_cmp ci = ls_cmp lsm \<and>
      citer_ready (stored d) U lim ci (src (j + 2))" if "j < 3" for j
  proof -
    have "tree_on good stored lim U d (ls_ci lsm ! j) (src (j + 2))" "tr_io (ls_ci lsm ! j) = ls_io lsm" "tr_cmp (ls_ci lsm ! j) = ls_cmp lsm"
      using r that by (auto simp: lsm_rep_def MAX_DISK_TREES_def)
    with tree_on_setup [OF this(1)] show ?thesis by auto
  qed
  then obtain ci where ci: "\<forall>j < 3. ctree_iter_setup (ls_ci lsm ! j) = Some (ci j) \<and> ci_io (ci j) = ls_io lsm \<and>
      ci_cmp (ci j) = ls_cmp lsm \<and> citer_ready (stored d) U lim (ci j) (src (j + 2))" by metis
  have "ls_ci lsm = map (nth (ls_ci lsm)) [0..<3]"
    using r map_nth [of "ls_ci lsm"] by (simp add: lsm_rep_def MAX_DISK_TREES_def)
  then have "map ctree_iter_setup (ls_ci lsm) = map (\<lambda>j. ctree_iter_setup (ls_ci lsm ! j)) [0..<3]"
    by (metis (no_types, lifting) comp_apply list.map_comp list.map_cong)
  then have "those (map ctree_iter_setup (ls_ci lsm)) = Some (map ci [0..<3])"
    using those_map [of "[0..<3]" "\<lambda>j. ctree_iter_setup (ls_ci lsm ! j)" ci] ci by simp
  then obtain it where it: "lsm_iter_setup lsm = Some it" "li_from it = 0" "li_to it = 4" "li_key it = None" "li_val it = None"
    "li_iti it = map ci [0..<3]" "li_it0 it = mtree_iter_setup (ls_c0 lsm)" "li_it1 it = mtree_iter_setup (ls_c1 lsm)"
    "li_keyi it = replicate 5 None" "li_vali it = replicate 5 None"
    by (auto simp: lsm_iter_setup_def MAX_DISK_TREES_def)
  let ?it = "it\<lparr>li_from := a, li_to := b\<rparr>"
  have "lsm_src_ready (stored d) U lim h lsm ?it i (src i)" if i: "i \<le> 4" for i
  proof (cases "i < 2")
    case True
    then have "i = 0 \<or> i = 1" by auto
    then show ?thesis using r it by (auto simp: lsm_rep_def lsm_src_ready_def lsm_mem_tree_def lsm_mem_iter_def mtree_iter_setup_def)
  next
    case False
    then obtain j where j: "i = Suc (Suc j)" by (metis add_2_eq_Suc le_add_diff_inverse not_less)
    then have "j < 3" using i by simp
    then show ?thesis using ci it(6) j by (auto simp: lsm_src_ready_def lsm_disk_iter_def)
  qed
  moreover have "\<forall>i \<le> 4. \<forall>e \<in> set (src i). e \<noteq> ([], [])" using lsm_rep_nonempty [OF r] by blast
  moreover have "key_order (ls_cmp lsm)" using r by (simp add: lsm_rep_def)
  moreover have "\<forall>i \<in> lsm_span ?it. i \<le> 4" using b by (simp add: lsm_span_def)
  ultimately have "lsm_ready (stored d) U lim h lsm src ?it"
    unfolding lsm_ready_def using b it(9,10) lsm_rep_sorted [OF r] by (intro conjI ballI) (simp_all add: lsm_shape_def, blast)
  then show ?thesis using it r by (auto simp: serves_def lsm_rep_def)
qed

lemma lsm_rep_iter:
  assumes "lsm_rep good stored lim U h d lsm src" and "lsm_iter_setup lsm = Some it"
  shows "serves good stored (stored d) d" and "lsm_ready (stored d) U lim h lsm src it" and "li_key it = None" and "li_val it = None"
    and "lsm_content lsm src it = lsm_all (ls_cmp lsm) src"
proof -
  from lsm_rep_setup [OF assms(1), of 4 0] assms(2) have
    it: "li_from it = 0" "li_to it = 4" "li_key it = None" "li_val it = None" "serves good stored (stored d) d"
      "lsm_ready (stored d) U lim h lsm src (it\<lparr>li_from := 0, li_to := 4\<rparr>)" by auto
  moreover have "it\<lparr>li_from := 0, li_to := 4\<rparr> = it" using it(1,2) by (cases it) simp
  ultimately show "serves good stored (stored d) d" "lsm_ready (stored d) U lim h lsm src it" "li_key it = None" "li_val it = None"
    by auto
  have "[0..<Suc 4] = [0..<MAX_DISK_TREES + 2]" by (simp add: MAX_DISK_TREES_def)
  then show "lsm_content lsm src it = lsm_all (ls_cmp lsm) src"
    using it(1,2) by (simp add: lsm_content_def lsm_lists_def lsm_all_def del: upt_Suc)
qed

text \<open>The tree of the witnesses: two entries in memory that hide and follow those on the disk.\<close>

definition demo_lsm :: "(vfile, nat) lsm" where
  "demo_lsm = \<lparr>ls_io = test_io, ls_alloc = volume_alloc, ls_cmp = test_cmp, ls_c0 = demo_mtree, ls_c1 = mtree_setup test_cmp,
     ls_ci = [demo_ctree, ctree_setup test_io test_cmp, ctree_setup test_io test_cmp]\<rparr>"

definition demo_src :: "nat \<Rightarrow> kv list" where
  "demo_src i = (if i = 0 then entries demo_tree else if i = 2 then demo_list else [])"

lemma demo_lsm_sel [simp]: "ls_cmp demo_lsm = test_cmp" "ls_io demo_lsm = test_io" "ls_alloc demo_lsm = volume_alloc"
  by (simp_all add: demo_lsm_def)

lemma tree_on_empty: "page_device io good stored lim \<Longrightarrow> key_order cmp \<Longrightarrow> good d \<Longrightarrow> tree_on good stored lim U d (ctree_setup io cmp) []"
  by (simp add: tree_on_def ctree_setup_def ctree_on_def)

lemma num_key_nonempty [simp]: "[] \<noteq> num_key n" "num_key n \<noteq> []"
  by (metis list.size(3) num_key_simps(1) zero_neq_numeral)+

lemma lsm_rep_c0:
  assumes "page_device io good stored lim" and "key_order cmp" and "good d" and "tree_on good stored lim U d t xs"
    and "tr_io t = io" and "tr_cmp t = cmp" and "mtree_inv h c0 t0" and "mt_cmp c0 = cmp"
    and "\<forall>e \<in> set xs \<union> set (entries t0). e \<noteq> ([], [])"
  shows "lsm_rep good stored lim U h d \<lparr>ls_io = io, ls_alloc = al, ls_cmp = cmp, ls_c0 = c0, ls_c1 = mtree_setup cmp,
     ls_ci = [t, ctree_setup io cmp, ctree_setup io cmp]\<rparr> (\<lambda>i. if i = 0 then entries t0 else if i = 2 then xs else [])"
proof -
  note e = tree_on_empty [OF assms(1-3), of U]
  let ?src = "\<lambda>i. if i = 0 then entries t0 else if i = 2 then xs else []"
  let ?ci = "[t, ctree_setup io cmp, ctree_setup io cmp]"
  have "\<forall>j < MAX_DISK_TREES. tr_io (?ci ! j) = io \<and> tr_cmp (?ci ! j) = cmp \<and> tree_on good stored lim U d (?ci ! j) (?src (j + 2))"
    using e assms(4-6) by (simp add: MAX_DISK_TREES_def eval_nat_numeral All_less_Suc2) (simp add: ctree_setup_def)
  moreover have "mtree_inv h (mtree_setup cmp) Leaf" by (rule mtree_inv_setup)
  moreover have "\<forall>i < MAX_DISK_TREES + 2. \<forall>e \<in> set (?src i). e \<noteq> ([], [])" using assms(9) by auto
  ultimately show ?thesis
    using assms(1-3,7,8) unfolding lsm_rep_def
    by (intro conjI exI [of _ t0] exI [of _ Leaf]) (simp_all add: mtree_setup_def MAX_DISK_TREES_def)
qed

lemma demo_lsm_rep: "lsm_rep test_good test_stored test_limit {..<3} demo_mheap demo_disk demo_lsm demo_src"
proof -
  have g: "test_good demo_disk" by (simp add: test_good_def demo_disk_def)
  have "\<forall>e \<in> set demo_list \<union> set (entries demo_tree). e \<noteq> ([], [])"
    by (auto simp: entries_demo demo_list_def demo_leaf1_def demo_leaf2_def)
  from lsm_rep_c0 [OF test_device.page_device_axioms test_keys.key_order_axioms g demo_tree_on _ _ demo_mtree_inv _ this, of volume_alloc]
  show ?thesis by (simp add: demo_lsm_def demo_src_def [abs_def] demo_ctree_def)
qed

lemma demo_all: "lsm_all test_cmp demo_src = [(num_key 1, [10]), (num_key 3, []), (demo_key 5, [1]), (demo_key 9, [2])]"
  by (simp add: lsm_all_def MAX_DISK_TREES_def demo_src_def entries_demo demo_list_def demo_leaf1_def demo_leaf2_def overlay_def
      upt_rec test_cmp_def)

lemma demo_lsm_setup: "\<exists>it. lsm_iter_setup demo_lsm = Some it"
  using lsm_rep_setup [OF demo_lsm_rep, of 4 0] by auto

section \<open>Walking\<close>

text \<open>C7: the iterator of an LSM tree is an iterator of the overlay of its five trees. From
  \<open>lsm_begin\<close>, \<open>lsm_next\<close> meets every key once, in order, with the value of the newest tree
  that has it; from \<open>lsm_end\<close> of a fresh iterator, \<open>lsm_prev\<close> meets them in reverse order;
  from \<open>lsm_lower_bound\<close> it meets the keys that are not below the given one. Neither needs
  memory for more than one entry per tree.\<close>

theorem lsm_walk_complete:
  assumes "lsm_rep good stored lim U h d lsm src" and "lsm_iter_setup lsm = Some it"
    and "length (lsm_all (ls_cmp lsm) src) < n"
  shows "\<exists>b d1 e d2 l d3. lsm_begin h lsm it d [] = Some (Inr (), b, d1, []) \<and> lsm_end h lsm it d [] = Some (Inr (), e, d2, []) \<and>
    lsm_lower_bound h lsm key it d [] = Some (Inr (), l, d3, []) \<and>
    cursor_scan lkey lval lnext n (h, lsm, b, d1) = Some (lsm_all (ls_cmp lsm) src) \<and>
    cursor_scan_back lkey lval lprev n (h, lsm, e, d2) = Some (rev (lsm_all (ls_cmp lsm) src)) \<and>
    cursor_scan lkey lval lnext n (h, lsm, l, d3) =
      Some (filter (\<lambda>x. 0 \<le> ls_cmp lsm (fst x) key) (lsm_all (ls_cmp lsm) src))"
proof -
  let ?M = "lsm_all (ls_cmp lsm) src"
  have pd: "page_device (ls_io lsm) good stored lim" and ko: "key_order (ls_cmp lsm)" using assms(1) by (auto simp: lsm_rep_def)
  note it = lsm_rep_iter [OF assms(1,2)]
  have s: "kv_sorted (ls_cmp lsm) ?M" using content_sorted [OF it(2)] it(5) by simp
  from page_device.run_begin [OF pd it(2,1) refl] obtain b d1 where
    b: "lsm_begin h lsm it d [] = Some (Inr (), b, d1, [])" "lpos (h, lsm, b, d1) ?M 0"
    using lposI [OF pd] it(5) by metis
  from page_device.run_lower [OF pd it(2,1) refl, of key] obtain l d3 where
    l: "lsm_lower_bound h lsm key it d [] = Some (Inr (), l, d3, [])" "lpos (h, lsm, l, d3) ?M (kv_lower (ls_cmp lsm) key ?M)"
    using lposI [OF pd] it(5) by metis
  from page_device.run_end [OF pd it(2,1) refl] obtain e d2 where
    e: "lsm_end h lsm it d [] = Some (Inr (), e, d2, [])" "serves good stored (stored d) d2" "same_range it e" "li_key e = None"
      "li_val e = None" "lsm_ready (stored d) U lim h lsm src e"
      "\<forall>i \<in> lsm_span it. lsm_src_item (stored d) U lim h lsm e i (src i) (length (src i))"
    unfolding it(3,4) by blast
  note sr = same_range_content [OF e(3), of lsm src]
  have "lsm_pos (stored d) U lim h lsm src e (length ?M)"
    unfolding lsm_pos_def using e(4-7) sr it(5) by (auto simp: item_at_def lsm_cut_def)
  from lposI [OF pd e(2) this e(3)] it(5) have e2: "lpos (h, lsm, e, d2) ?M (length ?M)" by simp
  have "cursor_scan lkey lval lnext n (h, lsm, b, d1) = Some (drop 0 ?M)"
    by (rule lsm_cursor.scan_at [OF b(2)]) (use assms(3) in simp)
  moreover have "cursor_scan_back lkey lval lprev n (h, lsm, e, d2) = Some (rev (take (length ?M) ?M))"
    by (rule lsm_cursor.scan_back_at [OF e2 assms(3)])
  moreover have "cursor_scan lkey lval lnext n (h, lsm, l, d3) = Some (drop (kv_lower (ls_cmp lsm) key ?M) ?M)"
    by (rule lsm_cursor.scan_at [OF l(2)]) (use assms(3) in simp)
  ultimately show ?thesis using b(1) e(1) l(1) key_order.filter_kv_lower [OF ko s, of key] by simp
qed

theorem lsm_walk_complete_witness:
  "\<exists>it b d1. lsm_iter_setup demo_lsm = Some it \<and> lsm_begin demo_mheap demo_lsm it demo_disk [] = Some (Inr (), b, d1, []) \<and>
    cursor_scan lkey lval lnext 5 (demo_mheap, demo_lsm, b, d1) =
      Some [(num_key 1, [10]), (num_key 3, []), (demo_key 5, [1]), (demo_key 9, [2])]"
proof -
  obtain it where it: "lsm_iter_setup demo_lsm = Some it" using demo_lsm_setup by blast
  from lsm_walk_complete [OF demo_lsm_rep it, of 5 "[]"] it show ?thesis by (auto simp: demo_all)
qed

section \<open>Lookup\<close>

lemma lsm_lookup_at:
  assumes "lsm_rep good stored lim U h d lsm src" and "lsm_iter_setup lsm = Some it"
  shows "\<exists>it' d'. lsm_lookup h lsm key it d [] = Some (Inr (kv_get (ls_cmp lsm) key (lsm_all (ls_cmp lsm) src) \<noteq> None), it', d', []) \<and>
    (\<forall>v. kv_get (ls_cmp lsm) key (lsm_all (ls_cmp lsm) src) = Some v \<longrightarrow> li_val it' = Some v \<and>
       (\<exists>k. li_key it' = Some k \<and> ls_cmp lsm k key = 0))"
proof -
  let ?M = "lsm_all (ls_cmp lsm) src" and ?i = "kv_lower (ls_cmp lsm) key (lsm_all (ls_cmp lsm) src)"
  have pd: "page_device (ls_io lsm) good stored lim" and ko: "key_order (ls_cmp lsm)" using assms(1) by (auto simp: lsm_rep_def)
  note it = lsm_rep_iter [OF assms(1,2)]
  have s: "kv_sorted (ls_cmp lsm) ?M" using content_sorted [OF it(2)] it(5) by simp
  from page_device.run_lower [OF pd it(2,1) refl, of key] obtain l d' where
    l: "lsm_lower_bound h lsm key it d [] = Some (Inr (), l, d', [])" "same_range it l" "lsm_pos (stored d) U lim h lsm src l ?i"
    unfolding it(5) by blast
  have "(li_key l, li_val l) = item_at ?M ?i"
    using l(3) same_range_content [OF l(2), of lsm src] it(5) by (simp add: lsm_pos_def)
  then show ?thesis unfolding key_order.kv_get_lower [OF ko s, of key]
    using l(1) by (auto simp: lsm_lookup_def item_at_def Let_def split: if_splits)
qed

text \<open>C8: \<open>lsm_lookup\<close> returns 1 exactly for the keys that some of the five trees has, and
  the iterator's current value is then the one of the newest of these trees.\<close>

theorem lsm_lookup_correct:
  assumes "lsm_rep good stored lim U h d lsm src" and "lsm_iter_setup lsm = Some it"
  shows "\<exists>it' d'. lsm_lookup h lsm key it d [] =
      Some (Inr (kv_first (ls_cmp lsm) key (map src [0..<MAX_DISK_TREES + 2]) \<noteq> None), it', d', []) \<and>
    (\<forall>v. kv_first (ls_cmp lsm) key (map src [0..<MAX_DISK_TREES + 2]) = Some v \<longrightarrow> li_val it' = Some v \<and>
       (\<exists>k. li_key it' = Some k \<and> ls_cmp lsm k key = 0))"
proof -
  have ko: "key_order (ls_cmp lsm)" using assms(1) by (simp add: lsm_rep_def)
  have g: "kv_first (ls_cmp lsm) key (map src [0..<MAX_DISK_TREES + 2]) = kv_get (ls_cmp lsm) key (lsm_all (ls_cmp lsm) src)"
    unfolding lsm_all_def by (rule key_order.kv_get_overlay [OF ko lsm_lists_sorted [OF assms(1)], symmetric])
  show ?thesis unfolding g by (rule lsm_lookup_at [OF assms])
qed

theorem lsm_lookup_correct_witness:
  "\<exists>it it' d'. lsm_iter_setup demo_lsm = Some it \<and>
    lsm_lookup demo_mheap demo_lsm (num_key 5) it demo_disk [] = Some (Inr True, it', d', []) \<and> li_val it' = Some [1]"
proof -
  obtain it where it: "lsm_iter_setup demo_lsm = Some it" using demo_lsm_setup by blast
  have "kv_first test_cmp (num_key 5) (map demo_src [0..<MAX_DISK_TREES + 2]) = Some [1]"
    by (simp add: MAX_DISK_TREES_def demo_src_def upt_rec entries_demo kv_get_def test_cmp_def)
  with lsm_lookup_correct [OF demo_lsm_rep it, of "num_key 5"] it show ?thesis by auto
qed

section \<open>Insertion\<close>

lemma tree_at_same: "tree_at h par t \<Longrightarrow> \<forall>p \<in> set (addrs t). h' p = h p \<Longrightarrow> tree_at h' par t"
  by (induction t arbitrary: par) auto

lemma mtree_inv_same: "mtree_inv h m t \<Longrightarrow> \<forall>p \<in> set (addrs t). h' p = h p \<Longrightarrow> mtree_inv h' m t"
  using tree_at_same by (auto simp: mtree_inv_def)

lemma lsm_all_put:
  assumes "lsm_rep good stored lim U h d lsm src"
  shows "lsm_all (ls_cmp lsm) (src(0 := kv_put (ls_cmp lsm) key val (src 0))) = kv_put (ls_cmp lsm) key val (lsm_all (ls_cmp lsm) src)"
proof -
  have u: "[0..<MAX_DISK_TREES + 2] = 0 # [1..<MAX_DISK_TREES + 2]" by (simp add: upt_conv_Cons)
  have ko: "key_order (ls_cmp lsm)" using assms by (simp add: lsm_rep_def)
  have "map (src(0 := v)) [1..<MAX_DISK_TREES + 2] = map src [1..<MAX_DISK_TREES + 2]" for v by simp
  then show ?thesis
    using key_order.overlay_put [OF ko, of "src 0" "map src [1..<MAX_DISK_TREES + 2]" key val] lsm_lists_sorted [OF assms]
    unfolding lsm_all_def u by simp
qed

text \<open>C9: \<open>lsm_add\<close> refines the insertion into a sorted list. The entry goes into the newest
  tree, and the content of the whole tree becomes the old content with the entry inserted, or
  replaced if any of the five trees had the key. If \<open>malloc\<close> fails nothing changes.\<close>

theorem lsm_add_refines:
  assumes r: "lsm_rep good stored lim U h d lsm src"
    and new: "new = 0 \<or> aligned new \<and> h new = None" and ne: "(key, val) \<noteq> ([], [])"
  shows "if new = 0 then lsm_add key val (new, junk) lsm h = Some (Inl ENOMEM, lsm, h)
    else \<exists>lsm' h' src'. lsm_add key val (new, junk) lsm h = Some (Inr (), lsm', h') \<and>
      lsm_rep good stored lim U h' d lsm' src' \<and>
      lsm_all (ls_cmp lsm') src' = kv_put (ls_cmp lsm) key val (lsm_all (ls_cmp lsm) src)"
proof (cases "new = 0")
  case True
  then show ?thesis by (cases lsm) (simp add: lsm_add_def mtree_add_def mtree_node_create_def)
next
  case False
  let ?src = "src(0 := kv_put (ls_cmp lsm) key val (src 0))"
  obtain t0 t1 where t: "mtree_inv h (ls_c0 lsm) t0" "mtree_inv h (ls_c1 lsm) t1" "entries t0 = src 0" "entries t1 = src 1"
      "set (addrs t0) \<inter> set (addrs t1) = {}" "key_order (mt_cmp (ls_c0 lsm))" "mt_cmp (ls_c0 lsm) = ls_cmp lsm"
    using r by (auto simp: lsm_rep_def)
  have n: "aligned new" "h new = None" using new False by auto
  from mtree_add_at [OF t(6,1) False n, of key val junk] obtain h' root t0' where
    a: "mtree_add (ls_c0 lsm) key val (new, junk) h = Some (Inr (), (ls_c0 lsm)\<lparr>mt_root := root,
       mt_bytes := (mt_bytes (ls_c0 lsm) + length key + length val) mod 2 ^ 64\<rparr>, h')" and
    root: "root = rootp t0'" and i: "inserted (mt_cmp (ls_c0 lsm)) new (key, val) t0 h h' t0'" by blast
  let ?m = "(ls_c0 lsm)\<lparr>mt_root := root, mt_bytes := (mt_bytes (ls_c0 lsm) + length key + length val) mod 2 ^ 64\<rparr>"
  have m: "mtree_inv h' ?m t0'" using mtree_inv_inserted [OF t(6,1) i] root by simp
  have "new \<notin> set (addrs t1)" using t(2) n(2) tree_at_Some [of h 0 t1 new] by (auto simp: mtree_inv_def)
  then have 1: "\<forall>p \<in> set (addrs t1). h' p = h p" and 2: "set (addrs t0') \<inter> set (addrs t1) = {}"
    using i t(5) by (auto simp: inserted_def)
  have e: "entries t0' = ?src 0" using i t(3,7) by (simp add: inserted_def)
  have nes: "\<forall>i < MAX_DISK_TREES + 2. \<forall>e \<in> set (?src i). e \<noteq> ([], [])"
  proof -
    have old: "\<forall>i < MAX_DISK_TREES + 2. \<forall>e \<in> set (src i). e \<noteq> ([], [])" using r unfolding lsm_rep_def by blast
    have "\<forall>e \<in> set (src 0). e \<noteq> ([], [])" by (rule lsm_rep_nonempty [OF r]) simp
    then have put: "\<forall>e \<in> set (kv_put (ls_cmp lsm) key val (src 0)). e \<noteq> ([], [])"
      using set_kv_put [of "ls_cmp lsm" key val "src 0"] ne by blast
    show ?thesis
    proof (intro allI impI)
      fix i assume "i < MAX_DISK_TREES + 2"
      with old have "\<forall>e \<in> set (src i). e \<noteq> ([], [])" by blast
      with put show "\<forall>e \<in> set (?src i). e \<noteq> ([], [])" by (simp only: fun_upd_apply split: if_split) blast
    qed
  qed
  have "lsm_rep good stored lim U h' d (lsm\<lparr>ls_c0 := ?m\<rparr>) ?src"
    unfolding lsm_rep_def using r m mtree_inv_same [OF t(2) 1] 2 e t(4) nes
    by (intro conjI exI [of _ t0'] exI [of _ t1]) (simp_all add: lsm_rep_def)
  moreover have "lsm_add key val (new, junk) lsm h = Some (Inr (), lsm\<lparr>ls_c0 := ?m\<rparr>, h')" using a by (simp add: lsm_add_def)
  moreover have "lsm_all (ls_cmp (lsm\<lparr>ls_c0 := ?m\<rparr>)) ?src = kv_put (ls_cmp lsm) key val (lsm_all (ls_cmp lsm) src)"
    using lsm_all_put [OF r] by simp
  ultimately show ?thesis using False by (simp only: if_False) blast
qed

theorem lsm_add_refines_witness:
  "\<exists>lsm' h' src'. lsm_add (num_key 3) [9] (48, mk_node 1 2 3 Black ([], [])) demo_lsm demo_mheap = Some (Inr (), lsm', h') \<and>
    lsm_rep test_good test_stored test_limit {..<3} h' demo_disk lsm' src' \<and>
    lsm_all (ls_cmp lsm') src' = [(num_key 1, [10]), (num_key 3, [9]), (demo_key 5, [1]), (demo_key 9, [2])]"
proof -
  have "aligned 48 \<and> demo_mheap 48 = None" by (simp add: aligned_even demo_mheap_def)
  then show ?thesis
    using lsm_add_refines [OF demo_lsm_rep, of 48 "num_key 3" "[9]" "mk_node 1 2 3 Black ([], [])"]
    by (simp add: demo_all test_cmp_def)
qed

section \<open>The end\<close>

text \<open>\<open>lsm_end\<close> moves the iterators of all trees behind their last entries but leaves the
  current entry of the LSM iterator as it was. A following \<open>lsm_prev\<close> goes back from that
  stale entry: on an iterator that is on entry \<open>j\<close> it does not give the last entry but entry
  \<open>j - 1\<close>, and it fails if \<open>j\<close> is the first one.\<close>

theorem lsm_end_keeps_current:
  assumes "lsm_rep good stored lim U h d lsm src" and "lsm_iter_setup lsm = Some it"
    and "lsm_lookup h lsm key it d [] = Some (Inr True, it1, d1, [])"
  shows "\<exists>it2 d2 it3 d3. lsm_end h lsm it1 d1 [] = Some (Inr (), it2, d2, []) \<and>
    (let M = lsm_all (ls_cmp lsm) src; j = kv_lower (ls_cmp lsm) key M in
     lsm_prev h lsm it2 d2 [] = Some (if j = 0 then Inl ENOENT else Inr (), it3, d3, []) \<and>
     (0 < j \<longrightarrow> li_key it3 = Some (fst (M ! (j - 1)))))"
proof -
  let ?M = "lsm_all (ls_cmp lsm) src" and ?j = "kv_lower (ls_cmp lsm) key (lsm_all (ls_cmp lsm) src)"
  have pd: "page_device (ls_io lsm) good stored lim" using assms(1) by (auto simp: lsm_rep_def)
  note it = lsm_rep_iter [OF assms(1,2)]
  from page_device.run_lower [OF pd it(2,1) refl, of key] obtain l d' where
    l: "lsm_lower_bound h lsm key it d [] = Some (Inr (), l, d', [])" "same_range it l" "lsm_pos (stored d) U lim h lsm src l ?j"
      "serves good stored (stored d) d'" unfolding it(5) by blast
  have eq: "l = it1" "d' = d1" using assms(3) l(1) by (auto simp: lsm_lookup_def)
  have r1: "lsm_ready (stored d) U lim h lsm src it1" using l(3) eq by (simp add: lsm_pos_def)
  have M: "lsm_content lsm src it1 = ?M" using same_range_content [OF l(2), of lsm src] it(5) eq by simp
  from page_device.run_end [OF pd r1 l(4) [unfolded eq] refl] obtain e d2 where
    e: "lsm_end h lsm it1 d1 [] = Some (Inr (), e, d2, [])" "serves good stored (stored d) d2" "same_range it1 e"
      "li_key e = li_key it1" "li_val e = li_val it1" "lsm_ready (stored d) U lim h lsm src e"
      "\<forall>i \<in> lsm_span it1. lsm_src_item (stored d) U lim h lsm e i (src i) (length (src i))" by blast
  note sr = same_range_content [OF e(3), of lsm src]
  have at: "\<forall>i \<in> lsm_span e. \<exists>p. lsm_src_item (stored d) U lim h lsm e i (src i) p \<and> lsm_cut (ls_cmp lsm) (li_key e) (src i) - 1 \<le> p"
  proof
    fix i assume "i \<in> lsm_span e"
    then have "lsm_src_item (stored d) U lim h lsm e i (src i) (length (src i))" using e(7) sr by simp
    moreover have "lsm_cut (ls_cmp lsm) (li_key e) (src i) \<le> length (src i)" by (simp add: lsm_cut_def split: option.split)
    then have "lsm_cut (ls_cmp lsm) (li_key e) (src i) - 1 \<le> length (src i)" by simp
    ultimately show "\<exists>p. lsm_src_item (stored d) U lim h lsm e i (src i) p \<and> lsm_cut (ls_cmp lsm) (li_key e) (src i) - 1 \<le> p" by blast
  qed
  have cur: "(li_key e, li_val e) = item_at (lsm_content lsm src e) ?j" and le: "?j \<le> length (lsm_content lsm src e)"
    using l(3) e(4,5) sr eq by (simp_all add: lsm_pos_def)
  from page_device.run_prev_from [OF pd e(6,2) refl le cur at] obtain it3 d3 where
    p: "lsm_prev h lsm e d2 [] = Some (if ?j = 0 then Inl ENOENT else Inr (), it3, d3, [])" "same_range e it3"
      "lsm_pos (stored d) U lim h lsm src it3 (?j - 1)" by blast
  have "(li_key it3, li_val it3) = item_at ?M (?j - 1)"
    using p(3) same_range_content [OF p(2), of lsm src] sr M by (simp add: lsm_pos_def)
  moreover have "0 < ?j \<Longrightarrow> ?j - 1 < length ?M" using kv_lower_le [of "ls_cmp lsm" key ?M] by linarith
  ultimately show ?thesis using e(1) p(1) by (auto simp: item_at_def Let_def)
qed

theorem lsm_end_keeps_current_witness:
  "\<exists>it it1 d1 it2 d2 it3 d3. lsm_iter_setup demo_lsm = Some it \<and>
    lsm_lookup demo_mheap demo_lsm (num_key 3) it demo_disk [] = Some (Inr True, it1, d1, []) \<and>
    lsm_end demo_mheap demo_lsm it1 d1 [] = Some (Inr (), it2, d2, []) \<and>
    lsm_prev demo_mheap demo_lsm it2 d2 [] = Some (Inr (), it3, d3, []) \<and> li_key it3 = Some (num_key 1)"
proof -
  obtain it where it: "lsm_iter_setup demo_lsm = Some it" using demo_lsm_setup by blast
  have j: "kv_lower test_cmp (num_key 3) (lsm_all test_cmp demo_src) = 1" by (simp add: demo_all test_cmp_def)
  obtain it1 d1 where l: "lsm_lookup demo_mheap demo_lsm (num_key 3) it demo_disk [] = Some (Inr True, it1, d1, [])"
    using lsm_lookup_at [OF demo_lsm_rep it, of "num_key 3"] by (auto simp: demo_all kv_get_def test_cmp_def)
  from lsm_end_keeps_current [OF demo_lsm_rep it l] it l j show ?thesis by (auto simp: demo_all Let_def)
qed

section \<open>The descriptors on the disk\<close>

text \<open>\<open>lsm_dump\<close> and \<open>lsm_parse\<close> carry the three descriptors of disk trees through the
  super block without loss, as long as height and pages fit their 32 bits.\<close>

theorem lsm_parse_dump:
  assumes "length (ls_ci lsm) = MAX_DISK_TREES" and "\<forall>t \<in> set (ls_ci lsm). tr_height t < 2 ^ 32 \<and> tr_pages t < 2 ^ 32"
    and "\<forall>t \<in> set (ls_ci lsm). tr_io t = ls_io lsm \<and> tr_cmp t = ls_cmp lsm"
  shows "ls_ci (lsm_parse (lsm_dump lsm) (lsm_setup (ls_io lsm) (ls_alloc lsm) (ls_cmp lsm))) = ls_ci lsm"
proof -
  obtain a b c where ci: "ls_ci lsm = [a, b, c]"
    using assms(1) by (auto simp: MAX_DISK_TREES_def eval_nat_numeral length_Suc_conv)
  have "ctree_parse (ctree_dump t) (ctree_setup (ls_io lsm) (ls_cmp lsm)) = t" if "t \<in> set (ls_ci lsm)" for t
    using assms(2,3) that by (cases t) (auto simp: ctree_parse_def ctree_dump_def ctree_setup_def unat_of_nat)
  then show ?thesis using ci by (simp add: lsm_parse_def lsm_dump_def lsm_setup_def MAX_DISK_TREES_def eval_nat_numeral)
qed

theorem lsm_parse_dump_witness:
  "ls_ci (lsm_parse (lsm_dump demo_lsm) (lsm_setup test_io volume_alloc test_cmp)) = ls_ci demo_lsm"
proof -
  have "length (ls_ci demo_lsm) = MAX_DISK_TREES" by (simp add: demo_lsm_def MAX_DISK_TREES_def)
  moreover have "\<forall>t \<in> set (ls_ci demo_lsm). tr_height t < 2 ^ 32 \<and> tr_pages t < 2 ^ 32"
    by (simp add: demo_lsm_def demo_ctree_def ctree_setup_def)
  moreover have "\<forall>t \<in> set (ls_ci demo_lsm). tr_io t = test_io \<and> tr_cmp t = test_cmp"
    by (simp add: demo_lsm_def) (simp add: demo_ctree_def ctree_setup_def)
  ultimately show ?thesis using lsm_parse_dump [of demo_lsm] by simp
qed

end
