(* ===== verification/LsmMerge.thy ===== *)
theory LsmMerge
  imports LsmProps
begin

text \<open>
  The merge of two neighbouring trees of an LSM tree into the older of them
  (\<open>lsm_merge\<close> in \<open>lib/lsm.c\<close>). The iterator and the builder of a merge policy are set up at
  the start of every merge and released at its end, so they are passed beside the policy.
\<close>

section \<open>Policies (struct lsm_merge_policy)\<close>

record lsm_merge_policy =
  lp_drop_deleted :: bool
  lp_tree :: nat
  lp_deleted :: "lsm_key \<Rightarrow> lsm_val \<Rightarrow> bool"

text \<open>The type of the function pointer \<open>build\<close>, with all it can reach through the policy.\<close>

type_synonym ('d, 'a) lsm_build =
  "mheap \<Rightarrow> ('d, 'a) lsm \<Rightarrow> lsm_merge_policy \<Rightarrow> 'd lsm_iter \<Rightarrow> ctree_builder \<Rightarrow> ('d, 'a) env \<Rightarrow>
     ((errno + unit) \<times> 'd lsm_iter \<times> ctree_builder \<times> ('d, 'a) env) option"

definition lsm_no_delete :: "lsm_key \<Rightarrow> lsm_val \<Rightarrow> bool" where
  "lsm_no_delete key val = False"

partial_function (option) lsm_build_default :: 
    "mheap \<Rightarrow> ('d, 'a) lsm \<Rightarrow> lsm_merge_policy \<Rightarrow> 'd lsm_iter \<Rightarrow> ctree_builder \<Rightarrow> ('d, 'a) env \<Rightarrow>
     ((errno + unit) \<times> 'd lsm_iter \<times> ctree_builder \<times> ('d, 'a) env) option" where
  "lsm_build_default h lsm policy it b env =
     (if \<not> lsm_has_item it then Some (Inr (), it, b, env)
      else do {
        key \<leftarrow> li_key it;
        let val = (case li_val it of None \<Rightarrow> [] | Some v \<Rightarrow> v);
        (rc, b, env) \<leftarrow>
          (if \<not> lp_drop_deleted policy \<or> \<not> lp_deleted policy key val
           then ctree_builder_append (ls_io lsm) (ls_alloc lsm) key val b env
           else Some (Inr (), b, env));
        (case rc of
           Inl e \<Rightarrow> Some (Inl e, it, b, env)
         | Inr _ \<Rightarrow> do {
             (rc, it, d, m) \<leftarrow> lsm_next h lsm it (dev env) (hm env);
             let env = env\<lparr>dev := d, hm := m\<rparr>;
             (if rc = Inr () \<or> rc = Inl ENOENT then lsm_build_default h lsm policy it b env
              else Some (rc, it, b, env)) }) })"

text \<open>A new policy; its \<open>build\<close> is \<open>lsm_build_default\<close>.\<close>

definition lsm_merge_policy_setup :: lsm_merge_policy where
  "lsm_merge_policy_setup = \<lparr>lp_drop_deleted = False, lp_tree = 0, lp_deleted = lsm_no_delete\<rparr>"

section \<open>Merging\<close>

definition lsm_call_build ::
    "('d, 'a) lsm_build \<Rightarrow> mheap \<Rightarrow> ('d, 'a) lsm \<Rightarrow> lsm_merge_policy \<Rightarrow> 'd lsm_iter \<Rightarrow> ctree_builder \<Rightarrow> ('d, 'a) env \<Rightarrow>
     ((errno + unit) \<times> 'd lsm_iter \<times> ctree_builder \<times> ('d, 'a) env) option" where
  "lsm_call_build build h lsm policy it b env = do {
     (rc, it, d, m) \<leftarrow> lsm_begin h lsm it (dev env) (hm env);
     let env = env\<lparr>dev := d, hm := m\<rparr>;
     (case rc of
        Inl e \<Rightarrow> Some (Inl e, it, b, env)
      | Inr _ \<Rightarrow> do {
          (rc, it, b, env) \<leftarrow> build h lsm policy it b env;
          (case rc of
             Inl e \<Rightarrow> Some (Inl e, it, b, env)
           | Inr _ \<Rightarrow> do {
               (rc, b, env) \<leftarrow> ctree_builder_finish (ls_io lsm) (ls_alloc lsm) b env;
               Some (rc, it, b, env) }) }) }"

text \<open>Deletion marks are needed as long as an older tree is not empty.\<close>

definition lsm_drop_deleted :: "('d, 'a) lsm \<Rightarrow> lsm_merge_policy \<Rightarrow> bool" where
  "lsm_drop_deleted lsm policy =
     list_all (\<lambda>i. ctree_is_empty (ls_ci lsm ! (i - 2))) [lp_tree policy + 2..<MAX_DISK_TREES + 2]"

text \<open>The trees that have been merged are emptied.\<close>

fun lsm_clear :: "nat list \<Rightarrow> ('d, 'a) lsm \<Rightarrow> mheap \<Rightarrow> (('d, 'a) lsm \<times> mheap) option" where
  "lsm_clear [] lsm h = Some (lsm, h)"
| "lsm_clear (i # is) lsm h =
     (if i = 0 then None
      else if i = 1 then do {
        (c1, h) \<leftarrow> mtree_reset (ls_c1 lsm) h;
        lsm_clear is (lsm\<lparr>ls_c1 := c1\<rparr>) h
      } else lsm_clear is (lsm\<lparr>ls_ci := (ls_ci lsm)[i - 2 := ctree_reset None 0 0 (ls_ci lsm ! (i - 2))]\<rparr>) h)"

text \<open>\<open>__lsm_merge\<close>. Releasing the builder and the iterator frees their memory and clears them.
  \<open>ctree_reset\<close> always returns 0.\<close>

definition lsm_merge_run ::
    "('d, 'a) lsm_build \<Rightarrow> mheap \<Rightarrow> ('d, 'a) lsm \<Rightarrow> lsm_merge_policy \<Rightarrow> ('d, 'a) env \<Rightarrow>
     ((errno + unit) \<times> ('d, 'a) lsm \<times> mheap \<times> lsm_merge_policy \<times> ('d, 'a) env) option" where
  "lsm_merge_run build h lsm policy env = do {
     let from = lp_tree policy;
     let to = lp_tree policy + 1;
     let policy = policy\<lparr>lp_drop_deleted := lsm_drop_deleted lsm policy\<rparr>;
     let b = ctree_builder_setup;
     it \<leftarrow> lsm_iter_setup lsm;
     let it = it\<lparr>li_from := from, li_to := to\<rparr>;
     (rc, it, b, env) \<leftarrow> lsm_call_build build h lsm policy it b env;
     (case rc of
        Inl e \<Rightarrow> Some (Inl e, lsm, h, policy, ctree_builder_cancel (ls_alloc lsm) b env)
      | Inr _ \<Rightarrow>
          if to < 2 \<or> length (ls_ci lsm) \<le> to - 2 then None
          else do {
            let ci = ctree_reset (Some (cb_ptr b)) (cb_height b) (cb_pages b) (ls_ci lsm ! (to - 2));
            (lsm, h) \<leftarrow> lsm_clear (rev [from..<to]) (lsm\<lparr>ls_ci := (ls_ci lsm)[to - 2 := ci]\<rparr>) h;
            Some (Inr (), lsm, h, policy, env) }) }"

definition lsm_merge ::
    "('d, 'a) lsm_build \<Rightarrow> mheap \<Rightarrow> ('d, 'a) lsm \<Rightarrow> nat \<Rightarrow> lsm_merge_policy \<Rightarrow> ('d, 'a) env \<Rightarrow>
     ((errno + unit) \<times> ('d, 'a) lsm \<times> mheap \<times> lsm_merge_policy \<times> ('d, 'a) env) option" where
  "lsm_merge build h lsm tree policy env =
     (let policy = policy\<lparr>lp_tree := tree\<rparr> in
      if tree = 0 then
        if \<not> mtree_is_empty (ls_c1 lsm) then None
        else (let (c0, c1) = mtree_swap (ls_c0 lsm) (ls_c1 lsm) in
          lsm_merge_run build h (lsm\<lparr>ls_c0 := c0, ls_c1 := c1\<rparr>) (policy\<lparr>lp_tree := 1\<rparr>) env)
      else if length (ls_ci lsm) \<le> tree - 1 then None
      else if ctree_is_empty (ls_ci lsm ! (tree - 1)) then
        if tree = 1 then None
        else (let (r, l) = ctree_swap (ls_ci lsm ! (tree - 1)) (ls_ci lsm ! (tree - 2)) in
          Some (Inr (), lsm\<lparr>ls_ci := (ls_ci lsm)[tree - 1 := r, tree - 2 := l]\<rparr>, h, policy, env))
      else lsm_merge_run build h lsm policy env)"

end
