(* ===== verification/LsmMergeProps.thy ===== *)
theory LsmMergeProps
  imports LsmMerge
begin

text \<open>
  A merge reads the two trees through an iterator while the builder writes the new one to
  other pages. What it keeps: the iterator's position in the overlay of the two trees, and
  the entries that the builder has been given so far.
\<close>

section \<open>Reading while writing\<close>

text \<open>What the device holds on pages in use.\<close>

definition on_used :: "nat \<Rightarrow> ('d \<Rightarrow> nat \<Rightarrow> byte list \<Rightarrow> bool) \<Rightarrow> nat set \<Rightarrow> 'd \<Rightarrow> nat \<Rightarrow> byte list \<Rightarrow> bool" where
  "on_used ps stored U d off bs \<longleftrightarrow> stored d off bs \<and> (\<exists>n. length bs = n * ps \<and> extent off n \<subseteq> U)"

lemma keeps_on_used: "U \<subseteq> V \<Longrightarrow> keeps ps U (stored d) (on_used ps stored V d)"
  by (auto simp: keeps_def on_used_def)

lemma serves_on_used: "good d \<Longrightarrow> serves good stored (on_used ps stored U d) d"
  by (simp add: serves_def on_used_def)

lemma keeps_served: "serves good stored (on_used ps stored V d) d' \<Longrightarrow> keeps ps V (stored d) (stored d')"
  by (auto simp: keeps_def serves_def on_used_def)

lemma on_used_moved: "keeps ps V (stored d) (stored d') \<Longrightarrow> V \<subseteq> V' \<Longrightarrow> keeps ps U (on_used ps stored V d) (on_used ps stored V' d')"
  unfolding keeps_def on_used_def by blast

text \<open>The iterators only rely on the pages of their trees.\<close>

lemma cached_keeps: "page_ok io \<Longrightarrow> keeps (page_size io) U S S' \<Longrightarrow> cached io S U lim ns \<Longrightarrow> cached io S' U lim ns"
  unfolding cached_def using on_disk_keeps by (metis order_refl)

lemma citer_ready_keeps:
  assumes "page_ok (ci_io it)" and "keeps (page_size (ci_io it)) U S S'" and "citer_ready S U lim it xs"
  shows "citer_ready S' U lim it xs"
  using assms(3) cached_keeps [OF assms(1,2)] on_disk_keeps [OF _ assms(1,2) order_refl]
  unfolding citer_ready_def ctree_on_def by (auto split: if_splits) blast+

lemma citer_at_keeps:
  assumes "page_ok (ci_io it)" and "keeps (page_size (ci_io it)) U S S'" and "citer_at S U lim it xs i"
  shows "citer_at S' U lim it xs i"
  using assms(3) cached_keeps [OF assms(1,2)] on_disk_keeps [OF _ assms(1,2) order_refl]
  unfolding citer_at_def by (cases "ci_height it = 0") (auto simp del: on_disk.simps path_at.simps, blast+)

lemma disk_at_keeps:
  assumes "page_ok (ci_io it)" and "keeps (page_size (ci_io it)) U S S'" and "disk_at S U lim it xs i"
  shows "disk_at S' U lim it xs i"
  using assms(3) citer_ready_keeps [OF assms(1,2)] citer_at_keeps [OF assms(1,2)] by (auto simp: disk_at_def)

lemma lsm_src_keeps:
  assumes "page_ok (ls_io lsm)" and "keeps (page_size (ls_io lsm)) U S S'"
  shows "lsm_src_ready S U lim h lsm it i xs \<Longrightarrow> lsm_src_ready S' U lim h lsm it i xs"
    and "lsm_src_item S U lim h lsm it i xs p \<Longrightarrow> lsm_src_item S' U lim h lsm it i xs p"
proof -
  have c: "citer_ready S U lim ci xs \<Longrightarrow> citer_ready S' U lim ci xs" "disk_at S U lim ci xs p \<Longrightarrow> disk_at S' U lim ci xs p"
    if "ci_io ci = ls_io lsm" for ci
    using citer_ready_keeps [of ci U S S' lim xs] disk_at_keeps [of ci U S S' lim xs p] assms that by simp_all
  show "lsm_src_ready S U lim h lsm it i xs \<Longrightarrow> lsm_src_ready S' U lim h lsm it i xs"
    unfolding lsm_src_ready_def using c(1) by (simp split: if_split_asm) blast
  have "lsm_src_at S U lim h lsm it i xs p \<Longrightarrow> lsm_src_at S' U lim h lsm it i xs p"
    unfolding lsm_src_at_def using c(2) by (simp split: if_split_asm) blast
  then show "lsm_src_item S U lim h lsm it i xs p \<Longrightarrow> lsm_src_item S' U lim h lsm it i xs p"
    by (simp add: lsm_src_item_def)
qed

lemma lsm_ready_keeps:
  assumes "page_ok (ls_io lsm)" and "keeps (page_size (ls_io lsm)) U S S'" and r: "lsm_ready S U lim h lsm src it"
  shows "lsm_ready S' U lim h lsm src it"
proof -
  have "lsm_src_ready S' U lim h lsm it i (src i)" if "i \<in> lsm_span it" for i
    by (rule lsm_src_keeps(1) [OF assms(1,2)]) (use r that in \<open>simp add: lsm_ready_def\<close>)
  with r show ?thesis by (simp add: lsm_ready_def)
qed

lemma lsm_pos_keeps:
  assumes "page_ok (ls_io lsm)" and "keeps (page_size (ls_io lsm)) U S S'" and "lsm_pos S U lim h lsm src it j"
  shows "lsm_pos S' U lim h lsm src it j"
proof -
  note k = lsm_src_keeps [OF assms(1,2)]
  have "lsm_ready S' U lim h lsm src it" using lsm_ready_keeps [OF assms(1,2)] assms(3) by (simp add: lsm_pos_def)
  moreover have "\<exists>p. lsm_src_item S' U lim h lsm it i (src i) p \<and> lsm_cut (ls_cmp lsm) (li_key it) (src i) - 1 \<le> p \<and>
      p \<le> lsm_cut (ls_cmp lsm) (li_key it) (src i) \<and> (li_key it = None \<longrightarrow> p = length (src i))" if "i \<in> lsm_span it" for i
    using assms(3) that k(2) unfolding lsm_pos_def by blast
  ultimately show ?thesis using assms(3) unfolding lsm_pos_def by blast
qed

section \<open>What a builder holds\<close>

text \<open>The entries \<open>es\<close> have been appended; up to 100 of them are in the first leaf.\<close>

definition builder_holds ::
    "'d io \<Rightarrow> (nat \<Rightarrow> byte list \<Rightarrow> bool) \<Rightarrow> nat set \<Rightarrow> nat \<Rightarrow> ctree_builder \<Rightarrow> kv list \<Rightarrow> bool" where
  "builder_holds io S U lim b es \<longleftrightarrow> (\<exists>ls. levels_ok io S U lim b ls \<and> (ls = [] \<or> last ls \<noteq> []) \<and> hflat ls = es \<and>
     pending ls \<le> 3 * length es \<and> (length es \<le> 100 \<longrightarrow> length ls \<le> 1))"

lemma builder_holds_keeps:
  assumes "builder_holds io S U lim b es" and "page_ok io" and "keeps (page_size io) U S S'"
  shows "builder_holds io S' U lim b es"
  using assms(1) levels_ok_keeps [OF _ assms(2,3) order_refl] unfolding builder_holds_def by blast

lemma single_level_length:
  assumes "levels_ok io S U lim b ls" and "length ls \<le> 1"
  shows "length (concat ls) = length (hflat ls)"
proof (cases ls)
  case (Cons ts ls')
  then have ls: "ls = [ts]" using assms(2) by simp
  then have "\<forall>t \<in> set ts. on_disk io S U lim 0 t" using assms(1) by (auto simp: levels_ok_def)
  then show ?thesis using leaf_flat [of ts io S U lim] ls by simp
qed simp

context page_storage
begin

lemma holds_setup: "builder_holds io S U lim ctree_builder_setup []"
  unfolding builder_holds_def using levels_ok_setup by (intro exI [of _ "[]"]) (simp add: pending_def)

lemma holds_append:
  assumes h: "builder_holds io (stored (dev env)) (used (asp env)) limit b es" and g: "good (dev env)" "hm env = []"
    and e: "entry_ok e"
  shows "\<exists>k rc b' env'. ctree_builder_append io al (fst e) (snd e) b env = Some (rc, b', env') \<and>
    advances k io good stored limit used b env b' env' \<and>
    ((\<exists>x. rc = Inl x \<and> failed (dev env') (asp env') \<and> 100 < length (es @ [e])) \<or>
       rc = Inr () \<and> builder_holds io (stored (dev env')) (used (asp env')) limit b' (es @ [e]))"
proof -
  from h obtain ls where ls: "levels_ok io (stored (dev env)) (used (asp env)) limit b ls" "ls = [] \<or> last ls \<noteq> []"
      "hflat ls = es" "pending ls \<le> 3 * length es" "length es \<le> 100 \<Longrightarrow> length ls \<le> 1" by (auto simp: builder_holds_def)
  have t: "on_disk io (stored (dev env)) (used (asp env)) limit 0 (DEntry e)" using e by (simp add: entry_ok_def)
  from append_at [OF ls(1) g _ t ls(2)] obtain rc b1 env1 k where
    r: "ctree_builder_append io al (fst e) (snd e) b env = Some (rc, b1, env1)"
      "advances k io good stored limit used b env b1 env1"
      "(\<exists>e. rc = Inl e \<and> failed (dev env1) (asp env1)) \<or> rc = Inr () \<and>
        (\<exists>ls'. levels_ok io (stored (dev env1)) (used (asp env1)) limit b1 ls' \<and> last ls' \<noteq> [] \<and>
           hflat ls' = hflat ls @ [e] \<and> pending ls' \<le> pending ls + 3)"
    by (fastforce simp: ctree_builder_append_def split: if_splits)
  have few: "rc = Inr () \<and> length (cb_node b1) \<le> 1" if n: "length (es @ [e]) \<le> 100"
  proof -
    have 1: "length ls \<le> 1" using ls(5) n by simp
    then have "length (concat ls) + length [e] \<le> 100" using single_level_length [OF ls(1)] ls(3) n by simp
    from append_few [OF page_storage_axioms ls(1) g(2) 1 this] e r(1) show ?thesis by (auto simp: levels_ok_def split: sum.splits)
  qed
  from r(3) show ?thesis
  proof (elim disjE exE conjE)
    fix x assume "rc = Inl x" "failed (dev env1) (asp env1)"
    then show ?thesis using r(1,2) few by fastforce
  next
    fix ls' assume a: "rc = Inr ()" "levels_ok io (stored (dev env1)) (used (asp env1)) limit b1 ls'" "last ls' \<noteq> []"
      "hflat ls' = hflat ls @ [e]" "pending ls' \<le> pending ls + 3"
    then have "builder_holds io (stored (dev env1)) (used (asp env1)) limit b1 (es @ [e])"
      unfolding builder_holds_def using few ls(3,4) by (intro exI [of _ ls']) (auto simp: levels_ok_def)
    then show ?thesis using r(1,2) a(1) by blast
  qed
qed

lemma holds_finish:
  assumes h: "builder_holds io (stored (dev env)) (used (asp env)) limit b es" and g: "good (dev env)" "hm env = []"
  shows "\<exists>k rc b' env'. ctree_builder_finish io al b env = Some (rc, b', env') \<and>
    advances k io good stored limit used b env b' env' \<and>
    ((\<exists>x. rc = Inl x \<and> failed (dev env') (asp env') \<and> 100 < length es) \<or> rc = Inr () \<and>
       (cb_height b' = 0 \<and> cb_ptr b' = ptr_null \<and> node_bytes es \<le> lvl_max io \<or>
        100 < length es \<and> cb_height b' \<le> 3 * length es \<and>
          ctree_on io (stored (dev env')) (used (asp env')) limit (cb_ptr b') (cb_height b') es))"
proof -
  from h obtain ls where ls: "levels_ok io (stored (dev env)) (used (asp env)) limit b ls" "ls = [] \<or> last ls \<noteq> []"
      "hflat ls = es" "pending ls \<le> 3 * length es" "length es \<le> 100 \<Longrightarrow> length ls \<le> 1" by (auto simp: builder_holds_def)
  show ?thesis
  proof (cases "length ls \<le> 1")
    case True
    then have "ctree_builder_finish io al b env = Some (Inr (), b\<lparr>cb_ptr := ptr_null, cb_height := 0\<rparr>, env)"
      using ls(1) by (simp add: ctree_builder_finish_def ctree_builder_finish_loop.simps levels_ok_def)
    moreover have "advances 0 io good stored limit used b env (b\<lparr>cb_ptr := ptr_null, cb_height := 0\<rparr>) env"
      by (rule advances_refl [of good env, OF g]) simp
    ultimately show ?thesis using single_level [OF ls(1) True] ls(3) by auto
  next
    case False
    then have "100 < length es" using ls(5) by linarith
    then show ?thesis using finish [OF ls(1) g ls(2)] ls(3,4) False by simp fastforce
  qed
qed

end

section \<open>Building\<close>

text \<open>The entries of the new tree: without deletion marks, if nothing older is left to hide.\<close>

definition merge_keep :: "lsm_merge_policy \<Rightarrow> kv \<Rightarrow> bool" where
  "merge_keep policy e \<longleftrightarrow> \<not> (lp_drop_deleted policy \<and> lp_deleted policy (fst e) (snd e))"

context page_storage
begin

lemma advances_read:
  assumes "serves good stored (on_used (page_size io) stored (used (asp env)) (dev env)) d"
  shows "advances k io good stored limit used b env b (env\<lparr>dev := d, hm := []\<rparr>)"
  using assms keeps_served [OF assms] by (simp add: advances_def serves_def)

lemma advances_stay: "good (dev env) \<Longrightarrow> hm env = [] \<Longrightarrow> advances 0 io good stored limit used b env b env"
  by (rule advances_refl) simp_all

lemma pos_moved:
  assumes "lsm_pos (on_used (page_size io) stored (used (asp env)) (dev env)) U0 limit h lsm src it j"
    and "advances k io good stored limit used b env b' env'" and "ls_io lsm = io"
  shows "lsm_pos (on_used (page_size io) stored (used (asp env')) (dev env')) U0 limit h lsm src it j"
proof -
  have "keeps (page_size io) U0 (on_used (page_size io) stored (used (asp env)) (dev env))
      (on_used (page_size io) stored (used (asp env')) (dev env'))"
    using assms(2) by (intro on_used_moved) (simp_all add: advances_def)
  with lsm_pos_keeps [of lsm U0 _ _ limit h src it j] assms(1,3) page show ?thesis by blast
qed

lemma build_step:
  assumes "builder_holds io (stored (dev env)) (used (asp env)) limit b es" and "good (dev env)" "hm env = []"
    and "entry_ok e"
  shows "\<exists>k rc b' env'. (if P then ctree_builder_append io al (fst e) (snd e) b env else Some (Inr (), b, env)) = Some (rc, b', env') \<and>
    advances k io good stored limit used b env b' env' \<and>
    ((\<exists>x. rc = Inl x \<and> failed (dev env') (asp env') \<and> 100 < length (es @ (if P then [e] else []))) \<or>
       rc = Inr () \<and> builder_holds io (stored (dev env')) (used (asp env')) limit b' (es @ (if P then [e] else [])))"
proof (cases P)
  case True
  then show ?thesis using holds_append [OF assms] by simp
next
  case False
  then show ?thesis using assms(1) advances_stay [OF assms(2,3), of b] by auto
qed

lemma build_loop:
  assumes lsm: "ls_io lsm = io" "ls_alloc lsm = al"
  shows "\<lbrakk>lsm_pos (on_used (page_size io) stored (used (asp env)) (dev env)) U0 limit h lsm src it j; lsm_content lsm src it = M;
    builder_holds io (stored (dev env)) (used (asp env)) limit b es; good (dev env); hm env = []; \<forall>e \<in> set M. entry_ok e\<rbrakk> \<Longrightarrow>
    \<exists>k rc it' b' env'. lsm_build_default h lsm policy it b env = Some (rc, it', b', env') \<and>
      advances k io good stored limit used b env b' env' \<and>
      ((\<exists>x. rc = Inl x \<and> failed (dev env') (asp env') \<and> 100 < length (es @ filter (merge_keep policy) (drop j M))) \<or> rc = Inr () \<and>
         builder_holds io (stored (dev env')) (used (asp env')) limit b' (es @ filter (merge_keep policy) (drop j M)))"
proof (induction "length M - j" arbitrary: j it b env es)
  case 0
  then have "li_key it = None" "drop j M = []" by (auto simp: lsm_pos_def item_at_def)
  then show ?case using 0 advances_stay [of env b]
    by (subst lsm_build_default.simps) (auto simp: lsm_has_item_def)
next
  case (Suc n)
  let ?R = "\<lambda>env. on_used (page_size io) stored (used (asp env)) (dev env)"
  let ?e = "M ! j"
  have j: "j < length M" using Suc.hyps(2) by simp
  have cur: "li_key it = Some (fst ?e)" "li_val it = Some (snd ?e)"
    using Suc.prems(1,2) j by (auto simp: lsm_pos_def item_at_def)
  have ok: "entry_ok ?e" using Suc.prems(6) j by simp
  from build_step [OF Suc.prems(3-5) ok, of "merge_keep policy ?e"] obtain k1 rc1 b1 env1 where
    s: "(if merge_keep policy ?e then ctree_builder_append io al (fst ?e) (snd ?e) b env else Some (Inr (), b, env)) = Some (rc1, b1, env1)"
      "advances k1 io good stored limit used b env b1 env1"
      "(\<exists>x. rc1 = Inl x \<and> failed (dev env1) (asp env1) \<and> 100 < length (es @ (if merge_keep policy ?e then [?e] else []))) \<or> rc1 = Inr () \<and>
         builder_holds io (stored (dev env1)) (used (asp env1)) limit b1 (es @ (if merge_keep policy ?e then [?e] else []))"
    by blast
  have s1: "(if \<not> lp_drop_deleted policy \<or> \<not> lp_deleted policy (fst ?e) (snd ?e)
      then ctree_builder_append (ls_io lsm) (ls_alloc lsm) (fst ?e) (snd ?e) b env else Some (Inr (), b, env)) = Some (rc1, b1, env1)"
    unfolding lsm using s(1) by (auto simp: merge_keep_def split: if_splits)
  show ?case
  proof (cases rc1)
    case (Inl x)
    have "lsm_build_default h lsm policy it b env = Some (rc1, it, b1, env1)"
      using s1 cur Inl by (subst lsm_build_default.simps) (simp add: lsm_has_item_def)
    moreover have "filter (merge_keep policy) (drop j M) =
        (if merge_keep policy ?e then [?e] else []) @ filter (merge_keep policy) (drop (Suc j) M)"
      using j by (simp flip: Cons_nth_drop_Suc)
    then have "100 < length (es @ filter (merge_keep policy) (drop j M))" using s(3) Inl by auto
    ultimately show ?thesis using s(2,3) Inl by blast
  next
    case (Inr u)
    have g1: "good (dev env1)" "hm env1 = []" using advances_good [OF s(2)] by auto
    have h1: "builder_holds io (stored (dev env1)) (used (asp env1)) limit b1 (es @ (if merge_keep policy ?e then [?e] else []))"
      using s(3) Inr by blast
    from run_next [OF pos_moved [OF Suc.prems(1) s(2) lsm(1)] serves_on_used [of good, OF g1(1)] lsm(1)] Suc.prems(2) j obtain it' d' where
      n: "lsm_next h lsm it (dev env1) [] = Some (if Suc j < length M then Inr () else Inl ENOENT, it', d', [])"
        "serves good stored (?R env1) d'" "same_range it it'" "lsm_pos (?R env1) U0 limit h lsm src it' (Suc j)"
      by (auto simp: min_def)
    let ?env2 = "env1\<lparr>dev := d', hm := []\<rparr>"
    note a2 = advances_read [OF n(2), of 0 b1]
    have M2: "lsm_content lsm src it' = M" using same_range_content [OF n(3), of lsm src] Suc.prems(2) by simp
    have keep2: "keeps (page_size io) (used (asp env1)) (stored (dev env1)) (stored (dev ?env2))" using keeps_served [OF n(2)] by simp
    have h2: "builder_holds io (stored (dev ?env2)) (used (asp ?env2)) limit b1 (es @ (if merge_keep policy ?e then [?e] else []))"
      using builder_holds_keeps [OF h1 page keep2] by simp
    have m: "n = length M - Suc j" using Suc.hyps(2) by simp
    from Suc.hyps(1) [OF m pos_moved [OF n(4) a2 lsm(1)] M2 h2 _ _ Suc.prems(6)] advances_good [OF a2] obtain k3 rc3 it3 b3 env3 where
      l: "lsm_build_default h lsm policy it' b1 ?env2 = Some (rc3, it3, b3, env3)" "advances k3 io good stored limit used b1 ?env2 b3 env3"
        "(\<exists>x. rc3 = Inl x \<and> failed (dev env3) (asp env3) \<and>
            100 < length ((es @ (if merge_keep policy ?e then [?e] else [])) @ filter (merge_keep policy) (drop (Suc j) M))) \<or>
          rc3 = Inr () \<and> builder_holds io (stored (dev env3)) (used (asp env3)) limit b3
           ((es @ (if merge_keep policy ?e then [?e] else [])) @ filter (merge_keep policy) (drop (Suc j) M))" by auto
    have "lsm_build_default h lsm policy it b env = Some (rc3, it3, b3, env3)"
      using s1 cur Inr n(1) g1(2) l(1) by (subst lsm_build_default.simps) (simp add: lsm_has_item_def)
    moreover note advances_trans [OF advances_trans [OF s(2) a2] l(2)]
    moreover have "(es @ (if merge_keep policy ?e then [?e] else [])) @ filter (merge_keep policy) (drop (Suc j) M) =
        es @ filter (merge_keep policy) (drop j M)"
      using j by (simp flip: Cons_nth_drop_Suc)
    ultimately show ?thesis using l(3) by metis
  qed
qed

lemma call_build:
  assumes lsm: "ls_io lsm = io" "ls_alloc lsm = al"
    and r: "lsm_ready (on_used (page_size io) stored (used (asp env)) (dev env)) U0 limit h lsm src it"
    and g: "good (dev env)" "hm env = []" and ok: "\<forall>e \<in> set (lsm_content lsm src it). entry_ok e"
  shows "\<exists>k rc it' b env'. lsm_call_build lsm_build_default h lsm policy it ctree_builder_setup env = Some (rc, it', b, env') \<and>
    advances k io good stored limit used ctree_builder_setup env b env' \<and>
    (let es = filter (merge_keep policy) (lsm_content lsm src it) in
     (\<exists>x. rc = Inl x \<and> failed (dev env') (asp env') \<and> 100 < length es) \<or> rc = Inr () \<and>
       (cb_height b = 0 \<and> cb_ptr b = ptr_null \<and> node_bytes es \<le> lvl_max io \<or>
        100 < length es \<and> cb_height b \<le> 3 * length es \<and>
          ctree_on io (stored (dev env')) (used (asp env')) limit (cb_ptr b) (cb_height b) es))"
proof -
  let ?R = "on_used (page_size io) stored (used (asp env)) (dev env)" and ?M = "lsm_content lsm src it"
  from run_begin [OF r serves_on_used [of good, OF g(1)] lsm(1)] obtain it1 d1 where
    b: "lsm_begin h lsm it (dev env) [] = Some (Inr (), it1, d1, [])" "serves good stored ?R d1" "same_range it it1"
      "lsm_pos ?R U0 limit h lsm src it1 0" by blast
  let ?env1 = "env\<lparr>dev := d1, hm := []\<rparr>"
  note a1 = advances_read [OF b(2), of 0 ctree_builder_setup]
  have M1: "lsm_content lsm src it1 = ?M" using same_range_content [OF b(3), of lsm src] by simp
  from build_loop [OF lsm pos_moved [OF b(4) a1 lsm(1)] M1 holds_setup _ _ ok, of policy] advances_good [OF a1] obtain k2 rc2 it2 b2 env2 where
    l: "lsm_build_default h lsm policy it1 ctree_builder_setup ?env1 = Some (rc2, it2, b2, env2)"
      "advances k2 io good stored limit used ctree_builder_setup ?env1 b2 env2"
      "(\<exists>x. rc2 = Inl x \<and> failed (dev env2) (asp env2) \<and> 100 < length (filter (merge_keep policy) ?M)) \<or> rc2 = Inr () \<and>
         builder_holds io (stored (dev env2)) (used (asp env2)) limit b2 (filter (merge_keep policy) ?M)" by auto
  note a2 = advances_trans [OF a1 l(2)]
  show ?thesis
  proof (cases rc2)
    case (Inl x)
    then show ?thesis using b(1) g(2) l(1,3) a2 by (auto simp: lsm_call_build_def Let_def)
  next
    case (Inr u)
    then have hb: "builder_holds io (stored (dev env2)) (used (asp env2)) limit b2 (filter (merge_keep policy) ?M)" using l(3) by blast
    from holds_finish [OF hb] advances_good [OF l(2)] obtain k3 rc3 b3 env3 where
      f: "ctree_builder_finish io al b2 env2 = Some (rc3, b3, env3)" "advances k3 io good stored limit used b2 env2 b3 env3"
        "(\<exists>x. rc3 = Inl x \<and> failed (dev env3) (asp env3) \<and> 100 < length (filter (merge_keep policy) ?M)) \<or> rc3 = Inr () \<and>
          (cb_height b3 = 0 \<and> cb_ptr b3 = ptr_null \<and> node_bytes (filter (merge_keep policy) ?M) \<le> lvl_max io \<or>
           100 < length (filter (merge_keep policy) ?M) \<and> cb_height b3 \<le> 3 * length (filter (merge_keep policy) ?M) \<and>
            ctree_on io (stored (dev env3)) (used (asp env3)) limit (cb_ptr b3) (cb_height b3) (filter (merge_keep policy) ?M))"
      by blast
    have "lsm_call_build lsm_build_default h lsm policy it ctree_builder_setup env = Some (rc3, it2, b3, env3)"
      using b(1) g(2) l(1) Inr f(1) lsm by (simp add: lsm_call_build_def Let_def)
    then show ?thesis unfolding Let_def using advances_trans [OF a2 f(2)] f(3) by blast
  qed
qed

text \<open>A cancelled build gives back its own pages only.\<close>

lemma cancel_ranges: "used (asp env) - ranges_cover rs \<subseteq> used (asp (ctree_builder_cancel_ranges al rs env)) \<and>
    dev (ctree_builder_cancel_ranges al rs env) = dev env \<and> hm (ctree_builder_cancel_ranges al rs env) = hm env"
proof (induction rs arbitrary: env)
  case (Cons r rs)
  have "used (asp env) - extent (r_begin r) (r_end r - r_begin r) \<subseteq>
      used (snd (alloc_cancel al (asp env) (r_end r - r_begin r) (r_begin r)))"
    by (rule cancel_frees [OF prod.collapse [symmetric]])
  moreover have "ranges_cover (r # rs) = {r_begin r..<r_end r} \<union> ranges_cover rs" by (auto simp: ranges_cover_def)
  moreover have "extent (r_begin r) (r_end r - r_begin r) \<subseteq> {r_begin r..<r_end r}" by (auto simp: extent_def)
  ultimately show ?case using Cons.IH [of "ctree_builder_free al (r_end r - r_begin r) (r_begin r) env"]
    by (simp add: ctree_builder_free_def) blast
qed (simp add: ranges_cover_def)

lemma cancel_advances:
  assumes "advances k io good stored limit used ctree_builder_setup env b env'"
  shows "used (asp env) \<subseteq> used (asp (ctree_builder_cancel al b env'))" and "dev (ctree_builder_cancel al b env') = dev env'"
    and "hm (ctree_builder_cancel al b env') = []"
proof -
  have "reserved_ok (used (asp env)) limit b (used (asp env'))" and m: "hm env' = []"
    using assms reserved_setup by (auto simp: advances_def)
  then have "used (asp env) \<subseteq> used (asp env') - ranges_cover (cb_reserved b)" by (auto simp: reserved_ok_def)
  then show "used (asp env) \<subseteq> used (asp (ctree_builder_cancel al b env'))" "dev (ctree_builder_cancel al b env') = dev env'"
      "hm (ctree_builder_cancel al b env') = []"
    using cancel_ranges [of env' "cb_reserved b"] m by (auto simp: ctree_builder_cancel_def)
qed

end

section \<open>The five trees after a merge\<close>

lemma tree_on_is_empty: "tree_on good stored lim U d t xs \<Longrightarrow> ctree_is_empty t \<longleftrightarrow> xs = []"
proof (cases "tr_height t = 0")
  case False
  assume "tree_on good stored lim U d t xs"
  then obtain ts where ts: "on_disk (tr_io t) (stored d) U lim (tr_height t) (DNode (tr_ptr t) ts)" "dflat (DNode (tr_ptr t) ts) = xs"
    using False by (auto simp: tree_on_def ctree_on_def)
  then show ?thesis using dflat_nonempty [OF ts(1)] False by (simp add: ctree_is_empty_def)
qed (simp add: tree_on_def ctree_on_def ctree_is_empty_def)

lemma tree_on_moved:
  assumes "tree_on good stored lim U d t xs" and "keeps (page_size (tr_io t)) U (stored d) (stored d')" and "good d'" and "U \<subseteq> U'"
  shows "tree_on good stored lim U' d' t xs"
proof -
  have "page_ok (tr_io t)" using assms(1) by (simp add: tree_on_def page_device_def)
  then show ?thesis using assms(1,3) on_disk_keeps [OF _ _ assms(2,4)] unfolding tree_on_def ctree_on_def by (metis (full_types))
qed

lemma tree_on_null: "tree_on good stored lim U d t xs \<Longrightarrow> tree_on good stored lim U d (ctree_reset None 0 0 t) []"
  by (simp add: tree_on_def ctree_reset_def ctree_on_def)

lemma lsm_rep_tree:
  assumes "lsm_rep good stored lim U h d lsm src" and "j < MAX_DISK_TREES"
  shows "tree_on good stored lim U d (ls_ci lsm ! j) (src (j + 2))" and "tr_io (ls_ci lsm ! j) = ls_io lsm"
    and "tr_cmp (ls_ci lsm ! j) = ls_cmp lsm" and "j < length (ls_ci lsm)"
  using assms by (auto simp: lsm_rep_def)

lemma lsm_rep_moved:
  assumes r: "lsm_rep good stored lim U h d lsm src" and "keeps (page_size (ls_io lsm)) U (stored d) (stored d')" and "good d'" and "U \<subseteq> U'"
  shows "lsm_rep good stored lim U' h d' lsm src"
proof -
  have "tree_on good stored lim U' d' (ls_ci lsm ! j) (src (j + 2))" if "j < MAX_DISK_TREES" for j
    by (rule tree_on_moved [OF lsm_rep_tree(1) [OF r that] _ assms(3,4)]) (use assms(2) lsm_rep_tree(2) [OF r that] in simp)
  then show ?thesis using r assms(3) unfolding lsm_rep_def by blast
qed

lemma lsm_rep_disk:
  assumes r: "lsm_rep good stored lim U h d lsm src" and "j < MAX_DISK_TREES" and "tree_on good stored lim U d t xs"
    and "tr_io t = ls_io lsm" and "tr_cmp t = ls_cmp lsm" and ne: "\<forall>e \<in> set xs. e \<noteq> ([], [])"
  shows "lsm_rep good stored lim U h d (lsm\<lparr>ls_ci := (ls_ci lsm)[j := t]\<rparr>) (src(Suc (Suc j) := xs))"
proof -
  have "\<forall>k < MAX_DISK_TREES. tr_io ((ls_ci lsm)[j := t] ! k) = ls_io lsm \<and> tr_cmp ((ls_ci lsm)[j := t] ! k) = ls_cmp lsm \<and>
      tree_on good stored lim U d ((ls_ci lsm)[j := t] ! k) ((src(Suc (Suc j) := xs)) (k + 2))"
    using assms lsm_rep_tree [OF r] by (auto simp: nth_list_update)
  moreover have "\<forall>i < MAX_DISK_TREES + 2. \<forall>e \<in> set (src i). e \<noteq> ([], [])" using r unfolding lsm_rep_def by blast
  then have "\<forall>i < MAX_DISK_TREES + 2. \<forall>e \<in> set ((src(Suc (Suc j) := xs)) i). e \<noteq> ([], [])" using ne by (simp del: not_None_eq)
  ultimately show ?thesis using r unfolding lsm_rep_def by (simp add: fun_upd_apply)
qed

lemma lsm_rep_reset_c1:
  assumes r: "lsm_rep good stored lim U h d lsm src"
  shows "\<exists>c1 h'. mtree_reset (ls_c1 lsm) h = Some (c1, h') \<and> lsm_rep good stored lim U h' d (lsm\<lparr>ls_c1 := c1\<rparr>) (src(Suc 0 := []))"
proof -
  obtain t0 t1 where t: "mtree_inv h (ls_c0 lsm) t0" "mtree_inv h (ls_c1 lsm) t1" "entries t0 = src 0" "entries t1 = src 1"
      "set (addrs t0) \<inter> set (addrs t1) = {}"
    using r by (auto simp: lsm_rep_def)
  let ?h = "\<lambda>p. if p \<in> set (addrs t1) then None else h p" and ?m = "(ls_c1 lsm)\<lparr>mt_root := 0, mt_bytes := 0\<rparr>"
  have m: "mtree_reset (ls_c1 lsm) h = Some (?m, ?h)"
    using t(2) mtree_release_nodes_at [of h 0 t1] by (simp add: mtree_inv_def mtree_reset_def)
  have "mtree_inv ?h ?m Leaf" using t(2) by (simp add: mtree_inv_def rbt_def)
  moreover have "mtree_inv ?h (ls_c0 lsm) t0" by (rule mtree_inv_same [OF t(1)]) (use t(5) in auto)
  moreover have "\<forall>i < MAX_DISK_TREES + 2. \<forall>e \<in> set (src i). e \<noteq> ([], [])" using r unfolding lsm_rep_def by blast
  ultimately have "lsm_rep good stored lim U ?h d (lsm\<lparr>ls_c1 := ?m\<rparr>) (src(Suc 0 := []))"
    using r t(3) unfolding lsm_rep_def by (intro conjI exI [of _ t0] exI [of _ Leaf]) simp_all
  with m show ?thesis by blast
qed

lemma lsm_rep_swap:
  assumes r: "lsm_rep good stored lim U h d lsm src"
  shows "lsm_rep good stored lim U h d (lsm\<lparr>ls_c0 := ls_c1 lsm, ls_c1 := ls_c0 lsm\<rparr>) (src(0 := src 1, Suc 0 := src 0))"
proof -
  obtain t0 t1 where t: "mtree_inv h (ls_c0 lsm) t0" "mtree_inv h (ls_c1 lsm) t1" "entries t0 = src 0" "entries t1 = src 1"
      "set (addrs t0) \<inter> set (addrs t1) = {}"
    using r by (auto simp: lsm_rep_def)
  have "\<forall>i < MAX_DISK_TREES + 2. \<forall>e \<in> set (src i). e \<noteq> ([], [])" using r unfolding lsm_rep_def by blast
  then have "\<forall>i < MAX_DISK_TREES + 2. \<forall>e \<in> set ((src(0 := src 1, Suc 0 := src 0)) i). e \<noteq> ([], [])"
    using lsm_rep_nonempty [OF r, of 0] lsm_rep_nonempty [OF r, of 1] by (auto simp del: not_None_eq split: if_splits)
  then show ?thesis using r t unfolding lsm_rep_def by (intro conjI exI [of _ t1] exI [of _ t0]) (simp_all add: Int_commute)
qed

section \<open>A merge\<close>

lemma drop_deleted_eq:
  assumes "lsm_rep good stored lim U h d lsm src"
  shows "lsm_drop_deleted lsm policy \<longleftrightarrow> (\<forall>i \<in> {lp_tree policy + 2..4}. src i = [])"
proof -
  have "ctree_is_empty (ls_ci lsm ! (i - 2)) \<longleftrightarrow> src i = []" if i: "i \<in> {lp_tree policy + 2..4}" for i
  proof -
    have "i - 2 < MAX_DISK_TREES" "i - 2 + 2 = i" using i by (auto simp: MAX_DISK_TREES_def)
    then show ?thesis using tree_on_is_empty [OF lsm_rep_tree(1) [OF assms, of "i - 2"]] by simp
  qed
  then show ?thesis by (auto simp: lsm_drop_deleted_def list_all_iff MAX_DISK_TREES_def)
qed

lemma kv_sorted_filter: "kv_sorted cmp xs \<Longrightarrow> kv_sorted cmp (filter P xs)"
  by (simp add: kv_sorted_def sorted_wrt_filter)

text \<open>The policy as the merge of tree \<open>t\<close> sets it, and the entries of the new tree.\<close>

definition merge_policy :: "(nat \<Rightarrow> kv list) \<Rightarrow> lsm_merge_policy \<Rightarrow> nat \<Rightarrow> lsm_merge_policy" where
  "merge_policy src policy t = policy\<lparr>lp_tree := t, lp_drop_deleted := \<forall>i \<in> {t + 2..4}. src i = []\<rparr>"

definition merge_entries :: "cmp \<Rightarrow> (nat \<Rightarrow> kv list) \<Rightarrow> lsm_merge_policy \<Rightarrow> nat \<Rightarrow> kv list" where
  "merge_entries cmp src policy t = filter (merge_keep (merge_policy src policy t)) (kv_merge cmp (src t) (src (Suc t)))"

text \<open>Emptying the merged tree, which is \<open>c1\<close> or a tree on disk.\<close>

lemma clear_merged:
  assumes r: "lsm_rep good stored lim U h d lsm src" and t: "1 \<le> t" "t \<le> 3"
  shows "\<exists>lsm' h'. lsm_clear [t] lsm h = Some (lsm', h') \<and> ls_io lsm' = ls_io lsm \<and> ls_alloc lsm' = ls_alloc lsm \<and>
    ls_cmp lsm' = ls_cmp lsm \<and> lsm_rep good stored lim U h' d lsm' (src(t := []))"
proof (cases "t = 1")
  case True
  from lsm_rep_reset_c1 [OF r] obtain c1 h' where
    "mtree_reset (ls_c1 lsm) h = Some (c1, h')" "lsm_rep good stored lim U h' d (lsm\<lparr>ls_c1 := c1\<rparr>) (src(Suc 0 := []))" by blast
  then show ?thesis using True by simp
next
  case False
  let ?k = "t - 2"
  have k: "?k < MAX_DISK_TREES" "Suc (Suc ?k) = t" using t False by (auto simp: MAX_DISK_TREES_def)
  note rk = lsm_rep_tree [OF r k(1)]
  have "lsm_rep good stored lim U h d
      (lsm\<lparr>ls_ci := (ls_ci lsm)[?k := ctree_reset None 0 0 (ls_ci lsm ! ?k)]\<rparr>) (src(Suc (Suc ?k) := []))"
    by (rule lsm_rep_disk [OF r k(1) tree_on_null [OF rk(1)]]) (use rk(2,3) in \<open>simp_all add: ctree_reset_def\<close>)
  then show ?thesis using False t k(2) by auto
qed

lemma merge_run:
  assumes st: "page_storage (ls_io lsm) good stored lim (ls_alloc lsm) used failed"
    and r: "lsm_rep good stored lim U h (dev env) lsm src" and U: "U \<subseteq> used (asp env)" and m: "hm env = []"
    and t: "lp_tree policy = t" "1 \<le> t" "t \<le> 3" and ok: "\<forall>e \<in> set (src t) \<union> set (src (Suc t)). entry_ok e"
  defines "es \<equiv> merge_entries (ls_cmp lsm) src policy t"
  assumes len: "3 * length es < 2 ^ 31"
  shows "\<exists>rc lsm' h' env'. lsm_merge_run lsm_build_default h lsm policy env = Some (rc, lsm', h', merge_policy src policy t, env') \<and>
    hm env' = [] \<and> ((\<exists>x. rc = Inl x) \<and> (\<exists>a. failed (dev env') a) \<and> 100 < length es \<and> lsm' = lsm \<and> h' = h \<and> U \<subseteq> used (asp env') \<and>
       lsm_rep good stored lim U h (dev env') lsm src \<or>
     (\<exists>new. rc = Inr () \<and> (new = es \<and> 100 < length es \<or> new = [] \<and> node_bytes es \<le> lvl_max (ls_io lsm)) \<and>
       ls_io lsm' = ls_io lsm \<and> ls_alloc lsm' = ls_alloc lsm \<and> ls_cmp lsm' = ls_cmp lsm \<and>
       lsm_rep good stored lim (used (asp env')) h' (dev env') lsm' (src(t := [], Suc t := new))))"
proof -
  let ?io = "ls_io lsm" and ?al = "ls_alloc lsm" and ?cmp = "ls_cmp lsm" and ?p = "merge_policy src policy t"
  let ?R = "on_used (page_size ?io) stored (used (asp env)) (dev env)"
  have pd: "page_device ?io good stored lim" and g: "good (dev env)" and ko: "key_order ?cmp" using r by (auto simp: lsm_rep_def)
  have pg: "page_ok ?io" using pd by (simp add: page_device_def)
  have t5: "Suc t \<le> 4" using t(3) by simp
  from lsm_rep_setup [OF r t5, of t] obtain it where it: "lsm_iter_setup lsm = Some it"
      "lsm_ready (stored (dev env)) U lim h lsm src (it\<lparr>li_from := t, li_to := Suc t\<rparr>)" by blast
  let ?it = "it\<lparr>li_from := t, li_to := Suc t\<rparr>"
  have rd: "lsm_ready ?R U lim h lsm src ?it"
    by (rule lsm_ready_keeps [OF pg keeps_on_used [OF U, of _ stored] it(2)])
  have C: "lsm_content lsm src ?it = kv_merge ?cmp (src t) (src (Suc t))"
    by (simp add: lsm_content_def lsm_lists_def overlay_def)
  then have okC: "\<forall>e \<in> set (lsm_content lsm src ?it). entry_ok e" using ok set_kv_merge [of ?cmp "src t" "src (Suc t)"] by auto
  have F: "filter (merge_keep ?p) (lsm_content lsm src ?it) = es" unfolding C es_def merge_entries_def by (rule refl)
  from page_storage.call_build [OF st refl refl rd g m okC, of ?p, unfolded Let_def F] obtain k rc it' b env1 where
    c: "lsm_call_build lsm_build_default h lsm ?p ?it ctree_builder_setup env = Some (rc, it', b, env1)"
      "advances k ?io good stored lim used ctree_builder_setup env b env1"
      "(\<exists>x. rc = Inl x \<and> failed (dev env1) (asp env1) \<and> 100 < length es) \<or> rc = Inr () \<and>
       (cb_height b = 0 \<and> cb_ptr b = ptr_null \<and> node_bytes es \<le> lvl_max ?io \<or>
        100 < length es \<and> cb_height b \<le> 3 * length es \<and>
          ctree_on ?io (stored (dev env1)) (used (asp env1)) lim (cb_ptr b) (cb_height b) es)"
    by blast
  have pol: "policy\<lparr>lp_drop_deleted := lsm_drop_deleted lsm policy\<rparr> = ?p"
    using drop_deleted_eq [OF r, of policy] t(1) by (cases policy) (simp add: merge_policy_def)
  have adv: "good (dev env1)" "hm env1 = []" "keeps (page_size ?io) U (stored (dev env)) (stored (dev env1))" "U \<subseteq> used (asp env1)"
    using c(2) U unfolding advances_def keeps_def by blast+
  show ?thesis
  proof (cases rc)
    case (Inl x)
    note ca = page_storage.cancel_advances [OF st c(2)]
    have "lsm_merge_run lsm_build_default h lsm policy env = Some (Inl x, lsm, h, ?p, ctree_builder_cancel ?al b env1)"
      using it(1) c(1) Inl pol t(1) by (simp add: lsm_merge_run_def Let_def)
    moreover have "lsm_rep good stored lim U h (dev env1) lsm src" by (rule lsm_rep_moved [OF r adv(3,1) order_refl])
    ultimately show ?thesis using ca c(3) Inl U by auto
  next
    case (Inr u)
    let ?j = "t - 1"
    let ?ci = "ctree_reset (Some (cb_ptr b)) (cb_height b) (cb_pages b) (ls_ci lsm ! ?j)"
    have j: "?j < MAX_DISK_TREES" "Suc (Suc ?j) = Suc t" using t by (auto simp: MAX_DISK_TREES_def)
    note rt = lsm_rep_tree [OF r j(1)]
    have r1: "lsm_rep good stored lim (used (asp env1)) h (dev env1) lsm src" by (rule lsm_rep_moved [OF r adv(3,1,4)])
    define new where "new = (if cb_height b = 0 then [] else es)"
    have new: "new = es \<and> 100 < length es \<or> new = [] \<and> node_bytes es \<le> lvl_max ?io" using c(3) Inr by (auto simp: new_def ctree_on_def)
    have s: "kv_sorted ?cmp (src t)" "kv_sorted ?cmp (src (Suc t))" using lsm_rep_sorted [OF r] t by auto
    have "kv_sorted ?cmp es" unfolding es_def merge_entries_def
      using kv_sorted_filter key_order.kv_sorted_merge [OF ko s] by blast
    then have "tree_on good stored lim (used (asp env1)) (dev env1) ?ci new"
      using pd ko adv(1) c(3) Inr len rt(2,3) by (auto simp: tree_on_def ctree_reset_def new_def ctree_on_def)
    moreover have "set es \<subseteq> set (src t) \<union> set (src (Suc t))" unfolding es_def merge_entries_def using set_kv_merge by fastforce
    then have "\<forall>e \<in> set new. e \<noteq> ([], [])" using lsm_rep_nonempty [OF r, of t] lsm_rep_nonempty [OF r, of "Suc t"] t by (auto simp: new_def)
    ultimately have r2: "lsm_rep good stored lim (used (asp env1)) h (dev env1) (lsm\<lparr>ls_ci := (ls_ci lsm)[?j := ?ci]\<rparr>) (src(Suc t := new))"
      using lsm_rep_disk [OF r1 j(1), of ?ci new] rt(2,3) j(2) by (simp add: ctree_reset_def)
    let ?lsm2 = "lsm\<lparr>ls_ci := (ls_ci lsm)[?j := ?ci]\<rparr>"
    have run: "lsm_merge_run lsm_build_default h lsm policy env = Some (Inr (), lsm', h', ?p, env1)"
      if cl: "lsm_clear [t] ?lsm2 h = Some (lsm', h')" for lsm' h'
      using it(1) c(1) Inr pol t rt(4) cl by (simp add: lsm_merge_run_def Let_def del: lsm_clear.simps)
    have sw: "(src(Suc t := new))(t := []) = src(t := [], Suc t := new)" by (rule fun_upd_twist) simp
    from clear_merged [OF r2 t(2,3)] obtain lsm' h' where "lsm_clear [t] ?lsm2 h = Some (lsm', h')"
      "ls_io lsm' = ls_io lsm" "ls_alloc lsm' = ls_alloc lsm" "ls_cmp lsm' = ls_cmp lsm"
      "lsm_rep good stored lim (used (asp env1)) h' (dev env1) lsm' ((src(Suc t := new))(t := []))" by auto
    then show ?thesis using run new adv(2) sw by fastforce
  qed
qed

text \<open>\<open>lsm_merge\<close> as a whole. Tree 0 is first moved to the empty \<open>c1\<close>; a tree above an empty one is
  moved without a build.\<close>

definition merge_moves :: "(nat \<Rightarrow> kv list) \<Rightarrow> nat \<Rightarrow> bool" where
  "merge_moves src tree \<longleftrightarrow> 2 \<le> tree \<and> src (Suc tree) = []"

definition merge_start :: "(nat \<Rightarrow> kv list) \<Rightarrow> nat \<Rightarrow> nat \<Rightarrow> kv list" where
  "merge_start src tree = (if tree = 0 then src(0 := [], Suc 0 := src 0) else src)"

definition merge_result :: "cmp \<Rightarrow> (nat \<Rightarrow> kv list) \<Rightarrow> lsm_merge_policy \<Rightarrow> nat \<Rightarrow> kv list" where
  "merge_result cmp src policy tree =
     (if merge_moves src tree then src tree else merge_entries cmp (merge_start src tree) policy (max 1 tree))"

definition merged :: "(nat \<Rightarrow> kv list) \<Rightarrow> nat \<Rightarrow> kv list \<Rightarrow> nat \<Rightarrow> kv list" where
  "merged src tree es = (merge_start src tree)(max 1 tree := [], Suc (max 1 tree) := es)"

text \<open>The calls for which the code is defined.\<close>

definition merge_ready :: "(nat \<Rightarrow> kv list) \<Rightarrow> nat \<Rightarrow> bool" where
  "merge_ready src tree \<longleftrightarrow> tree \<le> 3 \<and> (tree = 0 \<longrightarrow> src 1 = []) \<and> (tree = 1 \<longrightarrow> src 2 \<noteq> [])"

lemma merge_keep_tree [simp]: "merge_keep (merge_policy src (policy\<lparr>lp_tree := n\<rparr>) t) = merge_keep (merge_policy src policy t)"
  by (auto simp: merge_keep_def merge_policy_def)

lemma merge_entries_tree [simp]: "merge_entries cmp src (policy\<lparr>lp_tree := n\<rparr>) t = merge_entries cmp src policy t"
  by (simp add: merge_entries_def)

lemma length_kv_merge: "length (kv_merge cmp xs ys) \<le> length xs + length ys"
  by (induction cmp xs ys rule: kv_merge.induct) auto

lemma length_merge_entries: "length (merge_entries cmp src policy t) \<le> length (src t) + length (src (Suc t))"
  unfolding merge_entries_def using length_filter_le length_kv_merge le_trans by blast

lemma lsm_rep_c1_empty:
  assumes "lsm_rep good stored lim U h d lsm src"
  shows "mtree_is_empty (ls_c1 lsm) \<longleftrightarrow> src 1 = []"
proof -
  obtain t1 where "mtree_inv h (ls_c1 lsm) t1" "entries t1 = src 1" using assms by (auto simp: lsm_rep_def)
  then show ?thesis by (cases t1) (auto simp: mtree_inv_def mtree_is_empty_def entries_def)
qed

lemma merge_move:
  assumes r: "lsm_rep good stored lim U h (dev env) lsm src" and tree: "merge_ready src tree" and True: "merge_moves src tree"
  shows "\<exists>lsm'. lsm_merge lsm_build_default h lsm tree policy env = Some (Inr (), lsm', h, policy\<lparr>lp_tree := tree\<rparr>, env) \<and>
    ls_io lsm' = ls_io lsm \<and> ls_alloc lsm' = ls_alloc lsm \<and> ls_cmp lsm' = ls_cmp lsm \<and>
    lsm_rep good stored lim U h (dev env) lsm' (merged src tree (src tree))"
proof -
  have t: "2 \<le> tree" "tree \<le> 3" "src (Suc tree) = []" using tree True by (auto simp: merge_moves_def merge_ready_def)
  let ?j = "tree - 1" and ?k = "tree - 2"
  have j: "?j < MAX_DISK_TREES" "?k < MAX_DISK_TREES" "Suc (Suc ?j) = Suc tree" "Suc (Suc ?k) = tree" "?j \<noteq> ?k"
    using t by (auto simp: MAX_DISK_TREES_def)
  note rj = lsm_rep_tree [OF r j(1)] and rk = lsm_rep_tree [OF r j(2)]
  let ?l1 = "lsm\<lparr>ls_ci := (ls_ci lsm)[?j := ls_ci lsm ! ?k]\<rparr>"
  let ?l2 = "lsm\<lparr>ls_ci := (ls_ci lsm)[?j := ls_ci lsm ! ?k, ?k := ls_ci lsm ! ?j]\<rparr>"
  have ne: "\<forall>e \<in> set (src tree). e \<noteq> ([], [])" using lsm_rep_nonempty [OF r, of tree] t by simp
  have "tree_on good stored lim U (dev env) (ls_ci lsm ! ?k) (src tree)" "tree_on good stored lim U (dev env) (ls_ci lsm ! ?j) []"
    using rk(1) rj(1) j t by simp_all
  note tt = this
  have r1: "lsm_rep good stored lim U h (dev env) ?l1 (src(Suc (Suc ?j) := src tree))"
    by (rule lsm_rep_disk [OF r j(1) tt(1) rk(2,3) ne])
  have "lsm_rep good stored lim U h (dev env) (?l1\<lparr>ls_ci := (ls_ci ?l1)[?k := ls_ci lsm ! ?j]\<rparr>)
      ((src(Suc (Suc ?j) := src tree))(Suc (Suc ?k) := []))"
    by (rule lsm_rep_disk [OF r1 j(2) tt(2)]) (use rj in simp_all)
  then have r2: "lsm_rep good stored lim U h (dev env) ?l2 (merged src tree (src tree))"
    using j t by (simp add: merged_def merge_start_def fun_upd_twist [of "Suc tree" tree])
  have "ctree_is_empty (ls_ci lsm ! ?j)" using tree_on_is_empty [OF rj(1)] t j by simp
  then have "lsm_merge lsm_build_default h lsm tree policy env = Some (Inr (), ?l2, h, policy\<lparr>lp_tree := tree\<rparr>, env)"
    using t rj(4) by (simp add: lsm_merge_def ctree_swap_def Let_def)
  then show ?thesis using r2 by auto
qed

text \<open>Otherwise the merge proper runs, on the tree below or, for \<open>c0\<close>, on the swapped trees.\<close>

definition merge_lsm :: "nat \<Rightarrow> ('d, 'a) lsm \<Rightarrow> ('d, 'a) lsm" where
  "merge_lsm tree lsm = (if tree = 0 then lsm\<lparr>ls_c0 := ls_c1 lsm, ls_c1 := ls_c0 lsm\<rparr> else lsm)"

lemma merge_lsm_sel [simp]:
  "ls_io (merge_lsm tree lsm) = ls_io lsm" "ls_alloc (merge_lsm tree lsm) = ls_alloc lsm" "ls_cmp (merge_lsm tree lsm) = ls_cmp lsm"
  by (simp_all add: merge_lsm_def)

lemma merge_enters_run:
  assumes r: "lsm_rep good stored lim U h (dev env) lsm src" and tree: "merge_ready src tree" and False: "\<not> merge_moves src tree"
  shows "lsm_merge lsm_build_default h lsm tree policy env =
      lsm_merge_run lsm_build_default h (merge_lsm tree lsm) (policy\<lparr>lp_tree := tree, lp_tree := max 1 tree\<rparr>) env"
    and "lsm_rep good stored lim U h (dev env) (merge_lsm tree lsm) (merge_start src tree)"
proof -
  have t: "max 1 tree \<le> 3" using tree by (auto simp: merge_ready_def)
  have c1: "tree = 0 \<Longrightarrow> src 1 = []" using tree by (simp add: merge_ready_def)
  show "lsm_rep good stored lim U h (dev env) (merge_lsm tree lsm) (merge_start src tree)"
    using lsm_rep_swap [OF r] r c1 by (cases "tree = 0") (simp_all add: merge_start_def merge_lsm_def)
  show "lsm_merge lsm_build_default h lsm tree policy env =
      lsm_merge_run lsm_build_default h (merge_lsm tree lsm) (policy\<lparr>lp_tree := tree, lp_tree := max 1 tree\<rparr>) env"
  proof (cases "tree = 0")
    case True
    then show ?thesis using lsm_rep_c1_empty [OF r] c1 by (simp add: lsm_merge_def merge_lsm_def mtree_swap_def Let_def)
  next
    case f: False
    then have j: "tree - 1 < MAX_DISK_TREES" using t by (simp add: MAX_DISK_TREES_def)
    have "Suc tree = 2 \<Longrightarrow> src 2 \<noteq> []" using tree by (simp add: merge_ready_def)
    then have "src (Suc tree) \<noteq> []" using False f by (cases "tree = 1") (auto simp: merge_moves_def numeral_2_eq_2)
    then have "\<not> ctree_is_empty (ls_ci lsm ! (tree - 1))" using tree_on_is_empty [OF lsm_rep_tree(1) [OF r j]] f by simp
    then show ?thesis using f lsm_rep_tree(4) [OF r j] by (simp add: lsm_merge_def merge_lsm_def Let_def max_def)
  qed
qed

lemma merge_at:
  fixes policy :: lsm_merge_policy
  assumes st: "page_storage (ls_io lsm) good stored lim (ls_alloc lsm) used failed"
    and r: "lsm_rep good stored lim U h (dev env) lsm src" and U: "U \<subseteq> used (asp env)" and m: "hm env = []"
    and tree: "merge_ready src tree" and ok: "\<forall>i \<le> 4. length (src i) < 2 ^ 28 \<and> (\<forall>e \<in> set (src i). entry_ok e)"
  defines "es \<equiv> merge_result (ls_cmp lsm) src policy tree"
  shows "\<exists>rc lsm' h' policy' env' U' src'. lsm_merge lsm_build_default h lsm tree policy env = Some (rc, lsm', h', policy', env') \<and>
    hm env' = [] \<and> ls_io lsm' = ls_io lsm \<and> ls_alloc lsm' = ls_alloc lsm \<and> ls_cmp lsm' = ls_cmp lsm \<and>
    U' \<subseteq> used (asp env') \<and> lsm_rep good stored lim U' h' (dev env') lsm' src' \<and>
    ((\<exists>x. rc = Inl x) \<and> (\<exists>a. failed (dev env') a) \<and> \<not> merge_moves src tree \<and> 100 < length es \<and> src' = merge_start src tree \<or>
     rc = Inr () \<and> (\<exists>new. src' = merged src tree new \<and> (new = es \<and> (merge_moves src tree \<or> 100 < length es) \<or>
       new = [] \<and> \<not> merge_moves src tree \<and> node_bytes es \<le> lvl_max (ls_io lsm))))"
proof (cases "merge_moves src tree")
  case True
  from merge_move [OF r tree True, of policy] obtain lsm' where
    "lsm_merge lsm_build_default h lsm tree policy env = Some (Inr (), lsm', h, policy\<lparr>lp_tree := tree\<rparr>, env)"
    "ls_io lsm' = ls_io lsm" "ls_alloc lsm' = ls_alloc lsm" "ls_cmp lsm' = ls_cmp lsm"
    "lsm_rep good stored lim U h (dev env) lsm' (merged src tree (src tree))" by blast
  then show ?thesis using U m True by (auto simp: es_def merge_result_def)
next
  case False
  let ?t = "max 1 tree" and ?s = "merge_start src tree"
  let ?lsm = "merge_lsm tree lsm"
  let ?p = "policy\<lparr>lp_tree := tree, lp_tree := ?t\<rparr>"
  have t: "1 \<le> ?t" "?t \<le> 3" using tree by (auto simp: merge_ready_def)
  have r1: "lsm_rep good stored lim U h (dev env) ?lsm ?s" by (rule merge_enters_run(2) [OF r tree False])
  have ok1: "length (?s i) < 2 ^ 28 \<and> (\<forall>e \<in> set (?s i). entry_ok e)" if "i \<le> 4" for i
    using ok that by (auto simp: merge_start_def)
  have "length (?s ?t) < 2 ^ 28" "length (?s (Suc ?t)) < 2 ^ 28" using ok1 t by simp_all
  moreover have es: "es = merge_entries (ls_cmp ?lsm) ?s ?p ?t" using False by (simp add: es_def merge_result_def)
  ultimately have len: "3 * length (merge_entries (ls_cmp ?lsm) ?s ?p ?t) < 2 ^ 31"
    using length_merge_entries [of "ls_cmp ?lsm" ?s ?p ?t] by simp
  have "Suc ?t \<le> 4" "?t \<le> 4" using t by simp_all
  then have okU: "\<forall>e \<in> set (?s ?t) \<union> set (?s (Suc ?t)). entry_ok e" using ok1 by blast
  have io: "ls_io ?lsm = ls_io lsm" "ls_alloc ?lsm = ls_alloc lsm" "ls_cmp ?lsm = ls_cmp lsm" by simp_all
  have p: "lp_tree ?p = ?t" by simp
  have st1: "page_storage (ls_io ?lsm) good stored lim (ls_alloc ?lsm) used failed" using st io by simp
  note run = merge_enters_run(1) [OF r tree False, of policy]
  from merge_run [OF st1 r1 U m p t okU len, folded run es merged_def, unfolded io] obtain rc lsm' h' env' where
    q: "lsm_merge lsm_build_default h lsm tree policy env = Some (rc, lsm', h', merge_policy ?s ?p ?t, env')" "hm env' = []" and
    d: "(\<exists>x. rc = Inl x) \<and> (\<exists>a. failed (dev env') a) \<and> 100 < length es \<and> lsm' = ?lsm \<and> h' = h \<and> U \<subseteq> used (asp env') \<and>
        lsm_rep good stored lim U h (dev env') ?lsm ?s \<or>
      (\<exists>new. rc = Inr () \<and> (new = es \<and> 100 < length es \<or> new = [] \<and> node_bytes es \<le> lvl_max (ls_io lsm)) \<and>
        ls_io lsm' = ls_io lsm \<and> ls_alloc lsm' = ls_alloc lsm \<and> ls_cmp lsm' = ls_cmp lsm \<and>
        lsm_rep good stored lim (used (asp env')) h' (dev env') lsm' (merged src tree new))"
    by blast
  from d show ?thesis
  proof (elim disjE exE conjE)
    fix x a assume "rc = Inl x" "failed (dev env') a" "100 < length es" "lsm' = ?lsm" "h' = h" "U \<subseteq> used (asp env')"
      "lsm_rep good stored lim U h (dev env') ?lsm ?s"
    then show ?thesis using q io False by blast
  next
    fix new assume "rc = Inr ()" "ls_io lsm' = ls_io lsm" "ls_alloc lsm' = ls_alloc lsm" "ls_cmp lsm' = ls_cmp lsm"
      "lsm_rep good stored lim (used (asp env')) h' (dev env') lsm' (merged src tree new)" "new = es" "100 < length es"
    then show ?thesis using q by blast
  next
    fix new assume "rc = Inr ()" "ls_io lsm' = ls_io lsm" "ls_alloc lsm' = ls_alloc lsm" "ls_cmp lsm' = ls_cmp lsm"
      "lsm_rep good stored lim (used (asp env')) h' (dev env') lsm' (merged src tree new)" "new = []" "node_bytes es \<le> lvl_max (ls_io lsm)"
    then show ?thesis using q False by blast
  qed
qed

section \<open>What a lookup finds after a merge\<close>

lemma kv_first_append: "kv_first cmp k (ls @ ms) = (case kv_first cmp k ls of None \<Rightarrow> kv_first cmp k ms | Some v \<Rightarrow> Some v)"
  by (induction ls) (auto split: option.split)

lemma kv_get_Nil [simp]: "kv_get cmp k [] = None"
  by (simp add: kv_get_def)

lemma kv_get_filter:
  assumes "key_order cmp"
  shows "kv_sorted cmp xs \<Longrightarrow> kv_get cmp k (filter P xs) = kv_get cmp k xs \<or>
    kv_get cmp k (filter P xs) = None \<and> (\<exists>e \<in> set xs. cmp (fst e) k = 0 \<and> \<not> P e \<and> kv_get cmp k xs = Some (snd e))"
proof (induction xs)
  case (Cons e xs)
  show ?case
  proof (cases "cmp (fst e) k = 0")
    case True
    have "\<forall>y \<in> set (filter P xs). cmp k (fst y) < 0"
      using Cons.prems True key_order.cmp_cong_left [OF assms True] by (auto simp: kv_sorted_Cons)
    then have "kv_get cmp k (filter P xs) = None" by (rule key_order.kv_get_above [OF assms])
    then show ?thesis using True by (simp add: key_order.kv_get_Cons [OF assms])
  next
    case False
    then show ?thesis using Cons by (auto simp: key_order.kv_get_Cons [OF assms] kv_sorted_Cons)
  qed
qed simp

lemma first_two:
  assumes "key_order cmp" and "kv_sorted cmp (src t)" and "kv_sorted cmp (src (Suc t))"
  shows "kv_first cmp k [src t, src (Suc t)] = kv_get cmp k (kv_merge cmp (src t) (src (Suc t)))"
  using key_order.kv_get_merge [OF assms] by (simp split: option.split)

lemma first_split:
  assumes "t + 1 < n"
  shows "kv_first cmp k (map src [0..<n]) = (case kv_first cmp k (map src [0..<t]) of Some v \<Rightarrow> Some v
    | None \<Rightarrow> (case kv_first cmp k [src t, src (Suc t)] of Some v \<Rightarrow> Some v | None \<Rightarrow> kv_first cmp k (map src [t + 2..<n])))"
proof -
  have "[0..<n] = [0..<t] @ [t, Suc t] @ [t + 2..<n]"
    using assms by (metis One_nat_def Suc_lessD add.commute add_2_eq_Suc le0 less_imp_le_nat plus_1_eq_Suc upt_add_eq_append upt_conv_Cons append_Cons append_Nil le_add_diff_inverse)
  then show ?thesis unfolding \<open>[0..<n] = _\<close> map_append kv_first_append by (simp split: option.split)
qed

lemma first_outside: "kv_first cmp k (map (src(t := a, Suc t := b)) [0..<t]) = kv_first cmp k (map src [0..<t])"
    "kv_first cmp k (map (src(t := a, Suc t := b)) [t + 2..<n]) = kv_first cmp k (map src [t + 2..<n])"
proof -
  have "map (src(t := a, Suc t := b)) [0..<t] = map src [0..<t]" "map (src(t := a, Suc t := b)) [t + 2..<n] = map src [t + 2..<n]"
    by auto
  then show "kv_first cmp k (map (src(t := a, Suc t := b)) [0..<t]) = kv_first cmp k (map src [0..<t])"
    "kv_first cmp k (map (src(t := a, Suc t := b)) [t + 2..<n]) = kv_first cmp k (map src [t + 2..<n])" by simp_all
qed

lemma first_empty: "\<forall>xs \<in> set ls. xs = [] \<Longrightarrow> kv_first cmp k ls = None"
  by (induction ls) simp_all

text \<open>\<open>only_deleted\<close>: a lookup finds what it found before, or nothing where it found an entry that
  is marked as deleted.\<close>

definition only_deleted :: "cmp \<Rightarrow> lsm_merge_policy \<Rightarrow> lsm_key \<Rightarrow> (nat \<Rightarrow> kv list) \<Rightarrow> (nat \<Rightarrow> kv list) \<Rightarrow> bool" where
  "only_deleted cmp policy key src src' \<longleftrightarrow>
     (let old = kv_first cmp key (map src [0..<MAX_DISK_TREES + 2]);
          new = kv_first cmp key (map src' [0..<MAX_DISK_TREES + 2])
      in new = old \<or> new = None \<and> (\<exists>k v. cmp k key = 0 \<and> old = Some v \<and> lp_deleted policy k v))"

lemma entries_lookup:
  assumes ko: "key_order cmp" and s: "\<forall>i \<le> 4. kv_sorted cmp (src i)" and t: "t \<le> 3"
  shows "only_deleted cmp policy key src (src(t := [], Suc t := merge_entries cmp src policy t))"
proof -
  let ?P = "merge_keep (merge_policy src policy t)" and ?M = "kv_merge cmp (src t) (src (Suc t))" and ?n = "MAX_DISK_TREES + 2"
  have n: "t + 1 < ?n" using t by (simp add: MAX_DISK_TREES_def)
  have st: "kv_sorted cmp (src t)" "kv_sorted cmp (src (Suc t))" using s t by simp_all
  have sM: "kv_sorted cmp ?M" by (rule key_order.kv_sorted_merge [OF ko st])
  let ?pre = "kv_first cmp key (map src [0..<t])" and ?suf = "kv_first cmp key (map src [t + 2..<?n])"
  have old: "kv_first cmp key (map src [0..<?n]) = (case ?pre of Some v \<Rightarrow> Some v
      | None \<Rightarrow> (case kv_get cmp key ?M of Some v \<Rightarrow> Some v | None \<Rightarrow> ?suf))"
    unfolding first_split [OF n] first_two [OF ko st] ..
  have new: "kv_first cmp key (map (src(t := [], Suc t := filter ?P ?M)) [0..<?n]) = (case ?pre of Some v \<Rightarrow> Some v
      | None \<Rightarrow> (case kv_get cmp key (filter ?P ?M) of Some v \<Rightarrow> Some v | None \<Rightarrow> ?suf))"
    unfolding first_split [OF n] first_outside by (simp split: option.split)
  from kv_get_filter [OF ko sM, of key ?P] show ?thesis
  proof (elim disjE conjE bexE)
    assume eq: "kv_get cmp key (filter ?P ?M) = kv_get cmp key ?M"
    show ?thesis unfolding only_deleted_def merge_entries_def old new eq by (simp add: Let_def)
  next
    fix e assume e: "kv_get cmp key (filter ?P ?M) = None" "e \<in> set ?M" "cmp (fst e) key = 0" "\<not> ?P e" "kv_get cmp key ?M = Some (snd e)"
    then have d: "lp_deleted policy (fst e) (snd e)" "\<forall>i \<in> {t + 2..4}. src i = []"
      by (auto simp: merge_keep_def merge_policy_def)
    have "\<forall>xs \<in> set (map src [t + 2..<?n]). xs = []" using d(2) by (auto simp: MAX_DISK_TREES_def)
    then have "?suf = None" by (rule first_empty)
    then show ?thesis unfolding only_deleted_def merge_entries_def old new using e(1,3,5) d(1) by (auto simp: Let_def split: option.split)
  qed
qed

lemma start_lookup:
  assumes "tree = 0 \<longrightarrow> src 1 = []"
  shows "kv_first cmp key (map (merge_start src tree) [0..<MAX_DISK_TREES + 2]) = kv_first cmp key (map src [0..<MAX_DISK_TREES + 2])"
proof -
  have "[0..<MAX_DISK_TREES + 2] = [0, 1, 2, 3, 4]" by (simp add: MAX_DISK_TREES_def upt_rec)
  then show ?thesis using assms by (auto simp: merge_start_def split: option.split)
qed

lemma merge_lookup:
  assumes ko: "key_order cmp" and s: "\<forall>i \<le> 4. kv_sorted cmp (src i)" and r: "merge_ready src tree"
  shows "only_deleted cmp policy key src (merge_start src tree)"
    and "only_deleted cmp policy key src (merged src tree (merge_result cmp src policy tree))"
proof -
  have c1: "tree = 0 \<longrightarrow> src 1 = []" "tree \<le> 3" using r by (simp_all add: merge_ready_def)
  note f = start_lookup [of tree src cmp key, OF c1(1)]
  show "only_deleted cmp policy key src (merge_start src tree)" using f by (simp add: only_deleted_def)
  have s1: "\<forall>i \<le> 4. kv_sorted cmp (merge_start src tree i)" using s by (simp add: merge_start_def)
  show "only_deleted cmp policy key src (merged src tree (merge_result cmp src policy tree))"
  proof (cases "merge_moves src tree")
    case True
    then have t: "2 \<le> tree" "src (Suc tree) = []" by (auto simp: merge_moves_def)
    then have n: "tree + 1 < MAX_DISK_TREES + 2" "max 1 tree = tree" using c1(2) by (simp_all add: MAX_DISK_TREES_def)
    have "kv_first cmp key (map (src(tree := [], Suc tree := src tree)) [0..<MAX_DISK_TREES + 2]) =
        kv_first cmp key (map src [0..<MAX_DISK_TREES + 2])"
      unfolding first_split [OF n(1)] first_outside using t(2) by (simp split: option.split)
    then show ?thesis using True t n(2) by (simp add: only_deleted_def merged_def merge_start_def merge_result_def)
  next
    case False
    have "max 1 tree \<le> 3" using c1(2) by simp
    from entries_lookup [OF ko s1 this, of policy key] False f show ?thesis
      by (simp add: only_deleted_def merged_def merge_result_def)
  qed
qed

section \<open>Correctness\<close>

text \<open>The tree of the witnesses: two entries in memory and 120 large ones with greater keys in a
  disk tree.\<close>

definition demo_upper :: "kv list" where
  "demo_upper = map (\<lambda>i. (num_key (word_of_nat (i + 10)), replicate 4000 0)) [0..<120]"

definition demo_big_src :: "nat \<Rightarrow> kv list" where
  "demo_big_src i = (if i = 0 then entries demo_tree else if i = 2 then demo_upper else [])"

lemma demo_upper_value: "i < 120 \<Longrightarrow> test_value (num_key (word_of_nat (i + 10))) = int (i + 10)"
  by (simp add: signed_of_nat signed_take_bit_int_eq_self del: of_nat_add)

lemma demo_upper: "\<forall>e \<in> set demo_upper. entry_ok e" "kv_sorted test_cmp demo_upper" "length demo_upper = 120"
    "node_bytes (es @ demo_upper) = node_bytes es + 120 * 4012"
proof -
  show "\<forall>e \<in> set demo_upper. entry_ok e" by (auto simp: demo_upper_def entry_ok_def entry_small_def)
  have "test_cmp (num_key (word_of_nat (i + 10))) (num_key (word_of_nat (j + 10))) < 0" if "i < j" "j < 120" for i j
    using that demo_upper_value [of i] demo_upper_value [of j] unfolding test_cmp_def by simp
  then show "kv_sorted test_cmp demo_upper"
    by (auto simp: demo_upper_def kv_sorted_def sorted_wrt_map sorted_wrt_iff_nth_less simp del: num_key_simps of_nat_add)
  show "length demo_upper = 120" by (simp add: demo_upper_def)
  show "node_bytes (es @ demo_upper) = node_bytes es + 120 * 4012"
    by (simp add: demo_upper_def node_bytes_def entries_enc_def length_concat comp_def sum_list_triv)
qed

lemma demo_big_merge: "kv_merge test_cmp (entries demo_tree) demo_upper = entries demo_tree @ demo_upper"
proof -
  have "test_cmp (demo_key n) (fst y) < 0" if "n \<in> {5, 9}" "y \<in> set demo_upper" for n y
    using that demo_upper_value unfolding demo_upper_def test_cmp_def by (auto simp del: num_key_simps of_nat_add)
  then show ?thesis by (simp add: entries_demo kv_merge_less)
qed

lemma demo_big_rep:
  "\<exists>(lsm :: (vfile, nat) lsm) (env :: (vfile, nat) env). ls_io lsm = test_io \<and> ls_alloc lsm = volume_alloc \<and> ls_cmp lsm = test_cmp \<and> hm env = [] \<and>
    lsm_rep test_good test_stored test_limit (test_used (asp env)) demo_mheap (dev env) lsm demo_big_src"
proof -
  from test_build [of demo_env demo_upper, OF _ _ demo_upper(1)] demo_upper(3) obtain b env where
    b: "ctree_build test_io volume_alloc demo_upper demo_env = Some (Inr (), b, env)" by (auto simp: test_limit_def)
  have big: "lvl_max test_io < node_bytes demo_upper" using demo_upper(4) [of "[]"] by (simp add: lvl_max_test)
  from test_storage.create_levels [OF demo_env(4) [folded demo_env(1)] demo_env(3) demo_upper(1)] b big demo_upper(3) have
    c: "test_good (dev env)" "hm env = []" "cb_height b \<le> 360"
      "ctree_on test_io (test_stored (dev env)) (test_used (asp env)) test_limit (cb_ptr b) (cb_height b) demo_upper"
    by (auto simp: advances_def)
  let ?t = "ctree_reset (Some (cb_ptr b)) (cb_height b) (cb_pages b) (ctree_setup test_io test_cmp)"
  let ?lsm = "demo_lsm\<lparr>ls_ci := [?t, ctree_setup test_io test_cmp, ctree_setup test_io test_cmp]\<rparr>"
  have t: "tree_on test_good test_stored test_limit (test_used (asp env)) (dev env) ?t demo_upper"
    using c test_device.page_device_axioms test_keys.key_order_axioms demo_upper(2)
    by (simp add: tree_on_def ctree_reset_def ctree_setup_def)
  have "\<forall>e \<in> set demo_upper \<union> set (entries demo_tree). e \<noteq> ([], [])" by (auto simp: entries_demo demo_upper_def)
  from lsm_rep_c0 [OF test_device.page_device_axioms test_keys.key_order_axioms c(1) t _ _ demo_mtree_inv _ this, of volume_alloc]
  have "lsm_rep test_good test_stored test_limit (test_used (asp env)) demo_mheap (dev env) ?lsm demo_big_src"
    by (simp add: demo_big_src_def [abs_def] ctree_reset_def ctree_setup_def demo_lsm_def)
  moreover have "ls_io ?lsm = test_io" "ls_alloc ?lsm = volume_alloc" "ls_cmp ?lsm = test_cmp" by simp_all
  ultimately show ?thesis using c(2) by blast
qed

lemma demo_big_ok: "merge_ready demo_big_src 0" "\<forall>i \<le> 4. length (demo_big_src i) < 2 ^ 28 \<and> (\<forall>e \<in> set (demo_big_src i). entry_ok e)"
  using demo_upper(1,3)
  by (auto simp: merge_ready_def demo_big_src_def entries_demo entry_ok_def entry_small_def demo_key_def)

lemma demo_big_result: "merge_result test_cmp demo_big_src lsm_merge_policy_setup 0 = entries demo_tree @ demo_upper"
  by (simp add: merge_result_def merge_moves_def merge_entries_def merge_start_def demo_big_src_def demo_big_merge
      merge_keep_def merge_policy_def lsm_merge_policy_setup_def lsm_no_delete_def eval_nat_numeral)

text \<open>C5: \<open>lsm_merge\<close> with the default \<open>build\<close> refines merging two sorted lists. Called with
  tree 0 while \<open>c1\<close> is empty, with tree 1 while \<open>ci[0]\<close> is not, or with one of the first two disk trees, it
  ends without undefined behaviour. If it succeeds, the older tree holds the merge of
  the two, where the newer one wins and entries marked as deleted are left out if all older trees are
  empty; the newer tree is empty. If it fails, because the device or the allocator did,
  the content is what it was (that of \<open>c0\<close> now in \<open>c1\<close>). Unless the two trees are just swapped, the merged
  entries must exceed in bytes what one leaf can take (\<open>lvl_max\<close>): with at most 100 of them
  \<open>lsm_merge_loses_small\<close> holds instead. \<open>malloc\<close> does not fail.\<close>

theorem lsm_merge_refines:
  assumes "page_storage (ls_io lsm) good stored lim (ls_alloc lsm) used failed"
    and "lsm_rep good stored lim U h (dev env) lsm src" and "U \<subseteq> used (asp env)" and "hm env = []"
    and "merge_ready src tree" and "\<forall>i \<le> 4. length (src i) < 2 ^ 28 \<and> (\<forall>e \<in> set (src i). entry_ok e)"
    and "merge_moves src tree \<or> lvl_max (ls_io lsm) < node_bytes (merge_result (ls_cmp lsm) src policy tree)"
  shows "\<exists>rc lsm' h' policy' env' U'. lsm_merge lsm_build_default h lsm tree policy env = Some (rc, lsm', h', policy', env') \<and>
    U' \<subseteq> used (asp env') \<and> lsm_rep good stored lim U' h' (dev env') lsm'
      (case rc of Inl e \<Rightarrow> merge_start src tree | Inr _ \<Rightarrow> merged src tree (merge_result (ls_cmp lsm) src policy tree)) \<and>
    (\<forall>e. rc = Inl e \<longrightarrow> (\<exists>a. failed (dev env') a))"
proof -
  from merge_at [OF assms(1-6), of policy] obtain rc lsm' h' policy' env' U' src' where
    q: "lsm_merge lsm_build_default h lsm tree policy env = Some (rc, lsm', h', policy', env')" "U' \<subseteq> used (asp env')"
      "lsm_rep good stored lim U' h' (dev env') lsm' src'" and
    d: "(\<exists>x. rc = Inl x) \<and> (\<exists>a. failed (dev env') a) \<and> src' = merge_start src tree \<or>
      rc = Inr () \<and> src' = merged src tree (merge_result (ls_cmp lsm) src policy tree)"
    using assms(7) by (metis not_less)
  then show ?thesis by (intro exI conjI) (auto split: sum.split)
qed

theorem lsm_merge_refines_witness:
  "\<exists>(lsm :: (vfile, nat) lsm) (env :: (vfile, nat) env) rc lsm' h' policy' env' U'.
    lsm_merge lsm_build_default demo_mheap lsm 0 lsm_merge_policy_setup env = Some (rc, lsm', h', policy', env') \<and>
    lsm_rep test_good test_stored test_limit U' h' (dev env') lsm'
      (case rc of Inl e \<Rightarrow> merge_start demo_big_src 0 | Inr _ \<Rightarrow> merged demo_big_src 0 (entries demo_tree @ demo_upper))"
proof -
  from demo_big_rep obtain lsm :: "(vfile, nat) lsm" and env :: "(vfile, nat) env" where
    r: "ls_io lsm = test_io" "ls_alloc lsm = volume_alloc" "ls_cmp lsm = test_cmp" "hm env = []"
    "lsm_rep test_good test_stored test_limit (test_used (asp env)) demo_mheap (dev env) lsm demo_big_src" by blast
  have st: "page_storage (ls_io lsm) test_good test_stored test_limit (ls_alloc lsm) test_used test_failed"
    using test_storage.page_storage_axioms r(1,2) by simp
  have big: "lvl_max (ls_io lsm) < node_bytes (merge_result (ls_cmp lsm) demo_big_src lsm_merge_policy_setup 0)"
    using r(1,3) by (simp add: demo_big_result demo_upper(4) lvl_max_test)
  from lsm_merge_refines [OF st r(5) order_refl r(4) demo_big_ok disjI2 [OF big], unfolded r(3) demo_big_result] show ?thesis
    by blast
qed

text \<open>C6: under the same conditions, above all that the merged entries exceed what one leaf can take, a merge does
  not change what a lookup finds, whether it succeeds or fails, unless the entry found is marked as deleted; then
  nothing may be found any more (and no older entry for the key comes to light).\<close>

theorem lsm_merge_keeps_lookups:
  assumes "page_storage (ls_io lsm) good stored lim (ls_alloc lsm) used failed"
    and "lsm_rep good stored lim U h (dev env) lsm src" and "U \<subseteq> used (asp env)" and "hm env = []"
    and "merge_ready src tree" and "\<forall>i \<le> 4. length (src i) < 2 ^ 28 \<and> (\<forall>e \<in> set (src i). entry_ok e)"
    and "merge_moves src tree \<or> lvl_max (ls_io lsm) < node_bytes (merge_result (ls_cmp lsm) src policy tree)"
  shows "\<exists>rc lsm' h' policy' env' U' src'. lsm_merge lsm_build_default h lsm tree policy env = Some (rc, lsm', h', policy', env') \<and>
    lsm_rep good stored lim U' h' (dev env') lsm' src' \<and>
    (\<forall>key. let old = kv_first (ls_cmp lsm) key (map src [0..<MAX_DISK_TREES + 2]);
             new = kv_first (ls_cmp lsm') key (map src' [0..<MAX_DISK_TREES + 2])
      in new = old \<or> new = None \<and> (\<exists>k v. ls_cmp lsm k key = 0 \<and> old = Some v \<and> lp_deleted policy k v))"
proof -
  from merge_at [OF assms(1-6), of policy] obtain rc lsm' h' policy' env' U' src' where
    q: "lsm_merge lsm_build_default h lsm tree policy env = Some (rc, lsm', h', policy', env')" "ls_cmp lsm' = ls_cmp lsm"
      "lsm_rep good stored lim U' h' (dev env') lsm' src'" and
    d: "src' = merge_start src tree \<or> src' = merged src tree (merge_result (ls_cmp lsm) src policy tree)"
    using assms(7) by (metis not_less)
  have ko: "key_order (ls_cmp lsm)" using assms(2) by (simp add: lsm_rep_def)
  have "\<forall>i \<le> 4. kv_sorted (ls_cmp lsm) (src i)" using lsm_rep_sorted [OF assms(2)] by blast
  from merge_lookup [OF ko this assms(5), of policy] d have "only_deleted (ls_cmp lsm) policy key src src'" for key by metis
  with q show ?thesis unfolding only_deleted_def by metis
qed

theorem lsm_merge_keeps_lookups_witness:
  "\<exists>(lsm :: (vfile, nat) lsm) (env :: (vfile, nat) env) rc lsm' h' policy' env' U' src'.
    lsm_merge lsm_build_default demo_mheap lsm 0 lsm_merge_policy_setup env = Some (rc, lsm', h', policy', env') \<and>
    lsm_rep test_good test_stored test_limit U' h' (dev env') lsm' src' \<and>
    kv_first (ls_cmp lsm') (demo_key 9) (map src' [0..<MAX_DISK_TREES + 2]) = Some [2]"
proof -
  from demo_big_rep obtain lsm :: "(vfile, nat) lsm" and env :: "(vfile, nat) env" where
    r: "ls_io lsm = test_io" "ls_alloc lsm = volume_alloc" "ls_cmp lsm = test_cmp" "hm env = []"
    "lsm_rep test_good test_stored test_limit (test_used (asp env)) demo_mheap (dev env) lsm demo_big_src" by blast
  have st: "page_storage (ls_io lsm) test_good test_stored test_limit (ls_alloc lsm) test_used test_failed"
    using test_storage.page_storage_axioms r(1,2) by simp
  have big: "lvl_max (ls_io lsm) < node_bytes (merge_result (ls_cmp lsm) demo_big_src lsm_merge_policy_setup 0)"
    using r(1,3) by (simp add: demo_big_result demo_upper(4) lvl_max_test)
  have old: "kv_first (ls_cmp lsm) (demo_key 9) (map demo_big_src [0..<MAX_DISK_TREES + 2]) = Some [2]"
    using r(3) by (simp add: MAX_DISK_TREES_def upt_rec demo_big_src_def entries_demo kv_get_def test_cmp_def)
  have nd: "\<not> lp_deleted lsm_merge_policy_setup k v" for k v by (simp add: lsm_merge_policy_setup_def lsm_no_delete_def)
  from lsm_merge_keeps_lookups [OF st r(5) order_refl r(4) demo_big_ok disjI2 [OF big]] old nd show ?thesis
    unfolding Let_def by metis
qed

text \<open>C13: but a merge whose result has at most 100 entries reports success and loses all of
  them: \<open>ctree_builder_finish\<close> leaves an empty tree, and both merged trees are emptied.\<close>

theorem lsm_merge_loses_small:
  assumes "page_storage (ls_io lsm) good stored lim (ls_alloc lsm) used failed"
    and "lsm_rep good stored lim U h (dev env) lsm src" and "U \<subseteq> used (asp env)" and "hm env = []"
    and "merge_ready src tree" and "\<forall>i \<le> 4. length (src i) < 2 ^ 28 \<and> (\<forall>e \<in> set (src i). entry_ok e)"
    and "\<not> merge_moves src tree" and "length (merge_result (ls_cmp lsm) src policy tree) \<le> 100"
  shows "\<exists>lsm' h' policy' env' U'. lsm_merge lsm_build_default h lsm tree policy env = Some (Inr (), lsm', h', policy', env') \<and>
    lsm_rep good stored lim U' h' (dev env') lsm' (merged src tree [])"
proof -
  from merge_at [OF assms(1-6), of policy] obtain rc lsm' h' policy' env' U' where
    "lsm_merge lsm_build_default h lsm tree policy env = Some (Inr (), lsm', h', policy', env')"
      "lsm_rep good stored lim U' h' (dev env') lsm' (merged src tree [])"
    using assms(7,8) by (metis not_less)
  then show ?thesis by blast
qed

theorem lsm_merge_loses_small_witness:
  "\<exists>env lsm' h' policy' env' U'.
    lsm_merge lsm_build_default demo_mheap demo_lsm 0 lsm_merge_policy_setup env = Some (Inr (), lsm', h', policy', env') \<and>
    lsm_rep test_good test_stored test_limit U' h' (dev env') lsm' (\<lambda>i. [])"
proof -
  let ?env = "\<lparr>dev = demo_disk, asp = 3, hm = []\<rparr>"
  have r: "lsm_rep test_good test_stored test_limit (test_used (asp ?env)) demo_mheap (dev ?env) demo_lsm demo_src"
    using demo_lsm_rep by (simp add: test_used_def)
  have st: "page_storage (ls_io demo_lsm) test_good test_stored test_limit (ls_alloc demo_lsm) test_used test_failed"
    using test_storage.page_storage_axioms by simp
  have ok: "\<forall>i \<le> 4. length (demo_src i) < 2 ^ 28 \<and> (\<forall>e \<in> set (demo_src i). entry_ok e)"
    by (simp add: demo_src_def entries_demo demo_list_def demo_leaf1_def demo_leaf2_def entry_ok_def entry_small_def demo_key_def)
  have m: "merge_ready demo_src 0" "\<not> merge_moves demo_src 0" by (simp_all add: merge_ready_def merge_moves_def demo_src_def)
  have "length (merge_start demo_src 0 1) + length (merge_start demo_src 0 (Suc 1)) = 5"
    by (simp add: merge_start_def demo_src_def entries_demo demo_list_def demo_leaf1_def demo_leaf2_def)
  then have "length (merge_entries test_cmp (merge_start demo_src 0) lsm_merge_policy_setup 1) \<le> 100"
    using length_merge_entries [of test_cmp "merge_start demo_src 0" lsm_merge_policy_setup 1] by linarith
  then have few: "length (merge_result (ls_cmp demo_lsm) demo_src lsm_merge_policy_setup 0) \<le> 100"
    using m(2) by (simp add: merge_result_def)
  have "merged demo_src 0 [] = (\<lambda>i. [])" by (auto simp: merged_def merge_start_def demo_src_def fun_eq_iff)
  with lsm_merge_loses_small [OF st r order_refl _ m(1) ok m(2) few] show ?thesis by (metis env.select_convs(3))
qed

text \<open>C14: a merge of \<open>c0\<close> that failed while \<open>ci[0]\<close> was empty cannot be repeated. Its entries are
  in \<open>c1\<close> then: tree 0 fails the assertion that \<open>c1\<close> is empty, and for tree 1 the code swaps
  \<open>ci[0]\<close> with \<open>ci[-1]\<close>.\<close>

theorem lsm_merge_stuck:
  assumes "lsm_rep good stored lim U h d lsm src" and "src 1 \<noteq> []" and "src 2 = []"
  shows "lsm_merge build h lsm 0 policy env = None \<and> lsm_merge build h lsm 1 policy env = None"
proof
  show "lsm_merge build h lsm 0 policy env = None" using lsm_rep_c1_empty [OF assms(1)] assms(2) by (simp add: lsm_merge_def)
  have "0 < MAX_DISK_TREES" by (simp add: MAX_DISK_TREES_def)
  from tree_on_is_empty [OF lsm_rep_tree(1) [OF assms(1) this]] assms(3) show "lsm_merge build h lsm 1 policy env = None"
    by (simp add: lsm_merge_def Let_def numeral_2_eq_2)
qed

theorem lsm_merge_stuck_witness:
  "\<exists>(lsm :: (vfile, nat) lsm). \<forall>policy env. lsm_merge lsm_build_default demo_mheap lsm 0 policy (env :: (vfile, nat) env) = None \<and>
    lsm_merge lsm_build_default demo_mheap lsm 1 policy env = None"
proof -
  have g: "test_good demo_disk" by (simp add: test_good_def demo_disk_def)
  note pd = test_device.page_device_axioms and ko = test_keys.key_order_axioms
  have "\<forall>e \<in> set [] \<union> set (entries demo_tree). e \<noteq> ([], [])" by (auto simp: entries_demo)
  from lsm_rep_c0 [OF pd ko g tree_on_empty [OF pd ko g, of "{..<3}"] _ _ demo_mtree_inv _ this, of volume_alloc]
  obtain lsm :: "(vfile, nat) lsm" where
    "lsm_rep test_good test_stored test_limit {..<3} demo_mheap demo_disk lsm (\<lambda>i. if i = 0 then entries demo_tree else if i = 2 then [] else [])"
    by (auto simp: ctree_setup_def)
  from lsm_merge_stuck [OF lsm_rep_swap [OF this]] show ?thesis by (auto simp: entries_demo)
qed

end
