(* ===== verification/Log.thy ===== *)
theory Log
  imports CtreeTree
begin

text \<open>
  The transaction log (\<open>lib/log.c\<close>, \<open>inc/log.h\<close>): items are collected in a buffer, which is
  written as a chunk when it is full; a header with the pointers to all chunks is written last.

  The header and the array of chunk pointers are one block of memory: \<open>tl_header\<close> is its size,
  0 for NULL, and \<open>tl_chunk\<close> the part of the array that has been filled. The length of
  \<open>tl_chunk_data\<close> is \<open>chunk_max_size\<close>. Sizes are those of blocks in memory, so their sums do not
  wrap around.
\<close>

section \<open>State (struct trans_log)\<close>

definition TRANS_CHUNK_MAX_SIZE :: nat where
  "TRANS_CHUNK_MAX_SIZE = 128 * 1024"

definition log_entry_size :: nat where
  "log_entry_size = 2"

definition log_header_size :: nat where
  "log_header_size = 8"

definition log_ptr_size :: nat where
  "log_ptr_size = 24"

text \<open>An item (\<open>struct log_item\<close>) is a block of bytes.\<close>

type_synonym log_item = bytes

record ('d, 'a) trans_log =
  tl_io :: "'d io"
  tl_alloc :: "'a alloc_ops"
  tl_header :: nat
  tl_chunk :: "aulsmfs_ptr list"
  tl_max_chunks :: nat
  tl_chunk_data :: "byte list"
  tl_chunk_size :: nat
  tl_pages :: nat
  tl_ptr :: aulsmfs_ptr

definition trans_log_setup :: "'d io \<Rightarrow> 'a alloc_ops \<Rightarrow> ('d, 'a) trans_log" where
  "trans_log_setup io al = \<lparr>tl_io = io, tl_alloc = al, tl_header = 0, tl_chunk = [], tl_max_chunks = 0,
     tl_chunk_data = [], tl_chunk_size = 0, tl_pages = 0, tl_ptr = ptr_null\<rparr>"

text \<open>The pointers to the device and the allocator are cleared too.\<close>

definition trans_log_release :: "('d, 'a) trans_log \<Rightarrow> ('d, 'a) trans_log" where
  "trans_log_release log = trans_log_setup (tl_io log) (tl_alloc log)"

section \<open>Writing\<close>

text \<open>\<open>realloc\<close> gets \<open>chunk\<close>, which is NULL at first and then points behind the header into the
  block: a second call is undefined.\<close>

definition trans_log_reserve_chunk ::
    "('d, 'a) trans_log \<Rightarrow> nat \<Rightarrow> mem \<Rightarrow> ((errno + unit) \<times> ('d, 'a) trans_log \<times> mem) option" where
  "trans_log_reserve_chunk log count m =
     (let need = length (tl_chunk log) + count in
      if need \<le> tl_max_chunks log then Some (Inr (), log, m)
      else
        (let chunks = (if tl_max_chunks log * 2 \<noteq> 0 then tl_max_chunks log * 2 else 16);
             chunks = (if chunks < need then need else chunks);
             sz = io_align (tl_io log) (chunks * log_ptr_size + log_header_size)
         in if tl_header log \<noteq> 0 then None
            else (case mem_alloc m of (ok, m) \<Rightarrow>
              Some (if \<not> ok then (Inl ENOMEM, log, m)
                else (Inr (), log\<lparr>tl_header := sz, tl_max_chunks := chunks\<rparr>, m)))))"

definition trans_log_write ::
    "('d, 'a) trans_log \<Rightarrow> byte list \<Rightarrow> nat \<Rightarrow> ('d, 'a) env \<Rightarrow> ((errno + aulsmfs_ptr) \<times> ('d, 'a) env) option" where
  "trans_log_write log data sz env =
     (case alloc_reserve (tl_alloc log) (asp env) sz of
        (Inl e, a) \<Rightarrow> Some (Inl e, env\<lparr>asp := a\<rparr>)
      | (Inr offs, a) \<Rightarrow> do {
          (rc, d) \<leftarrow> io_write (tl_io log) (dev env) data sz offs;
          (case rc of
             Inl e \<Rightarrow>
               (case alloc_cancel (tl_alloc log) a sz offs of
                  (Inl _, a) \<Rightarrow> None
                | (Inr _, a) \<Rightarrow> Some (Inl e, env\<lparr>dev := d, asp := a\<rparr>))
           | Inr _ \<Rightarrow>
               if length data < io_bytes (tl_io log) sz then None
               else Some (Inr \<lparr>ptr_offs = word_of_nat offs, ptr_size = word_of_nat sz,
                   ptr_csum = crc64 (take (io_bytes (tl_io log) sz) data)\<rparr>, env\<lparr>dev := d, asp := a\<rparr>)) })"

definition trans_log_flush ::
    "('d, 'a) trans_log \<Rightarrow> ('d, 'a) env \<Rightarrow> ((errno + unit) \<times> ('d, 'a) trans_log \<times> ('d, 'a) env) option" where
  "trans_log_flush log env =
     (if io_align (tl_io log) (length (tl_chunk_data log)) \<noteq> length (tl_chunk_data log) then None
      else if tl_chunk_size log = 0 then Some (Inr (), log, env)
      else do {
        (rc, log, m) \<leftarrow> trans_log_reserve_chunk log 1 (hm env);
        let env = env\<lparr>hm := m\<rparr>;
        (case rc of
           Inl e \<Rightarrow> Some (Inl e, log, env)
         | Inr _ \<Rightarrow>
             (let pages = io_pages (tl_io log) (tl_chunk_size log);
                  sz = io_bytes (tl_io log) pages
              in if length (tl_chunk_data log) < sz then None
                 else do {
                   let log = log\<lparr>tl_chunk_data := buf_put (tl_chunk_data log) (tl_chunk_size log)
                     (replicate (sz - tl_chunk_size log) 0)\<rparr>;
                   (rc, env) \<leftarrow> trans_log_write log (tl_chunk_data log) pages env;
                   Some (case rc of
                     Inl e \<Rightarrow> (Inl e, log, env)
                   | Inr p \<Rightarrow> (Inr (), log\<lparr>tl_chunk_size := 0, tl_chunk := tl_chunk log @ [p],
                       tl_pages := tl_pages log + pages\<rparr>, env)) })) })"

text \<open>\<open>need\<close> is not computed again after the buffer has been written.\<close>

definition trans_log_reserve ::
    "('d, 'a) trans_log \<Rightarrow> nat \<Rightarrow> ('d, 'a) env \<Rightarrow> ((errno + unit) \<times> ('d, 'a) trans_log \<times> ('d, 'a) env) option" where
  "trans_log_reserve log sz env = do {
     let need = tl_chunk_size log + sz;
     (rc, log, env) \<leftarrow> (if TRANS_CHUNK_MAX_SIZE < need then trans_log_flush log env else Some (Inr (), log, env));
     (case rc of
        Inl e \<Rightarrow> Some (Inl e, log, env)
      | Inr _ \<Rightarrow>
          if need \<le> length (tl_chunk_data log) then Some (Inr (), log, env)
          else
            (let dbl = io_align (tl_io log) (length (tl_chunk_data log) * 2);
                 new_size = (if need < TRANS_CHUNK_MAX_SIZE \<and> dbl \<le> TRANS_CHUNK_MAX_SIZE \<and> need \<le> dbl
                   then dbl else io_align (tl_io log) need)
             in case mem_alloc (hm env) of (ok, m) \<Rightarrow>
                  Some (if \<not> ok then (Inl ENOMEM, log, env\<lparr>hm := m\<rparr>)
                    else (Inr (), log\<lparr>tl_chunk_data := take new_size (tl_chunk_data log @ replicate new_size 0)\<rparr>,
                      env\<lparr>hm := m\<rparr>)))) }"

text \<open>The size of an item is stored at 16 bits.\<close>

definition trans_log_append ::
    "('d, 'a) trans_log \<Rightarrow> log_item \<Rightarrow> ('d, 'a) env \<Rightarrow> ((errno + unit) \<times> ('d, 'a) trans_log \<times> ('d, 'a) env) option" where
  "trans_log_append log item env = do {
     let sz = length item + log_entry_size;
     (rc, log, env) \<leftarrow> trans_log_reserve log sz env;
     (case rc of
        Inl e \<Rightarrow> Some (Inl e, log, env)
      | Inr _ \<Rightarrow>
          if length (tl_chunk_data log) < tl_chunk_size log + sz then None
          else Some (Inr (), log\<lparr>tl_chunk_data := buf_put (tl_chunk_data log) (tl_chunk_size log)
              (le16_enc (word_of_nat (length item)) @ item), tl_chunk_size := tl_chunk_size log + sz\<rparr>, env)) }"

section \<open>Finishing\<close>

text \<open>What the block at \<open>header\<close> holds up to the end of its last page.\<close>

definition log_header_enc :: "('d, 'a) trans_log \<Rightarrow> byte list" where
  "log_header_enc log = le32_enc (word_of_nat (length (tl_chunk log))) @ le32_enc (word_of_nat (tl_pages log)) @
     concat (map ptr_enc (tl_chunk log))"

definition trans_log_finish ::
    "('d, 'a) trans_log \<Rightarrow> ('d, 'a) env \<Rightarrow> ((errno + unit) \<times> ('d, 'a) trans_log \<times> ('d, 'a) env) option" where
  "trans_log_finish log env = do {
     (rc, log, env) \<leftarrow> trans_log_flush log env;
     (case rc of
        Inl e \<Rightarrow> Some (Inl e, log, env)
      | Inr _ \<Rightarrow>
          (let sz = log_header_size + length (tl_chunk log) * log_ptr_size;
               pages = io_pages (tl_io log) sz;
               len = io_bytes (tl_io log) pages
           in if tl_header log = 0 \<or> tl_header log < len then None
              else do {
                (rc, env) \<leftarrow> trans_log_write log (log_header_enc log @ replicate (len - sz) 0) pages env;
                Some (case rc of
                  Inl e \<Rightarrow> (Inl e, log, env)
                | Inr p \<Rightarrow> (Inr (), log\<lparr>tl_ptr := p\<rparr>, env)) })) }"

fun trans_log_cancel_chunks :: "'a alloc_ops \<Rightarrow> aulsmfs_ptr list \<Rightarrow> 'a \<Rightarrow> 'a option" where
  "trans_log_cancel_chunks al [] a = Some a"
| "trans_log_cancel_chunks al (p # ps) a =
     (case alloc_cancel al a (unat (ptr_size p)) (unat (ptr_offs p)) of
        (Inl _, a) \<Rightarrow> None
      | (Inr _, a) \<Rightarrow> trans_log_cancel_chunks al ps a)"

definition trans_log_cancel :: "('d, 'a) trans_log \<Rightarrow> 'a \<Rightarrow> 'a option" where
  "trans_log_cancel log a = trans_log_cancel_chunks (tl_alloc log) (tl_chunk log) a"

end
