(* ===== verification/LogProps.thy ===== *)
theory LogProps
  imports Log CtreeBuild
begin

text \<open>
  What a finished transaction log leaves on the device: a header with pointers to chunks, and
  in the chunks, in order, the items that were appended.
\<close>

section \<open>The format\<close>

definition item_enc :: "log_item \<Rightarrow> byte list" where
  "item_enc x = le16_enc (word_of_nat (length x)) @ x"

definition items_enc :: "log_item list \<Rightarrow> byte list" where
  "items_enc xs = concat (map item_enc xs)"

definition padded :: "'d io \<Rightarrow> byte list \<Rightarrow> byte list" where
  "padded io bs = bs @ replicate (npages io (length bs) * page_size io - length bs) 0"

lemma items_enc_simps [simp]: "items_enc [] = []" "items_enc (x # xs) = item_enc x @ items_enc xs"
    "items_enc (xs @ ys) = items_enc xs @ items_enc ys"
  by (simp_all add: items_enc_def)

lemma length_item_enc [simp]: "length (item_enc x) = length x + 2"
  by (simp add: item_enc_def)

lemma items_enc_empty [simp]: "items_enc xs = [] \<longleftrightarrow> xs = []"
  by (cases xs) (auto simp: item_enc_def le16_enc_def numeral_2_eq_2)

lemma length_padded: "page_ok io \<Longrightarrow> length (padded io bs) = npages io (length bs) * page_size io"
  using npages_ge [of io "length bs"] by (simp add: padded_def)

text \<open>A pointer to data on the device.\<close>

definition ptr_holds ::
    "'d io \<Rightarrow> (nat \<Rightarrow> byte list \<Rightarrow> bool) \<Rightarrow> nat set \<Rightarrow> nat \<Rightarrow> aulsmfs_ptr \<Rightarrow> byte list \<Rightarrow> bool" where
  "ptr_holds io S U lim p bs \<longleftrightarrow> (\<exists>off n. p = \<lparr>ptr_offs = word_of_nat off, ptr_size = word_of_nat n, ptr_csum = crc64 bs\<rparr> \<and>
     length bs = n * page_size io \<and> S off bs \<and> off + n \<le> lim \<and> extent off n \<subseteq> U)"

definition chunks_on ::
    "'d io \<Rightarrow> (nat \<Rightarrow> byte list \<Rightarrow> bool) \<Rightarrow> nat set \<Rightarrow> nat \<Rightarrow> aulsmfs_ptr list \<Rightarrow> log_item list list \<Rightarrow> bool" where
  "chunks_on io S U lim ps groups \<longleftrightarrow> list_all2 (\<lambda>p xs. ptr_holds io S U lim p (padded io (items_enc xs))) ps groups"

definition header_enc :: "aulsmfs_ptr list \<Rightarrow> nat \<Rightarrow> byte list" where
  "header_enc ps pages = le32_enc (word_of_nat (length ps)) @ le32_enc (word_of_nat pages) @ concat (map ptr_enc ps)"

definition group_pages :: "'d io \<Rightarrow> log_item list list \<Rightarrow> nat" where
  "group_pages io groups = sum_list (map (\<lambda>xs. npages io (length (items_enc xs))) groups)"

definition log_on ::
    "'d io \<Rightarrow> (nat \<Rightarrow> byte list \<Rightarrow> bool) \<Rightarrow> nat set \<Rightarrow> nat \<Rightarrow> aulsmfs_ptr \<Rightarrow> log_item list \<Rightarrow> bool" where
  "log_on io S U lim p items \<longleftrightarrow> (\<exists>ps groups. ptr_holds io S U lim p (padded io (header_enc ps (group_pages io groups))) \<and>
     chunks_on io S U lim ps groups \<and> concat groups = items)"

lemma ptr_holds_keeps:
  "ptr_holds io S U lim p bs \<Longrightarrow> keeps (page_size io) U S S' \<Longrightarrow> U \<subseteq> U' \<Longrightarrow> ptr_holds io S' U' lim p bs"
  unfolding ptr_holds_def keeps_def by (metis subset_trans)

lemma chunks_on_keeps:
  "chunks_on io S U lim ps groups \<Longrightarrow> keeps (page_size io) U S S' \<Longrightarrow> U \<subseteq> U' \<Longrightarrow> chunks_on io S' U' lim ps groups"
  unfolding chunks_on_def by (erule list_all2_mono) (rule ptr_holds_keeps)

section \<open>A log that is being written\<close>

definition log_inv ::
    "'d io \<Rightarrow> 'a alloc_ops \<Rightarrow> (nat \<Rightarrow> byte list \<Rightarrow> bool) \<Rightarrow> nat set \<Rightarrow> nat \<Rightarrow> ('d, 'a) trans_log \<Rightarrow>
     log_item list list \<Rightarrow> log_item list \<Rightarrow> bool" where
  "log_inv io al S U lim log groups cur \<longleftrightarrow> tl_io log = io \<and> tl_alloc log = al \<and>
     chunks_on io S U lim (tl_chunk log) groups \<and> tl_pages log = group_pages io groups \<and>
     take (tl_chunk_size log) (tl_chunk_data log) = items_enc cur \<and> tl_chunk_size log = length (items_enc cur) \<and>
     tl_chunk_size log \<le> length (tl_chunk_data log) \<and> tl_chunk_size log \<le> TRANS_CHUNK_MAX_SIZE \<and>
     (\<exists>k. length (tl_chunk_data log) = k * page_size io) \<and> length (tl_chunk_data log) < 2 ^ 40 \<and>
     (if tl_header log = 0 then tl_max_chunks log = 0
      else tl_max_chunks log = 16 \<and> tl_header log = npages io 392 * page_size io) \<and>
     length (tl_chunk log) \<le> tl_max_chunks log"

text \<open>What every operation does to the world.\<close>

definition log_step ::
    "'d io \<Rightarrow> ('d \<Rightarrow> bool) \<Rightarrow> ('d \<Rightarrow> nat \<Rightarrow> byte list \<Rightarrow> bool) \<Rightarrow> ('a \<Rightarrow> nat set) \<Rightarrow> ('d, 'a) env \<Rightarrow> ('d, 'a) env \<Rightarrow> bool" where
  "log_step io good stored used env env' \<longleftrightarrow> good (dev env') \<and> hm env' = [] \<and> used (asp env) \<subseteq> used (asp env') \<and>
     keeps (page_size io) (used (asp env)) (stored (dev env)) (stored (dev env'))"

lemma log_step_refl: "good (dev env) \<Longrightarrow> hm env = [] \<Longrightarrow> log_step io good stored used env env"
  by (simp add: log_step_def)

lemma log_step_trans: "log_step io good stored used e1 e2 \<Longrightarrow> log_step io good stored used e2 e3 \<Longrightarrow> log_step io good stored used e1 e3"
  unfolding log_step_def by (meson keeps_trans subset_trans)

text \<open>When a write fails, the code asserts that the reservation made for it can be cancelled. Nothing in
  \<open>inc/alloc.h\<close> says that this cannot fail; an allocator that may refuse to take back the extent it has just
  handed out:\<close>

definition cancel_refused :: "'a alloc_ops \<Rightarrow> bool" where
  "cancel_refused al \<longleftrightarrow> (\<exists>a0 n off a e a'. alloc_reserve al a0 n = (Inr off, a) \<and> alloc_cancel al a n off = (Inl e, a'))"

text \<open>The lemmas below follow a call that does not end in this assertion.\<close>

context page_storage
begin

lemma inv_step:
  "log_inv io al (stored (dev env)) (used (asp env)) limit log groups cur \<Longrightarrow> log_step io good stored used env env' \<Longrightarrow>
   log_inv io al (stored (dev env')) (used (asp env')) limit log groups cur"
  unfolding log_inv_def log_step_def using chunks_on_keeps by blast

lemma write_at:
  assumes log: "tl_io log = io" "tl_alloc log = al" and g: "good (dev env)" "hm env = []"
    and n: "0 < n" "n * page_size io \<le> length data" "n * page_size io \<le> lvl_max io"
    and go: "trans_log_write log data n env \<noteq> None \<or> \<not> cancel_refused al"
  shows "\<exists>rc env'. trans_log_write log data n env = Some (rc, env') \<and> log_step io good stored used env env' \<and>
    (case rc of Inl e \<Rightarrow> failed (dev env') (asp env')
     | Inr p \<Rightarrow> ptr_holds io (stored (dev env')) (used (asp env')) limit p (take (n * page_size io) data))"
proof -
  obtain r a where r: "alloc_reserve al (asp env) n = (r, a)" by fastforce
  show ?thesis
  proof (cases r)
    case (Inl e)
    then have "log_step io good stored used env (env\<lparr>asp := a\<rparr>)" "failed (dev env) a"
      using reserve_fails [of "asp env" n e a] reserve_reports [of "asp env" n e a "dev env"] r n(3) g by (simp_all add: log_step_def)
    then show ?thesis using r Inl log by (simp add: trans_log_write_def)
  next
    case (Inr off)
    then have f: "extent off n \<inter> used (asp env) = {}" "used a = used (asp env) \<union> extent off n" "off + n \<le> limit"
      using reserve_fresh [of "asp env" n off a] r by simp_all
    from write_stores [OF g(1) n(1) f(3) n(2)] obtain w d where
      w: "io_write io (dev env) data n off = Some (w, d)" "good d" "w = Inr () \<longrightarrow> stored d off (take (n * page_size io) data)"
        "\<forall>o' k bs'. stored (dev env) o' bs' \<and> length bs' = k * page_size io \<and> extent o' k \<inter> extent off n = {} \<longrightarrow> stored d o' bs'"
      by blast
    have k: "keeps (page_size io) (used (asp env)) (stored (dev env)) (stored d)" using w(4) f(1) unfolding keeps_def by blast
    show ?thesis
    proof (cases w)
      case (Inl e)
      obtain rc' a' where c: "alloc_cancel al a n off = (rc', a')" by fastforce
      have "rc' = Inr ()"
      proof (cases rc')
        case (Inl e')
        then have "cancel_refused al" "trans_log_write log data n env = None"
          using r \<open>r = Inr off\<close> c w(1) \<open>w = Inl e\<close> log by (simp_all add: cancel_refused_def trans_log_write_def) blast
        then show ?thesis using go by blast
      qed simp
      then have a': "alloc_cancel al a n off = (Inr (), a')" using c by simp
      have "used a - extent off n \<subseteq> used a'" by (rule cancel_frees [OF a'])
      then have "log_step io good stored used env (env\<lparr>dev := d, asp := a'\<rparr>)" using w(2) k f(1,2) g by (auto simp: log_step_def)
      moreover have "failed d a'" using write_reports [OF g(1) n(1) f(3) n(2)] w(1) Inl by blast
      ultimately show ?thesis using r \<open>r = Inr off\<close> w(1) Inl a' log by (simp add: trans_log_write_def)
    next
      case (Inr u)
      have b: "io_bytes io n = n * page_size io" using n(3) lvl_max_bounds(3) [OF page] by (simp add: io_bytes_eq)
      let ?p = "\<lparr>ptr_offs = word_of_nat off, ptr_size = word_of_nat n, ptr_csum = crc64 (take (n * page_size io) data)\<rparr>"
      have "trans_log_write log data n env = Some (Inr ?p, env\<lparr>dev := d, asp := a\<rparr>)"
        using r \<open>r = Inr off\<close> w(1) Inr log b n(2) by (simp add: trans_log_write_def)
      moreover have "ptr_holds io (stored d) (used a) limit ?p (take (n * page_size io) data)"
        unfolding ptr_holds_def using w(3) Inr n(2) f by (intro exI [of _ off] exI [of _ n]) auto
      moreover have "log_step io good stored used env (env\<lparr>dev := d, asp := a\<rparr>)" using w(2) k f(2) g by (auto simp: log_step_def)
      ultimately show ?thesis by auto
    qed
  qed
qed

lemma room_392: "npages io 392 * page_size io \<le> lvl_max io" "a \<le> TRANS_CHUNK_MAX_SIZE \<Longrightarrow> npages io a * page_size io \<le> lvl_max io"
  using npages_mono [OF page, of 392 "16 + 100 * 4096"] npages_mono [OF page, of a "16 + 100 * 4096"]
  by (auto simp: lvl_max_def lvl_pages_def TRANS_CHUNK_MAX_SIZE_def)

lemma small_pages:
  assumes "a < 2 ^ 41"
  shows "io_pages io a = npages io a" and "io_align io a = npages io a * page_size io" and "io_bytes io (npages io a) = npages io a * page_size io"
    and "npages io a * page_size io < a + 2 ^ 32"
proof -
  have "a + page_size io \<le> 2 ^ 64" using assms page_ok_le [OF page] by simp
  then show "io_pages io a = npages io a" "io_align io a = npages io a * page_size io" by (simp_all add: page_simps page)
  show "npages io a * page_size io < a + 2 ^ 32" using npages_less [OF page, of a] page_ok_le [OF page] by simp
  then show "io_bytes io (npages io a) = npages io a * page_size io" using assms by (simp add: io_bytes_eq)
qed

lemma pages_pos: "0 < a \<Longrightarrow> 0 < npages io a"
  using npages_le_iff [OF page, of a 0] by simp

lemma reserve_chunk_at:
  assumes i: "log_inv io al S U limit log groups cur" and n: "length groups \<le> 15"
  shows "\<exists>log'. trans_log_reserve_chunk log 1 [] = Some (Inr (), log', []) \<and> log_inv io al S U limit log' groups cur \<and>
    tl_header log' \<noteq> 0 \<and> length (tl_chunk log') < 16 \<and> tl_chunk_data log' = tl_chunk_data log"
proof -
  have len: "length (tl_chunk log) \<le> 15" using i n by (auto simp: log_inv_def chunks_on_def dest: list_all2_lengthD)
  have al: "io_align io (16 * log_ptr_size + log_header_size) = npages io 392 * page_size io"
    using small_pages(2) [of 392] by (simp add: log_ptr_size_def log_header_size_def)
  have pos: "0 < npages io 392 * page_size io" using pages_pos page_ok_pos [OF page] by simp
  show ?thesis
  proof (cases "tl_header log = 0")
    case True
    then have z: "tl_max_chunks log = 0" "tl_chunk log = []" using i by (auto simp: log_inv_def)
    let ?log = "log\<lparr>tl_header := npages io 392 * page_size io, tl_max_chunks := 16\<rparr>"
    have "trans_log_reserve_chunk log 1 [] = Some (Inr (), ?log, [])"
      using i True z al by (simp add: trans_log_reserve_chunk_def Let_def log_inv_def)
    moreover have "log_inv io al S U limit ?log groups cur" using i pos z by (auto simp: log_inv_def)
    ultimately show ?thesis using pos z by auto
  next
    case False
    then have "trans_log_reserve_chunk log 1 [] = Some (Inr (), log, [])"
      using i len by (simp add: trans_log_reserve_chunk_def log_inv_def)
    then show ?thesis using i False len by auto
  qed
qed

lemma inv_room:
  assumes "log_inv io al S U limit log groups cur"
  shows "npages io (tl_chunk_size log) * page_size io \<le> length (tl_chunk_data log)"
    and "io_align io (length (tl_chunk_data log)) = length (tl_chunk_data log)"
proof -
  obtain k where k: "length (tl_chunk_data log) = k * page_size io" using assms by (auto simp: log_inv_def)
  have "npages io (tl_chunk_size log) \<le> k" using assms k by (simp add: npages_le_iff [OF page] log_inv_def)
  then show "npages io (tl_chunk_size log) * page_size io \<le> length (tl_chunk_data log)" using k by simp
  have "length (tl_chunk_data log) < 2 ^ 41" using assms by (simp add: log_inv_def)
  from small_pages(2) [OF this] show "io_align io (length (tl_chunk_data log)) = length (tl_chunk_data log)"
    unfolding k using page by simp
qed

lemma flush_at:
  assumes i: "log_inv io al (stored (dev env)) (used (asp env)) limit log groups cur" and g: "good (dev env)" "hm env = []"
    and n: "length groups \<le> 15" and go: "trans_log_flush log env \<noteq> None \<or> \<not> cancel_refused al"
  shows "\<exists>rc log' env'. trans_log_flush log env = Some (rc, log', env') \<and> log_step io good stored used env env' \<and>
    length (tl_chunk_data log') = length (tl_chunk_data log) \<and>
    ((\<exists>x. rc = Inl x \<and> failed (dev env') (asp env')) \<and> log_inv io al (stored (dev env')) (used (asp env')) limit log' groups cur \<or>
     rc = Inr () \<and> log_inv io al (stored (dev env')) (used (asp env')) limit log' (if cur = [] then groups else groups @ [cur]) [])"
proof (cases "cur = []")
  case True
  then have "trans_log_flush log env = Some (Inr (), log, env)" using i inv_room(2) [OF i] by (simp add: trans_log_flush_def log_inv_def)
  then show ?thesis using True i log_step_refl [of good env, OF g] by auto
next
  case False
  let ?c = "length (items_enc cur)" and ?S = "stored (dev env)" and ?U = "used (asp env)"
  have c: "tl_chunk_size log = ?c" "?c \<noteq> 0" "?c \<le> TRANS_CHUNK_MAX_SIZE" "take ?c (tl_chunk_data log) = items_enc cur"
      "?c \<le> length (tl_chunk_data log)"
    using i False by (auto simp: log_inv_def)
  from reserve_chunk_at [OF i n] obtain log1 where
    r: "trans_log_reserve_chunk log 1 [] = Some (Inr (), log1, [])" "log_inv io al ?S ?U limit log1 groups cur" "tl_header log1 \<noteq> 0"
      "length (tl_chunk log1) < 16" "tl_chunk_data log1 = tl_chunk_data log" by blast
  have l1: "tl_io log1 = io" "tl_alloc log1 = al" "tl_chunk_size log1 = ?c" "tl_max_chunks log1 = 16"
    using r(2,3) by (auto simp: log_inv_def)
  let ?n = "npages io ?c"
  have c41: "?c < 2 ^ 41" using c(3) by (simp add: TRANS_CHUNK_MAX_SIZE_def)
  note sp = small_pages [OF c41]
  have room: "?n * page_size io \<le> length (tl_chunk_data log)" using inv_room(1) [OF i] c(1) by simp
  let ?data = "buf_put (tl_chunk_data log) ?c (replicate (?n * page_size io - ?c) 0)"
  let ?log2 = "log1\<lparr>tl_chunk_data := ?data\<rparr>"
  have ge: "?c \<le> ?n * page_size io" by (rule npages_ge [OF page])
  have len: "length ?data = length (tl_chunk_data log)" using ge room by simp
  have img: "take (?n * page_size io) ?data = padded io (items_enc cur)"
    using c(4,5) ge room by (simp add: buf_put_def padded_def min_absorb2)
  have i2: "log_inv io al ?S ?U limit ?log2 groups cur"
    using r(2,5) len c(1,4,5) by (simp add: log_inv_def) (simp add: buf_put_def)
  have n0: "0 < ?n" using pages_pos c(2) by simp
  have e: "env\<lparr>hm := []\<rparr> = env" using g(2) by (cases env) simp
  note flush = trans_log_flush_def Let_def log_inv_def e g(2)
  have "trans_log_flush log env = None" if "trans_log_write ?log2 ?data ?n env = None"
    using that c(1,2) inv_room(2) [OF i] i r(1,5) l1 sp room by (simp add: flush)
  then have "trans_log_write ?log2 ?data ?n env \<noteq> None \<or> \<not> cancel_refused al" using go by blast
  from write_at [of ?log2 env ?n ?data, OF _ _ g n0 _ _ this] l1(1,2) len room room_392(2) [OF c(3)] obtain rc env1 where
    w: "trans_log_write ?log2 ?data ?n env = Some (rc, env1)" "log_step io good stored used env env1"
      "case rc of Inl e \<Rightarrow> failed (dev env1) (asp env1)
       | Inr p \<Rightarrow> ptr_holds io (stored (dev env1)) (used (asp env1)) limit p (padded io (items_enc cur))"
    unfolding img by auto
  have run: "trans_log_flush log env = Some (case rc of Inl x \<Rightarrow> (Inl x, ?log2, env1)
      | Inr p \<Rightarrow> (Inr (), ?log2\<lparr>tl_chunk_size := 0, tl_chunk := tl_chunk ?log2 @ [p], tl_pages := tl_pages ?log2 + ?n\<rparr>, env1))"
    using c(1,2) inv_room(2) [OF i] i r(1,5) l1 sp room w(1)
    by (simp add: flush split: sum.split)
  note i3 = inv_step [OF i2 w(2)]
  show ?thesis
  proof (cases rc)
    case (Inl x)
    then show ?thesis using run w i3 len by auto
  next
    case (Inr p)
    let ?log3 = "?log2\<lparr>tl_chunk_size := 0, tl_chunk := tl_chunk ?log2 @ [p], tl_pages := tl_pages ?log2 + ?n\<rparr>"
    have "ptr_holds io (stored (dev env1)) (used (asp env1)) limit p (padded io (items_enc cur))" using w(3) Inr by simp
    then have "log_inv io al (stored (dev env1)) (used (asp env1)) limit ?log3 (groups @ [cur]) []"
      using i3 r(3,4) l1(4) by (auto simp: log_inv_def chunks_on_def group_pages_def list_all2_appendI)
    then show ?thesis using run w Inr len False by auto
  qed
qed

lemma buffer_at:
  assumes i: "log_inv io al S U limit log groups cur" and g: "hm env = []"
    and need: "tl_chunk_size log + sz \<le> need" "need \<le> 2 * TRANS_CHUNK_MAX_SIZE" "\<not> need \<le> length (tl_chunk_data log)"
  defines "dbl \<equiv> io_align io (length (tl_chunk_data log) * 2)"
  defines "n \<equiv> (if need < TRANS_CHUNK_MAX_SIZE \<and> dbl \<le> TRANS_CHUNK_MAX_SIZE \<and> need \<le> dbl then dbl else io_align io need)"
  shows "log_inv io al S U limit (log\<lparr>tl_chunk_data := take n (tl_chunk_data log @ replicate n 0)\<rparr>) groups cur"
    and "tl_chunk_size log + sz \<le> length (take n (tl_chunk_data log @ replicate n 0))"
proof -
  let ?L = "length (tl_chunk_data log)"
  have L: "?L < 2 ^ 40" "tl_chunk_size log \<le> ?L" using i by (auto simp: log_inv_def)
  have "?L * 2 < 2 ^ 41" "need < 2 ^ 41" using L need(2) by (auto simp: TRANS_CHUNK_MAX_SIZE_def)
  note d = small_pages(2) [OF this(1)] and a = small_pages(2,4) [OF this(2)]
  have n: "need \<le> n" using npages_ge [OF page, of need] by (auto simp: n_def a)
  have "\<exists>k. n = k * page_size io" using a d by (auto simp: n_def dbl_def)
  moreover have "n < 2 ^ 40" using a need(2) by (auto simp: n_def TRANS_CHUNK_MAX_SIZE_def)
  moreover have len: "length (take n (tl_chunk_data log @ replicate n 0)) = n" by simp
  moreover have "take (tl_chunk_size log) (take n (tl_chunk_data log @ replicate n 0)) = take (tl_chunk_size log) (tl_chunk_data log)"
    using n need L(2) by (simp add: min_absorb1)
  ultimately show "log_inv io al S U limit (log\<lparr>tl_chunk_data := take n (tl_chunk_data log @ replicate n 0)\<rparr>) groups cur"
    using i n need by (auto simp: log_inv_def)
  show "tl_chunk_size log + sz \<le> length (take n (tl_chunk_data log @ replicate n 0))" using n need len by linarith
qed

lemma reserve_at:
  assumes i: "log_inv io al (stored (dev env)) (used (asp env)) limit log groups cur" and g: "good (dev env)" "hm env = []"
    and n: "length groups \<le> 15" and sz: "sz \<le> 65537" and go: "trans_log_reserve log sz env \<noteq> None \<or> \<not> cancel_refused al"
  shows "\<exists>rc log' env'. trans_log_reserve log sz env = Some (rc, log', env') \<and> log_step io good stored used env env' \<and>
    ((\<exists>x. rc = Inl x \<and> failed (dev env') (asp env')) \<and> log_inv io al (stored (dev env')) (used (asp env')) limit log' groups cur \<or>
     rc = Inr () \<and> tl_chunk_size log' + sz \<le> length (tl_chunk_data log') \<and> tl_chunk_size log' + sz \<le> TRANS_CHUNK_MAX_SIZE \<and>
       (log_inv io al (stored (dev env')) (used (asp env')) limit log' groups cur \<or>
        65536 \<le> length (items_enc cur) \<and> log_inv io al (stored (dev env')) (used (asp env')) limit log' (groups @ [cur]) []))"
proof -
  let ?need = "tl_chunk_size log + sz"
  let ?flush = "if TRANS_CHUNK_MAX_SIZE < ?need then trans_log_flush log env else Some (Inr (), log, env)"
  have c: "tl_chunk_size log = length (items_enc cur)" "tl_chunk_size log \<le> TRANS_CHUNK_MAX_SIZE" using i by (auto simp: log_inv_def)
  then have big: "65536 \<le> length (items_enc cur)" if "TRANS_CHUNK_MAX_SIZE < ?need" using that sz by (simp add: TRANS_CHUNK_MAX_SIZE_def)
  then have nz: "cur \<noteq> []" if "TRANS_CHUNK_MAX_SIZE < ?need" using that by fastforce
  have "\<exists>rc log1 env1. ?flush = Some (rc, log1, env1) \<and> log_step io good stored used env env1 \<and>
      ((\<exists>x. rc = Inl x \<and> failed (dev env1) (asp env1)) \<and> log_inv io al (stored (dev env1)) (used (asp env1)) limit log1 groups cur \<or>
       rc = Inr () \<and> tl_chunk_size log1 + sz \<le> ?need \<and> tl_chunk_size log1 + sz \<le> TRANS_CHUNK_MAX_SIZE \<and>
         (log_inv io al (stored (dev env1)) (used (asp env1)) limit log1 groups cur \<or>
          65536 \<le> length (items_enc cur) \<and> log_inv io al (stored (dev env1)) (used (asp env1)) limit log1 (groups @ [cur]) []))"
  proof (cases "TRANS_CHUNK_MAX_SIZE < ?need")
    case False
    then show ?thesis using i log_step_refl [of good env, OF g] by auto
  next
    case True
    have "trans_log_flush log env \<noteq> None \<or> \<not> cancel_refused al" using go True by (cases "trans_log_flush log env") (simp_all add: trans_log_reserve_def Let_def)
    from flush_at [OF i g n this] nz [OF True] obtain rc log1 env1 where
      f: "trans_log_flush log env = Some (rc, log1, env1)" "log_step io good stored used env env1"
      "(\<exists>x. rc = Inl x \<and> failed (dev env1) (asp env1)) \<and> log_inv io al (stored (dev env1)) (used (asp env1)) limit log1 groups cur \<or>
       rc = Inr () \<and> log_inv io al (stored (dev env1)) (used (asp env1)) limit log1 (groups @ [cur]) []" by auto
    have "tl_chunk_size log1 = 0" if "log_inv io al (stored (dev env1)) (used (asp env1)) limit log1 (groups @ [cur]) []"
      using that by (simp add: log_inv_def)
    then show ?thesis using f True big [OF True] sz by (auto simp: TRANS_CHUNK_MAX_SIZE_def)
  qed
  then obtain rc log1 env1 where f: "?flush = Some (rc, log1, env1)" "log_step io good stored used env env1"
    "(\<exists>x. rc = Inl x \<and> failed (dev env1) (asp env1)) \<and> log_inv io al (stored (dev env1)) (used (asp env1)) limit log1 groups cur \<or>
       rc = Inr () \<and> tl_chunk_size log1 + sz \<le> ?need \<and> tl_chunk_size log1 + sz \<le> TRANS_CHUNK_MAX_SIZE \<and>
         (log_inv io al (stored (dev env1)) (used (asp env1)) limit log1 groups cur \<or>
          65536 \<le> length (items_enc cur) \<and> log_inv io al (stored (dev env1)) (used (asp env1)) limit log1 (groups @ [cur]) [])"
    by blast
  show ?thesis
  proof (cases "(\<exists>x. rc = Inl x) \<or> ?need \<le> length (tl_chunk_data log1)")
    case True
    then have "trans_log_reserve log sz env = Some (rc, log1, env1)"
      using f(1,3) by (auto simp: trans_log_reserve_def Let_def)
    then show ?thesis using f True by (intro exI conjI) auto
  next
    case False
    then have rc: "rc = Inr ()" and lt: "\<not> ?need \<le> length (tl_chunk_data log1)" by (cases rc; simp)+
    have m: "hm env1 = []" "good (dev env1)" using f(2) by (auto simp: log_step_def)
    have need2: "?need \<le> 2 * TRANS_CHUNK_MAX_SIZE" using c(2) sz by (simp add: TRANS_CHUNK_MAX_SIZE_def)
    let ?dbl = "io_align io (length (tl_chunk_data log1) * 2)"
    let ?n = "if ?need < TRANS_CHUNK_MAX_SIZE \<and> ?dbl \<le> TRANS_CHUNK_MAX_SIZE \<and> ?need \<le> ?dbl then ?dbl else io_align io ?need"
    let ?log2 = "log1\<lparr>tl_chunk_data := take ?n (tl_chunk_data log1 @ replicate ?n 0)\<rparr>"
    have io1: "tl_io log1 = io" using f(3) rc by (auto simp: log_inv_def)
    have e: "env1\<lparr>hm := []\<rparr> = env1" using m(1) by (cases env1) simp
    have run: "trans_log_reserve log sz env = Some (Inr (), ?log2, env1)"
      using f(1) rc lt m(1) io1 by (simp add: trans_log_reserve_def Let_def e)
    have sz1: "tl_chunk_size log1 + sz \<le> ?need" "tl_chunk_size log1 + sz \<le> TRANS_CHUNK_MAX_SIZE" using f(3) rc by auto
    note b = buffer_at [OF _ m(1) sz1(1) need2 lt]
    have "log_inv io al (stored (dev env1)) (used (asp env1)) limit ?log2 gs cs" "tl_chunk_size ?log2 + sz \<le> length (tl_chunk_data ?log2)"
      if "log_inv io al (stored (dev env1)) (used (asp env1)) limit log1 gs cs" for gs cs
      using b [OF that] by simp_all
    then show ?thesis using run f(2,3) rc sz1(2) by auto
  qed
qed

text \<open>The items appended so far. A chunk that has been written before the end holds at least
  64 KiB, so 1 MiB of items needs at most 16 chunks.\<close>

end

definition log_holds ::
    "'d io \<Rightarrow> 'a alloc_ops \<Rightarrow> (nat \<Rightarrow> byte list \<Rightarrow> bool) \<Rightarrow> nat set \<Rightarrow> nat \<Rightarrow> ('d, 'a) trans_log \<Rightarrow> log_item list \<Rightarrow> bool" where
  "log_holds io al S U lim log items \<longleftrightarrow> (\<exists>groups cur. log_inv io al S U lim log groups cur \<and> items = concat groups @ cur \<and>
     (\<forall>g \<in> set groups. 65536 \<le> length (items_enc g)))"

lemma items_enc_concat: "items_enc (concat groups) = concat (map items_enc groups)"
  by (induction groups) simp_all

lemma group_count: "\<forall>g \<in> set groups. 65536 \<le> length (items_enc g) \<Longrightarrow> 65536 * length groups \<le> length (items_enc (concat groups))"
  by (induction groups) auto

context page_storage
begin

lemma append_at:
  assumes h: "log_holds io al (stored (dev env)) (used (asp env)) limit log items" and g: "good (dev env)" "hm env = []"
    and item: "length item \<le> 65535" and few: "length (items_enc (items @ [item])) < 2 ^ 20"
    and go: "trans_log_append log item env \<noteq> None \<or> \<not> cancel_refused al"
  shows "\<exists>rc log' env'. trans_log_append log item env = Some (rc, log', env') \<and> log_step io good stored used env env' \<and>
    ((\<exists>x. rc = Inl x \<and> failed (dev env') (asp env')) \<and> log_holds io al (stored (dev env')) (used (asp env')) limit log' items \<or>
     rc = Inr () \<and> log_holds io al (stored (dev env')) (used (asp env')) limit log' (items @ [item]))"
proof -
  from h obtain groups cur where i: "log_inv io al (stored (dev env)) (used (asp env)) limit log groups cur"
      "items = concat groups @ cur" "\<forall>g \<in> set groups. 65536 \<le> length (items_enc g)" by (auto simp: log_holds_def)
  have n: "length groups \<le> 15" using group_count [OF i(3)] few i(2) by simp
  let ?sz = "length item + log_entry_size"
  have sz: "?sz \<le> 65537" using item by (simp add: log_entry_size_def)
  have "trans_log_reserve log ?sz env \<noteq> None \<or> \<not> cancel_refused al" using go by (cases "trans_log_reserve log ?sz env") (simp_all add: trans_log_append_def)
  from reserve_at [OF i(1) g n sz this] obtain rc log1 env1 where
    r: "trans_log_reserve log ?sz env = Some (rc, log1, env1)" "log_step io good stored used env env1"
      "(\<exists>x. rc = Inl x \<and> failed (dev env1) (asp env1)) \<and> log_inv io al (stored (dev env1)) (used (asp env1)) limit log1 groups cur \<or>
     rc = Inr () \<and> tl_chunk_size log1 + ?sz \<le> length (tl_chunk_data log1) \<and> tl_chunk_size log1 + ?sz \<le> TRANS_CHUNK_MAX_SIZE \<and>
       (log_inv io al (stored (dev env1)) (used (asp env1)) limit log1 groups cur \<or>
        65536 \<le> length (items_enc cur) \<and> log_inv io al (stored (dev env1)) (used (asp env1)) limit log1 (groups @ [cur]) [])" by blast
  show ?thesis
  proof (cases rc)
    case (Inl x)
    then have "log_holds io al (stored (dev env1)) (used (asp env1)) limit log1 items" using r(3) i(2,3) by (auto simp: log_holds_def)
    then show ?thesis using r Inl by (auto simp: trans_log_append_def Let_def)
  next
    case (Inr u)
    then have room: "tl_chunk_size log1 + ?sz \<le> length (tl_chunk_data log1)" "tl_chunk_size log1 + ?sz \<le> TRANS_CHUNK_MAX_SIZE" and
      gs: "\<exists>gs cs. log_inv io al (stored (dev env1)) (used (asp env1)) limit log1 gs cs \<and> items = concat gs @ cs \<and>
        (\<forall>g \<in> set gs. 65536 \<le> length (items_enc g))"
      using r(3) i(2,3) by fastforce+
    then obtain gs cs where i1: "log_inv io al (stored (dev env1)) (used (asp env1)) limit log1 gs cs" "items = concat gs @ cs"
      "\<forall>g \<in> set gs. 65536 \<le> length (items_enc g)" by blast
    let ?data = "buf_put (tl_chunk_data log1) (tl_chunk_size log1) (item_enc item)"
    let ?log2 = "log1\<lparr>tl_chunk_data := ?data, tl_chunk_size := tl_chunk_size log1 + ?sz\<rparr>"
    have run: "trans_log_append log item env = Some (Inr (), ?log2, env1)"
      using r(1) Inr room(1) by (simp add: trans_log_append_def Let_def item_enc_def)
    have len: "length ?data = length (tl_chunk_data log1)" using room(1) by (simp add: log_entry_size_def)
    have c1: "tl_chunk_size log1 = length (items_enc cs)" "take (length (items_enc cs)) (tl_chunk_data log1) = items_enc cs"
      using i1(1) by (auto simp: log_inv_def)
    have "take (length (items_enc cs) + length (item_enc item)) ?data = items_enc cs @ item_enc item"
      using room(1) c1 by (simp add: buf_put_def log_entry_size_def min_absorb2 take_add)
    then have "log_inv io al (stored (dev env1)) (used (asp env1)) limit ?log2 gs (cs @ [item])"
      using i1(1) room c1(1) len by (auto simp: log_inv_def log_entry_size_def)
    then have "log_holds io al (stored (dev env1)) (used (asp env1)) limit ?log2 (items @ [item])"
      unfolding log_holds_def using i1(2,3) by (intro exI [of _ gs] exI [of _ "cs @ [item]"]) simp
    then show ?thesis using run r(2) by blast
  qed
qed

lemma finish_log:
  assumes h: "log_holds io al (stored (dev env)) (used (asp env)) limit log items" and g: "good (dev env)" "hm env = []"
    and items: "items \<noteq> []" and few: "length (items_enc items) < 2 ^ 20"
    and go: "trans_log_finish log env \<noteq> None \<or> \<not> cancel_refused al"
  shows "\<exists>rc log' env'. trans_log_finish log env = Some (rc, log', env') \<and> log_step io good stored used env env' \<and>
    (case rc of Inl x \<Rightarrow> failed (dev env') (asp env')
     | Inr _ \<Rightarrow> log_on io (stored (dev env')) (used (asp env')) limit (tl_ptr log') items)"
proof -
  from h obtain groups cur where i: "log_inv io al (stored (dev env)) (used (asp env)) limit log groups cur"
      "items = concat groups @ cur" "\<forall>g \<in> set groups. 65536 \<le> length (items_enc g)" by (auto simp: log_holds_def)
  have n: "length groups \<le> 15" using group_count [OF i(3)] few i(2) by simp
  let ?gs = "if cur = [] then groups else groups @ [cur]"
  have "trans_log_flush log env \<noteq> None \<or> \<not> cancel_refused al" using go by (cases "trans_log_flush log env") (simp_all add: trans_log_finish_def)
  from flush_at [OF i(1) g n this] obtain rc log1 env1 where
    f: "trans_log_flush log env = Some (rc, log1, env1)" "log_step io good stored used env env1"
      "(\<exists>x. rc = Inl x \<and> failed (dev env1) (asp env1)) \<and> log_inv io al (stored (dev env1)) (used (asp env1)) limit log1 groups cur \<or>
       rc = Inr () \<and> log_inv io al (stored (dev env1)) (used (asp env1)) limit log1 ?gs []" by blast
  show ?thesis
  proof (cases rc)
    case (Inl x)
    then show ?thesis using f by (auto simp: trans_log_finish_def)
  next
    case (Inr u)
    then have i1: "log_inv io al (stored (dev env1)) (used (asp env1)) limit log1 ?gs []" using f(3) by blast
    have gs: "concat ?gs = items" "?gs \<noteq> []" "length ?gs \<le> 16" using i(2) items n by auto
    have len: "length (tl_chunk log1) = length ?gs" using i1 unfolding log_inv_def chunks_on_def by (blast dest: list_all2_lengthD)
    have l1: "tl_io log1 = io" "tl_alloc log1 = al" "tl_header log1 = npages io 392 * page_size io" "tl_header log1 \<noteq> 0"
        "tl_pages log1 = group_pages io ?gs" "chunks_on io (stored (dev env1)) (used (asp env1)) limit (tl_chunk log1) ?gs"
      using i1 len gs(2) unfolding log_inv_def by (auto split: if_splits)
    let ?h = "header_enc (tl_chunk log1) (group_pages io ?gs)" and ?sz = "log_header_size + length (tl_chunk log1) * log_ptr_size"
    have h: "log_header_enc log1 = ?h" using l1(5) by (simp add: log_header_enc_def header_enc_def)
    have hl: "length ?h = ?sz" by (simp add: header_enc_def log_header_size_def log_ptr_size_def length_concat comp_def sum_list_triv)
    have sz: "0 < ?sz" "?sz \<le> 392" using len gs(3) by (simp_all add: log_header_size_def log_ptr_size_def)
    then have s41: "?sz < 2 ^ 41" by simp
    note sp = small_pages [OF s41]
    let ?n = "npages io ?sz"
    have np: "?n * page_size io \<le> npages io 392 * page_size io" using npages_mono [OF page sz(2)] by simp
    have pad: "padded io ?h = ?h @ replicate (?n * page_size io - ?sz) 0" by (simp add: padded_def hl)
    have lp: "length (padded io ?h) = ?n * page_size io" using length_padded [OF page, of ?h] hl by simp
    have g1: "good (dev env1)" "hm env1 = []" using f(2) by (auto simp: log_step_def)
    have tk: "take (?n * page_size io) (padded io ?h) = padded io ?h" by (simp only: lp [symmetric] take_all order_refl)
    let ?w = "trans_log_write log1 (padded io ?h) ?n env1"
    have "trans_log_finish log env = None" if "?w = None"
    proof -
      have "trans_log_write log1 (log_header_enc log1 @ replicate (?n * page_size io - ?sz) 0) ?n env1 = None"
        using that unfolding pad h .
      then show ?thesis using f(1) Inr l1(1,3,4) sp np by (simp add: trans_log_finish_def Let_def)
    qed
    then have "?w \<noteq> None \<or> \<not> cancel_refused al" using go by blast
    from write_at [of log1 env1 ?n "padded io ?h", OF l1(1,2) g1 pages_pos [OF sz(1)] eq_refl [OF lp [symmetric]]
        order_trans [OF np room_392(1)] this, unfolded tk] obtain rc2 env2 where
      w: "trans_log_write log1 (padded io ?h) ?n env1 = Some (rc2, env2)" "log_step io good stored used env1 env2"
        "case rc2 of Inl e \<Rightarrow> failed (dev env2) (asp env2)
         | Inr p \<Rightarrow> ptr_holds io (stored (dev env2)) (used (asp env2)) limit p (padded io ?h)" by blast
    have w1: "trans_log_write log1 (log_header_enc log1 @ replicate (?n * page_size io - ?sz) 0) ?n env1 = Some (rc2, env2)"
      using w(1) unfolding pad h .
    have run: "trans_log_finish log env = Some (case rc2 of Inl e \<Rightarrow> (Inl e, log1, env2) | Inr p \<Rightarrow> (Inr (), log1\<lparr>tl_ptr := p\<rparr>, env2))"
      using f(1) Inr l1(1,3,4) sp np w1 by (simp add: trans_log_finish_def Let_def split: sum.split)
    note st = log_step_trans [OF f(2) w(2)]
    show ?thesis
    proof (cases rc2)
      case (Inl e)
      then show ?thesis using run st w(3) by auto
    next
      case (Inr p)
      have "chunks_on io (stored (dev env2)) (used (asp env2)) limit (tl_chunk log1) ?gs"
        using chunks_on_keeps [OF l1(6)] w(2) by (auto simp: log_step_def)
      then have "log_on io (stored (dev env2)) (used (asp env2)) limit p items"
        unfolding log_on_def using w(3) Inr gs(1) by auto
      then show ?thesis using run st Inr by auto
    qed
  qed
qed

end

section \<open>A whole log\<close>

fun trans_log_append_all ::
    "('d, 'a) trans_log \<Rightarrow> log_item list \<Rightarrow> ('d, 'a) env \<Rightarrow> ((errno + unit) \<times> ('d, 'a) trans_log \<times> ('d, 'a) env) option" where
  "trans_log_append_all log [] env = Some (Inr (), log, env)"
| "trans_log_append_all log (x # xs) env = do {
     (rc, log, env) \<leftarrow> trans_log_append log x env;
     (case rc of Inl e \<Rightarrow> Some (Inl e, log, env) | Inr _ \<Rightarrow> trans_log_append_all log xs env) }"

definition trans_log_run ::
    "'d io \<Rightarrow> 'a alloc_ops \<Rightarrow> log_item list \<Rightarrow> ('d, 'a) env \<Rightarrow> ((errno + unit) \<times> ('d, 'a) trans_log \<times> ('d, 'a) env) option" where
  "trans_log_run io al items env = do {
     (rc, log, env) \<leftarrow> trans_log_append_all (trans_log_setup io al) items env;
     (case rc of Inl e \<Rightarrow> Some (Inl e, log, env) | Inr _ \<Rightarrow> trans_log_finish log env) }"

context page_storage
begin

lemma setup_holds: "log_holds io al S U limit (trans_log_setup io al) []"
proof -
  have "log_inv io al S U limit (trans_log_setup io al) [] []"
    by (simp add: log_inv_def trans_log_setup_def chunks_on_def group_pages_def)
  then show ?thesis unfolding log_holds_def by (intro exI [of _ "[]"]) simp
qed

lemma append_all_at:
  "\<lbrakk>log_holds io al (stored (dev env)) (used (asp env)) limit log done; good (dev env); hm env = [];
    \<forall>x \<in> set xs. length x \<le> 65535; length (items_enc (done @ xs)) < 2 ^ 20;
    trans_log_append_all log xs env \<noteq> None \<or> \<not> cancel_refused al\<rbrakk> \<Longrightarrow>
    \<exists>rc log' env'. trans_log_append_all log xs env = Some (rc, log', env') \<and> log_step io good stored used env env' \<and>
    ((\<exists>x. rc = Inl x \<and> failed (dev env') (asp env')) \<or>
     rc = Inr () \<and> log_holds io al (stored (dev env')) (used (asp env')) limit log' (done @ xs))"
proof (induction xs arbitrary: log env "done")
  case Nil
  then show ?case using log_step_refl [of good env] by auto
next
  case (Cons x xs)
  have x: "length x \<le> 65535" "length (items_enc (done @ [x])) < 2 ^ 20" using Cons.prems(4,5) by simp_all
  have "trans_log_append log x env \<noteq> None \<or> \<not> cancel_refused al" using Cons.prems(6) by (cases "trans_log_append log x env") simp_all
  from append_at [OF Cons.prems(1-3) x this] obtain rc log1 env1 where
    a: "trans_log_append log x env = Some (rc, log1, env1)" "log_step io good stored used env env1"
      "(\<exists>x. rc = Inl x \<and> failed (dev env1) (asp env1)) \<or>
       rc = Inr () \<and> log_holds io al (stored (dev env1)) (used (asp env1)) limit log1 (done @ [x])" by blast
  show ?case
  proof (cases rc)
    case (Inl e)
    then show ?thesis using a by auto
  next
    case (Inr u)
    have g1: "good (dev env1)" "hm env1 = []" using a(2) by (auto simp: log_step_def)
    have h1: "log_holds io al (stored (dev env1)) (used (asp env1)) limit log1 (done @ [x])" using a(3) Inr by blast
    from Cons.IH [OF h1 g1] Cons.prems(4-6) a(1) Inr show ?thesis
      using log_step_trans [OF a(2)] by auto
  qed
qed

lemma run_at:
  assumes g: "good (dev env)" "hm env = []" and items: "items \<noteq> []" "\<forall>x \<in> set items. length x \<le> 65535"
    and few: "length (items_enc items) < 2 ^ 20" and go: "trans_log_run io al items env \<noteq> None \<or> \<not> cancel_refused al"
  shows "\<exists>rc log' env'. trans_log_run io al items env = Some (rc, log', env') \<and> log_step io good stored used env env' \<and>
    (case rc of Inl x \<Rightarrow> failed (dev env') (asp env')
     | Inr _ \<Rightarrow> log_on io (stored (dev env')) (used (asp env')) limit (tl_ptr log') items)"
proof -
  have "trans_log_append_all (trans_log_setup io al) items env \<noteq> None \<or> \<not> cancel_refused al"
    using go by (cases "trans_log_append_all (trans_log_setup io al) items env") (simp_all add: trans_log_run_def)
  from append_all_at [OF setup_holds g items(2) _ this] few obtain rc log1 env1 where
    a: "trans_log_append_all (trans_log_setup io al) items env = Some (rc, log1, env1)" "log_step io good stored used env env1"
      "(\<exists>x. rc = Inl x \<and> failed (dev env1) (asp env1)) \<or>
       rc = Inr () \<and> log_holds io al (stored (dev env1)) (used (asp env1)) limit log1 items" by auto
  show ?thesis
  proof (cases rc)
    case (Inl e)
    then show ?thesis using a by (auto simp: trans_log_run_def)
  next
    case (Inr u)
    have g1: "good (dev env1)" "hm env1 = []" using a(2) by (auto simp: log_step_def)
    have h1: "log_holds io al (stored (dev env1)) (used (asp env1)) limit log1 items" using a(3) Inr by blast
    have "trans_log_finish log1 env1 \<noteq> None \<or> \<not> cancel_refused al" using go a(1) Inr by (simp add: trans_log_run_def)
    from finish_log [OF h1 g1 items(1) few this] a(1) Inr show ?thesis
      using log_step_trans [OF a(2)] by (auto simp: trans_log_run_def)
  qed
qed

end

section \<open>Reading a log\<close>

text \<open>The items of a chunk. Nothing but an item of size 0 marks their end, so an empty item
  cannot be told from the padding.\<close>

function items_dec :: "byte list \<Rightarrow> log_item list" where
  "items_dec bs = (if length bs < 2 then []
     else let n = unat (le16_dec (take 2 bs)) in
       if n = 0 then [] else take n (drop 2 bs) # items_dec (drop (2 + n) bs))"
  by pat_completeness auto
termination by (relation "measure length") auto

declare items_dec.simps [simp del]

lemma items_dec_enc:
  "\<forall>x \<in> set xs. x \<noteq> [] \<and> length x \<le> 65535 \<Longrightarrow> items_dec (items_enc xs @ replicate k 0) = xs"
proof (induction xs)
  case Nil
  have "le16_dec [0, 0] = 0" by (simp add: le16_dec_def)
  then have "\<not> k < 2 \<Longrightarrow> le16_dec (take 2 (replicate k 0)) = 0" by (simp add: numeral_2_eq_2)
  then show ?case by (subst items_dec.simps) auto
next
  case (Cons x xs)
  let ?bs = "items_enc (x # xs) @ replicate k 0"
  have t: "take 2 ?bs = le16_enc (word_of_nat (length x))" by (simp add: item_enc_def)
  have n: "unat (le16_dec (take 2 ?bs)) = length x"
  proof -
    have "length x < 2 ^ LENGTH(16)" using Cons.prems by simp
    then show ?thesis unfolding t by (simp add: unat_of_nat)
  qed
  have d: "drop 2 ?bs = x @ items_enc xs @ replicate k 0" by (simp add: item_enc_def)
  then have d2: "drop (2 + length x) ?bs = items_enc xs @ replicate k 0" by (metis add.commute append_eq_conv_conj drop_drop)
  have "\<not> length ?bs < 2" "length x \<noteq> 0" using Cons.prems by simp_all
  then have "items_dec ?bs = take (length x) (drop 2 ?bs) # items_dec (drop (2 + length x) ?bs)"
    by (subst items_dec.simps) (simp only: n Let_def if_False)
  then show ?case using Cons unfolding d d2 by simp
qed

text \<open>What a finished log has on the device decodes to the items.\<close>

lemma log_on_dec:
  assumes "log_on io S U lim p items" and "\<forall>x \<in> set items. x \<noteq> [] \<and> length x \<le> 65535"
  shows "\<exists>ps pages chunks. ptr_holds io S U lim p (padded io (header_enc ps pages)) \<and>
    list_all2 (ptr_holds io S U lim) ps chunks \<and> concat (map items_dec chunks) = items"
proof -
  from assms(1) obtain ps groups where p: "ptr_holds io S U lim p (padded io (header_enc ps (group_pages io groups)))"
    "chunks_on io S U lim ps groups" "concat groups = items" by (auto simp: log_on_def)
  have "\<forall>g \<in> set groups. items_dec (padded io (items_enc g)) = g"
  proof
    fix g assume "g \<in> set groups"
    then have "\<forall>x \<in> set g. x \<noteq> [] \<and> length x \<le> 65535" using assms(2) p(3) by auto
    then show "items_dec (padded io (items_enc g)) = g" unfolding padded_def by (rule items_dec_enc)
  qed
  then have "map items_dec (map (padded io \<circ> items_enc) groups) = groups" by (simp add: map_idI)
  moreover have "list_all2 (ptr_holds io S U lim) ps (map (padded io \<circ> items_enc) groups)"
    using p(2) by (simp add: chunks_on_def list_all2_map2 comp_def)
  ultimately show ?thesis using p(1,3) by metis
qed

text \<open>C19: a transaction log keeps what is put into it. The items must not be empty, fit their 16 bit sizes,
  be less than 1 MiB in all, and there must be at least one; \<open>malloc\<close> does not fail. Then appending them and
  finishing ends without undefined behaviour and without touching a page in use; it fails only if the device or
  the allocator did, and it fails its assertion only if the allocator refused to take back an extent that it had
  just handed out. Otherwise the pointer of the log is that of a header on the device with the pointers to
  chunks, each with its checksum, and the items read from the chunks are those appended, in order.\<close>

theorem trans_log_correct:
  assumes "page_storage io good stored limit al used failed" and "good (dev env)" and "hm env = []"
    and "items \<noteq> []" and "\<forall>x \<in> set items. x \<noteq> [] \<and> length x \<le> 65535" and "length (items_enc items) < 2 ^ 20"
  shows "case trans_log_run io al items env of None \<Rightarrow> cancel_refused al
    | Some (rc, log, env') \<Rightarrow>
        keeps (page_size io) (used (asp env)) (stored (dev env)) (stored (dev env')) \<and>
        (case rc of Inl x \<Rightarrow> failed (dev env') (asp env')
         | Inr _ \<Rightarrow> \<exists>ps pages chunks.
             ptr_holds io (stored (dev env')) (used (asp env')) limit (tl_ptr log) (padded io (header_enc ps pages)) \<and>
             list_all2 (ptr_holds io (stored (dev env')) (used (asp env')) limit) ps chunks \<and>
             concat (map items_dec chunks) = items)"
proof (cases "trans_log_run io al items env = None \<and> cancel_refused al")
  case True
  then show ?thesis by simp
next
  case False
  then have go: "trans_log_run io al items env \<noteq> None \<or> \<not> cancel_refused al" by auto
  have it: "\<forall>x \<in> set items. length x \<le> 65535" using assms(5) by blast
  from page_storage.run_at [OF assms(1-4) it assms(6) go] obtain rc log env' where
    r: "trans_log_run io al items env = Some (rc, log, env')" "log_step io good stored used env env'"
      "case rc of Inl x \<Rightarrow> failed (dev env') (asp env') | Inr _ \<Rightarrow> log_on io (stored (dev env')) (used (asp env')) limit (tl_ptr log) items"
    by blast
  have "\<exists>ps pages chunks.
      ptr_holds io (stored (dev env')) (used (asp env')) limit (tl_ptr log) (padded io (header_enc ps pages)) \<and>
      list_all2 (ptr_holds io (stored (dev env')) (used (asp env')) limit) ps chunks \<and>
      concat (map items_dec chunks) = items"
    if "log_on io (stored (dev env')) (used (asp env')) limit (tl_ptr log) items"
    by (rule log_on_dec [OF that assms(5)])
  then show ?thesis using r by (auto simp: log_step_def split: sum.splits)
qed

lemma test_not_refused: "\<not> cancel_refused volume_alloc"
  by (simp add: cancel_refused_def alloc_cancel_def volume_alloc_def test_alloc_def test_cancel_def)

theorem trans_log_correct_witness:
  "\<exists>rc log env'. trans_log_run test_io volume_alloc [[1, 2, 3], [4]] \<lparr>dev = \<lparr>content = [], script = []\<rparr>, asp = 0, hm = []\<rparr> = Some (rc, log, env') \<and>
    (case rc of Inl x \<Rightarrow> test_failed (dev env') (asp env')
     | Inr _ \<Rightarrow> \<exists>ps pages chunks.
         ptr_holds test_io (test_stored (dev env')) (test_used (asp env')) test_limit (tl_ptr log) (padded test_io (header_enc ps pages)) \<and>
         list_all2 (ptr_holds test_io (test_stored (dev env')) (test_used (asp env')) test_limit) ps chunks \<and>
         concat (map items_dec chunks) = [[1, 2, 3], [4]])"
  using trans_log_correct [OF test_storage.page_storage_axioms, of "\<lparr>dev = \<lparr>content = [], script = []\<rparr>, asp = 0, hm = []\<rparr>" "[[1, 2, 3], [4]]"]
    test_not_refused
  by (auto simp: test_good_def split: option.splits prod.splits)

section \<open>Giving up\<close>

text \<open>The pages of the chunks a log has written: they are in use now (\<open>V\<close>), were not before (\<open>U\<close>), and
  no page is in two chunks.\<close>

definition ptr_extent :: "aulsmfs_ptr \<Rightarrow> nat set" where
  "ptr_extent p = extent (unat (ptr_offs p)) (unat (ptr_size p))"

definition log_owns :: "nat set \<Rightarrow> nat set \<Rightarrow> aulsmfs_ptr list \<Rightarrow> bool" where
  "log_owns U V ps \<longleftrightarrow> (\<forall>p \<in> set ps. ptr_extent p \<subseteq> V - U) \<and> sorted_wrt (\<lambda>p q. ptr_extent p \<inter> ptr_extent q = {}) ps"

lemma log_owns_mono: "log_owns U V ps \<Longrightarrow> V \<subseteq> V' \<Longrightarrow> log_owns U V' ps"
  by (auto simp: log_owns_def)

lemma log_owns_add:
  "log_owns U V ps \<Longrightarrow> U \<subseteq> V \<Longrightarrow> V \<subseteq> V' \<Longrightarrow> ptr_extent p \<inter> V = {} \<Longrightarrow> ptr_extent p \<subseteq> V' \<Longrightarrow> log_owns U V' (ps @ [p])"
  unfolding log_owns_def sorted_wrt_append by (auto simp: disjoint_iff) blast+

context page_storage
begin

lemma limit_64: "limit < 2 ^ 64"
proof -
  have "limit * 1 \<le> limit * page_size io" using page_ok_ge [OF page] by (intro mult_left_mono) auto
  also have "\<dots> \<le> 2 ^ 63" by (rule limit_bound)
  finally show ?thesis by simp
qed

lemma write_fresh:
  assumes "trans_log_write log data n env = Some (rc, env')" and "tl_alloc log = al"
  shows "used (asp env) \<subseteq> used (asp env') \<and>
    (case rc of Inl e \<Rightarrow> True | Inr p \<Rightarrow> ptr_extent p \<inter> used (asp env) = {} \<and> ptr_extent p \<subseteq> used (asp env'))"
proof -
  obtain r a where r: "alloc_reserve al (asp env) n = (r, a)" by fastforce
  show ?thesis
  proof (cases r)
    case (Inl e)
    then show ?thesis using assms r reserve_fails [of "asp env" n e a] by (auto simp: trans_log_write_def)
  next
    case (Inr off)
    then have f: "extent off n \<inter> used (asp env) = {}" "used a = used (asp env) \<union> extent off n" "off + n \<le> limit"
      using reserve_fresh [of "asp env" n off a] r by simp_all
    have w: "unat (word_of_nat off :: u64) = off" "unat (word_of_nat n :: u64) = n"
      using f(3) limit_64 by (simp_all add: unat_of_nat)
    have c: "used (asp env) \<subseteq> used a'" if "alloc_cancel al a n off = (rc', a')" for rc' a'
      using cancel_frees [OF that] f(1,2) by blast
    show ?thesis
      using assms(1) r Inr w f(1,2)
      by (auto simp: trans_log_write_def ptr_extent_def assms(2) dest!: c split: bind_splits sum.splits prod.splits if_splits)
  qed
qed

definition fresh_inv :: "nat set \<Rightarrow> ('d, 'a) trans_log \<Rightarrow> ('d, 'a) env \<Rightarrow> bool" where
  "fresh_inv U log env \<longleftrightarrow> tl_alloc log = al \<and> U \<subseteq> used (asp env) \<and> log_owns U (used (asp env)) (tl_chunk log)"

text \<open>A write, after which the log may have the new chunk.\<close>

lemma write_fresh_inv:
  assumes "trans_log_write log data n env = Some (rc, env')" and "fresh_inv U log env"
  shows "fresh_inv U log env'" and "rc = Inr p \<Longrightarrow> log_owns U (used (asp env')) (tl_chunk log @ [p])"
proof -
  have "tl_alloc log = al" using assms(2) by (simp add: fresh_inv_def)
  note w = write_fresh [OF assms(1) this]
  show "fresh_inv U log env'" using w assms(2) log_owns_mono by (auto simp: fresh_inv_def)
  show "log_owns U (used (asp env')) (tl_chunk log @ [p])" if "rc = Inr p"
    using w assms(2) that by (auto simp: fresh_inv_def intro: log_owns_add)
qed

lemma fresh_inv_cong:
  "fresh_inv U log env \<Longrightarrow> tl_alloc log' = tl_alloc log \<Longrightarrow> tl_chunk log' = tl_chunk log \<Longrightarrow> asp env' = asp env \<Longrightarrow> fresh_inv U log' env'"
  by (simp add: fresh_inv_def)

lemma reserve_chunk_fresh:
  "trans_log_reserve_chunk log k m = Some (rc, log', m') \<Longrightarrow> tl_alloc log' = tl_alloc log \<and> tl_chunk log' = tl_chunk log"
  by (auto simp: trans_log_reserve_chunk_def Let_def split: if_splits prod.splits)

lemma flush_fresh:
  assumes "trans_log_flush log env = Some (rc, log', env')" and "fresh_inv U log env"
  shows "fresh_inv U log' env'"
proof (cases "tl_chunk_size log = 0")
  case True
  then show ?thesis using assms by (auto simp: trans_log_flush_def split: if_splits)
next
  case False
  then obtain rc1 log1 m where r: "trans_log_reserve_chunk log 1 (hm env) = Some (rc1, log1, m)"
    using assms(1) by (auto simp: trans_log_flush_def split: bind_splits if_splits)
  let ?env = "env\<lparr>hm := m\<rparr>"
  show ?thesis
  proof (cases rc1)
    case (Inl e)
    then have "log' = log1" "env' = ?env" using assms(1) False r by (auto simp: trans_log_flush_def Let_def split: if_splits)
    then show ?thesis using fresh_inv_cong [OF assms(2)] reserve_chunk_fresh [OF r] by simp
  next
    case (Inr u)
    let ?n = "io_pages (tl_io log1) (tl_chunk_size log1)"
    let ?data = "buf_put (tl_chunk_data log1) (tl_chunk_size log1) (replicate (io_bytes (tl_io log1) ?n - tl_chunk_size log1) 0)"
    let ?log2 = "log1\<lparr>tl_chunk_data := ?data\<rparr>"
    obtain rc2 env2 where w: "trans_log_write ?log2 ?data ?n ?env = Some (rc2, env2)"
      and l: "(log', env') = (case rc2 of Inl e \<Rightarrow> (?log2, env2)
        | Inr p \<Rightarrow> (?log2\<lparr>tl_chunk_size := 0, tl_chunk := tl_chunk ?log2 @ [p], tl_pages := tl_pages ?log2 + ?n\<rparr>, env2))"
      using assms(1) False r Inr
      by (auto simp: trans_log_flush_def Let_def split: bind_splits if_splits sum.splits)
    have "fresh_inv U ?log2 ?env" using fresh_inv_cong [OF assms(2)] reserve_chunk_fresh [OF r] by simp
    from write_fresh_inv [OF w this] l show ?thesis by (auto simp: fresh_inv_def split: sum.splits)
  qed
qed

lemma buffer_fresh:
  assumes "trans_log_reserve log n env = Some (rc, log', env')" and "fresh_inv U log env"
  shows "fresh_inv U log' env'"
proof -
  let ?flush = "if TRANS_CHUNK_MAX_SIZE < tl_chunk_size log + n then trans_log_flush log env else Some (Inr (), log, env)"
  obtain rc1 log1 env1 where s: "?flush = Some (rc1, log1, env1)"
    using assms(1) unfolding trans_log_reserve_def Let_def by (cases ?flush) auto
  have "tl_alloc log' = tl_alloc log1 \<and> tl_chunk log' = tl_chunk log1 \<and> asp env' = asp env1"
    using assms(1) unfolding trans_log_reserve_def Let_def s bind.bind_lunit prod.case
    by (cases rc1; cases "hd (hm env1)") (auto simp: mem_alloc_def split: if_splits list.splits)
  moreover have "fresh_inv U log1 env1" using s assms(2) flush_fresh by (auto split: if_splits)
  ultimately show ?thesis by (auto intro: fresh_inv_cong)
qed

lemma append_fresh:
  assumes "trans_log_append log x env = Some (rc, log', env')" and "fresh_inv U log env"
  shows "fresh_inv U log' env'"
proof -
  from assms(1) obtain rc1 log1 env1 where
    r: "trans_log_reserve log (length x + log_entry_size) env = Some (rc1, log1, env1)" and
    l: "tl_alloc log' = tl_alloc log1" "tl_chunk log' = tl_chunk log1" "env' = env1"
    by (auto simp: trans_log_append_def Let_def split: bind_splits sum.splits if_splits)
  from buffer_fresh [OF r assms(2)] l show ?thesis by (auto intro: fresh_inv_cong)
qed

lemma finish_fresh:
  assumes "trans_log_finish log env = Some (rc, log', env')" and "fresh_inv U log env"
  shows "fresh_inv U log' env'"
proof -
  from assms(1) obtain rc1 log1 env1 where f: "trans_log_flush log env = Some (rc1, log1, env1)"
    by (auto simp: trans_log_finish_def split: bind_splits)
  note i = flush_fresh [OF f assms(2)]
  show ?thesis
  proof (cases rc1)
    case (Inl e)
    then show ?thesis using assms(1) f i by (simp add: trans_log_finish_def)
  next
    case (Inr u)
    then obtain data n rc2 where w: "trans_log_write log1 data n env1 = Some (rc2, env')"
      and l: "tl_alloc log' = tl_alloc log1" "tl_chunk log' = tl_chunk log1"
      using assms(1) f by (auto simp: trans_log_finish_def Let_def split: bind_splits sum.splits if_splits)
    show ?thesis by (rule fresh_inv_cong [OF write_fresh_inv(1) [OF w i] l refl])
  qed
qed

lemma append_all_fresh:
  "trans_log_append_all log xs env = Some (rc, log', env') \<Longrightarrow> fresh_inv U log env \<Longrightarrow> fresh_inv U log' env'"
proof (induction xs arbitrary: log env)
  case (Cons x xs)
  then show ?case using append_fresh [where U = U] by (auto split: bind_splits sum.splits)
qed simp

lemma run_fresh:
  assumes "trans_log_run io al items env = Some (rc, log', env')"
  shows "fresh_inv (used (asp env)) log' env'"
proof -
  have s: "fresh_inv (used (asp env)) (trans_log_setup io al) env" by (simp add: fresh_inv_def log_owns_def trans_log_setup_def)
  from assms obtain rc1 log1 env1 where a: "trans_log_append_all (trans_log_setup io al) items env = Some (rc1, log1, env1)"
    by (auto simp: trans_log_run_def split: bind_splits)
  from append_all_fresh [OF a s] show ?thesis
    using assms a finish_fresh by (auto simp: trans_log_run_def split: sum.splits)
qed

lemma cancel_keeps:
  "case trans_log_cancel_chunks al ps a of
     None \<Rightarrow> \<exists>p \<in> set ps. \<exists>a e a'. alloc_cancel al a (unat (ptr_size p)) (unat (ptr_offs p)) = (Inl e, a')
   | Some a' \<Rightarrow> used a - (\<Union>p \<in> set ps. ptr_extent p) \<subseteq> used a'"
proof (induction ps arbitrary: a)
  case (Cons p ps)
  obtain rc a1 where a1: "alloc_cancel al a (unat (ptr_size p)) (unat (ptr_offs p)) = (rc, a1)" by fastforce
  have "used a - ptr_extent p \<subseteq> used a1" using cancel_frees [OF a1] by (simp add: ptr_extent_def)
  then show ?case using a1 Cons.IH [of a1] by (cases rc) (auto split: option.splits)
qed simp

end



text \<open>C39: where the code is undefined. A log without items has no header when it is finished, and
  the seventeenth chunk makes the code pass a pointer into the middle of a block to \<open>realloc\<close>.\<close>

theorem trans_log_undefined:
  assumes "page_ok (tl_io log)" and "\<exists>k. length (tl_chunk_data log) = k * page_size (tl_io log)" and "length (tl_chunk_data log) < 2 ^ 40"
    and "tl_chunk_size log = 0 \<and> tl_header log = 0 \<or>
      tl_chunk_size log \<noteq> 0 \<and> tl_header log \<noteq> 0 \<and> tl_max_chunks log = 16 \<and> length (tl_chunk log) = 16"
  shows "trans_log_finish log env = None"
proof -
  obtain k where k: "length (tl_chunk_data log) = k * page_size (tl_io log)" using assms(2) by blast
  have "length (tl_chunk_data log) + page_size (tl_io log) \<le> 2 ^ 64" using assms(3) page_ok_le [OF assms(1)] by simp
  then have "io_align (tl_io log) (length (tl_chunk_data log)) = length (tl_chunk_data log)"
    using io_align_eq [OF assms(1)] npages_mult [OF assms(1), of k] unfolding k by simp
  then show ?thesis using assms(4)
    by (auto simp: trans_log_finish_def trans_log_flush_def trans_log_reserve_chunk_def Let_def)
qed

theorem trans_log_undefined_witness:
  "trans_log_finish (trans_log_setup test_io volume_alloc) \<lparr>dev = \<lparr>content = [], script = []\<rparr>, asp = 0, hm = []\<rparr> = None"
  using trans_log_undefined [of "trans_log_setup test_io volume_alloc"] page_ok_test by (simp add: trans_log_setup_def)

end
