(* ===== verification/Fuse.thy ===== *)
theory Fuse
  imports Superblock
begin

text \<open>
  The FUSE daemon (\<open>fuse/main.c\<close>): the handlers of requests, which know a single directory, and
  \<open>main\<close>. What libfuse does is a parameter: how a directory entry is encoded
  (record \<open>fuse_dirent\<close>), and the results of its set-up functions.
\<close>

section \<open>Requests and replies\<close>

type_synonym ino = u64

definition AULSMFS_ROOT_INODE :: ino where
  "AULSMFS_ROOT_INODE = 1"

text \<open>\<open>S_IFDIR\<close> is octal 040000; the permissions are octal 755.\<close>

definition AULSMFS_ROOT_MODE :: nat where
  "AULSMFS_ROOT_MODE = 16384 + (7 * 64 + 5 * 8 + 5)"

record stat =
  st_ino :: ino
  st_mode :: nat
  st_nlink :: nat
  st_size :: nat

text \<open>The calls of \<open>fuse_reply_err\<close>, \<open>fuse_reply_attr\<close> and \<open>fuse_reply_buf\<close>.\<close>

datatype reply = Reply_err errno | Reply_attr stat | Reply_buf "byte list"

definition aulsmfs_stat :: "ino \<Rightarrow> stat option" where
  "aulsmfs_stat ino = (if ino \<noteq> AULSMFS_ROOT_INODE then None
     else Some \<lparr>st_ino = ino, st_mode = AULSMFS_ROOT_MODE, st_nlink = 1, st_size = 2\<rparr>)"

definition aulsmfs_lookup :: "ino \<Rightarrow> string \<Rightarrow> reply list option" where
  "aulsmfs_lookup parent name = (if parent \<noteq> AULSMFS_ROOT_INODE then None else Some [Reply_err ENOENT])"

definition aulsmfs_getattr :: "ino \<Rightarrow> reply list option" where
  "aulsmfs_getattr ino = do {
     stat \<leftarrow> aulsmfs_stat ino;
     Some [Reply_attr stat] }"

section \<open>Directories\<close>

text \<open>The two uses of libfuse's \<open>fuse_add_direntry\<close>: the size of the entry for a name, and what a
  room of this size holds once the entry (with the attributes and the offset of the next entry) is
  stored there.\<close>

record fuse_dirent =
  fe_size :: "string \<Rightarrow> nat"
  fe_fill :: "byte list \<Rightarrow> string \<Rightarrow> stat \<Rightarrow> int \<Rightarrow> byte list"

text \<open>The length of \<open>db_buf\<close> is \<open>capacity\<close>.\<close>

record aulsmfs_dirbuf =
  db_buf :: "byte list"
  db_size :: nat

definition aulsmfs_dirbuf_setup :: aulsmfs_dirbuf where
  "aulsmfs_dirbuf_setup = \<lparr>db_buf = [], db_size = 0\<rparr>"

definition aulsmfs_dirbuf_release :: "aulsmfs_dirbuf \<Rightarrow> aulsmfs_dirbuf" where
  "aulsmfs_dirbuf_release b = aulsmfs_dirbuf_setup"

text \<open>Making room. If \<open>realloc\<close> fails an assertion does.\<close>

definition aulsmfs_dirbuf_grow :: "aulsmfs_dirbuf \<Rightarrow> nat \<Rightarrow> mem \<Rightarrow> (aulsmfs_dirbuf \<times> mem) option" where
  "aulsmfs_dirbuf_grow b need m =
     (let capacity = length (db_buf b) in
      if capacity < need then
        (let capacity = (if need \<le> capacity * 2 then capacity * 2 else need) in
         case mem_alloc m of (ok, m) \<Rightarrow>
           if ok then Some (b\<lparr>db_buf := db_buf b @ replicate (capacity - length (db_buf b)) 0\<rparr>, m) else None)
      else Some (b, m))"

definition aulsmfs_dirbuf_add ::
    "fuse_dirent \<Rightarrow> aulsmfs_dirbuf \<Rightarrow> string \<Rightarrow> stat \<Rightarrow> int \<Rightarrow> mem \<Rightarrow> (aulsmfs_dirbuf \<times> mem) option" where
  "aulsmfs_dirbuf_add fe b name stat off m =
     (let oldsize = db_size b; esize = fe_size fe name in do {
        (b, m) \<leftarrow> aulsmfs_dirbuf_grow b (oldsize + esize) m;
        let b = b\<lparr>db_size := db_size b + esize\<rparr>;
        let room = take esize (drop oldsize (db_buf b));
        Some (b\<lparr>db_buf := buf_put (db_buf b) oldsize (fe_fill fe room name stat off)\<rparr>, m) })"

text \<open>The cases of the \<open>switch\<close>: the first falls through to the second.\<close>

definition aulsmfs_readdir_case1 :: "fuse_dirent \<Rightarrow> aulsmfs_dirbuf \<Rightarrow> mem \<Rightarrow> (aulsmfs_dirbuf \<times> mem) option" where
  "aulsmfs_readdir_case1 fe b m = do {
     stat \<leftarrow> aulsmfs_stat AULSMFS_ROOT_INODE;
     aulsmfs_dirbuf_add fe b ''..'' stat 2 m }"

definition aulsmfs_readdir_case0 :: "fuse_dirent \<Rightarrow> aulsmfs_dirbuf \<Rightarrow> mem \<Rightarrow> (aulsmfs_dirbuf \<times> mem) option" where
  "aulsmfs_readdir_case0 fe b m = do {
     stat \<leftarrow> aulsmfs_stat AULSMFS_ROOT_INODE;
     (b, m) \<leftarrow> aulsmfs_dirbuf_add fe b ''.'' stat 1 m;
     aulsmfs_readdir_case1 fe b m }"

definition aulsmfs_readdir :: "fuse_dirent \<Rightarrow> ino \<Rightarrow> nat \<Rightarrow> int \<Rightarrow> mem \<Rightarrow> (reply list \<times> mem) option" where
  "aulsmfs_readdir fe ino sz off m =
     (if ino \<noteq> AULSMFS_ROOT_INODE then None
      else if ino \<noteq> AULSMFS_ROOT_INODE then Some ([Reply_err ENOTDIR], m)
      else do {
        (b, m) \<leftarrow>
          (if off = 0 then aulsmfs_readdir_case0 fe aulsmfs_dirbuf_setup m
           else if off = 1 then aulsmfs_readdir_case1 fe aulsmfs_dirbuf_setup m
           else Some (aulsmfs_dirbuf_setup, m));
        Some ([Reply_buf (take (if db_size b < sz then db_size b else sz) (db_buf b))], m) })"

definition aulsmfs_open :: "ino \<Rightarrow> reply list option" where
  "aulsmfs_open ino = (if ino \<noteq> AULSMFS_ROOT_INODE then None else Some [Reply_err EISDIR])"

section \<open>Requests in sequence\<close>

text \<open>
  \<open>aulsmfs_ops\<close>: the handler of a request. The kernel asks about the root and about inodes that a
  reply has named; of these replies only \<open>fuse_reply_attr\<close> names one.
\<close>

datatype request = Lookup ino string | Getattr ino | Readdir ino nat int | Open ino

fun request_ino :: "request \<Rightarrow> ino" where
  "request_ino (Lookup i _) = i"
| "request_ino (Getattr i) = i"
| "request_ino (Readdir i _ _) = i"
| "request_ino (Open i) = i"

fun aulsmfs_ops :: "fuse_dirent \<Rightarrow> request \<Rightarrow> mem \<Rightarrow> (reply list \<times> mem) option" where
  "aulsmfs_ops fe (Lookup i name) m = do { out \<leftarrow> aulsmfs_lookup i name; Some (out, m) }"
| "aulsmfs_ops fe (Getattr i) m = do { out \<leftarrow> aulsmfs_getattr i; Some (out, m) }"
| "aulsmfs_ops fe (Readdir i sz off) m = aulsmfs_readdir fe i sz off m"
| "aulsmfs_ops fe (Open i) m = do { out \<leftarrow> aulsmfs_open i; Some (out, m) }"

fun reply_inos :: "reply \<Rightarrow> ino set" where
  "reply_inos (Reply_attr s) = {st_ino s}"
| "reply_inos _ = {}"

text \<open>The inodes the kernel knows and the decisions of \<open>realloc\<close>, request by request. A failed assertion is
  \<open>None\<close>: the daemon has aborted and handles no further request.\<close>

inductive fuse_run ::
    "fuse_dirent \<Rightarrow> ino set \<Rightarrow> mem \<Rightarrow> request list \<Rightarrow> (ino set \<times> mem \<times> reply list) option \<Rightarrow> bool" for fe where
  run_done: "fuse_run fe known m [] (Some (known, m, []))"
| run_abort: "request_ino r \<in> known \<Longrightarrow> aulsmfs_ops fe r m = None \<Longrightarrow> fuse_run fe known m (r # rs) None"
| run_step: "request_ino r \<in> known \<Longrightarrow> aulsmfs_ops fe r m = Some (out, m1) \<Longrightarrow>
    fuse_run fe (known \<union> (\<Union>x \<in> set out. reply_inos x)) m1 rs res \<Longrightarrow>
    fuse_run fe known m (r # rs) (map_option (\<lambda>(k, m', replies). (k, m', out @ replies)) res)"

inductive_cases run_emptyE [elim!]: "fuse_run fe known m [] res"
inductive_cases run_ConsE: "fuse_run fe known m (r # rs) res"

section \<open>main\<close>

text \<open>What the calls of libfuse, \<open>open\<close> and the command line give.\<close>

record fuse_calls =
  fm_opt_parse :: bool
  fm_cmdline :: bool
  fm_help :: bool
  fm_version :: bool
  fm_path :: bool
  fm_open :: "vfile option"
  fm_session :: bool
  fm_handlers :: bool
  fm_mount :: bool
  fm_single :: bool
  fm_loop :: int
  fm_loop_mt :: int

text \<open>The calls that acquire and release, in order: \<open>open\<close> and \<open>close\<close>, \<open>fuse_session_new\<close> and
  \<open>fuse_session_destroy\<close>, \<open>fuse_set_signal_handlers\<close> and \<open>fuse_remove_signal_handlers\<close>,
  \<open>fuse_session_mount\<close> and \<open>fuse_session_unmount\<close>, and the event loop. \<open>main\<close> never unmounts.\<close>

datatype act = Opened | Session_created | Handlers_set | Mounted | Looped | Unmounted | Handlers_removed | Session_destroyed
  | Closed

definition fuse_config_zero :: fuse_config where
  "fuse_config_zero = \<lparr>fc_minor = 0, fc_major = 0, fc_page_size = 0, fc_pages = 0\<rparr>"

text \<open>The labels at the end of \<open>main\<close>. \<open>fd\<close>: whether the image is open.\<close>

definition main_out :: "bool \<Rightarrow> int \<Rightarrow> act list \<Rightarrow> int \<times> act list" where
  "main_out fd ret acts = (if ret \<noteq> 0 then 1 else 0, acts @ (if fd then [Closed] else []))"

definition main_destroy_session :: "int \<Rightarrow> act list \<Rightarrow> int \<times> act list" where
  "main_destroy_session ret acts = main_out True ret (acts @ [Session_destroyed])"

definition main_remove_handlers :: "int \<Rightarrow> act list \<Rightarrow> int \<times> act list" where
  "main_remove_handlers ret acts = main_destroy_session ret (acts @ [Handlers_removed])"

definition main_mounted :: "fuse_calls \<Rightarrow> act list \<Rightarrow> int \<times> act list" where
  "main_mounted c acts =
     (let ret = (if fm_single c then fm_loop c else fm_loop_mt c)
      in main_remove_handlers ret (acts @ [Looped]))"

definition aulsmfs_main :: "fuse_calls \<Rightarrow> int \<times> act list" where
  "aulsmfs_main c =
     (let ret = 1 in
      if \<not> fm_opt_parse c then main_out False ret []
      else if \<not> fm_cmdline c then main_out False ret []
      else if fm_help c then main_out False ret []
      else if fm_version c then main_out False ret []
      else if \<not> fm_path c then main_out False ret []
      else case fm_open c of
        None \<Rightarrow> main_out False ret []
      | Some f \<Rightarrow>
          (case fst (aulsmfs_super_read fuse_config_zero f) of
             Inl _ \<Rightarrow> main_out True ret [Opened]
           | Inr _ \<Rightarrow>
               if \<not> fm_session c then main_out True ret [Opened]
               else if \<not> fm_handlers c then main_destroy_session ret [Opened, Session_created]
               else if \<not> fm_mount c then main_remove_handlers ret [Opened, Session_created, Handlers_set]
               else main_mounted c [Opened, Session_created, Handlers_set, Mounted]))"

section \<open>Properties of the handlers\<close>

text \<open>What the code relies on, as libfuse documents it: an entry has the size that was announced for
  its name, and fills a room of this size.\<close>

definition dirent_ok :: "fuse_dirent \<Rightarrow> (string \<Rightarrow> stat \<Rightarrow> int \<Rightarrow> byte list) \<Rightarrow> bool" where
  "dirent_ok fe entry \<longleftrightarrow> (\<forall>room name stat off. length room = fe_size fe name \<longrightarrow>
     fe_fill fe room name stat off = entry name stat off \<and> length (entry name stat off) = fe_size fe name)"

lemma dirent_okD:
  "dirent_ok fe entry \<Longrightarrow> length room = fe_size fe name \<Longrightarrow> fe_fill fe room name stat off = entry name stat off"
  "dirent_ok fe entry \<Longrightarrow> length (entry name stat off) = fe_size fe name"
  by (simp_all add: dirent_ok_def) (metis length_replicate)

definition root_stat :: stat where
  "root_stat = \<lparr>st_ino = AULSMFS_ROOT_INODE, st_mode = AULSMFS_ROOT_MODE, st_nlink = 1, st_size = 2\<rparr>"

definition dir_entries :: "(string \<Rightarrow> stat \<Rightarrow> int \<Rightarrow> byte list) \<Rightarrow> byte list list" where
  "dir_entries entry = [entry ''.'' root_stat 1, entry ''..'' root_stat 2]"

lemma dirbuf_grow_at:
  "\<exists>more. aulsmfs_dirbuf_grow b need [] = Some (b\<lparr>db_buf := db_buf b @ more\<rparr>, []) \<and> need \<le> length (db_buf b @ more)"
proof (cases "length (db_buf b) < need")
  case True
  then show ?thesis by (auto simp: aulsmfs_dirbuf_grow_def Let_def)
next
  case False
  then show ?thesis by (intro exI [of _ "[]"]) (simp add: aulsmfs_dirbuf_grow_def)
qed

lemma dirbuf_add_at:
  assumes ok: "dirent_ok fe entry" and b: "take (db_size b) (db_buf b) = bs" "db_size b \<le> length (db_buf b)"
  shows "\<exists>b'. aulsmfs_dirbuf_add fe b name st off [] = Some (b', []) \<and>
    take (db_size b') (db_buf b') = bs @ entry name st off \<and> db_size b' \<le> length (db_buf b')"
proof -
  let ?n = "fe_size fe name"
  obtain more where g: "aulsmfs_dirbuf_grow b (db_size b + ?n) [] = Some (b\<lparr>db_buf := db_buf b @ more\<rparr>, [])"
    and l: "db_size b + ?n \<le> length (db_buf b @ more)" using dirbuf_grow_at by blast
  define buf where "buf = db_buf b @ more"
  have e: "length (entry name st off) = ?n" using ok by (rule dirent_okD)
  have bl: "length bs = db_size b" and t: "take (db_size b) buf = bs" using b by (auto simp: buf_def)
  have l: "db_size b + ?n \<le> length buf" using l by (simp add: buf_def)
  have f: "fe_fill fe (take ?n (drop (db_size b) buf)) name st off = entry name st off"
    by (rule dirent_okD [OF ok]) (use l in simp)
  let ?b = "b\<lparr>db_buf := buf_put buf (db_size b) (entry name st off), db_size := db_size b + ?n\<rparr>"
  have "aulsmfs_dirbuf_add fe b name st off [] = Some (?b, [])"
    using f g by (simp add: aulsmfs_dirbuf_add_def Let_def flip: buf_def)
  moreover have "take (db_size ?b) (db_buf ?b) = bs @ entry name st off"
    using l t e bl by (simp add: buf_put_def min_absorb2)
  moreover have "db_size ?b \<le> length (db_buf ?b)" using l e by simp
  ultimately show ?thesis by blast
qed

lemma root_stat_eq: "aulsmfs_stat AULSMFS_ROOT_INODE = Some root_stat"
  by (simp add: aulsmfs_stat_def root_stat_def)

text \<open>C28: a directory that is read piece by piece is complete. \<open>aulsmfs_readdir\<close> from offset \<open>off\<close>
  replies with the entries from number \<open>off\<close> on of the list of \<^verbatim>\<open>.\<close> and \<^verbatim>\<open>..\<close>, so that going on
  from the offset stored in an entry gives the rest and then the end; the reply is cut off at
  the size that was asked for.\<close>

theorem readdir_correct:
  assumes "dirent_ok fe entry" and "0 \<le> off"
  shows "aulsmfs_readdir fe AULSMFS_ROOT_INODE sz off [] =
    Some ([Reply_buf (take sz (concat (drop (nat off) (dir_entries entry))))], [])"
proof -
  have s: "take (db_size aulsmfs_dirbuf_setup) (db_buf aulsmfs_dirbuf_setup) = []"
      "db_size aulsmfs_dirbuf_setup \<le> length (db_buf aulsmfs_dirbuf_setup)"
    by (simp_all add: aulsmfs_dirbuf_setup_def)
  have cut: "take (if db_size b < sz then db_size b else sz) (db_buf b) = take sz (take (db_size b) (db_buf b))" for b
    by (simp add: min_def)
  consider "off = 0" | "off = 1" | "2 \<le> off" using assms(2) by linarith
  then show ?thesis
  proof cases
    case 1
    from dirbuf_add_at [OF assms(1) s, of "''.''" root_stat 1] obtain b1 where
      b1: "aulsmfs_dirbuf_add fe aulsmfs_dirbuf_setup ''.'' root_stat 1 [] = Some (b1, [])"
        "take (db_size b1) (db_buf b1) = entry ''.'' root_stat 1" "db_size b1 \<le> length (db_buf b1)" by auto
    from dirbuf_add_at [OF assms(1) b1(2,3), of "''..''" root_stat 2] obtain b2 where
      b2: "aulsmfs_dirbuf_add fe b1 ''..'' root_stat 2 [] = Some (b2, [])"
        "take (db_size b2) (db_buf b2) = entry ''.'' root_stat 1 @ entry ''..'' root_stat 2" by auto
    show ?thesis using 1 b1(1) b2
      by (simp add: aulsmfs_readdir_def aulsmfs_readdir_case0_def aulsmfs_readdir_case1_def root_stat_eq cut dir_entries_def
          del: take_take)
  next
    case 2
    from dirbuf_add_at [OF assms(1) s, of "''..''" root_stat 2] obtain b1 where
      b1: "aulsmfs_dirbuf_add fe aulsmfs_dirbuf_setup ''..'' root_stat 2 [] = Some (b1, [])"
        "take (db_size b1) (db_buf b1) = entry ''..'' root_stat 2" by auto
    show ?thesis using 2 b1
      by (simp add: aulsmfs_readdir_def aulsmfs_readdir_case1_def root_stat_eq cut dir_entries_def del: take_take)
  next
    case 3
    then show ?thesis by (simp add: aulsmfs_readdir_def aulsmfs_dirbuf_setup_def dir_entries_def)
  qed
qed


text \<open>A directory entry of 32 bytes, with the name at the end, as an example.\<close>

definition demo_entry :: "string \<Rightarrow> stat \<Rightarrow> int \<Rightarrow> byte list" where
  "demo_entry name stat off = replicate (28 - length name) 0 @ [of_nat (unat (st_ino stat)), word_of_int off, 0, 0]
     @ map (\<lambda>c. of_nat (of_char c)) name @ replicate (length name - 28) 0"

definition demo_dirent :: fuse_dirent where
  "demo_dirent = \<lparr>fe_size = \<lambda>name. length (demo_entry name root_stat 0), fe_fill = \<lambda>room. demo_entry\<rparr>"

theorem readdir_correct_witness:
  "dirent_ok demo_dirent demo_entry \<and>
   aulsmfs_readdir demo_dirent AULSMFS_ROOT_INODE 4096 1 [] = Some ([Reply_buf (demo_entry ''..'' root_stat 2)], [])"
proof -
  have ok: "dirent_ok demo_dirent demo_entry"
    by (simp add: dirent_ok_def demo_dirent_def demo_entry_def)
  with readdir_correct [OF ok, of 1 4096] show ?thesis by (simp add: dir_entries_def demo_entry_def)
qed

text \<open>An assertion about memory: the call gives \<open>None\<close> only if a request for memory is refused.\<close>

definition if_memory :: "mem \<Rightarrow> ('b \<times> mem) option \<Rightarrow> bool" where
  "if_memory m r \<longleftrightarrow> (case r of None \<Rightarrow> False \<in> set m | Some (_, m') \<Rightarrow> set m' \<subseteq> set m)"

lemma if_memory_bind:
  "if_memory m r \<Longrightarrow> (\<And>x m'. r = Some (x, m') \<Longrightarrow> if_memory m' (f x m')) \<Longrightarrow> if_memory m (r \<bind> (\<lambda>(x, m'). f x m'))"
  by (cases r) (fastforce simp: if_memory_def split: option.splits prod.splits)+

lemma if_memory_Some [simp]: "if_memory m (Some (x, m)) "
  by (simp add: if_memory_def)

lemma grow_memory: "if_memory m (aulsmfs_dirbuf_grow b need m)"
  by (cases m) (auto simp: aulsmfs_dirbuf_grow_def if_memory_def Let_def)

lemma add_memory: "if_memory m (aulsmfs_dirbuf_add fe b name st off m)"
  unfolding aulsmfs_dirbuf_add_def Let_def by (rule if_memory_bind) (simp_all add: grow_memory)

lemma readdir_memory: "if_memory m (aulsmfs_readdir fe AULSMFS_ROOT_INODE sz off m)"
proof -
  have 1: "if_memory m (aulsmfs_readdir_case1 fe b m)" for b m
    by (simp add: aulsmfs_readdir_case1_def root_stat_eq add_memory)
  have 0: "if_memory m (aulsmfs_readdir_case0 fe b m)" for b m
    by (simp add: aulsmfs_readdir_case0_def root_stat_eq if_memory_bind add_memory 1)
  show ?thesis unfolding aulsmfs_readdir_def if_not_P [OF notI [OF notE [OF _ refl]]]
    by (auto intro!: if_memory_bind simp: 0 1)
qed

lemma readdir_one_reply:
  "aulsmfs_readdir fe i sz off m = Some (out, m') \<Longrightarrow> \<exists>bs. out = [Reply_buf bs]"
  by (auto simp: aulsmfs_readdir_def split: if_splits bind_splits)

lemma readdir_later: "1 < off \<or> off < 0 \<Longrightarrow> aulsmfs_readdir fe AULSMFS_ROOT_INODE sz off m \<noteq> None"
  by (auto simp: aulsmfs_readdir_def)

fun lists_entries :: "request \<Rightarrow> bool" where
  "lists_entries (Readdir i sz off) \<longleftrightarrow> off = 0 \<or> off = 1"
| "lists_entries _ \<longleftrightarrow> False"

lemma ops_root:
  assumes "request_ino r = AULSMFS_ROOT_INODE"
  shows "case aulsmfs_ops fe r m of None \<Rightarrow> False \<in> set m \<and> lists_entries r
    | Some (out, m') \<Rightarrow> set m' \<subseteq> set m \<and> (\<exists>x. out = [x] \<and> reply_inos x \<subseteq> {AULSMFS_ROOT_INODE})"
proof (cases r)
  case (Readdir i sz off)
  have "lists_entries r" if "aulsmfs_readdir fe AULSMFS_ROOT_INODE sz off m = None"
    using that readdir_later [where fe = fe and off = off and sz = sz and m = m] Readdir by fastforce
  with assms Readdir readdir_memory [where fe = fe and off = off and sz = sz and m = m] show ?thesis
    by (auto simp: if_memory_def dest!: readdir_one_reply split: option.splits)
qed (use assms in \<open>auto simp: aulsmfs_lookup_def aulsmfs_getattr_def aulsmfs_open_def root_stat_eq root_stat_def\<close>)

text \<open>C29: the only assertion of a handler that a sequence of requests can make fail is the one that
  \<open>realloc\<close> succeeds, and only if it does not, in a \<open>readdir\<close> that lists an entry. Otherwise every request has
  had one reply, and a kernel that knows the root at first and asks only about inodes it has learnt of knows
  no other inode at the end.\<close>

theorem fuse_never_aborts:
  assumes "fuse_run fe {AULSMFS_ROOT_INODE} m rs res"
  shows "case res of None \<Rightarrow> False \<in> set m \<and> (\<exists>r \<in> set rs. lists_entries r)
    | Some (known, m', replies) \<Rightarrow> known = {AULSMFS_ROOT_INODE} \<and> length replies = length rs"
proof -
  have "known = {AULSMFS_ROOT_INODE} \<Longrightarrow>
      case res of None \<Rightarrow> False \<in> set m \<and> (\<exists>r \<in> set rs. lists_entries r)
      | Some (known, m', replies) \<Rightarrow> known = {AULSMFS_ROOT_INODE} \<and> length replies = length rs"
    if "fuse_run fe known m rs res" for known
    using that
  proof (induction rule: fuse_run.induct)
    case (run_done known m)
    then show ?case by simp
  next
    case (run_abort r known m rs)
    then show ?case using ops_root [where r = r and fe = fe and m = m] by auto
  next
    case (run_step r known m out m1 rs res)
    then obtain x where x: "out = [x]" "reply_inos x \<subseteq> {AULSMFS_ROOT_INODE}" "set m1 \<subseteq> set m"
      using ops_root [where r = r and fe = fe and m = m] by auto
    with run_step have "known \<union> (\<Union>x \<in> set out. reply_inos x) = {AULSMFS_ROOT_INODE}" by auto
    from run_step.IH [OF this] x(1,3) show ?case by (auto split: option.splits)
  qed
  with assms show ?thesis by blast
qed

theorem fuse_never_aborts_witness:
  "\<exists>replies. fuse_run demo_dirent {AULSMFS_ROOT_INODE} [False] [Getattr 1, Lookup 1 ''a'']
       (Some ({AULSMFS_ROOT_INODE}, [False], replies)) \<and> length replies = 2"
proof -
  let ?root = "{AULSMFS_ROOT_INODE}"
  have 0: "fuse_run demo_dirent ?root [False] [] (Some (?root, [False], []))" by (rule run_done)
  have 1: "fuse_run demo_dirent ?root [False] [Lookup 1 ''a''] (Some (?root, [False], [Reply_err ENOENT]))"
    using run_step [of "Lookup 1 ''a''" ?root demo_dirent "[False]" "[Reply_err ENOENT]" "[False]" "[]"
        "Some (?root, [False], [])"] 0
    by (simp add: aulsmfs_lookup_def AULSMFS_ROOT_INODE_def)
  have 2: "fuse_run demo_dirent ?root [False] [Getattr 1, Lookup 1 ''a'']
      (Some (?root, [False], [Reply_attr root_stat, Reply_err ENOENT]))"
    using run_step [of "Getattr 1" ?root demo_dirent "[False]" "[Reply_attr root_stat]" "[False]" _
        "Some (?root, [False], [Reply_err ENOENT])"] 1
    by (simp add: aulsmfs_getattr_def root_stat_eq [unfolded AULSMFS_ROOT_INODE_def] AULSMFS_ROOT_INODE_def)
      (simp add: root_stat_def AULSMFS_ROOT_INODE_def)
  from fuse_never_aborts [OF 2] 2 show ?thesis by auto
qed

text \<open>Without memory the assertion does fail, and the daemon with it.\<close>

theorem fuse_aborts_without_memory:
  assumes "0 < fe_size fe ''.''"
  shows "fuse_run fe {AULSMFS_ROOT_INODE} (False # m) (Readdir AULSMFS_ROOT_INODE sz 0 # rs) None"
  by (rule run_abort) (use assms in \<open>simp_all add: aulsmfs_readdir_def aulsmfs_readdir_case0_def root_stat_eq
      aulsmfs_dirbuf_add_def aulsmfs_dirbuf_grow_def aulsmfs_dirbuf_setup_def\<close>)

section \<open>What main acquires\<close>

text \<open>What is acquired, in this order, and the call that gives it back.\<close>

definition acquisitions :: "act list" where
  "acquisitions = [Opened, Session_created, Handlers_set, Mounted]"

fun undo :: "act \<Rightarrow> act" where
  "undo Opened = Closed"
| "undo Session_created = Session_destroyed"
| "undo Handlers_set = Handlers_removed"
| "undo Mounted = Unmounted"
| "undo a = a"


text \<open>A fresh image, mounted without a failure.\<close>

definition demo_calls :: "vfile \<Rightarrow> fuse_calls" where
  "demo_calls f = \<lparr>fm_opt_parse = True, fm_cmdline = True, fm_help = False, fm_version = False, fm_path = True,
     fm_open = Some f, fm_session = True, fm_handlers = True, fm_mount = True, fm_single = True, fm_loop = 0, fm_loop_mt = 1\<rparr>"


lemma main_serves:
  assumes "fst (aulsmfs_super_read fuse_config_zero f) = Inr r" and "fm_open c = Some f"
    and "fm_opt_parse c" "fm_cmdline c" "\<not> fm_help c" "\<not> fm_version c" "fm_path c" "fm_session c" "fm_handlers c" "fm_mount c"
  shows "aulsmfs_main c = (if (if fm_single c then fm_loop c else fm_loop_mt c) = 0 then 0 else 1,
    [Opened, Session_created, Handlers_set, Mounted, Looped, Handlers_removed, Session_destroyed, Closed])"
  using assms by (simp add: aulsmfs_main_def main_mounted_def main_remove_handlers_def main_destroy_session_def main_out_def)

text \<open>A step determines its outcome, so a sequence of requests has one result.\<close>

lemma fuse_run_det: "fuse_run fe known m rs r1 \<Longrightarrow> fuse_run fe known m rs r2 \<Longrightarrow> r1 = r2"
proof (induction arbitrary: r2 rule: fuse_run.induct)
  case (run_done known m)
  then show ?case by blast
next
  case (run_abort r known m rs)
  from run_abort.prems run_abort.hyps show ?case by (auto elim: run_ConsE)
next
  case (run_step r known m out m1 rs res)
  from run_step.prems run_step.hyps(2) run_step.IH show ?case by (auto elim!: run_ConsE)
qed

end
