(* ===== verification/CtreeTest.thy ===== *)
theory CtreeTest
  imports CtreeIterProps
begin

text \<open>
  The test of the disk trees (\<open>test/ctree_test.c\<close>): it builds a tree of the even numbers below twice
  a number of keys, walks over it in both directions, and looks for every key and for the bounds of every
  odd number. The number of keys, \<open>KEYS\<close> in the source, is a parameter. The loops over a tree are
  written against the contract of an iterator. \<open>malloc\<close> succeeds, and an iterator that is released is
  not used again, so it is just dropped.
\<close>

section \<open>Keys\<close>

definition test_key :: "int \<Rightarrow> lsm_key" where
  "test_key v = num_key (word_of_int v)"

definition key_is :: "int \<Rightarrow> errno + lsm_key \<Rightarrow> bool" where
  "key_is v k = (case k of Inl _ \<Rightarrow> False | Inr k \<Rightarrow> length k = 8 \<and> test_value k = v)"

section \<open>The loops\<close>

text \<open>Each loop gives back whether it ended without a complaint, with its counter and the number it
  expects next.\<close>

type_synonym 's loop = "(bool \<times> nat \<times> int \<times> 's) option"

partial_function (option) walk_forward ::
    "('s \<Rightarrow> (errno + lsm_key) option) \<Rightarrow> ('s \<Rightarrow> ((errno + unit) \<times> 's) option) \<Rightarrow> nat \<Rightarrow> nat \<Rightarrow> int \<Rightarrow> 's \<Rightarrow> 's loop" where
  "walk_forward key fwd keys count expected s =
     (if count = keys then Some (True, count, expected, s)
      else do {
        k \<leftarrow> key s;
        (if \<not> key_is expected k then Some (False, count, expected, s)
         else do {
           (rc, s) \<leftarrow> fwd s;
           (case rc of
              Inl e \<Rightarrow> Some (e = ENOENT, Suc count, expected + 2, s)
            | Inr _ \<Rightarrow> walk_forward key fwd keys (Suc count) (expected + 2) s) }) })"

partial_function (option) walk_down ::
    "('s \<Rightarrow> (errno + lsm_key) option) \<Rightarrow> ('s \<Rightarrow> ((errno + unit) \<times> 's) option) \<Rightarrow> nat \<Rightarrow> int \<Rightarrow> 's \<Rightarrow> 's loop" where
  "walk_down key bwd count expected s = do {
     (rc, s) \<leftarrow> bwd s;
     (case rc of
        Inl e \<Rightarrow> Some (e = ENOENT, count, expected, s)
      | Inr _ \<Rightarrow> do {
          let expected = expected - 2;
          let count = wrap64 (count + (2 ^ 64 - 1));
          k \<leftarrow> key s;
          (if \<not> key_is expected k then Some (False, count, expected, s)
           else if count = 0 then Some (True, count, expected, s)
           else walk_down key bwd count expected s) }) }"

partial_function (option) walk_backward ::
    "('s \<Rightarrow> (errno + lsm_key) option) \<Rightarrow> ('s \<Rightarrow> ((errno + unit) \<times> 's) option) \<Rightarrow> nat \<Rightarrow> int \<Rightarrow> 's \<Rightarrow> 's loop" where
  "walk_backward key bwd count expected s =
     (if count = 0 then Some (True, count, expected, s)
      else do {
        (rc, s) \<leftarrow> bwd s;
        (case rc of
           Inl e \<Rightarrow> Some (e = ENOENT, count, expected, s)
         | Inr _ \<Rightarrow> do {
             k \<leftarrow> key s;
             (if \<not> key_is expected k then Some (False, count, expected, s)
              else walk_backward key bwd (count - 1) (expected - 2) s) }) })"

partial_function (option) walk_up ::
    "('s \<Rightarrow> (errno + lsm_key) option) \<Rightarrow> ('s \<Rightarrow> ((errno + unit) \<times> 's) option) \<Rightarrow> nat \<Rightarrow> nat \<Rightarrow> int \<Rightarrow> 's \<Rightarrow> 's loop" where
  "walk_up key fwd keys count expected s = do {
     let expected = expected + 2;
     let count = wrap64 (count + 1);
     k \<leftarrow> key s;
     (if \<not> key_is expected k then Some (False, count, expected, s)
      else do {
        (rc, s) \<leftarrow> fwd s;
        (case rc of
           Inl e \<Rightarrow> Some (e = ENOENT, count, expected, s)
         | Inr _ \<Rightarrow>
             if count = keys then Some (True, count, expected, s) else walk_up key fwd keys count expected s) }) }"

text \<open>The two walks, from the first entry and from the end. The results are 0 and -1.\<close>

definition iterate_forward ::
    "('s \<Rightarrow> (errno + lsm_key) option) \<Rightarrow> ('s \<Rightarrow> ((errno + unit) \<times> 's) option) \<Rightarrow>
     ('s \<Rightarrow> ((errno + unit) \<times> 's) option) \<Rightarrow> nat \<Rightarrow> 's \<Rightarrow> (int \<times> 's) option" where
  "iterate_forward key fwd bwd keys s = do {
     (ok, count, expected, s) \<leftarrow> walk_forward key fwd keys 0 0 s;
     (if \<not> ok then Some (-1, s)
      else do {
        (rc, s) \<leftarrow> fwd s;
        (if rc \<noteq> Inl ENOENT \<or> count \<noteq> keys then Some (-1, s)
         else do {
           (ok, count, expected, s) \<leftarrow> walk_down key bwd count expected s;
           (if \<not> ok then Some (-1, s)
            else do {
              (rc, s) \<leftarrow> bwd s;
              Some (if rc \<noteq> Inl ENOENT \<or> count \<noteq> 0 then -1 else 0, s) }) }) }) }"

definition iterate_backward ::
    "('s \<Rightarrow> (errno + lsm_key) option) \<Rightarrow> ('s \<Rightarrow> ((errno + unit) \<times> 's) option) \<Rightarrow>
     ('s \<Rightarrow> ((errno + unit) \<times> 's) option) \<Rightarrow> nat \<Rightarrow> 's \<Rightarrow> (int \<times> 's) option" where
  "iterate_backward key fwd bwd keys s = do {
     (ok, count, expected, s) \<leftarrow> walk_backward key bwd keys ((int keys - 1) * 2) s;
     (if \<not> ok then Some (-1, s)
      else do {
        (rc, s) \<leftarrow> bwd s;
        (if rc \<noteq> Inl ENOENT \<or> count \<noteq> 0 then Some (-1, s)
         else do {
           (ok, count, expected, s) \<leftarrow> walk_up key fwd keys count expected s;
           (if \<not> ok then Some (-1, s)
            else do {
              (rc, s) \<leftarrow> fwd s;
              Some (if rc \<noteq> Inl ENOENT \<or> count \<noteq> keys then -1 else 0, s) }) }) }) }"

text \<open>Each loop of \<open>lookup_ctree\<close>: a search for every number of keys, which has to succeed and to end on the
  key with the even number.\<close>

fun seek_each ::
    "('s \<Rightarrow> (errno + lsm_key) option) \<Rightarrow> (nat \<Rightarrow> 's \<Rightarrow> ((errno + bool) \<times> 's) option) \<Rightarrow> nat list \<Rightarrow> 's \<Rightarrow> (int \<times> 's) option" where
  "seek_each key seek [] s = Some (0, s)"
| "seek_each key seek (i # is) s = do {
     (rc, s) \<leftarrow> seek i s;
     (if rc \<noteq> Inr True then Some (-1, s)
      else do {
        k \<leftarrow> key s;
        (if \<not> key_is (2 * int i) k then Some (-1, s) else seek_each key seek is s) }) }"

section \<open>The test\<close>

definition test_entry :: "nat \<Rightarrow> kv" where
  "test_entry i = (test_key (2 * int i), [])"

definition create_ctree ::
    "nat \<Rightarrow> 'd ctree \<Rightarrow> 'd io \<Rightarrow> 'a alloc_ops \<Rightarrow> ('d, 'a) env \<Rightarrow> (int \<times> 'd ctree \<times> ('d, 'a) env) option" where
  "create_ctree keys t io al env = do {
     (rc, b, env) \<leftarrow> ctree_build io al (map test_entry [0..<keys]) env;
     Some (case rc of
       Inl e \<Rightarrow> (-1, t, env)
     | Inr _ \<Rightarrow> (0, t\<lparr>tr_ptr := cb_ptr b, tr_height := cb_height b\<rparr>, env)) }"

definition iterate_ctree_forward :: "nat \<Rightarrow> 'd ctree \<Rightarrow> 'd \<Rightarrow> (int \<times> 'd) option" where
  "iterate_ctree_forward keys t d = do {
     it \<leftarrow> ctree_iter_setup t;
     (rc, s) \<leftarrow> cstep (ctree_begin it d []);
     (case rc of
        Inl e \<Rightarrow> Some (-1, snd s)
      | Inr _ \<Rightarrow> map_option (apsnd snd) (iterate_forward ckey cnext cprev keys s)) }"

definition iterate_ctree_backward :: "nat \<Rightarrow> 'd ctree \<Rightarrow> 'd \<Rightarrow> (int \<times> 'd) option" where
  "iterate_ctree_backward keys t d = do {
     it \<leftarrow> ctree_iter_setup t;
     (rc, s) \<leftarrow> cstep (ctree_end it d []);
     (case rc of
        Inl e \<Rightarrow> Some (-1, snd s)
      | Inr _ \<Rightarrow> map_option (apsnd snd) (iterate_backward ckey cnext cprev keys s)) }"

definition seek_lookup :: "nat \<Rightarrow> 'd cwalk \<Rightarrow> ((errno + bool) \<times> 'd cwalk) option" where
  "seek_lookup i s = cstep (ctree_lookup (test_key (2 * int i)) (fst s) (snd s) [])"

definition seek_lower :: "nat \<Rightarrow> 'd cwalk \<Rightarrow> ((errno + bool) \<times> 'd cwalk) option" where
  "seek_lower i s =
     map_option (apfst (map_sum id (\<lambda>_. True))) (cstep (ctree_lower_bound (test_key (2 * int i - 1)) (fst s) (snd s) []))"

definition seek_upper :: "nat \<Rightarrow> 'd cwalk \<Rightarrow> ((errno + bool) \<times> 'd cwalk) option" where
  "seek_upper i s =
     map_option (apfst (map_sum id (\<lambda>_. True))) (cstep (ctree_upper_bound (test_key (2 * int i - 1)) (fst s) (snd s) []))"

definition lookup_ctree :: "nat \<Rightarrow> 'd ctree \<Rightarrow> 'd \<Rightarrow> (int \<times> 'd) option" where
  "lookup_ctree keys t d = do {
     it \<leftarrow> ctree_iter_setup t;
     (rc, s) \<leftarrow> seek_each ckey seek_lookup [0..<keys] (it, d);
     (if rc \<noteq> 0 then Some (-1, snd s)
      else do {
        (rc, s) \<leftarrow> seek_each ckey seek_lower [0..<keys] s;
        (if rc \<noteq> 0 then Some (-1, snd s)
         else map_option (apsnd snd) (seek_each ckey seek_upper [0..<keys] s)) }) }"

text \<open>\<open>main\<close> on the file it has created and truncated. The exit status, with the file.\<close>

definition ctree_test_main :: "nat \<Rightarrow> vfile \<Rightarrow> (int \<times> vfile) option" where
  "ctree_test_main keys f = do {
     (rc, t, env) \<leftarrow> create_ctree keys (ctree_setup test_io test_cmp) test_io test_alloc \<lparr>dev = f, asp = 0, hm = []\<rparr>;
     (if rc \<noteq> 0 then Some (-1, dev env)
      else do {
        (rc, d) \<leftarrow> iterate_ctree_forward keys t (dev env);
        (if rc \<noteq> 0 then Some (-1, d)
         else do {
           (rc, d) \<leftarrow> iterate_ctree_backward keys t d;
           (if rc \<noteq> 0 then Some (-1, d)
            else do {
              (rc, d) \<leftarrow> lookup_ctree keys t d;
              Some (if rc \<noteq> 0 then -1 else 0, d) }) }) }) }"

section \<open>The walks against the contract\<close>

context cursor
begin

lemma key_here: "pos s xs i \<Longrightarrow> i < length xs \<Longrightarrow> key s = Some (Inr (fst (xs ! i)))"
  using key_at by simp

lemma fwd_inside:
  assumes "pos s xs i" and "i < length xs"
  obtains s' where "fwd s = Some (Inr (), s')" "pos s' xs (Suc i)"
  | s' where "fwd s = Some (Inl ENOENT, s')" "pos s' xs (Suc i)" "Suc i = length xs"
  using fwd_at [OF assms(1)] assms(2) by (fastforce simp: min_def)

lemma fwd_end: "pos s xs (length xs) \<Longrightarrow> \<exists>s'. fwd s = Some (Inl ENOENT, s') \<and> pos s' xs (length xs)"
  using fwd_at [of s xs "length xs"] by fastforce

lemma bwd_inside: "pos s xs (Suc i) \<Longrightarrow> \<exists>s'. bwd s = Some (Inr (), s') \<and> pos s' xs i"
  using bwd_at [of s xs "Suc i"] by fastforce

lemma bwd_begin: "pos s xs 0 \<Longrightarrow> \<exists>s'. bwd s = Some (Inl ENOENT, s') \<and> pos s' xs 0"
  using bwd_at [of s xs 0] by fastforce

lemma walk_forward_at:
  assumes "\<forall>j < length xs. key_is (2 * int j) (Inr (fst (xs ! j)))"
  shows "pos s xs i \<Longrightarrow> \<exists>s'. walk_forward key fwd (length xs) i (2 * int i) s = Some (True, length xs, 2 * int (length xs), s') \<and>
    pos s' xs (length xs)"
proof (induction "length xs - i" arbitrary: i s)
  case 0
  then have "i = length xs" using pos_le [OF 0(2)] by simp
  then show ?case using 0 by (subst walk_forward.simps) simp
next
  case (Suc k)
  then have i: "i < length xs" by simp
  note unf = walk_forward.simps [of key fwd "length xs" i "2 * int i" s]
  from Suc.prems i show ?case
  proof (cases rule: fwd_inside)
    case (1 s')
    have "k = length xs - Suc i" using Suc.hyps(2) by simp
    from Suc.hyps(1) [OF this 1(2)] show ?thesis
      unfolding unf using i 1(1) key_here [OF Suc.prems i] assms by (simp add: algebra_simps)
  next
    case (2 s')
    then show ?thesis unfolding unf using i key_here [OF Suc.prems i] assms by (auto simp: algebra_simps)
  qed
qed

lemma walk_down_at:
  assumes "\<forall>j < length xs. key_is (2 * int j) (Inr (fst (xs ! j)))" and "length xs < 2 ^ 64"
  shows "pos s xs (Suc i) \<Longrightarrow> \<exists>s'. walk_down key bwd (Suc i) (2 * int (Suc i)) s = Some (True, 0, 0, s') \<and> pos s' xs 0"
proof (induction i arbitrary: s)
  case (0 s)
  from bwd_inside [OF 0] obtain s' where s': "bwd s = Some (Inr (), s')" "pos s' xs 0" by blast
  have "0 < length xs" using pos_le [OF 0] by (cases xs) auto
  then show ?case using s' key_here [OF s'(2)] assms(1) by (subst walk_down.simps) (auto simp: Let_def wrap64_def)
next
  case (Suc i s)
  from bwd_inside [OF Suc.prems] obtain s' where s': "bwd s = Some (Inr (), s')" "pos s' xs (Suc i)" by blast
  have l: "Suc i < length xs" using pos_le [OF Suc.prems] by simp
  have "Suc (Suc i) + (2 ^ 64 - 1) = Suc i + 2 ^ 64" by simp
  then have "wrap64 (Suc (Suc i) + (2 ^ 64 - 1)) = Suc i" using assms(2) l by (simp only: wrap64_def mod_add_self2) simp
  moreover have "key_is (2 * int (Suc i)) (Inr (fst (xs ! Suc i)))" using assms(1) l by blast
  moreover have "2 * int (Suc (Suc i)) - 2 = 2 * int (Suc i)" by simp
  ultimately have "walk_down key bwd (Suc (Suc i)) (2 * int (Suc (Suc i))) s = walk_down key bwd (Suc i) (2 * int (Suc i)) s'"
    using s' key_here [OF s'(2) l] by (subst walk_down.simps) (simp only: Let_def bind.bind_lunit prod.case sum.case, simp)
  then show ?case using Suc.IH [OF s'(2)] by simp
qed

lemma walk_backward_at:
  assumes "\<forall>j < length xs. key_is (2 * int j) (Inr (fst (xs ! j)))"
  shows "pos s xs i \<Longrightarrow> \<exists>s'. walk_backward key bwd i ((int i - 1) * 2) s = Some (True, 0, -2, s') \<and> pos s' xs 0"
proof (induction i arbitrary: s)
  case (0 s)
  then show ?case by (subst walk_backward.simps) simp
next
  case (Suc i s)
  from bwd_inside [OF Suc.prems] obtain s' where s': "bwd s = Some (Inr (), s')" "pos s' xs i" by blast
  have "i < length xs" using pos_le [OF Suc.prems] by simp
  then have "walk_backward key bwd (Suc i) ((int (Suc i) - 1) * 2) s = walk_backward key bwd i ((int i - 1) * 2) s'"
    using s' key_here [OF s'(2)] assms by (subst walk_backward.simps) (simp add: algebra_simps)
  then show ?case using Suc.IH [OF s'(2)] by simp
qed

lemma walk_up_at:
  assumes "\<forall>j < length xs. key_is (2 * int j) (Inr (fst (xs ! j)))" and "length xs < 2 ^ 64"
  shows "pos s xs i \<Longrightarrow> i < length xs \<Longrightarrow>
    \<exists>s'. walk_up key fwd (length xs) i (2 * int i - 2) s = Some (True, length xs, 2 * int (length xs) - 2, s') \<and> pos s' xs (length xs)"
proof (induction "length xs - i" arbitrary: i s)
  case (Suc k)
  note i = Suc.prems(2) and unf = walk_up.simps [of key fwd "length xs" i "2 * int i - 2" s]
  have w: "wrap64 (i + 1) = Suc i" using i assms(2) by (simp add: wrap64_def)
  have e: "key_is (2 * int i - 2 + 2) (Inr (fst (xs ! i)))" using assms(1) i by simp
  note step = unf [unfolded Let_def w key_here [OF Suc.prems] bind.bind_lunit]
  from Suc.prems show ?case
  proof (cases rule: fwd_inside)
    case (1 s')
    show ?thesis
    proof (cases "Suc i = length xs")
      case True
      then show ?thesis unfolding step using 1 e by auto
    next
      case False
      have "k = length xs - Suc i" "Suc i < length xs" using Suc.hyps(2) i False by simp_all
      from Suc.hyps(1) [OF this(1) 1(2) this(2)] show ?thesis unfolding step using 1(1) e False by simp
    qed
  next
    case (2 s')
    then show ?thesis unfolding step using e by auto
  qed
qed simp

lemma iterate_forward_at:
  assumes "\<forall>j < length xs. key_is (2 * int j) (Inr (fst (xs ! j)))" and "length xs < 2 ^ 64" and "xs \<noteq> []" and "pos s xs 0"
  shows "\<exists>s'. iterate_forward key fwd bwd (length xs) s = Some (0, s') \<and> pos s' xs 0"
proof -
  obtain i where i: "length xs = Suc i" using assms(3) by (cases xs) auto
  from walk_forward_at [OF assms(1,4)] obtain s1 where
    1: "walk_forward key fwd (length xs) 0 0 s = Some (True, length xs, 2 * int (length xs), s1)" "pos s1 xs (length xs)" by auto
  from fwd_end [OF 1(2)] obtain s2 where 2: "fwd s1 = Some (Inl ENOENT, s2)" "pos s2 xs (length xs)" by blast
  from walk_down_at [OF assms(1,2)] 2(2) obtain s3 where
    3: "walk_down key bwd (length xs) (2 * int (length xs)) s2 = Some (True, 0, 0, s3)" "pos s3 xs 0" unfolding i by blast
  from bwd_begin [OF 3(2)] 1(1) 2(1) 3(1) show ?thesis by (auto simp: iterate_forward_def)
qed

lemma iterate_backward_at:
  assumes "\<forall>j < length xs. key_is (2 * int j) (Inr (fst (xs ! j)))" and "length xs < 2 ^ 64" and "xs \<noteq> []" and "pos s xs (length xs)"
  shows "\<exists>s'. iterate_backward key fwd bwd (length xs) s = Some (0, s') \<and> pos s' xs (length xs)"
proof -
  from walk_backward_at [OF assms(1,4)] obtain s1 where
    1: "walk_backward key bwd (length xs) ((int (length xs) - 1) * 2) s = Some (True, 0, -2, s1)" "pos s1 xs 0" by blast
  from bwd_begin [OF 1(2)] obtain s2 where 2: "bwd s1 = Some (Inl ENOENT, s2)" "pos s2 xs 0" by blast
  from walk_up_at [OF assms(1,2) 2(2)] assms(3) obtain s3 where
    3: "walk_up key fwd (length xs) 0 (-2) s2 = Some (True, length xs, 2 * int (length xs) - 2, s3)" "pos s3 xs (length xs)" by auto
  from fwd_end [OF 3(2)] 1(1) 2(1) 3(1) show ?thesis by (auto simp: iterate_backward_def)
qed

end

lemma seek_each_all:
  assumes "\<And>i s. i \<in> set is \<Longrightarrow> P s \<Longrightarrow> \<exists>s' k. seek i s = Some (Inr True, s') \<and> P s' \<and> key s' = Some k \<and> key_is (2 * int i) k"
  shows "P s \<Longrightarrow> \<exists>s'. seek_each key seek is s = Some (0, s') \<and> P s'"
  using assms
proof (induction "is" arbitrary: s)
  case (Cons i "is")
  from Cons.prems(2) [of i s] Cons.prems(1) obtain s' k where
    "seek i s = Some (Inr True, s')" "P s'" "key s' = Some k" "key_is (2 * int i) k" by auto
  with Cons.IH [of s'] Cons.prems(2) show ?case by auto
qed simp

section \<open>The test passes\<close>

lemma test_key_value [simp]: "length (test_key v) = 8" "- (2 ^ 63) \<le> v \<Longrightarrow> v < 2 ^ 63 \<Longrightarrow> test_value (test_key v) = v"
  by (simp_all add: test_key_def sint_sbintrunc' signed_take_bit_int_eq_self)

definition test_entries :: "nat \<Rightarrow> kv list" where
  "test_entries n = map test_entry [0..<n]"

lemma length_test_entries [simp]: "length (test_entries n) = n"
  by (simp add: test_entries_def)

lemma test_entries_ok: "\<forall>e \<in> set (test_entries n). entry_ok e"
  by (auto simp: test_entries_def test_entry_def entry_ok_def entry_small_def)

lemma test_entries_bytes: "node_bytes (test_entries n) = 16 + n * 12"
  by (simp add: node_bytes_def entries_enc_def test_entries_def test_entry_def length_concat comp_def sum_list_triv)

lemma test_entries_keys:
  assumes "n < 2 ^ 61" and "j < n"
  shows "fst (test_entries n ! j) = test_key (2 * int j)" "test_value (fst (test_entries n ! j)) = 2 * int j"
  using assms by (simp_all add: test_entries_def test_entry_def)

lemma test_entries_key_is: "n < 2 ^ 61 \<Longrightarrow> j < n \<Longrightarrow> key_is (2 * int j) (Inr (fst (test_entries n ! j)))"
  by (simp add: test_entries_keys key_is_def)

lemma test_entries_sorted: "n < 2 ^ 61 \<Longrightarrow> kv_sorted test_cmp (test_entries n)"
  unfolding kv_sorted_def sorted_wrt_iff_nth_less using test_entries_keys(2) by (auto simp: test_cmp_def)

text \<open>Where the searches for a number end.\<close>

lemma test_entries_split:
  "i < n \<Longrightarrow> test_entries n = map test_entry [0..<i] @ test_entry i # map test_entry [Suc i..<n]"
  unfolding test_entries_def by (metis le_add_same_cancel1 list.simps(9) map_append upt_add_eq_append upt_conv_Cons zero_le less_imp_add_positive)

lemma test_entries_bounds:
  assumes "n < 2 ^ 61" and "i < n"
  shows "kv_lower test_cmp (test_key (2 * int i)) (test_entries n) = i" "kv_get test_cmp (test_key (2 * int i)) (test_entries n) \<noteq> None"
    "kv_lower test_cmp (test_key (2 * int i - 1)) (test_entries n) = i" "kv_upper test_cmp (test_key (2 * int i - 1)) (test_entries n) = i"
proof -
  have v: "test_value (fst (test_entry j)) = 2 * int j" if "j \<le> i" for j using that assms by (simp add: test_entry_def)
  have k: "test_value (test_key (2 * int i)) = 2 * int i" "test_value (test_key (2 * int i - 1)) = 2 * int i - 1" using assms by simp_all
  note split = test_entries_split [OF assms(2)]
  show "kv_lower test_cmp (test_key (2 * int i)) (test_entries n) = i" "kv_lower test_cmp (test_key (2 * int i - 1)) (test_entries n) = i"
    "kv_upper test_cmp (test_key (2 * int i - 1)) (test_entries n) = i"
    unfolding split kv_lower_append kv_upper_append using v k by (auto simp: test_cmp_def)
  have "test_entry i \<in> set (test_entries n)" using assms by (auto simp: test_entries_def)
  moreover have "test_cmp (fst (test_entry i)) (test_key (2 * int i)) = 0" using v k by (simp add: test_cmp_def)
  ultimately have "\<exists>e \<in> set (test_entries n). test_cmp (fst e) (test_key (2 * int i)) = 0" by blast
  then show "kv_get test_cmp (test_key (2 * int i)) (test_entries n) \<noteq> None" by (auto simp: kv_get_def find_None_iff)
qed

text \<open>Every search of \<open>lookup_ctree\<close> ends on the key it expects.\<close>

lemma seek_found:
  fixes good stored lim U S t n
  defines "P \<equiv> on_tree good stored lim U S t (test_entries n)"
  assumes "tr_cmp t = test_cmp" and "0 < tr_height t" and "n < 2 ^ 61" and "i < n" and "P s" and "seek \<in> {seek_lookup, seek_lower, seek_upper}"
  shows "\<exists>s' k. seek i s = Some (Inr True, s') \<and> P s' \<and> ckey s' = Some k \<and> key_is (2 * int i) k"
proof -
  obtain it d where s: "s = (it, d)" by (cases s)
  note b = test_entries_bounds [OF assms(4,5)] and on = assms(6) [unfolded P_def s]
  note at = ctree_cursor.key_at [of _ "test_entries n" i]
  have "\<exists>s'. seek i s = Some (Inr True, s') \<and> P s' \<and> cpos s' (test_entries n) i"
    using on_tree_lookup [OF on assms(3), of "test_key (2 * int i)"] on_tree_lower [OF on assms(3), of "test_key (2 * int i - 1)"]
      on_tree_upper [OF on assms(3), of "test_key (2 * int i - 1)"] assms(2,5,7) b
    unfolding P_def s by (auto simp: seek_lookup_def seek_lower_def seek_upper_def cstep_def)
  then show ?thesis using at test_entries_key_is [OF assms(4,5)] assms(5) by fastforce
qed

lemma lookup_passes:
  assumes "tr_cmp t = test_cmp" and "0 < tr_height t" and "n < 2 ^ 61" and "ctree_iter_setup t = Some it"
    and "on_tree good stored lim U S t (test_entries n) (it, d)"
  shows "\<exists>d'. lookup_ctree n t d = Some (0, d')"
proof -
  let ?P = "on_tree good stored lim U S t (test_entries n)"
  have all: "?P s \<Longrightarrow> \<exists>s'. seek_each ckey seek [0..<n] s = Some (0, s') \<and> ?P s'"
    if "seek \<in> {seek_lookup, seek_lower, seek_upper}" for seek s
    by (rule seek_each_all [where P = ?P]) (use seek_found [OF assms(1-3)] that in auto)
  from all [of seek_lookup] assms(5) obtain s1 where 1: "seek_each ckey seek_lookup [0..<n] (it, d) = Some (0, s1)" "?P s1" by blast
  from all [of seek_lower] 1(2) obtain s2 where 2: "seek_each ckey seek_lower [0..<n] s1 = Some (0, s2)" "?P s2" by blast
  from all [of seek_upper] 2(2) obtain s3 where "seek_each ckey seek_upper [0..<n] s2 = Some (0, s3)" by blast
  with 1(1) 2(1) assms(4) show ?thesis by (simp add: lookup_ctree_def)
qed

lemma on_tree_fresh:
  "on_tree good stored lim U S t xs (it, d) \<Longrightarrow> on_tree good stored lim U S t xs s \<Longrightarrow> on_tree good stored lim U S t xs (it, snd s)"
  by (simp add: on_tree_def)

lemma walks_pass:
  assumes "0 < n" and "n < 2 ^ 61" and "ctree_iter_setup t = Some it" and on: "on_tree good stored lim U S t (test_entries n) (it, d)"
  shows "\<exists>d'. iterate_ctree_forward n t d = Some (0, d') \<and> on_tree good stored lim U S t (test_entries n) (it, d')"
    "\<exists>d'. iterate_ctree_backward n t d = Some (0, d') \<and> on_tree good stored lim U S t (test_entries n) (it, d')"
proof -
  have k: "\<forall>j < length (test_entries n). key_is (2 * int j) (Inr (fst (test_entries n ! j)))" "length (test_entries n) < 2 ^ 64"
    using assms(2) test_entries_key_is by simp_all
  have ne: "test_entries n \<noteq> []" using assms(1) by (metis length_test_entries less_numeral_extra(3) list.size(3))
  from on_tree_begin [OF on] obtain b d1 where b: "ctree_begin it d [] = Some (Inr (), b, d1, [])"
      "tpos good stored lim U S t (b, d1) (test_entries n) 0" by blast
  from cursor.iterate_forward_at [OF tpos_cursor k ne b(2)] obtain s where
    "iterate_forward ckey cnext cprev n (b, d1) = Some (0, s)" "on_tree good stored lim U S t (test_entries n) s" by (auto simp: tpos_def)
  with b(1) assms(3) on_tree_fresh [OF on this(2)]
  show "\<exists>d'. iterate_ctree_forward n t d = Some (0, d') \<and> on_tree good stored lim U S t (test_entries n) (it, d')"
    by (simp add: iterate_ctree_forward_def cstep_def)
  from on_tree_end [OF on] obtain e d2 where e: "ctree_end it d [] = Some (Inr (), e, d2, [])"
      "tpos good stored lim U S t (e, d2) (test_entries n) (length (test_entries n))" by blast
  from cursor.iterate_backward_at [OF tpos_cursor k ne e(2)] obtain s where
    "iterate_backward ckey cnext cprev n (e, d2) = Some (0, s)" "on_tree good stored lim U S t (test_entries n) s" by (auto simp: tpos_def)
  with e(1) assms(3) on_tree_fresh [OF on this(2)]
  show "\<exists>d'. iterate_ctree_backward n t d = Some (0, d') \<and> on_tree good stored lim U S t (test_entries n) (it, d')"
    by (simp add: iterate_ctree_backward_def cstep_def)
qed

text \<open>C15: the test of the disk trees passes, for any number of keys between 34474, from where on the
  bytes of the entries exceed what one leaf can hold of entries of any kind, and the range of the height.
  Building, both walks, the searches for every key and for both bounds of every missing key run without
  undefined behaviour and agree with the sorted list of the keys. The 10 million keys of the source are the
  witness.\<close>

theorem ctree_test_passes:
  assumes "script f = []" and "34474 \<le> n" and "3 * n < 2 ^ 31"
  shows "\<exists>f'. ctree_test_main n f = Some (0, f')"
proof -
  let ?env = "\<lparr>dev = f, asp = 0, hm = []\<rparr> :: (vfile, nat) env"
  have g: "test_good (dev ?env)" "hm ?env = []" "n < 2 ^ 61" "0 < n" using assms by (simp_all add: test_good_def)
  obtain b env' where b: "ctree_build test_io volume_alloc (test_entries n) ?env = Some (Inr (), b, env')"
    using test_build [OF g(1,2) test_entries_ok, of n] assms(3) by (auto simp: test_limit_def)
  let ?t = "(ctree_setup test_io test_cmp)\<lparr>tr_ptr := cb_ptr b, tr_height := cb_height b\<rparr>"
  have t: "tr_io ?t = test_io" "tr_cmp ?t = test_cmp" "tr_ptr ?t = cb_ptr b" "tr_height ?t = cb_height b" by (simp_all add: ctree_setup_def)
  have l: "lvl_max test_io < node_bytes (test_entries n)" "3 * length (test_entries n) < 2 ^ 31"
    using assms(2,3) by (simp_all add: test_entries_bytes lvl_max_test)
  from built_tree_on [OF test_storage.page_storage_axioms g(1,2) test_entries_ok l(1) test_keys.key_order_axioms
    test_entries_sorted [OF g(3)] l(2) b t] obtain it where
    on: "tree_on test_good test_stored test_limit (test_used (asp env')) (dev env') ?t (test_entries n)" and
    h: "0 < tr_height ?t" and it: "ctree_iter_setup ?t = Some it" by blast
  note on0 = on_tree_setup [OF on it]
  from walks_pass(1) [OF g(4,3) it on0] obtain d1 where
    1: "iterate_ctree_forward n ?t (dev env') = Some (0, d1)" "on_tree test_good test_stored test_limit (test_used (asp env'))
      (test_stored (dev env')) ?t (test_entries n) (it, d1)" by blast
  from walks_pass(2) [OF g(4,3) it 1(2)] obtain d2 where
    2: "iterate_ctree_backward n ?t d1 = Some (0, d2)" "on_tree test_good test_stored test_limit (test_used (asp env'))
      (test_stored (dev env')) ?t (test_entries n) (it, d2)" by blast
  from lookup_passes [OF t(2) h g(3) it 2(2)] obtain d3 where 3: "lookup_ctree n ?t d2 = Some (0, d3)" by blast
  note b' = build_extends [OF volume_extends b]
  show ?thesis using b' 1(1) 2(1) 3 by (simp add: ctree_test_main_def create_ctree_def test_entries_def)
qed

theorem ctree_test_passes_witness: "\<exists>f'. ctree_test_main 10000000 \<lparr>content = [], script = []\<rparr> = Some (0, f')"
  by (rule ctree_test_passes) simp_all

text \<open>With at most 100 keys the same test fails: the builder has dropped them.\<close>

theorem ctree_test_few:
  assumes "script f = []" and "0 < n" and "n \<le> 100"
  shows "ctree_test_main n f = Some (-1, f)"
proof -
  let ?env = "\<lparr>dev = f, asp = 0, hm = []\<rparr> :: (vfile, nat) env"
  have "length [] \<le> (1::nat)" "length (concat []) + length (test_entries n) \<le> 100" using assms(3) by simp_all
  from append_few [OF test_storage.page_storage_axioms test_storage.levels_ok_setup [of "\<lambda>_ _. False" "{}"] _ this(1) this(2) test_entries_ok, of ?env]
  obtain b where a: "ctree_builder_append_all test_io volume_alloc (test_entries n) ctree_builder_setup ?env = Some (Inr (), b, ?env)"
    "length (cb_node b) \<le> 1" by (auto simp: levels_ok_def)
  then have "ctree_builder_finish_loop test_io volume_alloc 0 b ?env = Some (Inr 0, b, ?env)"
    by (subst ctree_builder_finish_loop.simps) simp
  then have "ctree_build test_io volume_alloc (test_entries n) ?env = Some (Inr (), b\<lparr>cb_ptr := ptr_null, cb_height := 0\<rparr>, ?env)"
    using a(1) by (simp add: ctree_build_def ctree_builder_finish_def)
  from build_extends [OF volume_extends this] show ?thesis using assms(2)
    by (simp add: ctree_test_main_def create_ctree_def test_entries_def iterate_ctree_forward_def ctree_iter_setup_def ctree_setup_def
        ctree_begin_def ctree_iter_prepare_def cstep_def iterate_forward_def walk_forward.simps ckey_def ctree_key_def key_is_def)
qed

end
