(* ===== verification/Spec2Isabelle.thy ===== *)
theory Spec2Isabelle
  imports Crc64 Io FileWrappers Superblock RbUnlink MtreeEnds CtreeProps CtreeIterProps LsmProps LsmMergeProps
    LogProps Fuse CtreeTest
begin

text \<open>
  AULSMFS, a file system on log structured merge trees: a verification development.

  The program. Keys and values (\<open>inc/lsm_fwd.h\<close>) are kept in trees: two in memory
  (\<open>lib/mtree.c\<close> over the red-black trees of \<open>util/rbtree.c\<close>) and several on a device
  (\<open>lib/ctree.c\<close>), combined by \<open>lib/lsm.c\<close>. A disk tree is never changed: it is written once, from
  the leaves up, by a builder. The device is \<open>struct io\<close> (\<open>inc/io.h\<close>), pages come from
  \<open>struct alloc\<close> (\<open>inc/alloc.h\<close>), every node carries a CRC-64 (\<open>util/crc64.c\<close>) in the pointer
  to it. A transaction log (\<open>lib/log.c\<close>) collects items in a buffer and writes it in chunks.
  \<open>mkfs/main.c\<close> writes the super block that the FUSE daemon (\<open>fuse/main.c\<close>) checks before it serves
  a single directory.

  Conventions. \<open>None\<close> as the result of an operation stands for undefined behaviour and for a
  failed assertion, so a theorem that gives \<open>Some\<close> also says that there is none. Operations that
  can fail return \<open>errno + 'a\<close>. \<open>mem\<close> is the list of the decisions of \<open>malloc\<close>, consumed one
  by one; the empty list lets every request succeed. Sizes are natural numbers with the
  wrap-around at 64 bits written out (\<open>wrap64\<close>) where the code can reach it; \<open>nd_level\<close> is the
  \<open>int\<close> of the code. Memory that the code leaves undefined is modelled as zeros where it says so.

  Theories.
  \<^item> \<open>Prelude\<close>: errors, \<open>malloc\<close>, little endian encodings, byte buffers.
  \<^item> \<open>Crc64\<close> (\<open>util/crc64.c\<close>, \<open>inc/crc64.h\<close>, \<open>gen_crc64_table.py\<close>): the sliced checksum
    equals the bitwise one, pieces can be fed one by one, bursts up to 8 bytes are detected.
  \<^item> \<open>Io\<close> (\<open>inc/io.h\<close>, \<open>inc/alloc.h\<close>): the function tables, the page arithmetic, and the
    contracts of a device (\<open>page_device\<close>) and of an allocator (\<open>page_allocator\<close>) as locales.
  \<^item> \<open>FileWrappers\<close> (\<open>lib/file_wrappers.c\<close>): loops over \<open>pread\<close> and \<open>pwrite\<close>, which may transfer
    less than asked or fail, as a script says.
  \<^item> \<open>TestSupport\<close> (\<open>test/ctree_test.c\<close>): the file device and the allocator of the tests,
    interpretations of the two contracts. The allocator of the tests knows no end of the device, so
    the instance is that allocator on a volume (\<open>volume_alloc\<close>).
  \<^item> \<open>Layout\<close> (\<open>inc/aulsmfs.h\<close>): the structures on disk with their encodings, which decode to what they encode.
  \<^item> \<open>Mkfs\<close> (\<open>mkfs/main.c\<close>): the program from \<open>argv\<close> on, with what it uses of \<open>getopt_long\<close> and
    \<open>strtoull\<close>; its system calls are the record \<open>mkfs_sys\<close>. Its assertions hold and it closes what it opens.
  \<^item> \<open>Superblock\<close> (\<open>aulsmfs_super_read\<close> of \<open>fuse/main.c\<close>): what \<open>mkfs\<close> writes is read back, damage is noticed.
  \<^item> \<open>RbTree\<close>, \<open>RbShape\<close>, \<open>RbInsert\<close>, \<open>RbWalk\<close>, \<open>RbErase\<close>, \<open>RbUnlink\<close> (\<open>util/rbtree.c\<close>): pointer trees in a
    heap of nodes, related to a functional tree with a zipper; insertion, rotation, successors,
    erasing (\<open>rb_erase_fix\<close> refines \<open>del_fix\<close> on the tree and its context).
  \<^item> \<open>KeyOrder\<close>: the contract of a comparison function (locale \<open>key_order\<close>) and sorted lists of
    entries with insertion, lookup and bounds, the abstract specification of every tree.
  \<^item> \<open>Cursor\<close>: the contract of an iterator (locale \<open>cursor\<close>); both kinds of tree interpret it.
  \<^item> \<open>Mtree\<close>, \<open>MtreeEnds\<close> (\<open>lib/mtree.c\<close>): its content as a sorted list; what holds for any comparison.
  \<^item> \<open>CtreeNode\<close>, \<open>CtreeLayout\<close>, \<open>CtreeNodeProps\<close>: nodes of disk trees, their bytes, parsing.
  \<^item> \<open>CtreeBuilder\<close>, \<open>CtreeTree\<close>, \<open>CtreeBuild\<close>, \<open>CtreeProps\<close>: the builder; what it means that
    a device holds a tree (\<open>on_disk\<close>, \<open>ctree_on\<close>); the invariant that relates the levels of a
    builder to the entries appended so far; the contract of a device with an allocator
    (locale \<open>page_storage\<close>, interpreted on the storage of the tests, with the volume).
  \<^item> \<open>CtreeVolume\<close>: a build that succeeds on the volume takes the same course with the allocator of the tests.
  \<^item> \<open>CtreeIter\<close>, \<open>CtreeWalk\<close>, \<open>CtreeSteps\<close>, \<open>CtreeCursor\<close>, \<open>CtreeIterProps\<close>: the descriptor and
    the iterator; the nodes and positions of an iterator as a path, a path as a position in the
    list of entries.
  \<^item> \<open>CtreeTest\<close> (\<open>test/ctree_test.c\<close>): the whole test, its loops against the contract of an iterator; it passes.
  \<^item> \<open>Overlay\<close>: the abstract specification of an LSM tree, sorted lists of which the earlier
    ones hide the keys of the later ones.
  \<^item> \<open>Lsm\<close>, \<open>LsmWalk\<close>, \<open>LsmCursor\<close>, \<open>LsmProps\<close> (\<open>lib/lsm.c\<close>, \<open>inc/lsm.h\<close>): the five trees and their
    common iterator, each tree's part of a step, and the whole as a cursor over the overlay.
  \<^item> \<open>LsmMerge\<close>, \<open>LsmMergeProps\<close>: the merge of two neighbouring trees, which reads through the
    iterator and writes through the builder on one device.
  \<^item> \<open>Log\<close>, \<open>LogProps\<close> (\<open>lib/log.c\<close>, \<open>inc/log.h\<close>): the transaction log, on any \<open>page_storage\<close>; an
    allocator may refuse to cancel, and what the assertions of the log make of that is part of the theorems.
  \<^item> \<open>Fuse\<close> (\<open>fuse/main.c\<close>): the handlers, requests in sequence as a step relation with the decisions of
    \<open>realloc\<close>, and what \<open>main\<close> acquires and releases (all but the mount).

  Bounds. The theorems on building, merging and logging assume that \<open>malloc\<close> does not fail. Those on building and
  merging that give the content back need more bytes of entries than one leaf can ever take (\<open>lvl_max\<close>): with at most
  100 entries the code loses them (\<open>ctree_builder_drops_small\<close>, \<open>lsm_merge_loses_small\<close>).
  A node has room for 100 entries of at most 4096 bytes with their header (\<open>entry_small\<close>),
  so every buffer stays below \<open>2\<^sup>4\<^sup>0\<close> bytes; keys are at most 4000 bytes so that a key and a pointer
  fit an inner node; heights are below \<open>2\<^sup>3\<^sup>1\<close>, the range of the \<open>int\<close> that an iterator keeps. A builder
  writes at most \<open>3 n + 1\<close> nodes for \<open>n\<close> entries (\<open>pending\<close> pays for them: a full node is 100 entries), of at
  most 101 pages on the storage of the tests.
  A log is shorter than 1 MiB and its items are between 1 and 65535 bytes, so that it has at most 16
  chunks; what happens beyond is \<open>trans_log_undefined\<close>.
  Loops that may not end in the code are \<open>partial_function\<close>s; the theorems prove that they do.

  Not modelled. The driver of \<open>test/lsm_test.c\<close> and the texts printed for help, versions and errors. libfuse is
  a parameter of \<open>Fuse\<close>: the encoding of a directory entry and the results of its set-up functions.
\<close>

section \<open>Making an image and mounting it\<close>

text \<open>C31: the two programs agree on the format. If \<open>mkfs\<close> exits with status 0, whatever its command line and
  however often \<open>pwrite\<close> was interrupted, then the daemon accepts the image it leaves, with a version
  and a page size that the code knows, and if libfuse reports no error it mounts and serves it.\<close>

theorem mkfs_then_mount:
  assumes "mkfs_main sys argv = Some (0, [f])" and "script f = []"
    and "fm_open c = Some f" and "fm_opt_parse c" "fm_cmdline c" "\<not> fm_help c" "\<not> fm_version c" "fm_path c"
    and "fm_session c" "fm_handlers c" "fm_mount c"
  shows "(\<exists>pages page_size. aulsmfs_super_read fuse_config_zero f = (Inr \<lparr>fc_minor = AULSMFS_MINOR,
      fc_major = AULSMFS_MAJOR, fc_page_size = page_size, fc_pages = pages\<rparr>, f) \<and> page_size_valid page_size) \<and>
    Mounted \<in> set (snd (aulsmfs_main c)) \<and>
    (fst (aulsmfs_main c) = 0 \<longleftrightarrow> (if fm_single c then fm_loop c else fm_loop_mt c) = 0)"
proof -
  from mkfs_main_done [OF assms(1)] obtain config fd where
    w: "aulsmfs_mkfs config fd = (Inr (), f)" and v: "page_size_valid (c_page_size config)" by blast
  from super_read_of_mkfs [OF w assms(2), of fuse_config_zero] have r: "aulsmfs_super_read fuse_config_zero f =
      (Inr \<lparr>fc_minor = AULSMFS_MINOR, fc_major = AULSMFS_MAJOR, fc_page_size = c_page_size config, fc_pages = c_pages config\<rparr>, f)"
    by (simp add: fuse_config_zero_def AULSMFS_MINOR_def AULSMFS_MAJOR_def)
  then have "fst (aulsmfs_super_read fuse_config_zero f) = Inr \<lparr>fc_minor = AULSMFS_MINOR, fc_major = AULSMFS_MAJOR,
      fc_page_size = c_page_size config, fc_pages = c_pages config\<rparr>" by simp
  from main_serves [OF this assms(3-)] r v show ?thesis by auto
qed

text \<open>One page of 2048 bytes on an empty file.\<close>

theorem mkfs_then_mount_witness:
  "\<exists>f. mkfs_main demo_sys [''mkfs'', ''-P2048'', ''--pages=1'', ''img''] = Some (0, [f]) \<and>
     Mounted \<in> set (snd (aulsmfs_main (demo_calls f)))"
proof -
  let ?c = "aulsmfs_config_default\<lparr>c_pages := 1, c_page_size := 2048, c_path := Some ''img''\<rparr>"
  let ?c' = "?c\<lparr>c_bytes := 2048\<rparr>"
  let ?fd = "\<lparr>content = replicate 2048 0, script = []\<rparr>"
  obtain f where w: "aulsmfs_mkfs ?c' ?fd = (Inr (), f)" "script f = []"
    using file_write_at_ok [of ?fd "super_enc (mkfs_super ?c')" 0] by (auto simp: aulsmfs_mkfs_def)
  have r: "mkfs_request [''mkfs'', ''-P2048'', ''--pages=1'', ''img''] = Some ?c"
    by (simp add: mkfs_request_def aulsmfs_short_opts_def aulsmfs_long_opts_def long_opt_def mkfs_option_def
        aulsmfs_config_default_def strtoull_def split_sign_def split_base_def digits_value_def digit_value_def is_space_def)
  have "aulsmfs_config_check demo_sys ?c = Some (Inr ?c', Some ?fd)"
    by (simp add: aulsmfs_config_check_def aulsmfs_config_default_def page_size_valid_def file_size_def demo_sys_def demo_truncate_def)
  then have m: "mkfs_main demo_sys [''mkfs'', ''-P2048'', ''--pages=1'', ''img''] = Some (0, [f])"
    using r w by (simp add: mkfs_main_def aulsmfs_config_release_def)
  have "Mounted \<in> set (snd (aulsmfs_main (demo_calls f)))"
    using mkfs_then_mount [OF m w(2), of "demo_calls f"] by (simp add: demo_calls_def)
  with m show ?thesis by blast
qed

end
